(* ===== verification/Prelude.thy ===== *)
theory Prelude
  imports Main "HOL-Library.Word"
begin

text \<open>
  What every component of the model shares: the machine types of the Go code (bytes, unix
  nanoseconds), the fixed-width encodings of \<open>encoding/binary\<close>, decimal numbers, the
  reachable states of a step relation with the locale that lifts an invariant to them, and
  the locale of self-delimiting codecs.
\<close>

unbundle bit_operations_syntax

named_theorems queue_simps \<open>equations of the waiting-list operations\<close>
named_theorems codec_simps \<open>equations that carry the encode/decode proofs\<close>
named_theorems step_defs \<open>definitions of the handlers a step relation is made of\<close>

section \<open>Machine types\<close>

type_synonym byte = "8 word"
type_synonym bytes = "byte list"
type_synonym nanos = int \<comment> \<open>a \<open>time.Time\<close> or \<open>time.Duration\<close>, in nanoseconds\<close>

abbreviation (input) seconds :: "int \<Rightarrow> nanos" where
  "seconds n \<equiv> n * 1000000000"

abbreviation (input) minutes :: "int \<Rightarrow> nanos" where
  "minutes n \<equiv> n * 60000000000"

section \<open>Reachable states\<close>

inductive reachable :: "('s \<Rightarrow> bool) \<Rightarrow> ('s \<Rightarrow> 's \<Rightarrow> bool) \<Rightarrow> 's \<Rightarrow> bool"
  for init :: "'s \<Rightarrow> bool" and step :: "'s \<Rightarrow> 's \<Rightarrow> bool" where
  reach_init: "init s \<Longrightarrow> reachable init step s"
| reach_step: "reachable init step s \<Longrightarrow> step s t \<Longrightarrow> reachable init step t"

text \<open>
  The contract between a step relation and its invariant. A component discharges the two
  laws once, by \<open>interpretation\<close>; the facts below then hold of every state it can reach.
\<close>

locale step_invariant =
  fixes init :: "'s \<Rightarrow> bool"
    and step :: "'s \<Rightarrow> 's \<Rightarrow> bool"
    and inv :: "'s \<Rightarrow> bool"
  assumes init_inv: "init s \<Longrightarrow> inv s"
    and step_inv: "inv s \<Longrightarrow> step s t \<Longrightarrow> inv t"
begin

lemma reachable_inv: "reachable init step s \<Longrightarrow> inv s"
  by (induction rule: reachable.induct) (auto intro: init_inv step_inv)

lemma steps_inv: "step\<^sup>*\<^sup>* s t \<Longrightarrow> inv s \<Longrightarrow> inv t"
  by (induction rule: rtranclp_induct) (auto intro: step_inv)

text \<open>A fact about one step from an invariant state is a fact about every step of a run.\<close>

lemma reachable_step:
  assumes "\<And>s t. inv s \<Longrightarrow> step s t \<Longrightarrow> P s t" "reachable init step s" "step s t"
  shows "P s t"
  using assms reachable_inv by blast

end

section \<open>Self-delimiting codecs\<close>

text \<open>
  An encoder and a decoder that consumes exactly what the encoder wrote. A sequence of
  encoded values then decodes to the sequence.
\<close>

locale codec =
  fixes enc :: "'a \<Rightarrow> bytes"
    and dec :: "bytes \<Rightarrow> ('a \<times> bytes) option"
    and ok :: "'a \<Rightarrow> bool"
  assumes dec_enc: "ok x \<Longrightarrow> dec (enc x @ rest) = Some (x, rest)"
begin

primrec dec_n :: "nat \<Rightarrow> bytes \<Rightarrow> ('a list \<times> bytes) option" where
  "dec_n 0 b = Some ([], b)"
| "dec_n (Suc n) b =
     (case dec b of None \<Rightarrow> None
      | Some (x, r) \<Rightarrow> (case dec_n n r of None \<Rightarrow> None | Some (xs, r') \<Rightarrow> Some (x # xs, r')))"

lemma dec_n_concat:
  "list_all ok xs \<Longrightarrow> dec_n (length xs) (concat (map enc xs) @ rest) = Some (xs, rest)"
  by (induction xs) (auto simp: dec_enc)

lemma enc_inj: "ok x \<Longrightarrow> ok y \<Longrightarrow> enc x = enc y \<Longrightarrow> x = y"
  by (metis dec_enc fst_conv option.inject)

text \<open>No encoding is a proper prefix of another one.\<close>

lemma enc_prefix_free: "ok x \<Longrightarrow> ok y \<Longrightarrow> enc x @ r = enc y @ r' \<Longrightarrow> x = y \<and> r = r'"
  by (metis dec_enc option.inject prod.inject)

end

section \<open>Fixed-width integers as bytes\<close>

lemma unat_less_exp: "unat (x :: 'a::len word) < 2 ^ LENGTH('a)"
  by (rule unsigned_less)

text \<open>\<open>binary.BigEndian.PutUint16\<close> / \<open>Uint16\<close>: two bytes, most significant first.\<close>

definition be16 :: "16 word \<Rightarrow> bytes" where
  "be16 w = [ucast (drop_bit 8 w), ucast w]"

definition get_be16 :: "byte \<Rightarrow> byte \<Rightarrow> 16 word" where
  "get_be16 a b = push_bit 8 (ucast a) OR ucast b"

lemma length_be16 [simp]: "length (be16 w) = 2"
  by (simp add: be16_def)

lemma get_be16_be16 [codec_simps]:
  "get_be16 (ucast (drop_bit 8 w)) (ucast (w :: 16 word)) = w"
  by (rule bit_word_eqI) (auto simp: get_be16_def bit_simps)

lemma unat_get_be16: "unat (get_be16 a b) = 256 * unat a + unat b"
proof -
  have "push_bit 8 (ucast a :: 16 word) OR ucast b = push_bit 8 (ucast a) + ucast b"
    by (rule disjunctive_add [symmetric]) (auto simp: bit_simps dest: bit_imp_le_length)
  moreover have lt: "unat a < 256" "unat b < 256"
    using unsigned_less[of a] unsigned_less[of b] by simp_all
  moreover have "unat (push_bit 8 (ucast a) :: 16 word) = 256 * unat a"
    using lt by (simp add: push_bit_eq_mult unat_word_ariths unsigned_ucast_eq take_bit_eq_mod)
  moreover have "unat (ucast b :: 16 word) = unat b"
    using lt by (simp add: unsigned_ucast_eq take_bit_nat_eq_self_iff)
  ultimately show ?thesis
    by (simp add: get_be16_def unat_word_ariths)
qed

text \<open>\<open>AppendUint16\<close> / \<open>AppendUint64\<close> little-endian, and the big-endian 64-bit form.\<close>

definition le_bytes :: "nat \<Rightarrow> 'a::len word \<Rightarrow> bytes" where
  "le_bytes n w = map (\<lambda>i. ucast (drop_bit (8 * i) w)) [0..<n]"

definition get_le :: "bytes \<Rightarrow> 'a::len word" where
  "get_le b = foldr (\<lambda>x acc. ucast x OR push_bit 8 acc) b 0"

definition be_bytes :: "nat \<Rightarrow> 'a::len word \<Rightarrow> bytes" where
  "be_bytes n w = rev (le_bytes n w)"

definition get_be :: "bytes \<Rightarrow> 'a::len word" where
  "get_be b = get_le (rev b)"

lemma length_le_bytes [simp]: "length (le_bytes n w) = n"
  by (simp add: le_bytes_def)

lemma length_be_bytes [simp]: "length (be_bytes n w) = n"
  by (simp add: be_bytes_def)

lemma le_bytes_Suc: "le_bytes (Suc n) w = ucast w # le_bytes n (drop_bit 8 w)"
proof -
  have "[0..<Suc n] = 0 # map Suc [0..<n]" by (simp add: map_Suc_upt upt_conv_Cons)
  then show ?thesis by (simp add: le_bytes_def o_def drop_bit_drop_bit add.commute)
qed

lemma get_le_le_bytes:
  "get_le (le_bytes n w) = take_bit (8 * n) (w :: 'a::len word)"
proof (induction n arbitrary: w)
  case 0
  then show ?case by (simp add: le_bytes_def get_le_def)
next
  case (Suc n)
  have "get_le (le_bytes (Suc n) w) = ucast (ucast w :: byte) OR push_bit 8 (take_bit (8 * n) (drop_bit 8 w))"
    using Suc.IH[of "drop_bit 8 w"] by (simp add: le_bytes_Suc get_le_def)
  also have "\<dots> = take_bit (8 * Suc n) w"
    by (rule bit_word_eqI) (auto simp: bit_simps)
  finally show ?case .
qed

lemma get_le_le_bytes_full [codec_simps]:
  "LENGTH('a) \<le> 8 * n \<Longrightarrow> get_le (le_bytes n w) = (w :: 'a::len word)"
  by (simp add: get_le_le_bytes) (metis take_bit_word_eq_self)

lemma get_be_be_bytes_full [codec_simps]:
  "LENGTH('a) \<le> 8 * n \<Longrightarrow> get_be (be_bytes n w) = (w :: 'a::len word)"
  by (simp add: get_be_def be_bytes_def get_le_le_bytes_full)

section \<open>Decimal numbers\<close>

text \<open>\<open>fmt.Sprintf("%d", n)\<close> for a number that is not negative, and what reads it back.\<close>

fun decimal :: "nat \<Rightarrow> string" where
  "decimal n = (if n < 10 then [char_of (48 + n)] else decimal (n div 10) @ [char_of (48 + n mod 10)])"

declare decimal.simps [simp del]

definition read_decimal :: "string \<Rightarrow> nat" where
  "read_decimal s = foldl (\<lambda>a c. 10 * a + (of_char c - 48)) 0 s"

definition is_digit :: "char \<Rightarrow> bool" where
  "is_digit c \<longleftrightarrow> 48 \<le> (of_char c :: nat) \<and> (of_char c :: nat) \<le> 57"

lemma of_char_digit: "d < 10 \<Longrightarrow> of_char (char_of (48 + d)) = (48 + d :: nat)"
  by (simp add: of_char_of)

lemma read_decimal_decimal [simp]: "read_decimal (decimal n) = n"
proof (induction n rule: decimal.induct)
  case (1 n)
  then show ?case
    by (subst decimal.simps) (auto simp: read_decimal_def of_char_digit)
qed

lemma decimal_inject [simp]: "decimal m = decimal n \<longleftrightarrow> m = n"
  by (metis read_decimal_decimal)

lemma decimal_digits: "c \<in> set (decimal n) \<Longrightarrow> is_digit c"
proof (induction n rule: decimal.induct)
  case (1 n)
  have "n mod 10 < 10" by simp
  then show ?case using 1
    by (subst (asm) decimal.simps) (auto simp: is_digit_def of_char_digit split: if_splits)
qed

lemma decimal_not_Nil [simp]: "decimal n \<noteq> []"
  by (subst decimal.simps) simp

text \<open>A number ends where the first character that is no digit begins.\<close>

lemma digits_prefix_unique:
  "\<forall>c \<in> set a. P c \<Longrightarrow> \<forall>c \<in> set b. P c \<Longrightarrow> \<not> P x \<Longrightarrow> \<not> P y \<Longrightarrow> a @ x # r = b @ y # r' \<longleftrightarrow> a = b \<and> x = y \<and> r = r'"
proof (induction a arbitrary: b)
  case Nil
  then show ?case by (cases b) auto
next
  case (Cons c a)
  then show ?case by (cases b) auto
qed

lemma decimal_sep: "\<not> is_digit x \<Longrightarrow> decimal m @ x # r = decimal n @ x # r' \<longleftrightarrow> m = n \<and> r = r'"
  using digits_prefix_unique[of "decimal m" is_digit "decimal n" x x r r'] decimal_digits by auto

section \<open>Waiting lists\<close>

text \<open>Two facts every removal from a FIFO list of distinct identities uses.\<close>

lemma remove1_notin [queue_simps]: "x \<notin> set xs \<Longrightarrow> remove1 x xs = xs"
  by (simp add: remove1_idem)

lemma distinct_remove1_set [queue_simps]: "distinct xs \<Longrightarrow> set (remove1 x xs) = set xs - {x}"
  by simp


lemma distinct_prefix_before:
  "distinct (u @ x # v) \<Longrightarrow> u @ x # v = p @ r \<Longrightarrow> y \<in> set v \<Longrightarrow> y \<in> set p \<Longrightarrow> x \<in> set p"
proof (induction p arbitrary: u)
  case (Cons z p)
  show ?case
  proof (cases u)
    case Nil
    with Cons.prems show ?thesis by simp
  next
    case (Cons w u')
    then have "distinct (u' @ x # v)" using Cons.prems(1) by simp
    moreover have "u' @ x # v = p @ r" "y \<in> set p" using Cons Cons.prems by auto
    ultimately have "x \<in> set p" using Cons.prems(3) by (intro Cons.IH)
    then show ?thesis by simp
  qed
qed simp

end
