(* ===== verification/NetQueue.thy ===== *)
theory NetQueue
  imports Prelude
begin

text \<open>
  \<open>netq.go\<close>: the one queue every job that opens network flows takes a slot of. The record is
  the Go struct; a waiter is the identity of its channel, a closed channel is an identity in
  \<open>nq_granted\<close>, and the \<open>fgIdle\<close> channel is a generation number with a closed flag
  (\<open>markFgBusyLocked\<close> replaces it only when it is closed). Every critical section of
  \<open>q.mu\<close> is one function; \<open>nq_step\<close> interleaves them.
\<close>

section \<open>State and helpers\<close>

record net_queue =
  nq_slots :: int
  nq_active :: int
  nq_fg_active :: int
  nq_fg :: "nat list"
  nq_bg :: "nat list"
  nq_holds :: int
  nq_idle_gen :: nat
  nq_idle_closed :: bool
  nq_granted :: "nat set"

definition newNetQueue :: "int \<Rightarrow> net_queue" where
  "newNetQueue slots = \<lparr>nq_slots = slots, nq_active = 0, nq_fg_active = 0, nq_fg = [], nq_bg = [],
     nq_holds = 0, nq_idle_gen = 0, nq_idle_closed = True, nq_granted = {}\<rparr>"

definition fgBusyLocked :: "net_queue \<Rightarrow> bool" where
  "fgBusyLocked q \<longleftrightarrow> nq_fg_active q > 0 \<or> length (nq_fg q) > 0 \<or> nq_holds q > 0"

definition bgMax :: "net_queue \<Rightarrow> int" where
  "bgMax q = (if nq_slots q \<le> 1 \<or> fgBusyLocked q then 1 else nq_slots q - 1)"

text \<open>\<open>grantLocked\<close>: the loop ends because every turn takes a waiter off one list.\<close>

function grantLocked :: "net_queue \<Rightarrow> net_queue" where
  "grantLocked q =
     (if nq_active q < nq_slots q then
        (case nq_fg q of
           ch # rest \<Rightarrow>
             grantLocked (q\<lparr>nq_fg := rest, nq_fg_active := nq_fg_active q + 1,
               nq_active := nq_active q + 1, nq_granted := insert ch (nq_granted q)\<rparr>)
         | [] \<Rightarrow>
             (case nq_bg q of
                ch # rest \<Rightarrow>
                  (if nq_active q - nq_fg_active q < bgMax q
                   then grantLocked (q\<lparr>nq_bg := rest, nq_active := nq_active q + 1,
                          nq_granted := insert ch (nq_granted q)\<rparr>)
                   else q)
              | [] \<Rightarrow> q))
      else q)"
  by pat_completeness auto
termination
  by (relation "measure (\<lambda>q. length (nq_fg q) + length (nq_bg q))") auto

declare grantLocked.simps [simp del]

definition markFgBusyLocked :: "net_queue \<Rightarrow> net_queue" where
  "markFgBusyLocked q =
     (if nq_idle_closed q
      then q\<lparr>nq_idle_gen := nq_idle_gen q + 1, nq_idle_closed := False\<rparr> else q)"

definition markFgIdleIfLocked :: "net_queue \<Rightarrow> net_queue" where
  "markFgIdleIfLocked q = (if fgBusyLocked q then q else q\<lparr>nq_idle_closed := True\<rparr>)"

section \<open>Operations\<close>

text \<open>
  \<open>acquire\<close> up to its \<open>select\<close>: a slot at once, or a place in a list. \<open>ch\<close> is the
  channel it makes.
\<close>

datatype acquire_result = Slot | Queued

definition acquire :: "nat \<Rightarrow> bool \<Rightarrow> net_queue \<Rightarrow> acquire_result \<times> net_queue" where
  "acquire ch fg q0 =
     (let q = (if fg then markFgBusyLocked q0 else q0) in
      if nq_active q < nq_slots q \<and>
         (fg \<or> (length (nq_fg q) = 0 \<and> nq_active q - nq_fg_active q < bgMax q))
      then (Slot, q\<lparr>nq_active := nq_active q + 1,
                    nq_fg_active := (if fg then nq_fg_active q + 1 else nq_fg_active q)\<rparr>)
      else (Queued, if fg then q\<lparr>nq_fg := nq_fg q @ [ch]\<rparr> else q\<lparr>nq_bg := nq_bg q @ [ch]\<rparr>))"

definition releaser :: "bool \<Rightarrow> net_queue \<Rightarrow> net_queue" where
  "releaser fg q =
     markFgIdleIfLocked (grantLocked
       (q\<lparr>nq_active := nq_active q - 1,
          nq_fg_active := (if fg then nq_fg_active q - 1 else nq_fg_active q)\<rparr>))"

text \<open>\<open>removeWaiter\<close>: whether the channel was in the list, and the list without it.\<close>

fun removeWaiter :: "nat list \<Rightarrow> nat \<Rightarrow> bool \<times> nat list" where
  "removeWaiter [] ch = (False, [])"
| "removeWaiter (w # ws) ch =
     (if w = ch then (True, ws) else (let (b, r) = removeWaiter ws ch in (b, w # r)))"

text \<open>
  The \<open>ctx.Done\<close> branch of \<open>acquire\<close>'s \<open>select\<close>: leave the list, or, already
  granted, hand the slot on.
\<close>

definition acquire_cancelled :: "nat \<Rightarrow> bool \<Rightarrow> net_queue \<Rightarrow> net_queue" where
  "acquire_cancelled ch fg q =
     (let (in_fg, fg') = removeWaiter (nq_fg q) ch in
      if in_fg then markFgIdleIfLocked (q\<lparr>nq_fg := fg'\<rparr>)
      else (let (in_bg, bg') = removeWaiter (nq_bg q) ch in
            if in_bg then markFgIdleIfLocked (q\<lparr>nq_bg := bg'\<rparr>)
            else releaser fg q))"

definition hold :: "net_queue \<Rightarrow> net_queue" where
  "hold q = markFgBusyLocked (q\<lparr>nq_holds := nq_holds q + 1\<rparr>)"

definition hold_release :: "net_queue \<Rightarrow> net_queue" where
  "hold_release q = markFgIdleIfLocked (grantLocked (q\<lparr>nq_holds := nq_holds q - 1\<rparr>))"

definition setSlots :: "int \<Rightarrow> net_queue \<Rightarrow> net_queue" where
  "setSlots n q = grantLocked (q\<lparr>nq_slots := (if n < 1 then 1 else n)\<rparr>)"

definition queue_size :: "net_queue \<Rightarrow> int" where
  "queue_size q = nq_slots q"

definition queue_load :: "net_queue \<Rightarrow> int \<times> nat" where
  "queue_load q = (nq_active q, length (nq_fg q) + length (nq_bg q))"

text \<open>
  \<open>waitFgIdle\<close> reads the current channel, then waits for it to be closed: \<open>g\<close> is the
  generation it read. Older generations were closed before they were replaced.
\<close>

definition waitFgIdle_passes :: "nat \<Rightarrow> net_queue \<Rightarrow> bool" where
  "waitFgIdle_passes g q \<longleftrightarrow> g < nq_idle_gen q \<or> nq_idle_closed q"

lemmas [step_defs] =
  acquire_def releaser_def acquire_cancelled_def hold_def hold_release_def setSlots_def


text \<open>The idle marks touch the \<open>fgIdle\<close> channel only.\<close>

lemma mark_frame [simp]:
  "nq_slots (markFgIdleIfLocked q) = nq_slots q" "nq_slots (markFgBusyLocked q) = nq_slots q"
  "nq_active (markFgIdleIfLocked q) = nq_active q" "nq_active (markFgBusyLocked q) = nq_active q"
  "nq_fg_active (markFgIdleIfLocked q) = nq_fg_active q" "nq_fg_active (markFgBusyLocked q) = nq_fg_active q"
  "nq_fg (markFgIdleIfLocked q) = nq_fg q" "nq_fg (markFgBusyLocked q) = nq_fg q"
  "nq_bg (markFgIdleIfLocked q) = nq_bg q" "nq_bg (markFgBusyLocked q) = nq_bg q"
  "nq_holds (markFgIdleIfLocked q) = nq_holds q" "nq_holds (markFgBusyLocked q) = nq_holds q"
  "nq_granted (markFgIdleIfLocked q) = nq_granted q" "nq_granted (markFgBusyLocked q) = nq_granted q"
  "bgMax (markFgIdleIfLocked q) = bgMax q" "bgMax (markFgBusyLocked q) = bgMax q"
  "fgBusyLocked (markFgIdleIfLocked q) = fgBusyLocked q" "fgBusyLocked (markFgBusyLocked q) = fgBusyLocked q"
  by (auto simp: markFgIdleIfLocked_def markFgBusyLocked_def bgMax_def fgBusyLocked_def)

lemma acquire_frame:
  "acquire ch fg q = (r, q') \<Longrightarrow> nq_granted q' = nq_granted q"
  "acquire ch fg q = (Queued, q') \<Longrightarrow> nq_active q' = nq_active q \<and> nq_fg_active q' = nq_fg_active q"
  by (auto simp: acquire_def Let_def split: if_splits)

section \<open>What one grant loop does\<close>

text \<open>No slot is free that a waiter could take: what the comment in \<open>acquire\<close> promises.\<close>

definition settled :: "net_queue \<Rightarrow> bool" where
  "settled q \<longleftrightarrow> (nq_active q < nq_slots q \<longrightarrow>
     nq_fg q = [] \<and> (nq_bg q = [] \<or> bgMax q \<le> nq_active q - nq_fg_active q))"

abbreviation give_fg :: "net_queue \<Rightarrow> nat \<Rightarrow> nat list \<Rightarrow> net_queue" where
  "give_fg q ch rest \<equiv> q\<lparr>nq_fg := rest, nq_fg_active := nq_fg_active q + 1,
     nq_active := nq_active q + 1, nq_granted := insert ch (nq_granted q)\<rparr>"

abbreviation give_bg :: "net_queue \<Rightarrow> nat \<Rightarrow> nat list \<Rightarrow> net_queue" where
  "give_bg q ch rest \<equiv> q\<lparr>nq_bg := rest, nq_active := nq_active q + 1,
     nq_granted := insert ch (nq_granted q)\<rparr>"

lemma grantLocked_turn:
  obtains (stop) "grantLocked q = q" "settled q"
  | (fg) ch rest where "nq_active q < nq_slots q" "nq_fg q = ch # rest"
      "grantLocked q = grantLocked (give_fg q ch rest)"
  | (bg) ch rest where "nq_active q < nq_slots q" "nq_fg q = []" "nq_bg q = ch # rest"
      "nq_active q - nq_fg_active q < bgMax q" "grantLocked q = grantLocked (give_bg q ch rest)"
proof (cases "nq_active q < nq_slots q")
  case False
  then show ?thesis by (intro stop) (simp_all add: grantLocked.simps settled_def)
next
  case act: True
  show ?thesis
  proof (cases "nq_fg q")
    case (Cons ch rest)
    with act show ?thesis by (intro fg) (auto simp: grantLocked.simps[of q])
  next
    case nofg: Nil
    show ?thesis
    proof (cases "nq_bg q")
      case Nil
      with nofg act show ?thesis by (intro stop) (simp_all add: grantLocked.simps settled_def)
    next
      case (Cons ch rest)
      with nofg act stop bg show ?thesis
        by (cases "nq_active q - nq_fg_active q < bgMax q")
           (auto simp: grantLocked.simps[of q] settled_def)
    qed
  qed
qed

lemma grantLocked_induct [case_names stop fg bg]:
  assumes "\<And>q. grantLocked q = q \<Longrightarrow> settled q \<Longrightarrow> P q"
    and "\<And>q ch rest. nq_active q < nq_slots q \<Longrightarrow> nq_fg q = ch # rest \<Longrightarrow>
      grantLocked q = grantLocked (give_fg q ch rest) \<Longrightarrow> P (give_fg q ch rest) \<Longrightarrow> P q"
    and "\<And>q ch rest. nq_active q < nq_slots q \<Longrightarrow> nq_fg q = [] \<Longrightarrow> nq_bg q = ch # rest \<Longrightarrow>
      nq_active q - nq_fg_active q < bgMax q \<Longrightarrow>
      grantLocked q = grantLocked (give_bg q ch rest) \<Longrightarrow> P (give_bg q ch rest) \<Longrightarrow> P q"
  shows "P q"
proof (induction q rule: grantLocked.induct)
  case (1 q)
  show ?case by (cases q rule: grantLocked_turn) (use assms "1.IH" in blast)+
qed

text \<open>The loop hands slots to a prefix of each list and touches nothing else.\<close>

definition granted_from :: "net_queue \<Rightarrow> nat list \<Rightarrow> nat list \<Rightarrow> net_queue \<Rightarrow> bool" where
  "granted_from q a b q' \<longleftrightarrow> nq_fg q = a @ nq_fg q' \<and> nq_bg q = b @ nq_bg q' \<and>
     nq_slots q' = nq_slots q \<and> nq_holds q' = nq_holds q \<and>
     nq_idle_gen q' = nq_idle_gen q \<and> nq_idle_closed q' = nq_idle_closed q \<and>
     nq_active q' = nq_active q + int (length a) + int (length b) \<and>
     nq_fg_active q' = nq_fg_active q + int (length a) \<and>
     nq_granted q' = nq_granted q \<union> set a \<union> set b"

lemma grantLocked_split: "\<exists>a b. granted_from q a b (grantLocked q)"
proof (induction q rule: grantLocked_induct)
  case (stop q)
  then show ?case by (intro exI[of _ "[]"]) (simp add: granted_from_def)
next
  case (fg q ch rest)
  from fg.IH obtain a b where "granted_from (give_fg q ch rest) a b (grantLocked q)"
    using fg.hyps by auto
  then have "granted_from q (ch # a) b (grantLocked q)"
    using fg.hyps by (auto simp: granted_from_def)
  then show ?case by blast
next
  case (bg q ch rest)
  from bg.IH obtain a b where "granted_from (give_bg q ch rest) a b (grantLocked q)"
    using bg.hyps by auto
  then have "granted_from q a (ch # b) (grantLocked q)"
    using bg.hyps by (auto simp: granted_from_def)
  then show ?case by blast
qed

lemma grantLocked_settled: "settled (grantLocked q)"
  by (induction q rule: grantLocked_induct) auto

lemma grantLocked_busy:
  assumes "0 \<le> nq_fg_active q"
  shows "fgBusyLocked (grantLocked q) = fgBusyLocked q"
proof -
  obtain a b where "granted_from q a b (grantLocked q)" using grantLocked_split by blast
  with assms show ?thesis by (cases a) (auto simp: granted_from_def fgBusyLocked_def)
qed

lemma grantLocked_bgMax: "0 \<le> nq_fg_active q \<Longrightarrow> bgMax (grantLocked q) = bgMax q"
  using grantLocked_split[of q] grantLocked_busy[of q] by (auto simp: bgMax_def granted_from_def)

lemma grantLocked_slots: "nq_slots (grantLocked q) = nq_slots q"
  using grantLocked_split[of q] by (auto simp: granted_from_def)

text \<open>A loop that hands out a slot never passes the size of the queue.\<close>

lemma grantLocked_cap: "nq_active (grantLocked q) \<le> max (nq_active q) (nq_slots q)"
  by (induction q rule: grantLocked_induct) auto

text \<open>Background work the loop admits stays within \<open>bgMax\<close>.\<close>

lemma grantLocked_bg_cap:
  "0 \<le> nq_fg_active q \<Longrightarrow> nq_active (grantLocked q) - nq_fg_active (grantLocked q)
     \<le> max (nq_active q - nq_fg_active q) (bgMax q)"
proof (induction q rule: grantLocked_induct)
  case (fg q ch rest)
  moreover have "bgMax (give_fg q ch rest) = bgMax q"
    using fg.hyps fg.prems by (simp add: bgMax_def fgBusyLocked_def)
  ultimately show ?case by simp
next
  case (bg q ch rest)
  moreover have "bgMax (give_bg q ch rest) = bgMax q"
    by (simp add: bgMax_def fgBusyLocked_def)
  ultimately show ?case by simp
qed auto

lemmas grantLocked_facts =
  grantLocked_settled grantLocked_busy grantLocked_bgMax grantLocked_slots

section \<open>The invariant of the queue\<close>

definition nq_inv :: "net_queue \<Rightarrow> bool" where
  "nq_inv q \<longleftrightarrow> 1 \<le> nq_slots q \<and> 0 \<le> nq_fg_active q \<and> nq_fg_active q \<le> nq_active q \<and>
     0 \<le> nq_holds q \<and> settled q \<and> (nq_idle_closed q \<longleftrightarrow> \<not> fgBusyLocked q)"

lemma nq_inv_new: "1 \<le> n \<Longrightarrow> nq_inv (newNetQueue n)"
  by (simp add: nq_inv_def newNetQueue_def settled_def fgBusyLocked_def)

lemma idle_mark_frame [simp]:
  "settled (q\<lparr>nq_idle_closed := c\<rparr>) = settled q" "bgMax (q\<lparr>nq_idle_closed := c\<rparr>) = bgMax q"
  "fgBusyLocked (q\<lparr>nq_idle_closed := c\<rparr>) = fgBusyLocked q"
  by (simp_all add: settled_def bgMax_def fgBusyLocked_def)

text \<open>
  Every operation ends in the grant loop and the idle mark, from a state whose counters are
  right; this is the one place the invariant is rebuilt.
\<close>

lemma nq_inv_regrant:
  assumes "1 \<le> nq_slots q" "0 \<le> nq_fg_active q" "nq_fg_active q \<le> nq_active q" "0 \<le> nq_holds q"
    and "fgBusyLocked q \<Longrightarrow> \<not> nq_idle_closed q"
  shows "nq_inv (markFgIdleIfLocked (grantLocked q))"
proof -
  obtain a b where ab: "granted_from q a b (grantLocked q)" using grantLocked_split by blast
  have "settled (markFgIdleIfLocked (grantLocked q))"
    using grantLocked_settled[of q] by (simp add: markFgIdleIfLocked_def)
  with ab assms grantLocked_busy[of q] show ?thesis
    by (auto simp: nq_inv_def granted_from_def markFgIdleIfLocked_def)
qed

lemma nq_inv_release:
  assumes "nq_inv q" "if fg then 1 \<le> nq_fg_active q else nq_fg_active q < nq_active q"
  shows "nq_inv (releaser fg q)"
  unfolding releaser_def using assms
  by (intro nq_inv_regrant) (auto simp: nq_inv_def fgBusyLocked_def split: if_splits)

lemma nq_inv_hold_release:
  assumes "nq_inv q" "1 \<le> nq_holds q"
  shows "nq_inv (hold_release q)"
  unfolding hold_release_def using assms
  by (intro nq_inv_regrant) (auto simp: nq_inv_def fgBusyLocked_def split: if_splits)

lemma nq_inv_hold: "nq_inv q \<Longrightarrow> nq_inv (hold q)"
  by (auto simp: hold_def markFgBusyLocked_def nq_inv_def fgBusyLocked_def settled_def bgMax_def
      split: if_splits)

lemma nq_inv_setSlots:
  assumes "nq_inv q"
  shows "nq_inv (setSlots n q)"
proof -
  define q1 where "q1 = q\<lparr>nq_slots := (if n < 1 then 1 else n)\<rparr>"
  have "nq_inv (markFgIdleIfLocked (grantLocked q1))"
    using assms by (intro nq_inv_regrant) (auto simp: q1_def nq_inv_def fgBusyLocked_def)
  moreover have "markFgIdleIfLocked (grantLocked q1) = grantLocked q1"
  proof -
    obtain a b where "granted_from q1 a b (grantLocked q1)" using grantLocked_split by blast
    moreover have "fgBusyLocked (grantLocked q1) = fgBusyLocked q1"
      using assms by (intro grantLocked_busy) (auto simp: q1_def nq_inv_def)
    moreover have "nq_idle_closed q1 \<longleftrightarrow> \<not> fgBusyLocked q1"
      using assms by (simp add: q1_def nq_inv_def fgBusyLocked_def)
    ultimately show ?thesis by (simp add: markFgIdleIfLocked_def granted_from_def)
  qed
  ultimately show ?thesis by (simp add: setSlots_def q1_def)
qed


lemma removeWaiter_eq [queue_simps]: "removeWaiter ws ch = (ch \<in> set ws, remove1 ch ws)"
  by (induction ws) auto

lemma nq_inv_acquire:
  assumes "nq_inv q" "acquire ch fg q = (r, q')"
  shows "nq_inv q'"
proof (cases fg)
  case True
  have q': "q' = (markFgBusyLocked q)\<lparr>nq_active := nq_active q + 1, nq_fg_active := nq_fg_active q + 1\<rparr> \<and>
      nq_active q < nq_slots q \<or>
    q' = (markFgBusyLocked q)\<lparr>nq_fg := nq_fg q @ [ch]\<rparr> \<and> \<not> nq_active q < nq_slots q"
    using True assms(2) by (auto simp: acquire_def markFgBusyLocked_def Let_def split: if_splits)
  have "\<not> nq_idle_closed (markFgBusyLocked q)" "nq_slots (markFgBusyLocked q) = nq_slots q"
    "nq_holds (markFgBusyLocked q) = nq_holds q" "nq_fg (markFgBusyLocked q) = nq_fg q"
    "nq_bg (markFgBusyLocked q) = nq_bg q" "nq_active (markFgBusyLocked q) = nq_active q"
    "nq_fg_active (markFgBusyLocked q) = nq_fg_active q"
    by (simp_all add: markFgBusyLocked_def)
  with q' assms(1) show ?thesis
    by (elim disjE conjE) (auto simp: nq_inv_def settled_def bgMax_def fgBusyLocked_def split: if_splits)
next
  case False
  have q': "q' = q\<lparr>nq_active := nq_active q + 1\<rparr> \<or>
    q' = q\<lparr>nq_bg := nq_bg q @ [ch]\<rparr> \<and>
      (nq_active q < nq_slots q \<longrightarrow> nq_fg q \<noteq> [] \<or> bgMax q \<le> nq_active q - nq_fg_active q)"
    using False assms(2) by (auto simp: acquire_def Let_def split: if_splits)
  then show ?thesis
  proof (elim disjE conjE)
    assume "q' = q\<lparr>nq_active := nq_active q + 1\<rparr>"
    with assms(1) show ?thesis by (auto simp: nq_inv_def settled_def bgMax_def fgBusyLocked_def)
  next
    assume "q' = q\<lparr>nq_bg := nq_bg q @ [ch]\<rparr>"
      "nq_active q < nq_slots q \<longrightarrow> nq_fg q \<noteq> [] \<or> bgMax q \<le> nq_active q - nq_fg_active q"
    with assms(1) show ?thesis by (auto simp: nq_inv_def settled_def bgMax_def fgBusyLocked_def)
  qed
qed

text \<open>A waiter leaves its list only when no slot is free for anyone, or the list is the background one.\<close>

lemma nq_inv_leave_fg:
  assumes "nq_inv q" "ch \<in> set (nq_fg q)"
  shows "nq_inv (markFgIdleIfLocked (q\<lparr>nq_fg := remove1 ch (nq_fg q)\<rparr>))"
proof -
  from assms have "\<not> nq_active q < nq_slots q" by (auto simp: nq_inv_def settled_def)
  with assms show ?thesis
    by (auto simp: nq_inv_def markFgIdleIfLocked_def settled_def fgBusyLocked_def)
qed

lemma nq_inv_leave_bg:
  assumes "nq_inv q"
  shows "nq_inv (markFgIdleIfLocked (q\<lparr>nq_bg := remove1 ch (nq_bg q)\<rparr>))"
  using assms
  by (auto simp: nq_inv_def markFgIdleIfLocked_def settled_def fgBusyLocked_def bgMax_def)

lemma nq_inv_cancel:
  assumes "nq_inv q" "ch \<notin> set (nq_fg q) \<union> set (nq_bg q) \<Longrightarrow>
      if fg then 1 \<le> nq_fg_active q else nq_fg_active q < nq_active q"
  shows "nq_inv (acquire_cancelled ch fg q)"
  using assms nq_inv_leave_fg nq_inv_leave_bg nq_inv_release
  by (auto simp: acquire_cancelled_def removeWaiter_eq)

section \<open>The queue and the jobs that use it\<close>

text \<open>
  A job is waiting in \<open>acquire\<close>'s \<open>select\<close> or holds a slot; the flag is its priority. The
  \<open>sync.Once\<close> of a release is the job leaving the map. Channel identities are never reused.
\<close>

datatype job = Waiting bool | Holding bool

record nq_sys =
  sys_q :: net_queue
  sys_job :: "nat \<rightharpoonup> job"
  sys_next :: nat

definition nq_init :: "nq_sys \<Rightarrow> bool" where
  "nq_init s \<longleftrightarrow> (\<exists>n \<ge> 1. s = \<lparr>sys_q = newNetQueue n, sys_job = Map.empty, sys_next = 0\<rparr>)"

inductive nq_step :: "nq_sys \<Rightarrow> nq_sys \<Rightarrow> bool" where
  nq_now: "acquire (sys_next s) fg (sys_q s) = (Slot, q') \<Longrightarrow>
    nq_step s (s\<lparr>sys_q := q', sys_job := (sys_job s)(sys_next s \<mapsto> Holding fg), sys_next := Suc (sys_next s)\<rparr>)"
| nq_wait: "acquire (sys_next s) fg (sys_q s) = (Queued, q') \<Longrightarrow>
    nq_step s (s\<lparr>sys_q := q', sys_job := (sys_job s)(sys_next s \<mapsto> Waiting fg), sys_next := Suc (sys_next s)\<rparr>)"
| nq_wake: "sys_job s ch = Some (Waiting fg) \<Longrightarrow> ch \<in> nq_granted (sys_q s) \<Longrightarrow>
    nq_step s (s\<lparr>sys_job := (sys_job s)(ch \<mapsto> Holding fg)\<rparr>)"
| nq_cancel: "sys_job s ch = Some (Waiting fg) \<Longrightarrow>
    nq_step s (s\<lparr>sys_job := (sys_job s)(ch := None), sys_q := acquire_cancelled ch fg (sys_q s)\<rparr>)"
| nq_release: "sys_job s ch = Some (Holding fg) \<Longrightarrow>
    nq_step s (s\<lparr>sys_job := (sys_job s)(ch := None), sys_q := releaser fg (sys_q s)\<rparr>)"
| nq_hold: "nq_step s (s\<lparr>sys_q := hold (sys_q s)\<rparr>)"
| nq_unhold: "1 \<le> nq_holds (sys_q s) \<Longrightarrow> nq_step s (s\<lparr>sys_q := hold_release (sys_q s)\<rparr>)"
| nq_resize: "nq_step s (s\<lparr>sys_q := setSlots n (sys_q s)\<rparr>)"

inductive_cases nq_stepE: "nq_step s t"

text \<open>The jobs that own a slot: holding one, or granted one and not yet awake.\<close>

definition owners :: "nq_sys \<Rightarrow> bool \<Rightarrow> nat set" where
  "owners s fg = {ch. sys_job s ch = Some (Holding fg) \<or>
     (sys_job s ch = Some (Waiting fg) \<and> ch \<in> nq_granted (sys_q s))}"

definition waiters :: "nq_sys \<Rightarrow> bool \<Rightarrow> nat set" where
  "waiters s fg = {ch. sys_job s ch = Some (Waiting fg) \<and> ch \<notin> nq_granted (sys_q s)}"

text \<open>The lists are the waiting jobs and the counters count the owners.\<close>

definition nq_books :: "nq_sys \<Rightarrow> bool" where
  "nq_books s \<longleftrightarrow> dom (sys_job s) \<subseteq> {..<sys_next s} \<and> nq_granted (sys_q s) \<subseteq> {..<sys_next s} \<and>
     distinct (nq_fg (sys_q s)) \<and> distinct (nq_bg (sys_q s)) \<and>
     set (nq_fg (sys_q s)) = waiters s True \<and> set (nq_bg (sys_q s)) = waiters s False \<and>
     nq_fg_active (sys_q s) = int (card (owners s True)) \<and>
     nq_active (sys_q s) - nq_fg_active (sys_q s) = int (card (owners s False))"

definition nq_sys_inv :: "nq_sys \<Rightarrow> bool" where
  "nq_sys_inv s \<longleftrightarrow> nq_inv (sys_q s) \<and> nq_books s"

lemma finite_owners: "nq_books s \<Longrightarrow> finite (owners s fg)"
  by (rule finite_subset[of _ "{..<sys_next s}"]) (auto simp: nq_books_def owners_def dom_def)

text \<open>The grant loop keeps the books: it moves waiters to owners and counts them.\<close>

lemma nq_books_grant:
  assumes "nq_books s"
  shows "nq_books (s\<lparr>sys_q := grantLocked (sys_q s)\<rparr>)"
proof -
  obtain a b where ab: "granted_from (sys_q s) a b (grantLocked (sys_q s))"
    using grantLocked_split by blast
  let ?t = "s\<lparr>sys_q := grantLocked (sys_q s)\<rparr>"
  have fg: "set (nq_fg (sys_q s)) = waiters s True" and bg: "set (nq_bg (sys_q s)) = waiters s False"
    and ds: "distinct (nq_fg (sys_q s))" "distinct (nq_bg (sys_q s))"
    using assms by (simp_all add: nq_books_def)
  have a: "set a \<subseteq> waiters s True" "distinct a" and b: "set b \<subseteq> waiters s False" "distinct b"
    using ab fg bg ds by (auto simp: granted_from_def)
  have own: "owners ?t True = owners s True \<union> set a" "owners ?t False = owners s False \<union> set b"
    using ab a b by (auto simp: owners_def waiters_def granted_from_def)
  have "owners s True \<inter> set a = {}" "owners s False \<inter> set b = {}"
    using a b by (auto simp: owners_def waiters_def)
  then have card: "card (owners ?t True) = card (owners s True) + length a"
    "card (owners ?t False) = card (owners s False) + length b"
    using own a b finite_owners[OF assms] by (simp_all add: card_Un_disjoint distinct_card)
  have wt: "waiters ?t True = waiters s True - set a" "waiters ?t False = waiters s False - set b"
    using ab a b by (auto simp: waiters_def granted_from_def)
  have "set (nq_fg (sys_q ?t)) = waiters ?t True" "set (nq_bg (sys_q ?t)) = waiters ?t False"
    using ab ds fg bg by (auto simp: wt granted_from_def)
  moreover have "nq_granted (sys_q ?t) \<subseteq> {..<sys_next s}"
    using ab assms a b by (auto simp: nq_books_def granted_from_def waiters_def dom_def)
  ultimately show ?thesis
    using assms ab ds card by (auto simp: nq_books_def granted_from_def)
qed

lemma nq_books_frame:
  "nq_books (s\<lparr>sys_q := q\<lparr>nq_idle_closed := c\<rparr>\<rparr>) = nq_books (s\<lparr>sys_q := q\<rparr>)"
  "nq_books (s\<lparr>sys_q := q\<lparr>nq_idle_gen := g\<rparr>\<rparr>) = nq_books (s\<lparr>sys_q := q\<rparr>)"
  "nq_books (s\<lparr>sys_q := q\<lparr>nq_holds := h\<rparr>\<rparr>) = nq_books (s\<lparr>sys_q := q\<rparr>)"
  "nq_books (s\<lparr>sys_q := q\<lparr>nq_slots := n\<rparr>\<rparr>) = nq_books (s\<lparr>sys_q := q\<rparr>)"
  by (simp_all add: nq_books_def owners_def waiters_def)

lemma nq_books_idle:
  "nq_books (s\<lparr>sys_q := markFgIdleIfLocked q\<rparr>) = nq_books (s\<lparr>sys_q := q\<rparr>)"
  "nq_books (s\<lparr>sys_q := markFgBusyLocked q\<rparr>) = nq_books (s\<lparr>sys_q := q\<rparr>)"
  by (simp_all add: markFgIdleIfLocked_def markFgBusyLocked_def nq_books_frame)

lemma nq_books_regrant:
  assumes "nq_books (s\<lparr>sys_q := q\<rparr>)"
  shows "nq_books (s\<lparr>sys_q := markFgIdleIfLocked (grantLocked q)\<rparr>)"
  using nq_books_grant[OF assms] by (simp add: nq_books_idle)


text \<open>The critical section that ends a job's ownership: one slot fewer, then the loop.\<close>

lemma nq_books_disown:
  assumes books: "nq_books s" and ch: "ch \<in> owners s fg"
  shows "nq_books (s\<lparr>sys_job := (sys_job s)(ch := None), sys_q := releaser fg (sys_q s)\<rparr>)"
    and "if fg then 1 \<le> nq_fg_active (sys_q s) else nq_fg_active (sys_q s) < nq_active (sys_q s)"
proof -
  define q where "q = (sys_q s)\<lparr>nq_active := nq_active (sys_q s) - 1,
    nq_fg_active := (if fg then nq_fg_active (sys_q s) - 1 else nq_fg_active (sys_q s))\<rparr>"
  let ?j = "(sys_job s)(ch := None)"
  let ?t = "s\<lparr>sys_job := ?j, sys_q := q\<rparr>"
  have own: "owners ?t fg = owners s fg - {ch}" "owners ?t (\<not> fg) = owners s (\<not> fg)"
    using ch by (auto simp: owners_def q_def)
  have pos: "card (owners s fg) \<ge> 1"
    using ch finite_owners[OF books] by (metis One_nat_def Suc_leI card_gt_0_iff empty_iff)
  have card: "int (card (owners ?t fg)) = int (card (owners s fg)) - 1"
    using ch pos by (simp add: own)
  have wt: "waiters ?t k = waiters s k" for k
    using ch by (auto simp: waiters_def owners_def q_def)
  have "nq_books ?t"
    using books own card wt by (cases fg) (auto simp: nq_books_def q_def dom_def)
  then have "nq_books (s\<lparr>sys_job := ?j, sys_q := markFgIdleIfLocked (grantLocked q)\<rparr>)"
    using nq_books_regrant[where s = "s\<lparr>sys_job := ?j\<rparr>" and q = q] by simp
  then show "nq_books (s\<lparr>sys_job := ?j, sys_q := releaser fg (sys_q s)\<rparr>)"
    by (simp only: releaser_def q_def)
  show "if fg then 1 \<le> nq_fg_active (sys_q s) else nq_fg_active (sys_q s) < nq_active (sys_q s)"
    using books pos by (cases fg) (auto simp: nq_books_def)
qed

lemma nq_books_leave:
  assumes "nq_books s" "sys_job s ch = Some (Waiting fg)" "ch \<notin> nq_granted (sys_q s)"
  shows "nq_books (s\<lparr>sys_job := (sys_job s)(ch := None), sys_q := acquire_cancelled ch fg (sys_q s)\<rparr>)"
proof -
  let ?j = "(sys_job s)(ch := None)"
  let ?q = "if fg then (sys_q s)\<lparr>nq_fg := remove1 ch (nq_fg (sys_q s))\<rparr>
    else (sys_q s)\<lparr>nq_bg := remove1 ch (nq_bg (sys_q s))\<rparr>"
  have w: "ch \<in> waiters s fg" "ch \<notin> waiters s (\<not> fg)"
    using assms by (auto simp: waiters_def)
  have q: "acquire_cancelled ch fg (sys_q s) = markFgIdleIfLocked ?q"
    using assms(1) w by (cases fg) (auto simp: acquire_cancelled_def removeWaiter_eq nq_books_def)
  have own: "owners (s\<lparr>sys_job := ?j, sys_q := ?q\<rparr>) k = owners s k" for k
    using assms by (cases fg) (auto simp: owners_def)
  have wt: "waiters (s\<lparr>sys_job := ?j, sys_q := ?q\<rparr>) k = waiters s k - {ch}" for k
    by (cases fg) (auto simp: waiters_def)
  have "nq_books (s\<lparr>sys_job := ?j, sys_q := ?q\<rparr>)"
    using assms(1) w own wt by (cases fg) (auto simp: nq_books_def dom_def)
  then show ?thesis
    using nq_books_idle(1)[where s = "s\<lparr>sys_job := ?j\<rparr>" and q = ?q] by (simp only: q)
qed

lemma acquire_cancelled_granted:
  assumes "nq_books s" "sys_job s ch = Some (Waiting fg)" "ch \<in> nq_granted (sys_q s)"
  shows "acquire_cancelled ch fg (sys_q s) = releaser fg (sys_q s)"
  using assms by (auto simp: acquire_cancelled_def removeWaiter_eq nq_books_def waiters_def)

lemma acquire_shape:
  assumes "acquire ch fg q = (r, q')"
  obtains m where "nq_granted m = nq_granted q" "nq_fg m = nq_fg q" "nq_bg m = nq_bg q"
    "nq_fg_active m = nq_fg_active q" "nq_active m = nq_active q"
    and "q' = (case r of
        Slot \<Rightarrow> m\<lparr>nq_active := nq_active q + 1, nq_fg_active := nq_fg_active q + (if fg then 1 else 0)\<rparr>
      | Queued \<Rightarrow> if fg then m\<lparr>nq_fg := nq_fg q @ [ch]\<rparr> else m\<lparr>nq_bg := nq_bg q @ [ch]\<rparr>)"
proof (rule that[of "if fg then markFgBusyLocked q else q"])
  show "q' = (case r of
        Slot \<Rightarrow> (if fg then markFgBusyLocked q else q)\<lparr>nq_active := nq_active q + 1,
          nq_fg_active := nq_fg_active q + (if fg then 1 else 0)\<rparr>
      | Queued \<Rightarrow> if fg then (if fg then markFgBusyLocked q else q)\<lparr>nq_fg := nq_fg q @ [ch]\<rparr>
          else (if fg then markFgBusyLocked q else q)\<lparr>nq_bg := nq_bg q @ [ch]\<rparr>)"
    using assms by (auto simp: acquire_def Let_def markFgBusyLocked_def split: if_splits)
qed (simp_all add: markFgBusyLocked_def)

lemma nq_books_acquire:
  assumes books: "nq_books s" and acq: "acquire (sys_next s) fg (sys_q s) = (r, q')"
  shows "nq_books (s\<lparr>sys_q := q', sys_job := (sys_job s)(sys_next s \<mapsto>
    (case r of Slot \<Rightarrow> Holding fg | Queued \<Rightarrow> Waiting fg)), sys_next := Suc (sys_next s)\<rparr>)"
proof -
  let ?n = "sys_next s"
  let ?t = "s\<lparr>sys_q := q', sys_job := (sys_job s)(?n \<mapsto>
    (case r of Slot \<Rightarrow> Holding fg | Queued \<Rightarrow> Waiting fg)), sys_next := Suc ?n\<rparr>"
  obtain m where m: "nq_granted m = nq_granted (sys_q s)" "nq_fg m = nq_fg (sys_q s)"
      "nq_bg m = nq_bg (sys_q s)" "nq_fg_active m = nq_fg_active (sys_q s)"
      "nq_active m = nq_active (sys_q s)"
    and q': "q' = (case r of
        Slot \<Rightarrow> m\<lparr>nq_active := nq_active (sys_q s) + 1,
          nq_fg_active := nq_fg_active (sys_q s) + (if fg then 1 else 0)\<rparr>
      | Queued \<Rightarrow> if fg then m\<lparr>nq_fg := nq_fg (sys_q s) @ [?n]\<rparr> else m\<lparr>nq_bg := nq_bg (sys_q s) @ [?n]\<rparr>)"
    using acquire_shape[OF acq] by blast
  have gr: "nq_granted q' = nq_granted (sys_q s)"
    using m q' by (auto split: acquire_result.splits)
  have fresh: "?n \<notin> dom (sys_job s)" "?n \<notin> nq_granted (sys_q s)" "\<And>k. ?n \<notin> owners s k" "\<And>k. ?n \<notin> waiters s k"
    using books by (auto simp: nq_books_def owners_def waiters_def dom_def)
  have own: "owners ?t k = (if r = Slot \<and> k = fg then insert ?n (owners s k) else owners s k)" for k
    using fresh gr by (cases r) (auto simp: owners_def dom_def)
  have wt: "waiters ?t k = (if r = Queued \<and> k = fg then insert ?n (waiters s k) else waiters s k)" for k
    using fresh gr by (cases r) (auto simp: waiters_def dom_def)
  have card: "card (owners ?t k) = card (owners s k) + (if r = Slot \<and> k = fg then 1 else 0)" for k
    using fresh own finite_owners[OF books] by simp
  show ?thesis
    unfolding nq_books_def wt card
    using books m q' fresh
    by (cases r; cases fg)
      (auto simp: nq_books_def less_Suc_eq)
qed

lemma nq_sys_inv_step:
  assumes "nq_sys_inv s" "nq_step s t"
  shows "nq_sys_inv t"
  using assms(2)
proof (cases rule: nq_step.cases)
  case (nq_now fg q')
  then show ?thesis
    using assms(1) nq_inv_acquire nq_books_acquire[of s fg Slot q'] by (auto simp: nq_sys_inv_def)
next
  case (nq_wait fg q')
  then show ?thesis
    using assms(1) nq_inv_acquire nq_books_acquire[of s fg Queued q'] by (auto simp: nq_sys_inv_def)
next
  case (nq_wake ch fg)
  then have "owners t k = owners s k" "waiters t k = waiters s k" for k
    by (auto simp: owners_def waiters_def)
  with nq_wake show ?thesis
    using assms(1) by (auto simp: nq_sys_inv_def nq_books_def dom_def)
next
  case (nq_cancel ch fg)
  show ?thesis
  proof (cases "ch \<in> nq_granted (sys_q s)")
    case True
    then have "ch \<in> owners s fg" using nq_cancel by (simp add: owners_def)
    with True nq_cancel show ?thesis
      using assms(1) nq_books_disown[of s ch fg] nq_inv_release[of "sys_q s" fg]
        acquire_cancelled_granted[of s ch fg]
      by (simp add: nq_sys_inv_def)
  next
    case False
    then have "ch \<in> set (nq_fg (sys_q s)) \<union> set (nq_bg (sys_q s))"
      using nq_cancel assms(1) by (cases fg) (auto simp: nq_sys_inv_def nq_books_def waiters_def)
    with False nq_cancel show ?thesis
      using assms(1) nq_books_leave[of s ch fg] nq_inv_cancel[of "sys_q s" ch fg]
      by (auto simp: nq_sys_inv_def)
  qed
next
  case (nq_release ch fg)
  then have "ch \<in> owners s fg" by (simp add: owners_def)
  with nq_release show ?thesis
    using assms(1) nq_books_disown[of s ch fg] nq_inv_release[of "sys_q s" fg]
    by (simp add: nq_sys_inv_def)
next
  case nq_hold
  then show ?thesis
    using assms(1) nq_inv_hold[of "sys_q s"] nq_books_frame(3)[where s = s and q = "sys_q s"]
    by (simp add: nq_sys_inv_def hold_def nq_books_idle)
next
  case nq_unhold
  then show ?thesis
    using assms(1) nq_inv_hold_release[of "sys_q s"] nq_books_frame(3)[where s = s and q = "sys_q s"]
      nq_books_regrant[where s = s and q = "(sys_q s)\<lparr>nq_holds := nq_holds (sys_q s) - 1\<rparr>"]
    by (simp add: nq_sys_inv_def hold_release_def)
next
  case (nq_resize n)
  define q where "q = (sys_q s)\<lparr>nq_slots := (if n < 1 then 1 else n)\<rparr>"
  have "nq_books (s\<lparr>sys_q := q\<rparr>)"
    using assms(1) nq_books_frame(4)[where s = s and q = "sys_q s"] by (simp add: nq_sys_inv_def q_def)
  from nq_books_grant[OF this] show ?thesis
    using nq_resize assms(1) nq_inv_setSlots[of "sys_q s" n]
    by (simp add: nq_sys_inv_def setSlots_def q_def)
qed

lemma nq_sys_inv_init: "nq_init s \<Longrightarrow> nq_sys_inv s"
  using nq_inv_new
  by (auto simp: nq_init_def nq_sys_inv_def nq_books_def owners_def waiters_def)
    (simp_all add: newNetQueue_def)

interpretation netq: step_invariant nq_init nq_step nq_sys_inv
  by unfold_locales (auto intro: nq_sys_inv_init nq_sys_inv_step)


section \<open>Which waiters one step lets in\<close>

lemma nq_step_grants:
  assumes inv: "nq_sys_inv s" and step: "nq_step s t"
  obtains (same) "nq_granted (sys_q t) = nq_granted (sys_q s)"
  | (loop) a b where "nq_fg (sys_q s) = a @ nq_fg (sys_q t)" "nq_bg (sys_q s) = b @ nq_bg (sys_q t)"
      "nq_granted (sys_q t) = nq_granted (sys_q s) \<union> set a \<union> set b"
      "\<And>x k. x \<in> waiters s k \<Longrightarrow> sys_job t x = sys_job s x"
proof -
  have grant: thesis if "sys_q t = grantLocked q \<or> sys_q t = markFgIdleIfLocked (grantLocked q)"
    "nq_fg q = nq_fg (sys_q s)" "nq_bg q = nq_bg (sys_q s)" "nq_granted q = nq_granted (sys_q s)"
    "\<And>x k. x \<in> waiters s k \<Longrightarrow> sys_job t x = sys_job s x" for q
  proof -
    obtain a b where "granted_from q a b (grantLocked q)" using grantLocked_split by blast
    with that show thesis
      by (intro loop[of a b]) (auto simp: granted_from_def)
  qed
  have rel: thesis if "ch \<in> owners s fg" "sys_q t = releaser fg (sys_q s)"
    "sys_job t = (sys_job s)(ch := None)" for ch fg
    using that
    by (intro grant[of "(sys_q s)\<lparr>nq_active := nq_active (sys_q s) - 1,
      nq_fg_active := (if fg then nq_fg_active (sys_q s) - 1 else nq_fg_active (sys_q s))\<rparr>"])
      (auto simp: releaser_def owners_def waiters_def)
  from step show thesis
  proof (cases rule: nq_step.cases)
    case (nq_now fg q')
    then show ?thesis by (intro same) (simp add: acquire_frame(1))
  next
    case (nq_wait fg q')
    then show ?thesis by (intro same) (simp add: acquire_frame(1))
  next
    case (nq_cancel ch fg)
    show ?thesis
    proof (cases "ch \<in> nq_granted (sys_q s)")
      case True
      with nq_cancel inv show ?thesis
        by (intro rel[of ch fg]) (auto simp: owners_def acquire_cancelled_granted nq_sys_inv_def)
    next
      case False
      with nq_cancel inv have "ch \<in> set (nq_fg (sys_q s)) \<union> set (nq_bg (sys_q s))"
        by (cases fg) (auto simp: nq_sys_inv_def nq_books_def waiters_def)
      with nq_cancel show ?thesis
        by (intro same) (auto simp: acquire_cancelled_def removeWaiter_eq)
    qed
  next
    case (nq_release ch fg)
    then show ?thesis by (intro rel[of ch fg]) (auto simp: owners_def)
  next
    case nq_hold
    then show ?thesis by (intro same) (simp add: hold_def markFgBusyLocked_def)
  next
    case nq_unhold
    then show ?thesis
      by (intro grant[of "(sys_q s)\<lparr>nq_holds := nq_holds (sys_q s) - 1\<rparr>"]) (auto simp: hold_release_def)
  next
    case (nq_resize n)
    then show ?thesis
      by (intro grant[of "(sys_q s)\<lparr>nq_slots := (if n < 1 then 1 else n)\<rparr>"]) (auto simp: setSlots_def)
  qed (use same in simp)
qed

text \<open>A step that lets background work in leaves it within \<open>bgMax\<close>.\<close>

lemma releaser_bg_cap:
  assumes "nq_inv q" "fg \<Longrightarrow> 1 \<le> nq_fg_active q"
  shows "nq_active (releaser fg q) - nq_fg_active (releaser fg q)
      \<le> max (nq_active q - nq_fg_active q) (bgMax (releaser fg q))"
proof -
  define q1 where "q1 = q\<lparr>nq_active := nq_active q - 1,
    nq_fg_active := (if fg then nq_fg_active q - 1 else nq_fg_active q)\<rparr>"
  have nn: "0 \<le> nq_fg_active q1" using assms by (cases fg) (auto simp: q1_def nq_inv_def)
  have r: "releaser fg q = markFgIdleIfLocked (grantLocked q1)"
    by (simp only: releaser_def q1_def)
  have "nq_active (grantLocked q1) - nq_fg_active (grantLocked q1)
      \<le> max (nq_active q1 - nq_fg_active q1) (bgMax (grantLocked q1))"
    using grantLocked_bg_cap[OF nn] grantLocked_bgMax[OF nn] by simp
  moreover have "nq_active q1 - nq_fg_active q1 \<le> nq_active q - nq_fg_active q"
    by (simp add: q1_def)
  moreover have "bgMax (releaser fg q) = bgMax (grantLocked q1)"
    "nq_active (releaser fg q) = nq_active (grantLocked q1)"
    "nq_fg_active (releaser fg q) = nq_fg_active (grantLocked q1)"
    by (simp_all add: r markFgIdleIfLocked_def)
  ultimately show ?thesis by simp
qed

lemma nq_step_bg_cap:
  assumes inv: "nq_sys_inv s" and step: "nq_step s t"
  shows "nq_active (sys_q t) - nq_fg_active (sys_q t)
      \<le> max (nq_active (sys_q s) - nq_fg_active (sys_q s)) (bgMax (sys_q t))"
proof -
  have q: "nq_inv (sys_q s)" using inv by (simp add: nq_sys_inv_def)
  have rel: ?thesis if "ch \<in> owners s fg" "sys_q t = releaser fg (sys_q s)" for ch fg
    using that q nq_books_disown(2)[of s ch fg] inv
    by (auto simp: nq_sys_inv_def intro!: releaser_bg_cap)
  from step show ?thesis
  proof (cases rule: nq_step.cases)
    case (nq_now fg q')
    then show ?thesis
      by (cases fg) (auto simp: acquire_def Let_def markFgBusyLocked_def bgMax_def fgBusyLocked_def split: if_splits)
  next
    case (nq_wait fg q')
    then show ?thesis using acquire_frame(2) by simp
  next
    case (nq_cancel ch fg)
    show ?thesis
    proof (cases "ch \<in> nq_granted (sys_q s)")
      case True
      with nq_cancel inv show ?thesis
        by (intro rel[of ch fg]) (auto simp: owners_def acquire_cancelled_granted nq_sys_inv_def)
    next
      case False
      with nq_cancel inv have "ch \<in> set (nq_fg (sys_q s)) \<union> set (nq_bg (sys_q s))"
        by (cases fg) (auto simp: nq_sys_inv_def nq_books_def waiters_def)
      with nq_cancel show ?thesis
        by (auto simp: acquire_cancelled_def removeWaiter_eq)
    qed
  next
    case (nq_release ch fg)
    then show ?thesis by (intro rel[of ch fg]) (auto simp: owners_def)
  next
    case nq_hold
    then show ?thesis by (simp add: hold_def markFgBusyLocked_def)
  next
    case nq_unhold
    let ?q = "(sys_q s)\<lparr>nq_holds := nq_holds (sys_q s) - 1\<rparr>"
    from q have nn: "0 \<le> nq_fg_active ?q" by (simp add: nq_inv_def)
    from nq_unhold grantLocked_bg_cap[OF nn] grantLocked_bgMax[OF nn] show ?thesis
      by (simp add: hold_release_def markFgIdleIfLocked_def)
  next
    case (nq_resize n)
    let ?q = "(sys_q s)\<lparr>nq_slots := (if n < 1 then 1 else n)\<rparr>"
    from q have nn: "0 \<le> nq_fg_active ?q" by (simp add: nq_inv_def)
    from nq_resize grantLocked_bg_cap[OF nn] grantLocked_bgMax[OF nn] show ?thesis
      by (simp add: setSlots_def)
  qed simp
qed


section \<open>Properties\<close>

text \<open>
  Two runs the witnesses use: one slot, taken, with two fetches waiting behind it; and three
  slots with one walk holding.
\<close>

definition run_waiting :: nq_sys where
  "run_waiting = \<lparr>sys_q = \<lparr>nq_slots = 1, nq_active = 1, nq_fg_active = 1, nq_fg = [1, 2], nq_bg = [],
     nq_holds = 0, nq_idle_gen = 1, nq_idle_closed = False, nq_granted = {}\<rparr>,
     sys_job = [0 \<mapsto> Holding True, 1 \<mapsto> Waiting True, 2 \<mapsto> Waiting True], sys_next = 3\<rparr>"

definition run_walk :: nq_sys where
  "run_walk = \<lparr>sys_q = (newNetQueue 3)\<lparr>nq_active := 1\<rparr>, sys_job = [0 \<mapsto> Holding False], sys_next = 1\<rparr>"

lemma start_reachable:
  "1 \<le> n \<Longrightarrow> reachable nq_init nq_step \<lparr>sys_q = newNetQueue n, sys_job = Map.empty, sys_next = 0\<rparr>"
  by (rule reach_init) (auto simp: nq_init_def)

lemma run_waiting_reachable: "reachable nq_init nq_step run_waiting"
proof -
  let ?s0 = "\<lparr>sys_q = newNetQueue 1, sys_job = Map.empty, sys_next = 0\<rparr>"
  let ?q = "\<lparr>nq_slots = 1, nq_active = 1, nq_fg_active = 1, nq_fg = [], nq_bg = [],
     nq_holds = 0, nq_idle_gen = 1, nq_idle_closed = False, nq_granted = {}\<rparr> :: net_queue"
  let ?s1 = "\<lparr>sys_q = ?q, sys_job = [0 \<mapsto> Holding True], sys_next = 1\<rparr>"
  let ?s2 = "\<lparr>sys_q = ?q\<lparr>nq_fg := [1]\<rparr>, sys_job = [0 \<mapsto> Holding True, 1 \<mapsto> Waiting True], sys_next = 2\<rparr>"
  have "nq_step ?s0 ?s1"
    using nq_now[of ?s0 True ?q] by (simp add: acquire_def markFgBusyLocked_def newNetQueue_def)
  moreover have "nq_step ?s1 ?s2"
    using nq_wait[of ?s1 True "?q\<lparr>nq_fg := [1]\<rparr>"] by (simp add: acquire_def markFgBusyLocked_def numeral_2_eq_2)
  moreover have "nq_step ?s2 run_waiting"
    using nq_wait[of ?s2 True "?q\<lparr>nq_fg := [1, 2]\<rparr>"]
    by (simp add: acquire_def markFgBusyLocked_def run_waiting_def numeral_3_eq_3 numeral_2_eq_2)
  ultimately show ?thesis
    using start_reachable[of 1] by (meson order_refl reach_step)
qed

lemma run_walk_reachable: "reachable nq_init nq_step run_walk"
proof -
  let ?s0 = "\<lparr>sys_q = newNetQueue 3, sys_job = Map.empty, sys_next = 0\<rparr>"
  have "nq_step ?s0 run_walk"
    using nq_now[of ?s0 False "(newNetQueue 3)\<lparr>nq_active := 1\<rparr>"]
    by (simp add: acquire_def bgMax_def fgBusyLocked_def run_walk_def newNetQueue_def)
  then show ?thesis using start_reachable[of 3] by (auto intro: reach_step)
qed

text \<open>
  C5. In every interleaving of acquires, cancellations, releases, holds and resizes: the
  counters are exactly the numbers of jobs owning a slot, no free slot coexists with a
  waiter it may go to, and the foreground-idle channel is closed exactly when no foreground
  job owns or waits for a slot and nobody holds the foreground.
\<close>

theorem netq_sound:
  assumes "reachable nq_init nq_step s"
  defines "q \<equiv> sys_q s"
  shows "nq_fg_active q = int (card (owners s True)) \<and>
    nq_active q = int (card (owners s True)) + int (card (owners s False)) \<and>
    (nq_active q < nq_slots q \<longrightarrow>
       waiters s True = {} \<and> (waiters s False = {} \<or> bgMax q \<le> int (card (owners s False)))) \<and>
    (nq_idle_closed q \<longleftrightarrow> owners s True = {} \<and> waiters s True = {} \<and> nq_holds q = 0)"
proof -
  have inv: "nq_inv q" and books: "nq_books s"
    using netq.reachable_inv[OF assms(1)] by (simp_all add: nq_sys_inv_def q_def)
  have fg: "nq_fg_active q > 0 \<longleftrightarrow> owners s True \<noteq> {}" "nq_fg q = [] \<longleftrightarrow> waiters s True = {}"
    "nq_bg q = [] \<longleftrightarrow> waiters s False = {}"
    using books finite_owners[OF books, of True]
    by (auto simp: nq_books_def q_def card_gt_0_iff simp flip: set_empty)
  with inv books show ?thesis
    by (auto simp: nq_inv_def settled_def nq_books_def fgBusyLocked_def q_def)
qed

theorem netq_sound_witness:
  "nq_fg_active (sys_q run_waiting) = int (card (owners run_waiting True))
   \<and> 0 < nq_fg_active (sys_q run_waiting)"
  using netq_sound[OF run_waiting_reachable] by (simp add: run_waiting_def)



text \<open>
  Background work never takes the last slot: a step that raises the number of background
  owners leaves them within \<open>bgMax\<close>, that is at most one while a foreground job owns or
  waits for a slot or the foreground is held, and at most all but one otherwise.
\<close>

theorem netq_background_bounded:
  assumes "reachable nq_init nq_step s" "nq_step s t"
    and "card (owners s False) < card (owners t False)"
  shows "int (card (owners t False)) \<le> bgMax (sys_q t)"
proof -
  have inv: "nq_sys_inv s" using assms(1) by (rule netq.reachable_inv)
  then have books: "nq_books s" "nq_books t"
    using nq_sys_inv_step[OF inv assms(2)] by (simp_all add: nq_sys_inv_def)
  with nq_step_bg_cap[OF inv assms(2)] assms(3) show ?thesis by (auto simp: nq_books_def)
qed

theorem netq_background_bounded_witness:
  "\<exists>s t. int (card (owners t False)) \<le> bgMax (sys_q t) \<and> owners t False \<noteq> {} \<and> owners s False = {}"
proof -
  let ?s0 = "\<lparr>sys_q = newNetQueue 3, sys_job = Map.empty, sys_next = 0\<rparr>"
  have step: "nq_step ?s0 run_walk"
    using nq_now[of ?s0 False "(newNetQueue 3)\<lparr>nq_active := 1\<rparr>"]
    by (simp add: acquire_def bgMax_def fgBusyLocked_def run_walk_def newNetQueue_def)
  have own: "owners run_walk False = {0}" "owners ?s0 False = {}"
    by (auto simp: owners_def run_walk_def newNetQueue_def split: if_splits)
  show ?thesis
    using netq_background_bounded[OF start_reachable step] own by (intro exI[of _ ?s0] exI[of _ run_walk]) simp
qed

text \<open>
  First come, first served within a priority: if a step gives a slot to a waiter, every
  job ahead of it in its list owns one too.
\<close>

theorem netq_fifo:
  assumes "reachable nq_init nq_step s" "nq_step s t"
    and "(if k then nq_fg (sys_q s) else nq_bg (sys_q s)) = u @ x # v" "y \<in> set v" "y \<in> owners t k"
  shows "x \<in> owners t k"
proof -
  have inv: "nq_sys_inv s" using assms(1) by (rule netq.reachable_inv)
  then have books: "nq_books s" by (simp add: nq_sys_inv_def)
  have wait: "x \<in> waiters s k" "y \<in> waiters s k" "distinct (u @ x # v)"
    using books assms(3,4) by (auto simp: nq_books_def split: if_splits)
  from inv assms(2) show ?thesis
  proof (cases rule: nq_step_grants)
    case same
    have "sys_job t y = Some (Waiting k) \<or> sys_job t y = None \<or> sys_job t y = sys_job s y"
      using assms(2) wait(2) books
      by (cases rule: nq_step.cases) (auto simp: waiters_def nq_books_def dom_def)
    with same wait(2) assms(5) show ?thesis by (auto simp: owners_def waiters_def)
  next
    case (loop a b)
    let ?p = "if k then a else b"
    have ahead: "u @ x # v = ?p @ (if k then nq_fg (sys_q t) else nq_bg (sys_q t))"
      using loop(1,2) assms(3) by (cases k) auto
    have sets: "set a \<subseteq> waiters s True" "set b \<subseteq> waiters s False"
      using loop(1,2) books by (auto simp: nq_books_def)
    have "sys_job t y = sys_job s y" "sys_job t x = sys_job s x"
      using loop(4) wait by blast+
    moreover from this assms(5) wait(2) have "y \<in> nq_granted (sys_q t)"
      by (auto simp: owners_def waiters_def)
    then have "y \<in> set ?p"
      using loop(3) wait(2) sets by (cases k) (auto simp: waiters_def)
    then have "x \<in> set ?p"
      using distinct_prefix_before[OF wait(3) ahead assms(4)] by simp
    ultimately show ?thesis
      using wait(1) loop(3) by (cases k) (auto simp: owners_def waiters_def)
  qed
qed

theorem netq_fifo_witness:
  "1 \<in> owners (run_waiting\<lparr>sys_q := setSlots 3 (sys_q run_waiting)\<rparr>) True"
proof -
  have g: "nq_granted (setSlots 3 (sys_q run_waiting)) = {1, 2}"
    by (auto simp: setSlots_def run_waiting_def grantLocked.simps)
  show ?thesis
    by (rule netq_fifo[OF run_waiting_reachable nq_resize[of run_waiting 3], where u = "[]" and v = "[2]" and y = 2])
      (auto simp: owners_def g, simp_all add: run_waiting_def)
qed

end
