(* ===== verification/WantPool.thy ===== *)
theory WantPool
  imports Prelude Complex_Main
begin

text \<open>
  \<open>fetch.go\<close>, the want budget: the counting semaphore \<open>wantPool\<close> with its controller
  (\<open>step\<close> / \<open>setLimit\<close>), the per-fetch cap \<open>perFetch\<close>, and \<open>rollingGetBlocks\<close>: a
  producer that takes tokens in batches and one fan per batch that gives them back. The
  token channel is the number of tokens in it; the moving average is a rational, so the
  controller is exact where the code rounds floats. \<open>pool_step\<close> interleaves any number of
  fetches with the controller.
\<close>

section \<open>The pool\<close>

definition wantBudget :: nat where "wantBudget = 768"

definition maxPerFetch :: nat where "maxPerFetch = wantBudget div 2"

definition wantLatency :: rat where "wantLatency = 2" \<comment> \<open>seconds\<close>

definition wantFloor :: int where "wantFloor = 32"

record want_pool =
  wp_tokens :: nat
  wp_size :: nat
  wp_limit :: nat
  wp_delivered :: nat
  wp_parked :: nat
  wp_rate :: rat

definition newWantPool :: "nat \<Rightarrow> want_pool" where
  "newWantPool n = \<lparr>wp_tokens = n, wp_size = n, wp_limit = n, wp_delivered = 0, wp_parked = 0, wp_rate = 0\<rparr>"

definition tryAcquire :: "want_pool \<Rightarrow> bool \<times> want_pool" where
  "tryAcquire p = (if wp_tokens p > 0 then (True, p\<lparr>wp_tokens := wp_tokens p - 1\<rparr>) else (False, p))"

text \<open>\<open>release\<close>: a send that is dropped when the channel is full.\<close>

definition pool_release :: "want_pool \<Rightarrow> want_pool" where
  "pool_release p = (if wp_tokens p < wp_size p then p\<lparr>wp_tokens := wp_tokens p + 1\<rparr> else p)"

definition available :: "want_pool \<Rightarrow> nat" where
  "available p = wp_tokens p"

text \<open>
  \<open>setLimitLocked\<close>: first loop, unpark while fewer than \<open>n\<close> circulate; second loop, park
  idle tokens while more do. The send of the first loop blocks on a full channel, with the
  mutex held: \<open>None\<close>.
\<close>

function unpark :: "int \<Rightarrow> want_pool \<Rightarrow> want_pool option" where
  "unpark n p =
     (if int (wp_size p) - int (wp_parked p) < n \<and> wp_parked p > 0
      then (if wp_tokens p < wp_size p
            then unpark n (p\<lparr>wp_tokens := wp_tokens p + 1, wp_parked := wp_parked p - 1\<rparr>)
            else None)
      else Some p)"
  by pat_completeness auto
termination by (relation "measure (\<lambda>(n, p). wp_parked p)") auto

function park :: "int \<Rightarrow> want_pool \<Rightarrow> want_pool" where
  "park n p =
     (if int (wp_size p) - int (wp_parked p) > n \<and> fst (tryAcquire p)
      then park n ((snd (tryAcquire p))\<lparr>wp_parked := wp_parked p + 1\<rparr>)
      else p)"
  by pat_completeness auto
termination by (relation "measure (\<lambda>(n, p). wp_tokens p)") (auto simp: tryAcquire_def split: if_splits)

declare unpark.simps [simp del] park.simps [simp del]

definition setLimitLocked :: "int \<Rightarrow> want_pool \<Rightarrow> want_pool option" where
  "setLimitLocked n0 p =
     (let n = (if n0 < wantFloor then wantFloor else n0) in
      case unpark n p of
        None \<Rightarrow> None
      | Some p1 \<Rightarrow> (let p2 = park n p1 in Some (p2\<lparr>wp_limit := wp_size p2 - wp_parked p2\<rparr>)))"

text \<open>\<open>step\<close>: the rate is half the old one and half the last interval's; \<open>dt\<close> in seconds.\<close>

definition pool_step_rate :: "rat \<Rightarrow> want_pool \<Rightarrow> want_pool option" where
  "pool_step_rate dt p =
     (if dt \<le> 0 then Some p
      else (let r = wp_rate p / 2 + (rat_of_nat (wp_delivered p) / dt) / 2 in
            setLimitLocked (ceiling (r * wantLatency)) (p\<lparr>wp_delivered := 0, wp_rate := r\<rparr>)))"

text \<open>\<open>perFetch\<close>: half of what circulates, at least one, at most \<open>maxPerFetch\<close>.\<close>

definition perFetch :: "want_pool \<Rightarrow> nat" where
  "perFetch p =
     (let c = wp_limit p div 2; c = (if c < 1 then 1 else c) in if c > maxPerFetch then maxPerFetch else c)"

section \<open>One rolling fetch\<close>

text \<open>
  The producer's progress and its fans: a fan is the keys of its batch not yet delivered
  and the tokens it has not yet released.
\<close>

record 'c fan_state =
  fan_keys :: "'c list"
  fan_owed :: nat

record 'c rolling =
  ro_need :: "'c list"        \<comment> \<open>keys not yet requested\<close>
  ro_held :: nat
  ro_fans :: "'c fan_state list"
  ro_out :: "'c list"         \<comment> \<open>blocks sent to the caller, in order\<close>

definition new_rolling :: "'c list \<Rightarrow> 'c rolling" where
  "new_rolling need = \<lparr>ro_need = need, ro_held = 0, ro_fans = [], ro_out = []\<rparr>"

text \<open>
  One turn of the producer: a blocking acquire (enabled when a token is there), then the
  non-blocking top-up to \<open>refillBatch\<close>, the per-fetch cap, the end of \<open>need\<close> or an empty
  pool. \<open>None\<close>: the turn waits.
\<close>

function top_up :: "nat \<Rightarrow> nat \<Rightarrow> nat \<Rightarrow> nat \<Rightarrow> want_pool \<Rightarrow> nat \<times> want_pool" where
  "top_up batch left held got p =
     (if got < batch \<and> got < left \<and> held < perFetch p \<and> fst (tryAcquire p)
      then top_up batch left (held + 1) (got + 1) (snd (tryAcquire p))
      else (got, p))"
  by pat_completeness auto
termination by (relation "measure (\<lambda>(b, l, h, g, p). b - g)") auto

declare top_up.simps [simp del]

definition produce :: "nat \<Rightarrow> want_pool \<Rightarrow> 'c rolling \<Rightarrow> (want_pool \<times> 'c rolling) option" where
  "produce batch p r =
     (if ro_need r = [] \<or> ro_held r \<ge> perFetch p \<or> \<not> fst (tryAcquire p) then None
      else (let (got, p') = top_up batch (length (ro_need r)) (ro_held r + 1) 1 (snd (tryAcquire p)) in
            Some (p', r\<lparr>ro_need := drop got (ro_need r), ro_held := ro_held r + got,
                        ro_fans := ro_fans r @ [\<lparr>fan_keys = take got (ro_need r), fan_owed = got\<rparr>]\<rparr>)))"

text \<open>
  A block of fan \<open>i\<close>'s batch arrives: its token goes back before the block is handed on.
  \<open>GetBlocks\<close> delivers a requested key at most once.
\<close>

definition fan_deliver :: "nat \<Rightarrow> 'c \<Rightarrow> want_pool \<Rightarrow> 'c rolling \<Rightarrow> want_pool \<times> 'c rolling" where
  "fan_deliver i c p r =
     (let f = ro_fans r ! i; p' = pool_release p in
      (p'\<lparr>wp_delivered := wp_delivered p' + 1\<rparr>,
       r\<lparr>ro_held := ro_held r - 1, ro_out := ro_out r @ [c],
         ro_fans := (ro_fans r)[i := \<lparr>fan_keys = remove1 c (fan_keys f), fan_owed = fan_owed f - 1\<rparr>]\<rparr>))"

text \<open>
  Fan \<open>i\<close> ends (its channel closed, or the context ended): the deferred loop releases what
  the batch never delivered.
\<close>

definition fan_end :: "nat \<Rightarrow> want_pool \<Rightarrow> 'c rolling \<Rightarrow> want_pool \<times> 'c rolling" where
  "fan_end i p r =
     (let k = fan_owed (ro_fans r ! i) in
      ((pool_release ^^ k) p,
       r\<lparr>ro_held := ro_held r - k, ro_fans := take i (ro_fans r) @ drop (Suc i) (ro_fans r)\<rparr>))"

section \<open>Any number of fetches and the controller\<close>

record 'c pool_sys =
  ps_pool :: want_pool
  ps_fetch :: "'c rolling list"

inductive pool_step :: "nat \<Rightarrow> 'c pool_sys \<Rightarrow> 'c pool_sys \<Rightarrow> bool" for batch where
  ps_start: "distinct need \<Longrightarrow>
    pool_step batch s (s\<lparr>ps_fetch := ps_fetch s @ [new_rolling need]\<rparr>)"
| ps_produce: "i < length (ps_fetch s) \<Longrightarrow> produce batch (ps_pool s) (ps_fetch s ! i) = Some (p, r) \<Longrightarrow>
    pool_step batch s (s\<lparr>ps_pool := p, ps_fetch := (ps_fetch s)[i := r]\<rparr>)"
| ps_deliver: "i < length (ps_fetch s) \<Longrightarrow> j < length (ro_fans (ps_fetch s ! i)) \<Longrightarrow>
    c \<in> set (fan_keys (ro_fans (ps_fetch s ! i) ! j)) \<Longrightarrow>
    fan_deliver j c (ps_pool s) (ps_fetch s ! i) = (p, r) \<Longrightarrow>
    pool_step batch s (s\<lparr>ps_pool := p, ps_fetch := (ps_fetch s)[i := r]\<rparr>)"
| ps_end: "i < length (ps_fetch s) \<Longrightarrow> j < length (ro_fans (ps_fetch s ! i)) \<Longrightarrow>
    fan_end j (ps_pool s) (ps_fetch s ! i) = (p, r) \<Longrightarrow>
    pool_step batch s (s\<lparr>ps_pool := p, ps_fetch := (ps_fetch s)[i := r]\<rparr>)"
| ps_control: "pool_step_rate dt (ps_pool s) = Some p \<Longrightarrow> pool_step batch s (s\<lparr>ps_pool := p\<rparr>)"
| ps_restore: "setLimitLocked n (ps_pool s) = Some p \<Longrightarrow> pool_step batch s (s\<lparr>ps_pool := p\<rparr>)"

definition pool_init :: "'c pool_sys \<Rightarrow> bool" where
  "pool_init s \<longleftrightarrow> s = \<lparr>ps_pool = newWantPool wantBudget, ps_fetch = []\<rparr>"

section \<open>Invariant\<close>

definition fan_ok :: "'c fan_state \<Rightarrow> bool" where
  "fan_ok f \<longleftrightarrow> fan_owed f = length (fan_keys f)"

definition rolling_ok :: "'c rolling \<Rightarrow> bool" where
  "rolling_ok r \<longleftrightarrow> list_all fan_ok (ro_fans r) \<and> ro_held r = sum_list (map fan_owed (ro_fans r)) \<and>
     ro_held r \<le> maxPerFetch \<and>
     distinct (ro_out r @ concat (map fan_keys (ro_fans r)) @ ro_need r)"

definition pool_ok :: "want_pool \<Rightarrow> nat \<Rightarrow> bool" where
  "pool_ok p held \<longleftrightarrow> wp_tokens p + wp_parked p + held = wp_size p"

definition pool_inv :: "'c pool_sys \<Rightarrow> bool" where
  "pool_inv s \<longleftrightarrow> wp_size (ps_pool s) = wantBudget \<and>
     pool_ok (ps_pool s) (sum_list (map ro_held (ps_fetch s))) \<and> list_all rolling_ok (ps_fetch s)"

lemma maxPerFetch_pos: "1 \<le> perFetch p" "perFetch p \<le> maxPerFetch"
  by (auto simp: perFetch_def Let_def maxPerFetch_def wantBudget_def)

text \<open>The controller's first send never blocks while the tokens are accounted for.\<close>

lemma unpark_ok:
  "pool_ok p h \<Longrightarrow> \<exists>p'. unpark n p = Some p' \<and> pool_ok p' h \<and> wp_size p' = wp_size p \<and>
     wp_delivered p' = wp_delivered p \<and> wp_rate p' = wp_rate p \<and>
     (wp_parked p' = 0 \<or> n \<le> int (wp_size p) - int (wp_parked p'))"
proof (induction n p rule: unpark.induct)
  case (1 n p)
  show ?case
  proof (cases "int (wp_size p) - int (wp_parked p) < n \<and> wp_parked p > 0")
    case True
    moreover have "wp_tokens p < wp_size p" using True "1.prems" by (simp add: pool_ok_def)
    moreover have "pool_ok (p\<lparr>wp_tokens := wp_tokens p + 1, wp_parked := wp_parked p - 1\<rparr>) h"
      using True "1.prems" by (simp add: pool_ok_def)
    ultimately show ?thesis using "1.IH" by (simp add: unpark.simps[of n p])
  next
    case False
    with "1.prems" show ?thesis by (auto simp: unpark.simps[of n p])
  qed
qed

lemma park_ok:
  "pool_ok p h \<Longrightarrow> pool_ok (park n p) h \<and> wp_size (park n p) = wp_size p \<and>
     wp_delivered (park n p) = wp_delivered p \<and> wp_rate (park n p) = wp_rate p \<and>
     (int (wp_size p) - int (wp_parked (park n p)) \<le> n \<or> wp_tokens (park n p) = 0) \<and>
     (n \<le> int (wp_size p) - int (wp_parked p) \<longrightarrow> n \<le> int (wp_size p) - int (wp_parked (park n p)))"
proof (induction n p rule: park.induct)
  case (1 n p)
  show ?case
  proof (cases "int (wp_size p) - int (wp_parked p) > n \<and> fst (tryAcquire p)")
    case True
    then have t: "snd (tryAcquire p) = p\<lparr>wp_tokens := wp_tokens p - 1\<rparr>" "wp_tokens p > 0"
      by (auto simp: tryAcquire_def split: if_splits)
    then have "pool_ok ((snd (tryAcquire p))\<lparr>wp_parked := wp_parked p + 1\<rparr>) h"
      using "1.prems" by (simp add: pool_ok_def)
    with True t "1.IH" show ?thesis by (auto simp: park.simps[of n p])
  next
    case False
    with "1.prems" show ?thesis
      by (auto simp: park.simps[of n p] tryAcquire_def split: if_splits)
  qed
qed

lemma setLimitLocked_ok:
  assumes "pool_ok p h"
  shows "\<exists>p'. setLimitLocked n p = Some p' \<and> pool_ok p' h \<and> wp_size p' = wp_size p"
proof -
  let ?n = "if n < wantFloor then wantFloor else n"
  obtain p1 where p1: "unpark ?n p = Some p1" "pool_ok p1 h" "wp_size p1 = wp_size p"
    using unpark_ok[OF assms] by blast
  with park_ok[OF p1(2), of ?n] show ?thesis
    by (auto simp: setLimitLocked_def Let_def pool_ok_def)
qed

lemma pool_step_rate_ok:
  assumes "pool_ok p h"
  shows "\<exists>p'. pool_step_rate dt p = Some p' \<and> pool_ok p' h \<and> wp_size p' = wp_size p"
proof (cases "dt \<le> 0")
  case False
  have "pool_ok (p\<lparr>wp_delivered := 0, wp_rate := r\<rparr>) h" for r
    using assms by (simp add: pool_ok_def)
  from setLimitLocked_ok[OF this] False show ?thesis by (simp add: pool_step_rate_def Let_def)
qed (use assms in \<open>simp add: pool_step_rate_def\<close>)


lemma tryAcquire_ok:
  assumes "fst (tryAcquire p)" "pool_ok p h"
  shows "pool_ok (snd (tryAcquire p)) (h + 1)" "wp_size (snd (tryAcquire p)) = wp_size p"
    "perFetch (snd (tryAcquire p)) = perFetch p"
  using assms by (auto simp: tryAcquire_def pool_ok_def perFetch_def Let_def split: if_splits)

lemma pool_release_size [simp]: "wp_size (pool_release p) = wp_size p"
  by (simp add: pool_release_def)

lemma pool_release_ok:
  "pool_ok p (Suc h) \<Longrightarrow> pool_ok (pool_release p) h \<and> wp_size (pool_release p) = wp_size p"
  by (auto simp: pool_release_def pool_ok_def)

lemma pool_release_pow_ok:
  "pool_ok p (k + h) \<Longrightarrow> pool_ok ((pool_release ^^ k) p) h \<and> wp_size ((pool_release ^^ k) p) = wp_size p"
proof (induction k arbitrary: h)
  case (Suc k)
  then show ?case using Suc.IH[of "Suc h"] pool_release_ok by simp
qed simp

lemma top_up_ok:
  assumes "top_up batch left held got p = (g, p')" "pool_ok p (h + got)" "got \<le> left" "held \<le> perFetch p"
  shows "pool_ok p' (h + g) \<and> wp_size p' = wp_size p \<and> got \<le> g \<and> g \<le> left \<and> held + g \<le> perFetch p + got"
  using assms
proof (induction batch left held got p rule: top_up.induct)
  case (1 b l hd gt p)
  show ?case
  proof (cases "gt < b \<and> gt < l \<and> hd < perFetch p \<and> fst (tryAcquire p)")
    case True
    note acq = tryAcquire_ok[of p "h + gt"]
    have rec: "top_up b l (hd + 1) (gt + 1) (snd (tryAcquire p)) = (g, p')"
      using True "1.prems"(1) by (simp add: top_up.simps[of b l hd gt p])
    have ih: "pool_ok p' (h + g) \<and> wp_size p' = wp_size (snd (tryAcquire p)) \<and> gt + 1 \<le> g \<and> g \<le> l \<and>
        hd + 1 + g \<le> perFetch (snd (tryAcquire p)) + (gt + 1)"
      using True rec "1.prems" acq by (intro "1.IH") auto
    with True acq "1.prems"(2) show ?thesis by simp
  next
    case False
    then have "top_up b l hd gt p = (gt, p)"
      by (subst top_up.simps) (simp only: if_False)
    with "1.prems" show ?thesis by simp
  qed
qed

lemma produce_ok:
  assumes "produce batch p r = Some (p', r')" "rolling_ok r" "pool_ok p (h + ro_held r)"
  shows "rolling_ok r' \<and> pool_ok p' (h + ro_held r') \<and> wp_size p' = wp_size p"
proof -
  let ?p1 = "snd (tryAcquire p)"
  obtain g where g: "top_up batch (length (ro_need r)) (ro_held r + 1) 1 ?p1 = (g, p')"
    and r': "r' = r\<lparr>ro_need := drop g (ro_need r), ro_held := ro_held r + g,
        ro_fans := ro_fans r @ [\<lparr>fan_keys = take g (ro_need r), fan_owed = g\<rparr>]\<rparr>"
    and en: "ro_need r \<noteq> []" "ro_held r < perFetch p" "fst (tryAcquire p)"
    using assms(1) by (auto simp: produce_def Let_def split: if_splits prod.splits)
  note acq = tryAcquire_ok[OF en(3) assms(3)]
  have "1 \<le> length (ro_need r)" using en(1) by (simp add: Suc_leI)
  then have ok: "pool_ok p' (h + ro_held r + g)" "wp_size p' = wp_size p" "g \<le> length (ro_need r)"
    "ro_held r + g \<le> perFetch p"
    using top_up_ok[OF g, of "h + ro_held r"] acq en(2) by auto
  have "concat (map fan_keys (ro_fans r)) @ take g (ro_need r) @ drop g (ro_need r)
      = concat (map fan_keys (ro_fans r)) @ ro_need r" by simp
  then have "distinct (ro_out r' @ concat (map fan_keys (ro_fans r')) @ ro_need r')"
    using assms(2) r' by (simp add: rolling_ok_def)
  with ok maxPerFetch_pos(2)[of p] assms(2) r' show ?thesis
    by (auto simp: rolling_ok_def fan_ok_def add.assoc)
qed

lemma split_at: "j < length xs \<Longrightarrow> \<exists>a b. xs = a @ xs ! j # b \<and> length a = j"
  by (intro exI[of _ "take j xs"] exI[of _ "drop (Suc j) xs"]) (simp add: id_take_nth_drop)

lemma fan_deliver_ok:
  assumes "fan_deliver j c p r = (p', r')" "j < length (ro_fans r)" "c \<in> set (fan_keys (ro_fans r ! j))"
    and "rolling_ok r" "pool_ok p (h + ro_held r)"
  shows "rolling_ok r' \<and> pool_ok p' (h + ro_held r') \<and> wp_size p' = wp_size p"
proof -
  obtain a b where ab: "ro_fans r = a @ ro_fans r ! j # b" "length a = j"
    using split_at[OF assms(2)] by blast
  define f where "f = ro_fans r ! j"
  define g where "g = \<lparr>fan_keys = remove1 c (fan_keys f), fan_owed = fan_owed f - 1\<rparr>"
  have fans: "ro_fans r = a @ f # b" using ab(1) by (simp only: f_def)
  have upd: "(ro_fans r)[j := g] = a @ g # b" using fans ab(2) by (simp add: list_update_append)
  have c: "c \<in> set (fan_keys f)" using assms(3) by (simp only: f_def)
  have f: "fan_ok f" "list_all fan_ok a" "list_all fan_ok b"
    using assms(4) fans by (auto simp: rolling_ok_def)
  from f c have pos: "1 \<le> fan_owed f"
    by (cases "fan_keys f") (auto simp: fan_ok_def)
  then have held: "ro_held r = Suc (ro_held r - 1)"
    using assms(4) fans by (simp add: rolling_ok_def)
  have d: "distinct (ro_out r @ concat (map fan_keys a) @ fan_keys f @ concat (map fan_keys b) @ ro_need r)"
    using assms(4) fans by (simp add: rolling_ok_def)
  have r': "r' = r\<lparr>ro_held := ro_held r - 1, ro_out := ro_out r @ [c], ro_fans := a @ g # b\<rparr>"
    and p': "p' = (pool_release p)\<lparr>wp_delivered := wp_delivered (pool_release p) + 1\<rparr>"
    using assms(1) upd by (auto simp: fan_deliver_def Let_def g_def f_def[symmetric])
  have "distinct (ro_out r' @ concat (map fan_keys (ro_fans r')) @ ro_need r')"
    using d c by (auto simp: r' g_def)
  moreover have "fan_ok g" using f(1) c by (simp add: fan_ok_def g_def length_remove1)
  moreover have "ro_held r' = sum_list (map fan_owed (ro_fans r'))"
    using assms(4) fans pos by (simp add: rolling_ok_def r' g_def)
  ultimately have "rolling_ok r'" using f assms(4) by (auto simp: rolling_ok_def r')
  moreover have "pool_ok (pool_release p) (h + (ro_held r - 1))" "wp_size (pool_release p) = wp_size p"
    using pool_release_ok[of p "h + (ro_held r - 1)"] assms(5) held by simp_all
  ultimately show ?thesis by (auto simp: r' p' pool_ok_def)
qed

lemma fan_end_ok:
  assumes "fan_end j p r = (p', r')" "j < length (ro_fans r)" "rolling_ok r" "pool_ok p (h + ro_held r)"
  shows "rolling_ok r' \<and> pool_ok p' (h + ro_held r') \<and> wp_size p' = wp_size p"
proof -
  obtain a b where ab: "ro_fans r = a @ ro_fans r ! j # b" "length a = j"
    using split_at[OF assms(2)] by blast
  define f where "f = ro_fans r ! j"
  have fans: "ro_fans r = a @ f # b" using ab(1) by (simp only: f_def)
  have r': "r' = r\<lparr>ro_held := ro_held r - fan_owed f, ro_fans := a @ b\<rparr>"
    and p': "p' = (pool_release ^^ fan_owed f) p"
    using assms(1) fans ab(2) by (auto simp: fan_end_def Let_def f_def[symmetric])
  have le: "ro_held r = fan_owed f + (ro_held r - fan_owed f)"
    using assms(3) fans by (simp add: rolling_ok_def)
  have "rolling_ok r'" using assms(3) fans by (auto simp: rolling_ok_def r')
  moreover have "pool_ok p (fan_owed f + (h + (ro_held r - fan_owed f)))"
    using assms(4) le by (metis add.left_commute)
  ultimately show ?thesis using pool_release_pow_ok by (simp add: r' p')
qed

text \<open>A step of one fetch is a step of the sum.\<close>

lemma sum_list_nth_update:
  fixes xs :: "nat list"
  assumes "i < length xs"
  shows "\<exists>h. sum_list xs = h + xs ! i \<and> (\<forall>v. sum_list (xs[i := v]) = h + v)"
proof -
  obtain a b where ab: "xs = a @ xs ! i # b" "length a = i" using split_at[OF assms] by blast
  define x where "x = xs ! i"
  have xs: "xs = a @ x # b" using ab(1) by (simp only: x_def)
  have "xs[i := v] = a @ v # b" for v using xs ab(2) by (simp add: list_update_append)
  then show ?thesis using xs ab(2)
    by (intro exI[of _ "sum_list a + sum_list b"]) (auto simp: nth_append)
qed

lemma pool_inv_fetch:
  assumes "pool_inv s" "i < length (ps_fetch s)"
    and "\<And>h. rolling_ok (ps_fetch s ! i) \<Longrightarrow> pool_ok (ps_pool s) (h + ro_held (ps_fetch s ! i)) \<Longrightarrow>
      rolling_ok r \<and> pool_ok p (h + ro_held r) \<and> wp_size p = wp_size (ps_pool s)"
  shows "pool_inv (s\<lparr>ps_pool := p, ps_fetch := (ps_fetch s)[i := r]\<rparr>)"
proof -
  obtain h where h: "sum_list (map ro_held (ps_fetch s)) = h + ro_held (ps_fetch s ! i)"
    "\<And>v. sum_list ((map ro_held (ps_fetch s))[i := v]) = h + v"
    using sum_list_nth_update[of i "map ro_held (ps_fetch s)"] assms(2) by auto
  have "rolling_ok (ps_fetch s ! i)" using assms(1,2) by (simp add: pool_inv_def list_all_length)
  moreover have "pool_ok (ps_pool s) (h + ro_held (ps_fetch s ! i))"
    using assms(1) h(1) by (simp add: pool_inv_def)
  ultimately have new: "rolling_ok r \<and> pool_ok p (h + ro_held r) \<and> wp_size p = wp_size (ps_pool s)"
    by (rule assms(3))
  have "list_all rolling_ok ((ps_fetch s)[i := r])"
    using new assms(1) by (auto simp: pool_inv_def list_all_iff dest!: set_update_subset_insert[THEN subsetD])
  with new h(2) assms(1) show ?thesis by (simp add: pool_inv_def map_update)
qed

lemma pool_inv_init: "pool_init s \<Longrightarrow> pool_inv s"
  by (simp add: pool_init_def pool_inv_def newWantPool_def pool_ok_def)

lemma pool_inv_step:
  assumes "pool_inv s" "pool_step batch s t"
  shows "pool_inv t"
  using assms(2)
proof (cases rule: pool_step.cases)
  case (ps_start need)
  with assms(1) show ?thesis
    by (simp add: pool_inv_def new_rolling_def rolling_ok_def maxPerFetch_def wantBudget_def)
next
  case (ps_produce i p r)
  with assms(1) show ?thesis by (auto intro!: pool_inv_fetch dest: produce_ok)
next
  case (ps_deliver i j c p r)
  then show ?thesis
    using fan_deliver_ok[of j c "ps_pool s" "ps_fetch s ! i" p r] assms(1)
    by (auto intro!: pool_inv_fetch)
next
  case (ps_end i j p r)
  then show ?thesis
    using fan_end_ok[of j "ps_pool s" "ps_fetch s ! i" p r] assms(1)
    by (auto intro!: pool_inv_fetch)
next
  case (ps_control dt p)
  with assms(1) pool_step_rate_ok[of "ps_pool s" "sum_list (map ro_held (ps_fetch s))" dt]
  show ?thesis by (auto simp: pool_inv_def)
next
  case (ps_restore n p)
  with assms(1) setLimitLocked_ok[of "ps_pool s" "sum_list (map ro_held (ps_fetch s))" n]
  show ?thesis by (auto simp: pool_inv_def)
qed

interpretation wpool: step_invariant pool_init "pool_step batch" pool_inv for batch
  by unfold_locales (auto intro: pool_inv_init pool_inv_step)


section \<open>Properties\<close>

text \<open>A run of one fetch of two keys: it takes both tokens, then the first block lands.\<close>

definition pool_run0 :: "nat pool_sys" where
  "pool_run0 = \<lparr>ps_pool = newWantPool wantBudget, ps_fetch = [new_rolling [7, 9]]\<rparr>"

definition pool_run1 :: "nat pool_sys" where
  "pool_run1 = \<lparr>ps_pool = (newWantPool wantBudget)\<lparr>wp_tokens := 766\<rparr>,
     ps_fetch = [\<lparr>ro_need = [], ro_held = 2, ro_fans = [\<lparr>fan_keys = [7, 9], fan_owed = 2\<rparr>], ro_out = []\<rparr>]\<rparr>"

lemma pool_run1_reachable: "reachable pool_init (pool_step 32) pool_run1"
proof -
  let ?s = "\<lparr>ps_pool = newWantPool wantBudget, ps_fetch = []\<rparr> :: nat pool_sys"
  have "reachable pool_init (pool_step 32) ?s" by (rule reach_init) (simp add: pool_init_def)
  moreover have "pool_step 32 ?s pool_run0"
    using ps_start[of "[7, 9]" 32 ?s] by (simp add: pool_run0_def)
  moreover have "pool_step 32 pool_run0 pool_run1"
  proof -
    have "produce 32 (ps_pool pool_run0) (ps_fetch pool_run0 ! 0) =
        Some ((newWantPool wantBudget)\<lparr>wp_tokens := 766\<rparr>, hd (ps_fetch pool_run1))"
      by (simp add: produce_def tryAcquire_def pool_run0_def pool_run1_def newWantPool_def wantBudget_def
          new_rolling_def perFetch_def maxPerFetch_def top_up.simps)
    from ps_produce[OF _ this] show ?thesis
      by (simp add: pool_run0_def pool_run1_def)
  qed
  ultimately show ?thesis by (meson reach_step)
qed

text \<open>
  C34. The want budget is a hard cap: in every interleaving of any number of fetches with the
  controller, the wants outstanding (the keys requested and not yet delivered, over all
  fetches) are exactly the tokens taken, never more than 768, so under the 1024 a peer
  accepts; no fetch holds more than half the budget; and no token is lost or made.
\<close>

theorem want_budget_cap:
  assumes "reachable pool_init (pool_step batch) s"
  defines "outstanding \<equiv> (\<lambda>r. length (concat (map fan_keys (ro_fans r))))"
  shows "sum_list (map outstanding (ps_fetch s)) \<le> wantBudget \<and> wantBudget < 1024 \<and>
    wp_tokens (ps_pool s) + wp_parked (ps_pool s) + sum_list (map outstanding (ps_fetch s)) = wantBudget \<and>
    (\<forall>r \<in> set (ps_fetch s). outstanding r = ro_held r \<and> 2 * ro_held r \<le> wantBudget)"
proof -
  have inv: "pool_inv s" using assms(1) by (rule wpool.reachable_inv)
  have out: "outstanding r = ro_held r" if "rolling_ok r" for r
  proof -
    have "map (length \<circ> fan_keys) (ro_fans r) = map fan_owed (ro_fans r)"
      using that by (auto simp: rolling_ok_def fan_ok_def list_all_iff)
    then have "sum_list (map (length \<circ> fan_keys) (ro_fans r)) = sum_list (map fan_owed (ro_fans r))"
      by (rule arg_cong)
    then show ?thesis using that by (simp only: outstanding_def rolling_ok_def length_concat map_map)
  qed
  then have "map outstanding (ps_fetch s) = map ro_held (ps_fetch s)"
    using inv by (auto simp: pool_inv_def list_all_iff)
  then have sums: "sum_list (map outstanding (ps_fetch s)) = sum_list (map ro_held (ps_fetch s))"
    by (rule arg_cong)
  have "2 * ro_held r \<le> wantBudget" if "r \<in> set (ps_fetch s)" for r
    using inv that by (auto simp: pool_inv_def list_all_iff rolling_ok_def maxPerFetch_def wantBudget_def)
  then show ?thesis
    unfolding sums using inv out by (auto simp: pool_inv_def pool_ok_def list_all_iff wantBudget_def)
qed

theorem want_budget_cap_witness:
  "wp_tokens (ps_pool pool_run1) + wp_parked (ps_pool pool_run1) + 2 = wantBudget"
  using want_budget_cap[OF pool_run1_reachable] by (simp add: pool_run1_def)

text \<open>
  The controller never blocks while it holds the pool's mutex, and it is exact: while
  \<open>h\<close> tokens are in use, \<open>setLimit n\<close> leaves the number circulating at \<open>n\<close> raised to the
  floor and cut to the pool's size, or at \<open>h\<close> where more than that are in use; every other
  one is parked.
\<close>

theorem set_limit_exact:
  assumes "wp_tokens p + wp_parked p + h = wp_size p"
  shows "\<exists>p'. setLimitLocked n p = Some p' \<and> wp_tokens p' + wp_parked p' + h = wp_size p \<and>
    int (wp_limit p') = max (min (max n wantFloor) (int (wp_size p))) (int h) \<and>
    wp_limit p' + wp_parked p' = wp_size p"
proof -
  let ?n = "if n < wantFloor then wantFloor else n"
  have ok: "pool_ok p h" using assms by (simp add: pool_ok_def)
  obtain p1 where p1: "unpark ?n p = Some p1" "pool_ok p1 h" "wp_size p1 = wp_size p"
    "wp_parked p1 = 0 \<or> ?n \<le> int (wp_size p) - int (wp_parked p1)"
    using unpark_ok[OF ok] by blast
  define p2 where "p2 = park ?n p1"
  have p2: "pool_ok p2 h" "wp_size p2 = wp_size p"
    "int (wp_size p) - int (wp_parked p2) \<le> ?n \<or> wp_tokens p2 = 0"
    "?n \<le> int (wp_size p) - int (wp_parked p1) \<longrightarrow> ?n \<le> int (wp_size p) - int (wp_parked p2)"
    using park_ok[OF p1(2), of ?n] p1(3) by (simp_all add: p2_def)
  have park0: "wp_parked p2 = 0" if "wp_parked p1 = 0" "int (wp_size p) < ?n"
    using that p1(3) by (simp add: p2_def park.simps[of ?n p1])
  have set: "setLimitLocked n p = Some (p2\<lparr>wp_limit := wp_size p2 - wp_parked p2\<rparr>)"
    using p1(1) by (simp add: setLimitLocked_def Let_def p2_def)
  have "?n = max n wantFloor" by (simp add: max_def)
  moreover have "int (wp_size p) - int (wp_parked p2) =
      max (min ?n (int (wp_size p))) (int h)"
    using p1(4) p2 park0 by (auto simp: pool_ok_def max_def min_def)
  ultimately show ?thesis
    using set p2(1,2) by (intro exI[of _ "p2\<lparr>wp_limit := wp_size p2 - wp_parked p2\<rparr>"])
      (auto simp: pool_ok_def)
qed

theorem set_limit_exact_witness:
  "\<exists>p'. setLimitLocked 40 ((newWantPool 768)\<lparr>wp_tokens := 668\<rparr>) = Some p' \<and> wp_limit p' = 100"
  using set_limit_exact[of "(newWantPool 768)\<lparr>wp_tokens := 668\<rparr>" 100 40]
  by (auto simp: newWantPool_def wantFloor_def)

text \<open>
  A rolling fetch asks for every key at most once and hands every block on at most once:
  what it delivered, what it still awaits and what it has not requested are disjoint.
\<close>

theorem rolling_no_duplicates:
  assumes "reachable pool_init (pool_step batch) s" "r \<in> set (ps_fetch s)"
  shows "distinct (ro_out r @ concat (map fan_keys (ro_fans r)) @ ro_need r)"
proof -
  have "pool_inv s" using assms(1) by (rule wpool.reachable_inv)
  with assms(2) show ?thesis by (simp add: pool_inv_def list_all_iff rolling_ok_def)
qed

theorem rolling_no_duplicates_witness:
  "distinct (concat (map fan_keys (ro_fans (hd (ps_fetch pool_run1)))))"
  using rolling_no_duplicates[OF pool_run1_reachable, of "hd (ps_fetch pool_run1)"]
  by (simp add: pool_run1_def)

end
