(* ===== verification/Quarantine.thy ===== *)
theory Quarantine
  imports Prelude "HOL-Library.AList"
begin

text \<open>
  \<open>quarantine.go\<close>: the wrapper of the bitswap network that takes a peer sitting on our
  want-blocks out of the client's rotation. The ledger and the net are the Go structs; a map
  that is iterated is an association list (its ledger fields) or comes with the order of the
  iteration as an argument (peers and records: Go leaves it open). Peers and CIDs are type
  parameters. A handler returns what it tells the client, the server and the Bitswap behind
  it, in order. The lock \<open>dmu\<close> makes handlers and moves atomic, so a run is a sequence of
  them.
\<close>

section \<open>Messages\<close>

text \<open>What the code reads of a \<open>BitSwapMessage\<close> and its wantlist entries.\<close>

record 'c wl_entry =
  we_cid :: 'c
  we_cancel :: bool
  we_block :: bool          \<comment> \<open>\<open>WantType == Block\<close>\<close>
  we_priority :: int
  we_sendDontHave :: bool

record 'c bs_msg =
  m_full :: bool
  m_wantlist :: "'c wl_entry list"
  m_blocks :: "('c \<times> bytes) list"
  m_haves :: "'c list"
  m_dontHaves :: "'c list"
  m_pending :: int

text \<open>A cancel entry as \<open>bsmsg.Cancel\<close> builds it.\<close>

definition cancel_entry :: "'c \<Rightarrow> 'c wl_entry" where
  "cancel_entry c = \<lparr>we_cid = c, we_cancel = True, we_block = True, we_priority = 0, we_sendDontHave = False\<rparr>"

definition wantsOnly :: "'c bs_msg \<Rightarrow> 'c bs_msg" where
  "wantsOnly m = \<lparr>m_full = m_full m,
     m_wantlist = map (\<lambda>e. if we_cancel e then cancel_entry (we_cid e) else e) (m_wantlist m),
     m_blocks = [], m_haves = [], m_dontHaves = [], m_pending = 0\<rparr>"

definition withoutHaves :: "'c bs_msg \<Rightarrow> 'c bs_msg" where
  "withoutHaves m = (wantsOnly m)\<lparr>m_blocks := m_blocks m, m_dontHaves := m_dontHaves m, m_pending := m_pending m\<rparr>"

section \<open>State\<close>

definition quarantineAfter :: nanos where "quarantineAfter = seconds 3"
definition quarantineMaxHold :: nanos where "quarantineMaxHold = seconds 10"
definition quarantineCool :: nanos where "quarantineCool = seconds 30"
definition quarantineMaxCool :: nanos where "quarantineMaxCool = minutes 10"
definition quarantineForget :: nanos where "quarantineForget = minutes 60"

text \<open>Zero times (\<open>IsZero\<close>) are \<open>None\<close>.\<close>

record 'c peer_ledger =
  l_wanted :: "('c \<times> nanos) list"
  l_asked :: "'c set"
  l_owed :: "('c \<times> bool) list"
  l_denied :: bool
  l_lastBlock :: "nanos option"
  l_gap :: nanos
  l_progress :: nanos
  l_until :: "nanos option"
  l_probation :: bool
  l_linked :: bool

record peer_record =
  r_strikes :: nat
  r_last :: nanos

record ('p, 'c) qnet =
  q_peers :: "'p \<rightharpoonup> 'c peer_ledger"
  q_records :: "'p \<rightharpoonup> peer_record"
  q_haves :: "'c \<rightharpoonup> 'p set"
  q_client :: bool    \<comment> \<open>\<open>Start\<close> found a Bitswap\<close>
  q_server :: bool    \<comment> \<open>\<dots> that has a server\<close>

definition newQuarantineNet :: "('p, 'c) qnet" where
  "newQuarantineNet = \<lparr>q_peers = Map.empty, q_records = Map.empty, q_haves = Map.empty,
     q_client = False, q_server = False\<rparr>"

definition start_net :: "bool \<Rightarrow> ('p, 'c) qnet \<Rightarrow> ('p, 'c) qnet" where
  "start_net has_server q = q\<lparr>q_client := True, q_server := q_server q \<or> has_server\<rparr>"

definition new_ledger :: "nanos \<Rightarrow> 'c peer_ledger" where
  "new_ledger now = \<lparr>l_wanted = [], l_asked = {}, l_owed = [], l_denied = False, l_lastBlock = None,
     l_gap = 0, l_progress = now, l_until = None, l_probation = False, l_linked = False\<rparr>"

definition ledger :: "nanos \<Rightarrow> ('p, 'c) qnet \<Rightarrow> 'p \<Rightarrow> 'c peer_ledger" where
  "ledger now q p = (case q_peers q p of Some l \<Rightarrow> l | None \<Rightarrow> new_ledger now)"

abbreviation put_ledger :: "'p \<Rightarrow> 'c peer_ledger \<Rightarrow> ('p, 'c) qnet \<Rightarrow> ('p, 'c) qnet" where
  "put_ledger p l q \<equiv> q\<lparr>q_peers := (q_peers q)(p \<mapsto> l)\<rparr>"

definition hold_time :: "'c peer_ledger \<Rightarrow> nanos" where
  "hold_time l =
     (let d = 3 * l_gap l in
      if d < quarantineAfter then quarantineAfter
      else if d > quarantineMaxHold then quarantineMaxHold else d)"

definition held :: "'c peer_ledger \<Rightarrow> nanos \<Rightarrow> bool" where
  "held l t = (case l_until l of None \<Rightarrow> False | Some u \<Rightarrow> t < u)"

definition outAt :: "'c peer_ledger \<Rightarrow> nanos \<Rightarrow> bool" where
  "outAt l t \<longleftrightarrow> \<not> l_probation l \<and> held l t"

definition out_now :: "nanos \<Rightarrow> ('p, 'c) qnet \<Rightarrow> 'p \<Rightarrow> bool" where
  "out_now now q p = (case q_peers q p of None \<Rightarrow> False | Some l \<Rightarrow> outAt l now)"

section \<open>Offers\<close>

definition offeredElsewhere :: "('p, 'c) qnet \<Rightarrow> 'c \<Rightarrow> 'p \<Rightarrow> bool" where
  "offeredElsewhere q c p = (case q_haves q c of None \<Rightarrow> False | Some who \<Rightarrow> \<exists>o' \<in> who. o' \<noteq> p)"

definition drop_offer :: "'p \<Rightarrow> 'p set option \<Rightarrow> 'p set option" where
  "drop_offer p h =
     (case h of None \<Rightarrow> None | Some who \<Rightarrow> (let w = who - {p} in if w = {} then None else Some w))"

definition forgetHave :: "'c \<Rightarrow> 'p \<Rightarrow> ('p, 'c) qnet \<Rightarrow> ('p, 'c) qnet" where
  "forgetHave c p q = q\<lparr>q_haves := (q_haves q)(c := drop_offer p (q_haves q c))\<rparr>"

text \<open>\<open>dropAsked\<close>: \<open>forgetHave\<close> of every want asked; the ledger's \<open>asked\<close> is cleared by the caller's copy.\<close>

definition dropAsked :: "'p \<Rightarrow> 'c peer_ledger \<Rightarrow> ('p, 'c) qnet \<Rightarrow> ('p, 'c) qnet \<times> 'c peer_ledger" where
  "dropAsked p l q =
     (q\<lparr>q_haves := (\<lambda>c. if c \<in> l_asked l then drop_offer p (q_haves q c) else q_haves q c)\<rparr>,
      l\<lparr>l_asked := {}\<rparr>)"

section \<open>The tick\<close>

text \<open>\<open>quarantineCool << (strikes - 1)\<close> on a 64-bit signed duration, capped, wrap-around included.\<close>

definition cooldown :: "nat \<Rightarrow> nanos" where
  "cooldown strikes =
     (let cool = sint (push_bit (strikes - 1) (word_of_int quarantineCool :: 64 word)) in
      if cool > quarantineMaxCool \<or> cool \<le> 0 then quarantineMaxCool else cool)"

definition put_out :: "nanos \<Rightarrow> 'p \<Rightarrow> 'c peer_ledger \<Rightarrow> ('p, 'c) qnet \<Rightarrow> ('p, 'c) qnet" where
  "put_out now p l q =
     (let r0 = (case q_records q p of None \<Rightarrow> \<lparr>r_strikes = 0, r_last = 0\<rparr> | Some r \<Rightarrow> r);
          r = r0\<lparr>r_strikes := r_strikes r0 + 1, r_last := now\<rparr>;
          said = (\<lambda>c. case q_haves q c of None \<Rightarrow> False | Some who \<Rightarrow> p \<in> who);
          l1 = l\<lparr>l_until := Some (now + cooldown (r_strikes r)), l_probation := False, l_denied := False,
                 l_owed := fold (\<lambda>(c, t) ow. AList.update c (said c) ow) (l_wanted l) (l_owed l),
                 l_wanted := []\<rparr>;
          (q2, l2) = dropAsked p l1 (q\<lparr>q_records := (q_records q)(p \<mapsto> r)\<rparr>)
      in put_ledger p l2 q2)"

text \<open>Who goes out, who comes back from out, whose probation ends.\<close>

record 'p moves =
  mv_outs :: "'p list"
  mv_backs :: "'p list"
  mv_ends :: "'p list"

definition sits :: "nanos \<Rightarrow> 'p \<Rightarrow> 'c peer_ledger \<Rightarrow> ('p, 'c) qnet \<Rightarrow> bool" where
  "sits now p l q =
     (let hold = hold_time l; old = filter (\<lambda>(c, t). \<not> now - t < hold) (l_wanted l) in
      length old > 0 \<and> list_ex (\<lambda>(c, t). offeredElsewhere q c p) old)"

definition scan_peer ::
    "bool \<Rightarrow> nanos \<Rightarrow> 'p \<Rightarrow> ('p, 'c) qnet \<times> 'p moves \<Rightarrow> ('p, 'c) qnet \<times> 'p moves" where
  "scan_peer apply_it now p qm =
     (let (q, mv) = qm in
      case q_peers q p of None \<Rightarrow> (q, mv)
      | Some l \<Rightarrow>
          if \<not> l_linked l \<and> \<not> held l now then (q\<lparr>q_peers := (q_peers q)(p := None)\<rparr>, mv)
          else if l_until l \<noteq> None \<and> \<not> held l now then
            (if apply_it then put_ledger p (l\<lparr>l_until := None, l_probation := False, l_owed := []\<rparr>) q else q,
             if l_probation l then mv\<lparr>mv_ends := mv_ends mv @ [p]\<rparr> else mv\<lparr>mv_backs := mv_backs mv @ [p]\<rparr>)
          else if outAt l now \<or> length (l_wanted l) = 0 \<or> now - l_progress l < hold_time l then (q, mv)
          else if \<not> sits now p l q then (q, mv)
          else (if apply_it then put_out now p l q else q, mv\<lparr>mv_outs := mv_outs mv @ [p]\<rparr>))"

definition scan_record :: "nanos \<Rightarrow> 'p \<Rightarrow> ('p, 'c) qnet \<Rightarrow> ('p, 'c) qnet" where
  "scan_record now p q =
     (case q_records q p of None \<Rightarrow> q
      | Some r \<Rightarrow>
          if now - r_last r > quarantineForget \<and>
             (case q_peers q p of None \<Rightarrow> True | Some l \<Rightarrow> \<not> held l now)
          then q\<lparr>q_records := (q_records q)(p := None)\<rparr> else q)"

definition no_moves :: "'p moves" where
  "no_moves = \<lparr>mv_outs = [], mv_backs = [], mv_ends = []\<rparr>"

text \<open>\<open>rs\<close> and \<open>ps\<close>: the orders in which the runtime walks the records and the peers.\<close>

definition scan :: "bool \<Rightarrow> nanos \<Rightarrow> 'p list \<Rightarrow> 'p list \<Rightarrow> ('p, 'c) qnet \<Rightarrow> ('p, 'c) qnet \<times> 'p moves" where
  "scan apply_it now rs ps q = fold (scan_peer apply_it now) ps (fold (scan_record now) rs q, no_moves)"

datatype ('p, 'c) told =
    ClientConnected 'p | ClientDisconnected 'p
  | ServerConnected 'p
  | RecvConnected 'p | RecvDisconnected 'p
  | RecvMessage 'p "'c bs_msg"

text \<open>
  \<open>check\<close>: a dry scan, and, when it would move someone, the scan that moves them, under the
  exclusive lock (so at a later instant and in another order).
\<close>

definition check_net ::
    "nanos \<Rightarrow> 'p list \<Rightarrow> 'p list \<Rightarrow> nanos \<Rightarrow> 'p list \<Rightarrow> 'p list \<Rightarrow> ('p, 'c) qnet
      \<Rightarrow> ('p, 'c) told list \<times> ('p, 'c) qnet" where
  "check_net now1 rs1 ps1 now2 rs2 ps2 q =
     (let (q1, mv1) = scan False now1 rs1 ps1 q in
      if length (mv_outs mv1) + length (mv_backs mv1) + length (mv_ends mv1) = 0 then ([], q1)
      else (let (q2, mv) = scan True now2 rs2 ps2 q1 in
            if \<not> q_client q2 then ([], q2)
            else (map ClientDisconnected (mv_outs mv) @ map ClientConnected (mv_backs mv), q2)))"

section \<open>What we send and receive\<close>

definition note_entry ::
    "nanos \<Rightarrow> bool \<Rightarrow> 'p \<Rightarrow> 'c wl_entry \<Rightarrow> ('p, 'c) qnet \<times> 'c peer_ledger \<Rightarrow> ('p, 'c) qnet \<times> 'c peer_ledger" where
  "note_entry now out p e ql =
     (let (q, l) = ql; c = we_cid e in
      if we_cancel e then
        (q\<lparr>q_haves := (q_haves q)(c := None)\<rparr>,
         l\<lparr>l_wanted := AList.delete c (l_wanted l), l_asked := l_asked l - {c}\<rparr>)
      else
        (q, l\<lparr>l_asked := insert c (l_asked l),
              l_wanted := (if map_of (l_wanted l) c = None \<and> we_block e \<and> \<not> out
                           then AList.update c now (l_wanted l) else l_wanted l)\<rparr>))"

definition noteSent :: "nanos \<Rightarrow> 'p \<Rightarrow> 'c bs_msg \<Rightarrow> ('p, 'c) qnet \<Rightarrow> ('p, 'c) qnet" where
  "noteSent now p m q =
     (if length (m_wantlist m) = 0 then q
      else (let l = ledger now q p;
                out = outAt l now;
                (q1, l1) = (if m_full m then dropAsked p (l\<lparr>l_wanted := []\<rparr>) q else (q, l));
                (q2, l2) = fold (note_entry now out p) (m_wantlist m) (q1, l1)
            in put_ledger p l2 q2))"

definition note_block :: "'c \<Rightarrow> ('p, 'c) qnet \<times> 'c peer_ledger \<Rightarrow> ('p, 'c) qnet \<times> 'c peer_ledger" where
  "note_block c ql =
     (let (q, l) = ql in
      (q\<lparr>q_haves := (q_haves q)(c := None)\<rparr>,
       l\<lparr>l_wanted := AList.delete c (l_wanted l), l_asked := l_asked l - {c}\<rparr>))"

definition note_dontHave :: "'p \<Rightarrow> 'c \<Rightarrow> ('p, 'c) qnet \<times> 'c peer_ledger \<Rightarrow> ('p, 'c) qnet \<times> 'c peer_ledger" where
  "note_dontHave p c ql =
     (let (q, l) = ql in
      (forgetHave c p q, l\<lparr>l_wanted := AList.delete c (l_wanted l), l_asked := l_asked l - {c}\<rparr>))"

definition note_have :: "'p \<Rightarrow> 'c \<Rightarrow> ('p, 'c) qnet \<times> 'c peer_ledger \<Rightarrow> ('p, 'c) qnet \<times> 'c peer_ledger" where
  "note_have p c ql =
     (let (q, l) = ql in
      if c \<notin> l_asked l then (q, l)
      else (q\<lparr>q_haves := (q_haves q)(c \<mapsto> insert p (case q_haves q c of None \<Rightarrow> {} | Some who \<Rightarrow> who))\<rparr>, l))"

text \<open>The clock is monotonic: an interval between two deliveries is not negative.\<close>

definition note_pace :: "nanos \<Rightarrow> 'c peer_ledger \<Rightarrow> 'c peer_ledger" where
  "note_pace now l =
     (let l1 = (case l_lastBlock l of None \<Rightarrow> l
                | Some t \<Rightarrow>
                    (let d = now - t in
                     if d < quarantineMaxHold
                     then l\<lparr>l_gap := (if l_gap l = 0 then d else (3 * l_gap l + d) div 4)\<rparr> else l))
      in l1\<lparr>l_progress := now, l_lastBlock := Some now\<rparr>)"

definition noteReceived ::
    "nanos \<Rightarrow> 'p \<Rightarrow> 'c bs_msg \<Rightarrow> ('p, 'c) qnet \<times> 'c peer_ledger \<Rightarrow> ('p, 'c) qnet \<times> 'c peer_ledger" where
  "noteReceived now p m ql =
     (let ql1 = fold note_block (map fst (m_blocks m)) ql;
          ql2 = fold (note_dontHave p) (m_dontHaves m) ql1;
          (q3, l3) = fold (note_have p) (m_haves m) ql2
      in (q3, if length (m_blocks m) > 0 then note_pace now l3 else l3))"

text \<open>What a held peer's blocks and DONT_HAVEs pay of what it owes.\<close>

definition pay_dontHave :: "'c \<Rightarrow> 'c peer_ledger \<Rightarrow> 'c peer_ledger" where
  "pay_dontHave c l =
     (case map_of (l_owed l) c of None \<Rightarrow> l
      | Some said \<Rightarrow> l\<lparr>l_owed := AList.delete c (l_owed l), l_denied := l_denied l \<or> said\<rparr>)"

definition pay :: "'c bs_msg \<Rightarrow> 'c peer_ledger \<Rightarrow> 'c peer_ledger" where
  "pay m l =
     fold pay_dontHave (m_dontHaves m)
       (l\<lparr>l_owed := fold AList.delete (map fst (m_blocks m)) (l_owed l)\<rparr>)"

definition admit ::
    "nanos \<Rightarrow> 'p \<Rightarrow> 'c bs_msg \<Rightarrow> ('p, 'c) qnet \<Rightarrow> 'c bs_msg option \<times> bool \<times> ('p, 'c) qnet" where
  "admit now p m q =
     (let l0 = ledger now q p in
      if \<not> held l0 now then
        (let (q1, l1) = noteReceived now p m (q, l0) in (Some m, False, put_ledger p l1 q1))
      else
        (let l = pay m l0; wasOut = (\<not> l_probation l); delivered = length (m_blocks m) > 0 in
         if length (l_owed l) = 0 then
           (let l1 = l\<lparr>l_until := None, l_probation := False\<rparr>;
                q1 = (if \<not> l_denied l then q\<lparr>q_records := (q_records q)(p := None)\<rparr> else q);
                (q2, l2) = noteReceived now p m (q1, l1)
            in (Some m, wasOut \<and> l_linked l, put_ledger p l2 q2))
         else if wasOut \<and> \<not> delivered then
           (if length (m_wantlist m) = 0 then None else Some (wantsOnly m), False, put_ledger p l q)
         else
           (let announce = wasOut \<and> l_linked l; fwd = withoutHaves m;
                (q1, l1) = noteReceived now p fwd (q, l\<lparr>l_probation := True\<rparr>)
            in (if length (m_blocks fwd) + length (m_dontHaves fwd) + length (m_wantlist fwd) = 0
                then None else Some fwd, announce, put_ledger p l1 q1))))"

section \<open>The receiver\<close>

definition receiveMessage ::
    "nanos \<Rightarrow> 'p \<Rightarrow> 'c bs_msg \<Rightarrow> ('p, 'c) qnet \<Rightarrow> ('p, 'c) told list \<times> ('p, 'c) qnet" where
  "receiveMessage now p m q =
     (let (fwd, announce, q') = admit now p m q in
      ((if announce then [ClientConnected p] else []) @
       (case fwd of None \<Rightarrow> [] | Some f \<Rightarrow> [RecvMessage p f]), q'))"

definition peerConnected :: "nanos \<Rightarrow> 'p \<Rightarrow> ('p, 'c) qnet \<Rightarrow> ('p, 'c) told list \<times> ('p, 'c) qnet" where
  "peerConnected now p q =
     (let l = (ledger now q p)\<lparr>l_linked := True\<rparr>; q' = put_ledger p l q in
      if outAt l now then (if q_server q then [ServerConnected p] else [], q')
      else ([RecvConnected p], q'))"

definition peerDisconnected :: "'p \<Rightarrow> ('p, 'c) qnet \<Rightarrow> ('p, 'c) told list \<times> ('p, 'c) qnet" where
  "peerDisconnected p q =
     ([RecvDisconnected p],
      case q_peers q p of None \<Rightarrow> q
      | Some l \<Rightarrow> (let (q1, l1) = dropAsked p (l\<lparr>l_linked := False, l_wanted := []\<rparr>) q in put_ledger p l1 q1))"


section \<open>Durations\<close>

lemma hold_time_bounds: "quarantineAfter \<le> hold_time l" "hold_time l \<le> quarantineMaxHold"
  by (auto simp: hold_time_def Let_def quarantineAfter_def quarantineMaxHold_def)

text \<open>
  The shifted duration as a product: exact below 29 doublings; from there on it is negative,
  or a multiple of \<open>2 ^ 40\<close>, so past the cap or wrapped to at most zero.
\<close>

lemma cooldown_exact: "cooldown (Suc k) = min (quarantineCool * 2 ^ k) quarantineMaxCool"
proof -
  define w where "w = sint (push_bit k (word_of_int quarantineCool :: 64 word))"
  have "push_bit k (word_of_int quarantineCool :: 64 word) = word_of_int (quarantineCool * 2 ^ k)"
    by (simp only: push_bit_eq_mult of_int_mult of_int_power of_int_numeral)
  then have w: "w = signed_take_bit 63 (quarantineCool * 2 ^ k)"
    by (simp only: w_def sint_sbintrunc') simp
  consider "k \<le> 28" | "k = 29" | "30 \<le> k" by linarith
  then have "(if w > quarantineMaxCool \<or> w \<le> 0 then quarantineMaxCool else w)
      = min (quarantineCool * 2 ^ k) quarantineMaxCool"
  proof cases
    case 1
    then have "(2::int) ^ k \<le> 2 ^ 28" by (intro power_increasing) simp_all
    then have up: "quarantineCool * 2 ^ k < 2 ^ 63" by (simp add: quarantineCool_def)
    have "(0::int) \<le> quarantineCool * 2 ^ k" by (simp add: quarantineCool_def)
    then have "- (2 ^ 63) \<le> quarantineCool * 2 ^ k" by (rule order_trans[rotated]) simp
    with up have "w = quarantineCool * 2 ^ k"
      unfolding w by (intro signed_take_bit_int_eq_self) simp_all
    then show ?thesis by (auto simp: min_def quarantineCool_def)
  next
    case 2
    then have "w \<le> 0" by (simp add: w quarantineCool_def)
    then show ?thesis using 2 by (simp add: quarantineCool_def quarantineMaxCool_def)
  next
    case 3
    have "(2::int) ^ 30 \<le> 2 ^ k" using 3 by (intro power_increasing) simp_all
    then have big: "quarantineMaxCool < quarantineCool * 2 ^ k"
      by (simp add: quarantineCool_def quarantineMaxCool_def)
    have "quarantineCool * 2 ^ k = 29296875 * 2 ^ (10 + k)"
      by (simp add: quarantineCool_def power_add)
    moreover have "(2::int) ^ 40 dvd 2 ^ (10 + k)" using 3 by (intro le_imp_power_dvd) simp
    ultimately have "2 ^ 40 dvd quarantineCool * 2 ^ k" by simp
    moreover have "(2::int) ^ 40 dvd 2 ^ 64" by (intro le_imp_power_dvd) simp
    moreover have "w = (quarantineCool * 2 ^ k + 2 ^ 63) mod 2 ^ 64 - 2 ^ 63"
      by (simp add: w signed_take_bit_eq_take_bit_shift take_bit_eq_mod)
    moreover have "(2::int) ^ 40 dvd 2 ^ 63" by (intro le_imp_power_dvd) simp
    ultimately have "2 ^ 40 dvd w"
      by (metis dvd_add dvd_diff dvd_mod)
    then have "\<not> (0 < w \<and> w \<le> quarantineMaxCool)"
      using zdvd_imp_le[of "2 ^ 40" w] by (auto simp: quarantineMaxCool_def)
    then show ?thesis using big by auto
  qed
  then show ?thesis by (simp only: cooldown_def Let_def w_def diff_Suc_1)
qed


section \<open>Offers are live\<close>

definition offers :: "('p, 'c) qnet \<Rightarrow> 'c \<Rightarrow> 'p set" where
  "offers q c = (case q_haves q c of None \<Rightarrow> {} | Some who \<Rightarrow> who)"

lemma offeredElsewhere_iff: "offeredElsewhere q c p \<longleftrightarrow> (\<exists>o' \<in> offers q c. o' \<noteq> p)"
  by (simp add: offeredElsewhere_def offers_def split: option.splits)

lemma offers_updates [simp]:
  "offers (q\<lparr>q_peers := ps\<rparr>) = offers q" "offers (q\<lparr>q_records := rs\<rparr>) = offers q"
  "offers (q\<lparr>q_haves := (q_haves q)(c := None)\<rparr>) = (offers q)(c := {})"
  "offers (forgetHave c p q) = (offers q)(c := offers q c - {p})"
  "offers (fst (dropAsked p l q)) = (\<lambda>c. if c \<in> l_asked l then offers q c - {p} else offers q c)"
  by (auto simp: offers_def fun_eq_iff forgetHave_def dropAsked_def drop_offer_def Let_def
      split: option.splits)

text \<open>
  An offer stands for a peer in the rotation: linked, neither out nor on probation, and asked
  for the block. \<open>offer_ok\<close> is that of one ledger; \<open>offers_ok2\<close> is the invariant while the
  ledger of \<open>p\<close> is in hand.
\<close>

definition offer_ok :: "nanos \<Rightarrow> 'c \<Rightarrow> 'c peer_ledger \<Rightarrow> bool" where
  "offer_ok now c l \<longleftrightarrow> l_linked l \<and> c \<in> l_asked l \<and> \<not> held l now"

definition offers_ok :: "nanos \<Rightarrow> ('p, 'c) qnet \<Rightarrow> bool" where
  "offers_ok now q \<longleftrightarrow> (\<forall>c p. p \<in> offers q c \<longrightarrow> (\<exists>l. q_peers q p = Some l \<and> offer_ok now c l))"

definition offers_ok2 :: "nanos \<Rightarrow> 'p \<Rightarrow> ('p, 'c) qnet \<times> 'c peer_ledger \<Rightarrow> bool" where
  "offers_ok2 now p ql \<longleftrightarrow> offers_ok now (put_ledger p (snd ql) (fst ql))"

lemma offers_ok2_iff:
  "offers_ok2 now p (q, l) \<longleftrightarrow>
     (\<forall>c p'. p' \<in> offers q c \<longrightarrow>
        (if p' = p then offer_ok now c l else (\<exists>l'. q_peers q p' = Some l' \<and> offer_ok now c l')))"
  by (auto simp: offers_ok2_def offers_ok_def)

lemma offers_ok_later: "offers_ok t q \<Longrightarrow> t \<le> t' \<Longrightarrow> offers_ok t' q"
  by (fastforce simp: offers_ok_def offer_ok_def held_def split: option.splits)

lemma offers_ok_open: "offers_ok now q \<Longrightarrow> q_peers q p = Some l \<Longrightarrow> offers_ok2 now p (q, l)"
  unfolding offers_ok_def offers_ok2_iff by (metis option.inject)

lemma held_no_offers: "offers_ok now q \<Longrightarrow> q_peers q p = Some l \<Longrightarrow> held l now \<Longrightarrow> p \<notin> offers q c"
  unfolding offers_ok_def offer_ok_def by (metis option.inject)

lemma offers_ok2_keep:
  "offers_ok2 now p (q, l) \<Longrightarrow> l_linked l' = l_linked l \<Longrightarrow> l_asked l' = l_asked l \<Longrightarrow>
   (held l' now \<Longrightarrow> held l now) \<Longrightarrow> offers_ok2 now p (q, l')"
  unfolding offers_ok2_iff offer_ok_def by metis

lemma offers_ok2_note_block: "offers_ok2 now p ql \<Longrightarrow> offers_ok2 now p (note_block c ql)"
  by (cases ql) (auto simp: offers_ok2_iff note_block_def offer_ok_def held_def split: if_splits)

lemma forgetHave_peers [simp]: "q_peers (forgetHave c p q) = q_peers q"
  by (simp add: forgetHave_def)

lemma offers_ok2_note_dontHave: "offers_ok2 now p ql \<Longrightarrow> offers_ok2 now p (note_dontHave p c ql)"
  by (cases ql) (auto simp: offers_ok2_iff note_dontHave_def offer_ok_def held_def split: if_splits)

lemma note_have_ledger: "snd (note_have p c ql) = snd ql"
  by (cases ql) (simp add: note_have_def Let_def)

lemma offers_ok2_offer:
  assumes "offers_ok2 now p (q, l)" "offer_ok now c l" "q_peers q' = q_peers q"
    and sub: "\<And>d. offers q' d = (if d = c then insert p (offers q d) else offers q d)"
  shows "offers_ok2 now p (q', l)"
  unfolding offers_ok2_iff
proof (intro allI impI)
  fix d p' assume "p' \<in> offers q' d"
  then have "p' \<in> offers q d \<or> d = c \<and> p' = p" by (auto simp: sub split: if_splits)
  with assms(1-3) show "if p' = p then offer_ok now d l else \<exists>l'. q_peers q' p' = Some l' \<and> offer_ok now d l'"
    unfolding offers_ok2_iff by metis
qed

lemma offers_ok2_note_have:
  assumes "offers_ok2 now p ql" "l_asked (snd ql) \<noteq> {} \<longrightarrow> l_linked (snd ql)" "\<not> held (snd ql) now"
  shows "offers_ok2 now p (note_have p c ql)"
proof (cases ql)
  case (Pair q l)
  show ?thesis
  proof (cases "c \<in> l_asked l")
    case True
    with assms Pair have "offer_ok now c l" by (auto simp: offer_ok_def)
    with True assms(1) show ?thesis unfolding Pair note_have_def
      by (auto intro!: offers_ok2_offer[where q = q and c = c] simp: offers_def)
  qed (use assms(1) Pair in \<open>simp add: note_have_def\<close>)
qed

lemma offers_ok2_haves:
  "offers_ok2 now p ql \<Longrightarrow> l_asked (snd ql) \<noteq> {} \<longrightarrow> l_linked (snd ql) \<Longrightarrow> \<not> held (snd ql) now \<Longrightarrow>
   offers_ok2 now p (fold (note_have p) cs ql)"
  by (induction cs arbitrary: ql) (simp_all add: offers_ok2_note_have note_have_ledger)

lemma offers_ok2_fold:
  "offers_ok2 now p ql \<Longrightarrow> (\<And>x ql. offers_ok2 now p ql \<Longrightarrow> offers_ok2 now p (f x ql)) \<Longrightarrow>
   offers_ok2 now p (fold f xs ql)"
  by (induction xs arbitrary: ql) auto

lemma note_pace_keep [simp]:
  "l_linked (note_pace now l) = l_linked l" "l_asked (note_pace now l) = l_asked l"
  "l_probation (note_pace now l) = l_probation l" "l_until (note_pace now l) = l_until l"
  "held (note_pace now l) t = held l t"
  by (auto simp: note_pace_def Let_def held_def split: option.splits)

text \<open>\<open>ledger_le l' l\<close>: what a message from the peer leaves of the ledger.\<close>

definition ledger_le :: "'c peer_ledger \<Rightarrow> 'c peer_ledger \<Rightarrow> bool" where
  "ledger_le l' l \<longleftrightarrow> l_asked l' \<subseteq> l_asked l \<and> l_linked l' = l_linked l \<and>
     l_until l' = l_until l \<and> l_probation l' = l_probation l \<and> l_owed l' = l_owed l \<and> l_denied l' = l_denied l"

lemma ledger_le_refl: "ledger_le l l"
  by (simp add: ledger_le_def)

lemma ledger_le_fold:
  "ledger_le (snd ql) l \<Longrightarrow> (\<And>x ql. ledger_le (snd (f x ql)) (snd ql)) \<Longrightarrow> ledger_le (snd (fold f xs ql)) l"
proof (induction xs arbitrary: ql)
  case (Cons x xs)
  have "ledger_le (snd (f x ql)) l"
    using Cons.prems(1) Cons.prems(2)[of x ql] unfolding ledger_le_def by auto
  then show ?case using Cons.IH Cons.prems(2) by simp
qed simp

lemma ledger_le_notes:
  "ledger_le (snd (note_block c ql)) (snd ql)" "ledger_le (snd (note_dontHave p c ql)) (snd ql)"
  "ledger_le (snd (note_have p c ql)) (snd ql)"
  by (cases ql; auto simp: ledger_le_def note_block_def note_dontHave_def note_have_def Let_def)+

lemma ledger_le_pace: "ledger_le l' l \<Longrightarrow> ledger_le (note_pace now l') l"
  by (auto simp: ledger_le_def note_pace_def Let_def split: option.splits)

lemma ledger_le_noteReceived: "ledger_le (snd (noteReceived now p m (q, l))) l"
proof -
  define ql where
    "ql = fold (note_have p) (m_haves m)
        (fold (note_dontHave p) (m_dontHaves m) (fold note_block (map fst (m_blocks m)) (q, l)))"
  have "ledger_le (snd ql) l" unfolding ql_def
    by (intro ledger_le_fold ledger_le_notes) (simp add: ledger_le_refl)
  then show ?thesis
    by (auto simp: noteReceived_def ql_def Let_def split_beta ledger_le_pace)
qed

lemma held_None: "l_until l = None \<Longrightarrow> \<not> held l t"
  by (simp add: held_def)

lemma held_until: "held (l\<lparr>l_probation := b\<rparr>) t = held l t"
  by (simp add: held_def)

lemma held_cong: "l_until l' = l_until l \<Longrightarrow> held l' t = held l t"
  by (simp add: held_def)

lemma offers_ok2_noteReceived:
  assumes ok: "offers_ok2 now p (q, l)" and link: "l_asked l \<noteq> {} \<longrightarrow> l_linked l"
    and "m_haves m = [] \<or> \<not> held l now"
  shows "offers_ok2 now p (noteReceived now p m (q, l))"
proof -
  define ql2 where "ql2 = fold (note_dontHave p) (m_dontHaves m) (fold note_block (map fst (m_blocks m)) (q, l))"
  have ok2: "offers_ok2 now p ql2" unfolding ql2_def
    by (intro offers_ok2_fold ok offers_ok2_note_block offers_ok2_note_dontHave)
  have le: "ledger_le (snd ql2) l" unfolding ql2_def
    by (intro ledger_le_fold ledger_le_notes) (simp add: ledger_le_refl)
  have "offers_ok2 now p (fold (note_have p) (m_haves m) ql2)"
  proof (cases "m_haves m = []")
    case False
    with assms(3) link le show ?thesis
      by (intro offers_ok2_haves[OF ok2]) (auto simp: ledger_le_def held_cong[of "snd ql2" l])
  qed (use ok2 in simp)
  moreover obtain q3 l3 where q3: "fold (note_have p) (m_haves m) ql2 = (q3, l3)" by fastforce
  ultimately have ok3: "offers_ok2 now p (q3, l3)" by simp
  then have "offers_ok2 now p (q3, note_pace now l3)" by (rule offers_ok2_keep) simp_all
  with ok3 q3 show ?thesis
    by (simp add: noteReceived_def ql2_def[symmetric])
qed

lemma offers_ok2_close:
  "offers_ok2 now p ql \<Longrightarrow> offers_ok now (put_ledger p (snd ql) (fst ql))"
  by (simp add: offers_ok2_def)

lemma offers_ok2_new: "offers_ok now q \<Longrightarrow> q_peers q p = None \<Longrightarrow> offers_ok2 now p (q, l)"
  unfolding offers_ok2_iff offers_ok_def by (metis option.distinct(1))

lemma offers_ok2_ledger: "offers_ok now q \<Longrightarrow> offers_ok2 now p (q, ledger now q p)"
  by (auto simp: ledger_def offers_ok2_new offers_ok_open split: option.splits)

lemma offers_ok2_drop:
  "offers_ok2 now p (q, l) \<Longrightarrow> (\<And>c. offers q' c \<subseteq> offers q c - {p}) \<Longrightarrow> q_peers q' = q_peers q \<Longrightarrow>
   offers_ok2 now p (q', l')"
  unfolding offers_ok2_iff by (metis Diff_iff singletonI subsetD)

lemma dropAsked_peers [simp]: "q_peers (fst (dropAsked p l q)) = q_peers q"
  by (simp add: dropAsked_def)

lemma offers_ok2_dropAsked:
  assumes "offers_ok2 now p (q, l)" "l_asked l' = l_asked l"
  shows "offers_ok2 now p (dropAsked p l' q)"
proof -
  have "p \<in> offers q c \<Longrightarrow> c \<in> l_asked l" for c
    using assms(1) unfolding offers_ok2_iff offer_ok_def by metis
  then have "offers (fst (dropAsked p l' q)) c \<subseteq> offers q c - {p}" for c
    using assms(2) by auto
  then show ?thesis
    using offers_ok2_drop[OF assms(1)] by (metis dropAsked_peers prod.collapse)
qed

lemma offers_ok2_note_entry: "offers_ok2 now p ql \<Longrightarrow> offers_ok2 now p (note_entry now out p e ql)"
  by (cases ql)
    (auto simp: offers_ok2_iff note_entry_def Let_def offer_ok_def held_def split: if_splits)

text \<open>A want is only open with a linked peer.\<close>

definition asked_linked :: "('p, 'c) qnet \<Rightarrow> bool" where
  "asked_linked q \<longleftrightarrow> (\<forall>p l. q_peers q p = Some l \<longrightarrow> l_asked l \<noteq> {} \<longrightarrow> l_linked l)"

lemma asked_linked_put:
  "asked_linked q \<Longrightarrow> l_asked l = {} \<or> l_linked l \<Longrightarrow> q_peers q' = q_peers q \<Longrightarrow>
   asked_linked (put_ledger p l q')"
  by (auto simp: asked_linked_def)

lemma asked_linked_ledger: "asked_linked q \<Longrightarrow> l_asked (ledger now q p) \<noteq> {} \<longrightarrow> l_linked (ledger now q p)"
  by (auto simp: asked_linked_def ledger_def new_ledger_def split: option.splits)

lemma note_entry_keep:
  "l_linked (snd (note_entry now out p e ql)) = l_linked (snd ql)"
  "q_peers (fst (note_entry now out p e ql)) = q_peers (fst ql)"
  by (cases ql; simp add: note_entry_def Let_def)+

lemma note_entries_keep:
  "l_linked (snd (fold (note_entry now out p) es ql)) = l_linked (snd ql)"
  "q_peers (fst (fold (note_entry now out p) es ql)) = q_peers (fst ql)"
  by (induction es arbitrary: ql) (simp_all add: note_entry_keep)

lemma note_peers:
  "q_peers (fst (note_block c ql)) = q_peers (fst ql)" "q_peers (fst (note_dontHave p c ql)) = q_peers (fst ql)"
  "q_peers (fst (note_have p c ql)) = q_peers (fst ql)"
  by (cases ql; simp add: note_block_def note_dontHave_def note_have_def Let_def)+

lemma fold_peers:
  "(\<And>x ql. q_peers (fst (f x ql)) = q_peers (fst ql)) \<Longrightarrow> q_peers (fst (fold f xs ql)) = q_peers (fst ql)"
  by (induction xs arbitrary: ql) auto

lemma noteReceived_peers: "q_peers (fst (noteReceived now p m ql)) = q_peers (fst ql)"
  by (simp add: noteReceived_def Let_def split_beta fold_peers note_peers)

text \<open>\<open>good\<close>: the invariant; the three ways in which a handler puts a ledger back.\<close>

definition good :: "nanos \<Rightarrow> ('p, 'c) qnet \<Rightarrow> bool" where
  "good now q \<longleftrightarrow> offers_ok now q \<and> asked_linked q"

lemma goodI: "offers_ok2 now p (q', l) \<Longrightarrow> asked_linked q \<Longrightarrow> q_peers q' = q_peers q \<Longrightarrow>
   l_asked l = {} \<or> l_linked l \<Longrightarrow> good now (put_ledger p l q')"
  using asked_linked_put[of q l q' p] by (simp add: good_def offers_ok2_def)

lemma good_noteReceived:
  assumes "offers_ok2 now p (q, l)" "asked_linked q" "l_asked l \<noteq> {} \<longrightarrow> l_linked l"
    "m_haves m = [] \<or> \<not> held l now" "noteReceived now p m (q, l) = (q', l')"
  shows "good now (put_ledger p l' q')"
proof (rule goodI)
  show "offers_ok2 now p (q', l')" using offers_ok2_noteReceived[OF assms(1,3,4)] assms(5) by metis
  show "asked_linked q" by (rule assms(2))
  show "q_peers q' = q_peers q" using noteReceived_peers[of now p m "(q, l)"] assms(5) by simp
  show "l_asked l' = {} \<or> l_linked l'"
    using ledger_le_noteReceived[of now p m q l] assms(3,5) by (auto simp: ledger_le_def)
qed

lemma good_noteSent:
  assumes "good now q" "q_peers q p = Some l" "l_linked l"
  shows "good now (noteSent now p m q)"
proof (cases "m_wantlist m = []")
  case False
  define ql1 where "ql1 = (if m_full m then dropAsked p (l\<lparr>l_wanted := []\<rparr>) q else (q, l))"
  define ql2 where "ql2 = fold (note_entry now (outAt l now) p) (m_wantlist m) ql1"
  have ok: "offers_ok2 now p (q, l)" using assms by (simp add: good_def offers_ok_open)
  have "offers_ok2 now p ql1" using ok by (auto simp: ql1_def intro: offers_ok2_dropAsked)
  then have 2: "offers_ok2 now p ql2" unfolding ql2_def by (intro offers_ok2_fold offers_ok2_note_entry)
  have "q_peers (fst ql1) = q_peers q" "l_linked (snd ql1)"
    using assms(3) by (auto simp: ql1_def dropAsked_def)
  then have "q_peers (fst ql2) = q_peers q" "l_linked (snd ql2)"
    by (simp_all add: ql2_def note_entries_keep)
  then have "good now (put_ledger p (snd ql2) (fst ql2))"
    using 2 assms(1) by (intro goodI[where q = q]) (simp_all add: good_def)
  moreover have "noteSent now p m q = put_ledger p (snd ql2) (fst ql2)"
    using False assms(2) by (simp add: noteSent_def ledger_def Let_def ql1_def ql2_def split_beta)
  ultimately show ?thesis by simp
qed (use assms in \<open>simp add: noteSent_def\<close>)

lemma pay_dontHave_keep:
  "l_asked (pay_dontHave c l) = l_asked l" "l_linked (pay_dontHave c l) = l_linked l"
  "l_until (pay_dontHave c l) = l_until l" "l_probation (pay_dontHave c l) = l_probation l"
  by (simp_all add: pay_dontHave_def split: option.splits)

lemma pay_keep [simp]:
  "l_asked (pay m l) = l_asked l" "l_linked (pay m l) = l_linked l"
  "l_until (pay m l) = l_until l" "l_probation (pay m l) = l_probation l" "held (pay m l) t = held l t"
proof -
  have "l_asked (fold pay_dontHave cs l) = l_asked l \<and> l_linked (fold pay_dontHave cs l) = l_linked l \<and>
    l_until (fold pay_dontHave cs l) = l_until l \<and> l_probation (fold pay_dontHave cs l) = l_probation l" for cs and l :: "'a peer_ledger"
    by (induction cs arbitrary: l) (simp_all add: pay_dontHave_keep)
  note * = this
  then show "l_asked (pay m l) = l_asked l" "l_linked (pay m l) = l_linked l"
    "l_until (pay m l) = l_until l" "l_probation (pay m l) = l_probation l" "held (pay m l) t = held l t"
    by (simp_all add: pay_def held_def *)
qed

lemma withoutHaves_haves [simp]: "m_haves (withoutHaves m) = []"
  by (simp add: withoutHaves_def wantsOnly_def)

lemma good_receiveMessage:
  assumes "good now q"
  shows "good now (snd (receiveMessage now p m q))"
proof -
  define l0 where "l0 = ledger now q p"
  have q: "asked_linked q" and link: "l_asked l0 \<noteq> {} \<longrightarrow> l_linked l0" and ok: "offers_ok2 now p (q, l0)"
    using assms by (simp_all add: good_def l0_def asked_linked_ledger offers_ok2_ledger)
  have okl: "offers_ok2 now p (q', l')"
    if "l_asked l' = l_asked l0" "l_linked l' = l_linked l0" "held l0 now" "offers q' = offers q"
       "q_peers q' = q_peers q" for l' :: "'b peer_ledger" and q'
    using ok that unfolding offers_ok2_iff offer_ok_def by metis
  have "good now (snd (snd (admit now p m q)))"
  proof (cases "held l0 now")
    case False
    then show ?thesis
      using good_noteReceived[OF ok q link, of m "fst (noteReceived now p m (q, l0))" "snd (noteReceived now p m (q, l0))"]
      by (simp add: admit_def Let_def l0_def[symmetric] split_beta)
  next
    case True
    define l where "l = pay m l0"
    define q1 where "q1 = (if \<not> l_denied l then q\<lparr>q_records := (q_records q)(p := None)\<rparr> else q)"
    have l: "l_asked l = l_asked l0" "l_linked l = l_linked l0" by (simp_all add: l_def)
    have q1: "asked_linked q1" "offers q1 = offers q" "q_peers q1 = q_peers q"
      using q by (simp_all add: q1_def asked_linked_def)
    have settled: "good now (put_ledger p l2 q2)"
      if "noteReceived now p m (q1, l\<lparr>l_until := None, l_probation := False\<rparr>) = (q2, l2)" for q2 l2
      using that link l True q1 by (intro good_noteReceived[OF okl]) (simp_all add: held_def)
    have kept: "good now (put_ledger p l2 q2)"
      if "noteReceived now p (withoutHaves m) (q, l\<lparr>l_probation := True\<rparr>) = (q2, l2)" for q2 l2
      using that link l True q by (intro good_noteReceived[OF okl]) simp_all
    have out: "good now (put_ledger p l q)"
      using link l True q by (intro goodI[OF okl]) auto
    from settled kept out True show ?thesis
      by (auto simp: admit_def Let_def l0_def[symmetric] l_def[symmetric] q1_def[symmetric] split: prod.splits)
  qed
  then show ?thesis by (simp add: receiveMessage_def split_beta)
qed

lemma good_peerConnected: "good now q \<Longrightarrow> good now (snd (peerConnected now p q))"
proof -
  assume g: "good now q"
  then have "offers_ok2 now p (q, ledger now q p)" by (simp add: good_def offers_ok2_ledger)
  then have "offers_ok2 now p (q, (ledger now q p)\<lparr>l_linked := True\<rparr>)"
    unfolding offers_ok2_iff offer_ok_def held_def by (auto split: if_splits)
  then have "good now (put_ledger p ((ledger now q p)\<lparr>l_linked := True\<rparr>) q)"
    using g by (intro goodI) (simp_all add: good_def)
  then show ?thesis by (simp add: peerConnected_def Let_def)
qed

lemma good_peerDisconnected: "good now q \<Longrightarrow> good now (snd (peerDisconnected p q))"
proof (cases "q_peers q p")
  case (Some l)
  assume g: "good now q"
  define l0 where "l0 = l\<lparr>l_linked := False, l_wanted := []\<rparr>"
  have "offers_ok2 now p (q, l)" using g Some by (simp add: good_def offers_ok_open)
  then have "offers_ok2 now p (dropAsked p l0 q)"
    by (intro offers_ok2_dropAsked) (simp_all add: l0_def)
  then have "good now (put_ledger p (snd (dropAsked p l0 q)) (fst (dropAsked p l0 q)))"
    using g by (intro goodI[where q = q]) (simp_all add: good_def dropAsked_def)
  then show ?thesis using Some by (simp add: peerDisconnected_def l0_def Let_def split_beta)
qed (simp add: peerDisconnected_def)

lemma good_delete:
  "good now q \<Longrightarrow> q_peers q p = Some l \<Longrightarrow> \<not> l_linked l \<Longrightarrow> good now (q\<lparr>q_peers := (q_peers q)(p := None)\<rparr>)"
  unfolding good_def offers_ok_def asked_linked_def offer_ok_def
  by (auto simp: fun_upd_apply) (metis option.inject)

lemma put_out_open:
  "offers (fst (dropAsked p l q)) = offers (fst (dropAsked p l' q))" if "l_asked l = l_asked l'"
  using that by auto

lemma good_put_out:
  assumes "good now q" "q_peers q p = Some l"
  shows "good now (put_out now p l q)"
proof -
  have ok: "offers_ok2 now p (q, l)" using assms by (simp add: good_def offers_ok_open)
  have "offers_ok2 now p (dropAsked p l1 (q\<lparr>q_records := rs\<rparr>))" if "l_asked l1 = l_asked l" for l1 rs
    using ok that by (intro offers_ok2_dropAsked[where l = l]) (simp add: offers_ok2_iff)
  then have "good now (put_ledger p (snd (dropAsked p l1 (q\<lparr>q_records := rs\<rparr>))) (fst (dropAsked p l1 (q\<lparr>q_records := rs\<rparr>))))"
    if "l_asked l1 = l_asked l" for l1 rs
    using that assms(1) by (intro goodI[where q = q]) (simp_all add: good_def dropAsked_def)
  then show ?thesis by (simp add: put_out_def Let_def split_beta)
qed

lemma good_scan_peer: "good now q \<Longrightarrow> good now (fst (scan_peer apply_it now p (q, mv)))"
proof (cases "q_peers q p")
  case (Some l)
  assume g: "good now q"
  have "good now (put_ledger p (l\<lparr>l_until := None, l_probation := False, l_owed := []\<rparr>) q)" if "\<not> held l now"
  proof (rule goodI[where q = q])
    have "offers_ok2 now p (q, l)" using g Some by (simp add: good_def offers_ok_open)
    then show "offers_ok2 now p (q, l\<lparr>l_until := None, l_probation := False, l_owed := []\<rparr>)"
      by (rule offers_ok2_keep) (simp_all add: held_def)
    show "asked_linked q" using g by (simp add: good_def)
    then have "l_asked l \<noteq> {} \<longrightarrow> l_linked l" using Some unfolding asked_linked_def by blast
    then show "l_asked (l\<lparr>l_until := None, l_probation := False, l_owed := []\<rparr>) = {} \<or>
        l_linked (l\<lparr>l_until := None, l_probation := False, l_owed := []\<rparr>)" by auto
  qed simp
  with g Some show ?thesis
    by (simp add: scan_peer_def good_delete good_put_out)
qed (simp add: scan_peer_def)

lemma good_scan_record: "good now q \<Longrightarrow> good now (scan_record now p q)"
  by (auto simp: scan_record_def good_def offers_ok_def asked_linked_def split: option.splits)

lemma good_scan_records: "good now q \<Longrightarrow> good now (fold (scan_record now) rs q)"
  by (induction rs arbitrary: q) (simp_all add: good_scan_record)

lemma good_scan_peers: "good now (fst qm) \<Longrightarrow> good now (fst (fold (scan_peer apply_it now) ps qm))"
proof (induction ps arbitrary: qm)
  case (Cons p ps)
  then show ?case using good_scan_peer[of now "fst qm" apply_it p "snd qm"] by simp
qed simp

lemma good_scan: "good now q \<Longrightarrow> good now (fst (scan apply_it now rs ps q))"
  by (simp add: scan_def good_scan_peers good_scan_records)

section \<open>Runs\<close>

text \<open>
  The events that reach the wrapper, in any order and at non-decreasing times. \<open>noteSent\<close>
  follows a successful send, so it is for a peer the network has connected. A scan is the dry
  one or the one that moves.
\<close>

inductive q_step :: "nanos \<times> ('p, 'c) qnet \<Rightarrow> nanos \<times> ('p, 'c) qnet \<Rightarrow> bool" where
  q_start: "q_step (t, q) (t, start_net srv q)"
| q_sent: "t \<le> t' \<Longrightarrow> q_peers q p = Some l \<Longrightarrow> l_linked l \<Longrightarrow> q_step (t, q) (t', noteSent t' p m q)"
| q_received: "t \<le> t' \<Longrightarrow> q_step (t, q) (t', snd (receiveMessage t' p m q))"
| q_connected: "t \<le> t' \<Longrightarrow> q_step (t, q) (t', snd (peerConnected t' p q))"
| q_disconnected: "t \<le> t' \<Longrightarrow> q_step (t, q) (t', snd (peerDisconnected p q))"
| q_scan: "t \<le> t' \<Longrightarrow> q_step (t, q) (t', fst (scan apply_it t' rs ps q))"

inductive_cases q_stepE: "q_step s s'"

definition q_init :: "nanos \<times> ('p, 'c) qnet \<Rightarrow> bool" where
  "q_init s \<longleftrightarrow> (case s of (t, q) \<Rightarrow> q_peers q = Map.empty \<and> q_haves q = Map.empty)"

definition q_inv :: "nanos \<times> ('p, 'c) qnet \<Rightarrow> bool" where
  "q_inv s = (case s of (t, q) \<Rightarrow> good t q)"

lemma good_later: "good t q \<Longrightarrow> t \<le> t' \<Longrightarrow> good t' q"
  by (auto simp: good_def intro: offers_ok_later)

lemma good_start: "good t q \<Longrightarrow> good t (start_net srv q)"
  by (simp add: good_def offers_ok_def asked_linked_def offers_def start_net_def)

lemma q_inv_step: "q_inv s \<Longrightarrow> q_step s s' \<Longrightarrow> q_inv s'"
  by (erule q_stepE)
    (auto simp: q_inv_def good_start
      intro: good_later good_noteSent good_receiveMessage good_peerConnected good_peerDisconnected good_scan)

lemma q_inv_init: "q_init s \<Longrightarrow> q_inv s"
  by (auto simp: q_init_def q_inv_def good_def offers_ok_def asked_linked_def offers_def)

interpretation qrun: step_invariant q_init q_step q_inv
  by unfold_locales (fact q_inv_init, fact q_inv_step)

section \<open>Moves\<close>

lemma scan_peer_outs:
  "p' \<in> set (mv_outs (snd (scan_peer apply_it now p (q, mv)))) \<Longrightarrow> p' \<notin> set (mv_outs mv) \<Longrightarrow>
   p' = p \<and> (\<exists>l. q_peers q p = Some l \<and> \<not> outAt l now \<and> hold_time l \<le> now - l_progress l \<and> sits now p l q)"
  by (auto simp: scan_peer_def split: option.splits if_splits)

lemma fold_scan_outs:
  "p \<in> set (mv_outs (snd (fold (scan_peer apply_it now) ps qm))) \<Longrightarrow> p \<notin> set (mv_outs (snd qm)) \<Longrightarrow>
   \<exists>pre post l. ps = pre @ p # post \<and>
     (let q1 = fst (fold (scan_peer apply_it now) pre qm) in
      q_peers q1 p = Some l \<and> \<not> outAt l now \<and> hold_time l \<le> now - l_progress l \<and> sits now p l q1)"
proof (induction ps arbitrary: qm)
  case (Cons x ps)
  show ?case
  proof (cases "p \<in> set (mv_outs (snd (scan_peer apply_it now x qm)))")
    case True
    then have "p = x \<and> (\<exists>l. q_peers (fst qm) x = Some l \<and> \<not> outAt l now \<and>
        hold_time l \<le> now - l_progress l \<and> sits now x l (fst qm))"
      using scan_peer_outs[of p apply_it now x "fst qm" "snd qm"] Cons.prems(2) by simp
    then show ?thesis by (intro exI[of _ "[]"] exI[of _ ps]) auto
  next
    case False
    then obtain pre post l where "ps = pre @ p # post"
      "let q1 = fst (fold (scan_peer apply_it now) pre (scan_peer apply_it now x qm)) in
       q_peers q1 p = Some l \<and> \<not> outAt l now \<and> hold_time l \<le> now - l_progress l \<and> sits now p l q1"
      using Cons.IH[of "scan_peer apply_it now x qm"] Cons.prems(1) by auto
    then show ?thesis by (intro exI[of _ "x # pre"] exI[of _ post] exI[of _ l]) simp
  qed
qed simp

lemma sits_offer:
  "sits now p l q \<Longrightarrow> \<exists>c since p'. (c, since) \<in> set (l_wanted l) \<and> hold_time l \<le> now - since \<and>
     p' \<in> offers q c \<and> p' \<noteq> p"
  by (fastforce simp: sits_def Let_def list_ex_iff offeredElsewhere_iff)

lemma scan_good_at:
  "good now q \<Longrightarrow> good now (fst (fold (scan_peer apply_it now) pre (fold (scan_record now) rs q, no_moves)))"
  by (simp add: good_scan_peers good_scan_records)

section \<open>Properties\<close>

text \<open>A run: peers 3 and 5 connect, both are asked for block 7, and 5 says it has it.\<close>

definition q_want :: "nat bs_msg" where
  "q_want = \<lparr>m_full = False,
     m_wantlist = [\<lparr>we_cid = 7, we_cancel = False, we_block = True, we_priority = 1, we_sendDontHave = True\<rparr>],
     m_blocks = [], m_haves = [], m_dontHaves = [], m_pending = 0\<rparr>"

definition q_have :: "nat bs_msg" where
  "q_have = \<lparr>m_full = False, m_wantlist = [], m_blocks = [], m_haves = [7], m_dontHaves = [], m_pending = 0\<rparr>"

definition q_ex :: "(nat, nat) qnet" where
  "q_ex = snd (receiveMessage 0 5 q_have
     (noteSent 0 5 q_want (noteSent 0 3 q_want (snd (peerConnected 0 5 (snd (peerConnected 0 3 newQuarantineNet)))))))"

lemmas q_eval = newQuarantineNet_def peerConnected_def ledger_def new_ledger_def Let_def noteSent_def q_want_def
  note_entry_def outAt_def held_def receiveMessage_def admit_def noteReceived_def q_have_def note_have_def

lemma q_ex_reachable: "reachable q_init q_step (0, q_ex)"
proof -
  define a where "a = snd (peerConnected 0 (3::nat) (newQuarantineNet :: (nat, nat) qnet))"
  define b where "b = snd (peerConnected 0 5 a)"
  define c where "c = noteSent 0 3 q_want b"
  define d where "d = noteSent 0 5 q_want c"
  have 0: "reachable q_init q_step (0, newQuarantineNet :: (nat, nat) qnet)"
    by (rule reach_init) (simp add: q_init_def newQuarantineNet_def)
  have 1: "reachable q_init q_step (0, a)" unfolding a_def by (rule reach_step[OF 0 q_connected]) simp
  have 2: "reachable q_init q_step (0, b)" unfolding b_def by (rule reach_step[OF 1 q_connected]) simp
  have b: "q_peers b 3 = Some ((new_ledger 0)\<lparr>l_linked := True\<rparr>)"
    "q_peers b 5 = Some ((new_ledger 0)\<lparr>l_linked := True\<rparr>)" by (simp_all add: b_def a_def q_eval)
  have 3: "reachable q_init q_step (0, c)" unfolding c_def
    by (rule reach_step[OF 2 q_sent[OF _ b(1)]]) simp_all
  have "q_peers c 5 = Some ((new_ledger 0)\<lparr>l_linked := True\<rparr>)"
    by (simp add: c_def noteSent_def Let_def q_want_def note_entry_def b)
  then have 4: "reachable q_init q_step (0, d)" unfolding d_def
    by (rule reach_step[OF 3 q_sent[rotated]]) simp_all
  have "q_ex = snd (receiveMessage 0 5 q_have d)" by (simp add: q_ex_def a_def b_def c_def d_def)
  then show ?thesis using reach_step[OF 4 q_received[of 0 0 d 5 q_have]] by simp
qed


lemma q_ex_scan: "mv_outs (snd (scan True (seconds 4) [] [3, 5] q_ex)) = [3]"
  by (simp add: q_ex_def q_eval scan_def scan_peer_def no_moves_def sits_def hold_time_def
      quarantineAfter_def quarantineMaxHold_def offeredElsewhere_def put_out_def dropAsked_def
      drop_offer_def cooldown_def quarantineCool_def quarantineMaxCool_def)


text \<open>
  The penalty. A peer put out for the n-th time is held for \<open>quarantineCool\<close> times
  \<open>2 ^ (n - 1)\<close>, and never more than \<open>quarantineMaxCool\<close>: the shift of the 64-bit duration does not
  overflow into a shorter one, whatever n is. It holds no want and offers nothing any more,
  and its offences outlive the connection.
\<close>

theorem quarantine_penalty:
  "\<exists>l'. q_peers (put_out now p l q) p = Some l' \<and>
     (\<exists>r. q_records (put_out now p l q) p = Some r \<and> r_last r = now \<and>
        r_strikes r = (case q_records q p of None \<Rightarrow> 0 | Some r \<Rightarrow> r_strikes r) + 1 \<and>
        l_until l' = Some (now + min (quarantineCool * 2 ^ (r_strikes r - 1)) quarantineMaxCool) \<and>
        q_records (snd (peerDisconnected p (put_out now p l q))) p = Some r) \<and>
     outAt l' now \<and> l_wanted l' = [] \<and> l_asked l' = {} \<and>
     p \<notin> \<Union> (offers (put_out now p l q) ` l_asked l)"
proof -
  have pos: "0 < min (quarantineCool * 2 ^ n) quarantineMaxCool" for n
    by (simp add: quarantineCool_def quarantineMaxCool_def)
  have "offers (put_out now p l q) c = offers q c - {p}" if "c \<in> l_asked l" for c
    using that by (simp add: put_out_def Let_def split_beta)
  then show ?thesis
    using pos by (auto simp: put_out_def dropAsked_def Let_def cooldown_exact outAt_def held_def
        peerDisconnected_def split: option.splits)
qed

lemma withoutHaves_keep: "m_blocks (withoutHaves m) = m_blocks m" "m_dontHaves (withoutHaves m) = m_dontHaves m"
  by (simp_all add: withoutHaves_def wantsOnly_def)

lemma noteReceived_until:
  "l_until (snd (noteReceived now p m (q, l))) = l_until l"
  "l_probation (snd (noteReceived now p m (q, l))) = l_probation l"
  "l_linked (snd (noteReceived now p m (q, l))) = l_linked l"
  "held (snd (noteReceived now p m (q, l))) t = held l t"
  using ledger_le_noteReceived[of now p m q l] by (simp_all add: ledger_le_def held_def)

lemma out_now_ledger: "out_now now q p = outAt (ledger now q p) now"
  by (simp add: out_now_def ledger_def new_ledger_def outAt_def held_def split: option.splits)

lemma ledger_put [simp]: "ledger now (put_ledger p l q) p = l"
  by (simp add: ledger_def)

text \<open>A peer that is out, owing block 7 it had offered; and the message that pays it.\<close>

definition q_out_ex :: "(nat, nat) qnet" where
  "q_out_ex = (put_ledger 3 ((new_ledger 0)\<lparr>l_owed := [(7, True)], l_until := Some 9, l_linked := True\<rparr>)
     newQuarantineNet)\<lparr>q_records := [3 \<mapsto> \<lparr>r_strikes = 1, r_last = 0\<rparr>]\<rparr>"

definition q_block :: "nat bs_msg" where
  "q_block = \<lparr>m_full = False, m_wantlist = [], m_blocks = [(7, [])], m_haves = [], m_dontHaves = [], m_pending = 0\<rparr>"

text \<open>
  Nothing a peer delivers is thrown away: a message with blocks always reaches the
  client, with all its blocks and DONT_HAVEs; if the peer was out and is connected, the client
  is told it is back first, and after the message it is out no longer.
\<close>

theorem quarantine_blocks_reach_client:
  assumes "m_blocks m \<noteq> []"
  shows "(\<exists>f. fst (receiveMessage now p m q) =
            (if out_now now q p \<and> l_linked (ledger now q p) then [ClientConnected p] else []) @ [RecvMessage p f] \<and>
            m_blocks f = m_blocks m \<and> m_dontHaves f = m_dontHaves m) \<and>
         \<not> out_now now (snd (receiveMessage now p m q)) p"
  using assms
  by (cases "held (ledger now q p) now")
    (auto simp: out_now_ledger receiveMessage_def admit_def Let_def outAt_def
      withoutHaves_keep noteReceived_until split_beta held_None held_until)

theorem quarantine_blocks_reach_client_witness:
  "(\<exists>f. fst (receiveMessage 1 3 q_block q_out_ex) =
          (if out_now 1 q_out_ex 3 \<and> l_linked (ledger 1 q_out_ex 3) then [ClientConnected 3] else []) @ [RecvMessage 3 f] \<and>
          m_blocks f = m_blocks q_block \<and> m_dontHaves f = m_dontHaves q_block) \<and>
   \<not> out_now 1 (snd (receiveMessage 1 3 q_block q_out_ex)) 3"
  by (rule quarantine_blocks_reach_client) (simp add: q_block_def)

lemma pay_dontHave_owed:
  "map_of (l_owed (pay_dontHave x l)) d = (if d = x then None else map_of (l_owed l) d)"
  "l_denied (pay_dontHave x l) \<longleftrightarrow> l_denied l \<or> map_of (l_owed l) x = Some True"
  by (auto simp: pay_dontHave_def AList.delete_conv' split: option.splits)

lemma fold_pay_dontHave:
  "map_of (l_owed (fold pay_dontHave cs l)) c = (if c \<in> set cs then None else map_of (l_owed l) c)"
  "l_denied (fold pay_dontHave cs l) \<longleftrightarrow> l_denied l \<or> (\<exists>c \<in> set cs. map_of (l_owed l) c = Some True)"
proof (induction cs arbitrary: l)
  case (Cons x cs)
  { case 1 show ?case using Cons.IH(1)[of "pay_dontHave x l"] by (auto simp: pay_dontHave_owed(1)) }
  { case 2 show ?case using Cons.IH(2)[of "pay_dontHave x l"] by (auto simp: pay_dontHave_owed split: if_splits) }
qed simp_all

lemma fold_delete: "map_of (fold AList.delete cs m) c = (if c \<in> set cs then None else map_of m c)"
  by (induction cs arbitrary: m) (auto simp: AList.delete_conv')

lemma pay_owed:
  "map_of (l_owed (pay m l)) c =
     (if c \<in> fst ` set (m_blocks m) \<union> set (m_dontHaves m) then None else map_of (l_owed l) c)"
  by (simp add: pay_def fold_pay_dontHave fold_delete)

lemma pay_denied:
  "l_denied (pay m l) \<longleftrightarrow> l_denied l \<or>
     (\<exists>c \<in> set (m_dontHaves m). c \<notin> fst ` set (m_blocks m) \<and> map_of (l_owed l) c = Some True)"
  by (auto simp: pay_def fold_pay_dontHave fold_delete)

lemma noteReceived_records: "q_records (fst (noteReceived now p m ql)) = q_records (fst ql)"
proof -
  have *: "(\<And>x ql. q_records (fst (f x ql)) = q_records (fst ql)) \<Longrightarrow> q_records (fst (fold f xs ql)) = q_records (fst ql)"
    for f :: "'b \<Rightarrow> ('a, 'b) qnet \<times> 'b peer_ledger \<Rightarrow> ('a, 'b) qnet \<times> 'b peer_ledger" and xs ql
    by (induction xs arbitrary: ql) auto
  show ?thesis
    by (simp add: noteReceived_def Let_def split_beta * note_block_def note_dontHave_def note_have_def forgetHave_def)
qed

text \<open>
  Only an honest peer's record is cleared. A message that clears the offences of a peer
  comes from a peer that was held and never denied a block it had offered, and settles
  everything it owed: each owed block is delivered in it, or is one the peer never said it
  had and now says it has not.
\<close>

theorem quarantine_record_cleared:
  assumes "q_records q p = Some r" "q_records (snd (receiveMessage now p m q)) p = None"
  shows "held (ledger now q p) now \<and> \<not> l_denied (ledger now q p) \<and>
    (\<forall>c said. map_of (l_owed (ledger now q p)) c = Some said \<longrightarrow>
       c \<in> fst ` set (m_blocks m) \<or> c \<in> set (m_dontHaves m) \<and> \<not> said)"
proof -
  define l where "l = ledger now q p"
  have "q_records (snd (receiveMessage now p m q)) p =
      (if held l now \<and> l_owed (pay m l) = [] \<and> \<not> l_denied (pay m l) then None else q_records q p)"
    by (simp add: receiveMessage_def admit_def Let_def l_def[symmetric] split_beta noteReceived_records)
  with assms have "held l now" and paid: "l_owed (pay m l) = []" "\<not> l_denied (pay m l)"
    by (auto split: if_splits)
  moreover have "c \<in> fst ` set (m_blocks m) \<or> c \<in> set (m_dontHaves m) \<and> \<not> said"
    if "map_of (l_owed l) c = Some said" for c said
    using paid pay_owed[of m l c] pay_denied[of m l] that by (auto split: if_splits)
  ultimately show ?thesis unfolding l_def using pay_denied by blast
qed

theorem quarantine_record_cleared_witness:
  "held (ledger 1 q_out_ex 3) 1 \<and> (7::nat) \<in> fst ` set (m_blocks q_block)"
proof -
  have "q_records q_out_ex 3 = Some \<lparr>r_strikes = 1, r_last = 0\<rparr>" by (simp add: q_out_ex_def)
  moreover have "q_records (snd (receiveMessage 1 3 q_block q_out_ex)) 3 = None"
    by (simp add: receiveMessage_def admit_def Let_def ledger_def q_out_ex_def newQuarantineNet_def
        new_ledger_def held_def pay_def q_block_def split_beta noteReceived_records)
  moreover have "map_of (l_owed (ledger 1 q_out_ex 3)) 7 = Some True"
    by (simp add: ledger_def q_out_ex_def)
  ultimately show ?thesis using quarantine_record_cleared[of q_out_ex 3 _ 1 q_block] by blast
qed

text \<open>A message with wants of its own and an offer.\<close>

definition q_both :: "nat bs_msg" where
  "q_both = q_want\<lparr>m_haves := [7]\<rparr>"

text \<open>An offer is only noted from a peer that is neither out nor on probation.\<close>

lemma note_offers:
  "offers (fst (note_block c ql)) d \<subseteq> offers (fst ql) d"
  "offers (fst (note_dontHave p c ql)) d \<subseteq> offers (fst ql) d"
  by (cases ql; auto simp: note_block_def note_dontHave_def)+

lemma fold_offers:
  "(\<And>x ql. offers (fst (f x ql)) d \<subseteq> offers (fst ql) d) \<Longrightarrow> offers (fst (fold f xs ql)) d \<subseteq> offers (fst ql) d"
proof (induction xs arbitrary: ql)
  case (Cons x xs)
  then show ?case by (simp add: order_trans[OF Cons.IH])
qed simp

lemma noteReceived_offers: "m_haves m = [] \<Longrightarrow> offers (fst (noteReceived now p m ql)) d \<subseteq> offers (fst ql) d"
proof -
  assume "m_haves m = []"
  then have "offers (fst (noteReceived now p m ql)) d
      = offers (fst (fold (note_dontHave p) (m_dontHaves m) (fold note_block (map fst (m_blocks m)) ql))) d"
    by (simp add: noteReceived_def Let_def split_beta)
  also have "\<dots> \<subseteq> offers (fst (fold note_block (map fst (m_blocks m)) ql)) d"
    by (intro fold_offers note_offers)
  also have "\<dots> \<subseteq> offers (fst ql) d" by (intro fold_offers note_offers)
  finally show ?thesis .
qed

text \<open>
  A peer that is out or on probation wins no wants with promises: while it stays so, what
  reaches the client of its messages has no HAVE, its HAVEs are not noted as offers (so they
  cannot put another peer out), and a message without blocks from a peer that is out brings
  at most its own wants.
\<close>

theorem quarantine_promises_withheld:
  assumes "held (ledger now q p) now" "held (ledger now (snd (receiveMessage now p m q)) p) now"
  shows "(\<forall>f. RecvMessage p f \<in> set (fst (receiveMessage now p m q)) \<longrightarrow>
            m_haves f = [] \<and> (m_blocks m = [] \<and> out_now now q p \<longrightarrow> m_dontHaves f = [] \<and> m_blocks f = [])) \<and>
         (\<forall>c. offers (snd (receiveMessage now p m q)) c \<subseteq> offers q c)"
proof -
  define l where "l = ledger now q p"
  have "l_owed (pay m l) \<noteq> []"
    using assms by (auto simp: receiveMessage_def admit_def Let_def l_def[symmetric] held_def noteReceived_until split_beta
        split: if_splits)
  with assms(1) show ?thesis
    using noteReceived_offers[of "withoutHaves m" now p "(q, (pay m l)\<lparr>l_probation := True\<rparr>)"]
    by (auto simp: receiveMessage_def admit_def Let_def l_def[symmetric] out_now_ledger outAt_def wantsOnly_def split_beta
        split: if_splits)
qed

theorem quarantine_promises_withheld_witness:
  "RecvMessage 3 (wantsOnly q_both) \<in> set (fst (receiveMessage 1 3 q_both q_out_ex)) \<and>
   m_haves (wantsOnly q_both) = [] \<and> offers (snd (receiveMessage 1 3 q_both q_out_ex)) 7 \<subseteq> offers q_out_ex 7"
proof -
  note ev = receiveMessage_def admit_def Let_def ledger_def q_out_ex_def newQuarantineNet_def
    new_ledger_def held_def pay_def q_both_def q_want_def
  have "held (ledger 1 q_out_ex 3) 1" "held (ledger 1 (snd (receiveMessage 1 3 q_both q_out_ex)) 3) 1"
    "RecvMessage 3 (wantsOnly q_both) \<in> set (fst (receiveMessage 1 3 q_both q_out_ex))"
    by (simp_all add: ev)
  then show ?thesis using quarantine_promises_withheld[of 1 q_out_ex 3 q_both] by blast
qed

text \<open>How many peers a scan moves; a dry scan sees the first move where the real one makes it.\<close>

definition moved :: "'p moves \<Rightarrow> nat" where
  "moved mv = length (mv_outs mv) + length (mv_backs mv) + length (mv_ends mv)"

lemma scan_peer_snd: "snd (scan_peer a now p (q, mv)) = snd (scan_peer b now p (q, mv))"
  by (simp add: scan_peer_def split: option.splits)

lemma scan_peer_moved:
  "snd (scan_peer a now p (q, mv)) = mv \<or> moved mv < moved (snd (scan_peer a now p (q, mv)))"
  by (simp add: scan_peer_def moved_def split: option.splits)

lemma scan_peer_still:
  "snd (scan_peer a now p (q, mv)) = mv \<Longrightarrow> fst (scan_peer a now p (q, mv)) = fst (scan_peer b now p (q, mv))"
  by (cases mv) (auto simp: scan_peer_def split: option.splits if_splits)

lemma fold_scan_moved: "moved (snd qm) \<le> moved (snd (fold (scan_peer a now) ps qm))"
proof (induction ps arbitrary: qm)
  case (Cons p ps)
  have "moved (snd qm) \<le> moved (snd (scan_peer a now p qm))"
    using scan_peer_moved[of a now p "fst qm" "snd qm"] by auto
  then show ?case using Cons.IH[of "scan_peer a now p qm"] by simp
qed simp

lemma dry_scan_moves:
  "moved (snd (fold (scan_peer False now) ps qm)) = moved (snd qm) \<longleftrightarrow>
   moved (snd (fold (scan_peer True now) ps qm)) = moved (snd qm)"
proof (induction ps arbitrary: qm)
  case (Cons p ps)
  obtain q mv where qm: "qm = (q, mv)" by fastforce
  show ?case
  proof (cases "snd (scan_peer False now p qm) = mv")
    case True
    then have "scan_peer False now p qm = scan_peer True now p qm"
      using scan_peer_still[of False now p q mv True] scan_peer_snd[of False now p q mv True]
      by (simp add: qm prod_eq_iff)
    then show ?thesis using Cons.IH[of "scan_peer True now p qm"] True qm by simp
  next
    case False
    then have "moved mv < moved (snd (scan_peer False now p qm))" "moved mv < moved (snd (scan_peer True now p qm))"
      using scan_peer_moved[of False now p q mv] scan_peer_snd[of False now p q mv True] by (auto simp: qm)
    then show ?thesis
      using fold_scan_moved[of "scan_peer False now p qm" False now ps]
        fold_scan_moved[of "scan_peer True now p qm" True now ps] by (simp add: qm)
  qed
qed simp

text \<open>
  The tick takes the exclusive lock exactly when it has someone to move: at one instant
  and in one order of the ledgers, the dry scan reports a move if and only if the scan that
  moves makes one; and a tick with nothing to move tells nobody anything.
\<close>

theorem quarantine_dry_scan_exact:
  "(moved (snd (scan False now rs ps q)) = 0 \<longleftrightarrow> moved (snd (scan True now rs ps q)) = 0) \<and>
   (moved (snd (scan False now rs ps q)) = 0 \<longrightarrow>
      check_net now rs ps now2 rs2 ps2 q = ([], fst (scan True now rs ps q)))"
proof -
  have 0: "moved (no_moves :: 'a moves) = 0" by (simp add: no_moves_def moved_def)
  have eq: "fold (scan_peer False now) ps qm = fold (scan_peer True now) ps qm"
    if "moved (snd (fold (scan_peer False now) ps qm)) = moved (snd qm)" for qm :: "('a, 'b) qnet \<times> 'a moves" and ps
    using that
  proof (induction ps arbitrary: qm)
    case (Cons p ps)
    obtain q mv where qm: "qm = (q, mv)" by fastforce
    have "moved (snd (scan_peer False now p qm)) \<le> moved mv"
      using fold_scan_moved[of "scan_peer False now p qm" False now ps] Cons.prems by (simp add: qm)
    then have still: "snd (scan_peer False now p qm) = mv"
      using scan_peer_moved[of False now p q mv] by (auto simp: qm)
    then have "scan_peer False now p qm = scan_peer True now p qm"
      using scan_peer_still[of False now p q mv True] scan_peer_snd[of False now p q mv True]
      by (simp add: qm prod_eq_iff)
    then show ?case using Cons.IH[of "scan_peer False now p qm"] Cons.prems still by (simp add: qm)
  qed simp
  have iff: "moved (snd (scan False now rs ps q)) = 0 \<longleftrightarrow> moved (snd (scan True now rs ps q)) = 0"
    using dry_scan_moves[of now ps "(fold (scan_record now) rs q, no_moves)"] by (simp add: scan_def 0)
  have same: "scan False now rs ps q = scan True now rs ps q" if "moved (snd (scan False now rs ps q)) = 0"
    using that unfolding scan_def by (intro eq) (simp add: 0)
  have "check_net now rs ps now2 rs2 ps2 q = ([], fst (scan False now rs ps q))"
    if "moved (snd (scan False now rs ps q)) = 0"
    using that by (simp add: check_net_def moved_def split_beta)
  with iff same show ?thesis by simp
qed

theorem quarantine_dry_scan_exact_witness:
  "check_net 1 [] [3] 2 [] [3] q_ex = ([], fst (scan True 1 [] [3] q_ex))"
proof -
  have "moved (snd (scan False 1 [] [3] q_ex)) = 0"
    by (simp add: q_ex_def q_eval scan_def scan_peer_def no_moves_def moved_def hold_time_def
        quarantineAfter_def quarantineMaxHold_def)
  then show ?thesis using quarantine_dry_scan_exact by blast
qed

end
