(* ===== verification/Social.thy ===== *)
theory Social
  imports Prelude "HOL-Library.AList"
begin

text \<open>
  \<open>social.go\<close>: the persistent address book and this node's profile. Peer ids are a type
  parameter. The Go map of contacts, whose iteration order is arbitrary, is an association
  list with distinct keys; nothing below depends on its order. The JSON text of
  \<open>social.json\<close> is left out: the file is the \<open>diskSocial\<close> value, which has every field of a
  contact but \<open>online\<close>. A write that fails leaves the file as it was.
\<close>

section \<open>State\<close>

datatype friendState = stNone | stPending | stIncoming | stAccepted | stBlocked

record 'p contact =
  ct_peer :: 'p
  ct_nick :: bytes
  ct_pic :: bytes
  ct_state :: friendState
  ct_added :: int
  ct_seen :: int
  ct_online :: bool

record profile =
  pf_nick :: bytes
  pf_pic :: bytes

text \<open>A persisted entry: a contact without \<open>online\<close>; \<open>None\<close> is a JSON null, the peer \<open>None\<close> an empty id.\<close>

record 'p disk_contact =
  dc_peer :: "'p option"
  dc_nick :: bytes
  dc_pic :: bytes
  dc_state :: friendState
  dc_added :: int
  dc_seen :: int

record 'p diskSocial =
  ds_profile :: profile
  ds_contacts :: "'p disk_contact option list"

record 'p socialState =
  so_self :: profile
  so_contacts :: "('p \<times> 'p contact) list"
  so_file :: "'p diskSocial option"   \<comment> \<open>what \<open>social.json\<close> parses to\<close>
  so_writable :: bool

text \<open>\<open>hostname\<close> is the result of \<open>os.Hostname\<close>; the fallback is "VidyaGod".\<close>

definition defaultNick :: "bytes option \<Rightarrow> bytes" where
  "defaultNick hostname =
     (case hostname of Some h \<Rightarrow> if h \<noteq> [] then h else [86, 105, 100, 121, 97, 71, 111, 100]
      | None \<Rightarrow> [86, 105, 100, 121, 97, 71, 111, 100])"

section \<open>Load and save\<close>

definition to_disk :: "'p contact \<Rightarrow> 'p disk_contact" where
  "to_disk c = \<lparr>dc_peer = Some (ct_peer c), dc_nick = ct_nick c, dc_pic = ct_pic c,
     dc_state = ct_state c, dc_added = ct_added c, dc_seen = ct_seen c\<rparr>"

definition from_disk :: "'p \<Rightarrow> 'p disk_contact \<Rightarrow> 'p contact" where
  "from_disk p d = \<lparr>ct_peer = p, ct_nick = dc_nick d, ct_pic = dc_pic d, ct_state = dc_state d,
     ct_added = dc_added d, ct_seen = dc_seen d, ct_online = False\<rparr>"

fun load_entry :: "'p disk_contact option \<Rightarrow> ('p \<times> 'p contact) list \<Rightarrow> ('p \<times> 'p contact) list" where
  "load_entry None cs = cs"
| "load_entry (Some d) cs =
     (case dc_peer d of None \<Rightarrow> cs | Some p \<Rightarrow> AList.update p (from_disk p d) cs)"

definition load_social :: "'p socialState \<Rightarrow> 'p socialState" where
  "load_social s =
     (case so_file s of None \<Rightarrow> s
      | Some d \<Rightarrow> s\<lparr>so_self := ds_profile d, so_contacts := fold load_entry (ds_contacts d) (so_contacts s)\<rparr>)"

definition newSocialState :: "'p diskSocial option \<Rightarrow> bool \<Rightarrow> 'p socialState" where
  "newSocialState fl writable =
     load_social \<lparr>so_self = \<lparr>pf_nick = [], pf_pic = []\<rparr>, so_contacts = [], so_file = fl, so_writable = writable\<rparr>"

definition saveLocked :: "'p socialState \<Rightarrow> 'p socialState" where
  "saveLocked s =
     (if so_writable s
      then s\<lparr>so_file := Some \<lparr>ds_profile = so_self s, ds_contacts = map (Some \<circ> to_disk \<circ> snd) (so_contacts s)\<rparr>\<rparr>
      else s)"

section \<open>Operations\<close>

definition setProfile :: "bytes option \<Rightarrow> bytes \<Rightarrow> bytes \<Rightarrow> 'p socialState \<Rightarrow> 'p socialState" where
  "setProfile hostname nick pic s =
     saveLocked (s\<lparr>so_self := \<lparr>pf_nick = (if nick = [] then defaultNick hostname else nick), pf_pic = pic\<rparr>\<rparr>)"

definition getProfile :: "'p socialState \<Rightarrow> profile" where
  "getProfile s = so_self s"

definition new_contact :: "int \<Rightarrow> 'p \<Rightarrow> 'p contact" where
  "new_contact now p = \<lparr>ct_peer = p, ct_nick = [], ct_pic = [], ct_state = stNone, ct_added = now,
     ct_seen = 0, ct_online = False\<rparr>"

definition so_get :: "'p \<Rightarrow> 'p socialState \<Rightarrow> 'p contact option" where
  "so_get p s = map_of (so_contacts s) p"

definition upsert :: "int \<Rightarrow> 'p \<Rightarrow> ('p contact \<Rightarrow> 'p contact) \<Rightarrow> 'p socialState \<Rightarrow> 'p contact \<times> 'p socialState" where
  "upsert now p mutate s =
     (let c = mutate (case so_get p s of None \<Rightarrow> new_contact now p | Some c \<Rightarrow> c) in
      (c, saveLocked (s\<lparr>so_contacts := AList.update p c (so_contacts s)\<rparr>)))"

definition so_remove :: "'p \<Rightarrow> 'p socialState \<Rightarrow> bool \<times> 'p socialState" where
  "so_remove p s =
     (if so_get p s = None then (False, s)
      else (True, saveLocked (s\<lparr>so_contacts := AList.delete p (so_contacts s)\<rparr>)))"

definition so_list :: "'p socialState \<Rightarrow> 'p contact list" where
  "so_list s = map snd (so_contacts s)"

definition isBlocked :: "'p \<Rightarrow> 'p socialState \<Rightarrow> bool" where
  "isBlocked p s = (case so_get p s of None \<Rightarrow> False | Some c \<Rightarrow> ct_state c = stBlocked)"

text \<open>The contact is \<open>None\<close> where the code returns the zero contact of an unknown peer.\<close>

definition setPresence :: "int \<Rightarrow> 'p \<Rightarrow> bool \<Rightarrow> 'p socialState \<Rightarrow> (bool \<times> 'p contact option) \<times> 'p socialState" where
  "setPresence now p online s =
     (case so_get p s of None \<Rightarrow> ((False, None), s)
      | Some c \<Rightarrow>
          (let c' = (if online then c\<lparr>ct_seen := now, ct_online := online\<rparr> else c\<lparr>ct_online := online\<rparr>);
               s' = s\<lparr>so_contacts := AList.update p c' (so_contacts s)\<rparr>
           in ((ct_online c \<noteq> online, Some c'), if online then saveLocked s' else s')))"

definition acceptedPeers :: "'p socialState \<Rightarrow> 'p list" where
  "acceptedPeers s = map fst (filter (\<lambda>(p, c). ct_state c = stAccepted) (so_contacts s))"

definition pendingPeers :: "'p socialState \<Rightarrow> 'p list" where
  "pendingPeers s = map fst (filter (\<lambda>(p, c). ct_state c = stPending) (so_contacts s))"

section \<open>The interface\<close>

text \<open>
  What the friend protocol relies on: entries are independent, an update is what its mutator
  makes of the entry, a removed entry is gone, and the lists say who is in which state.
\<close>

locale address_book =
  fixes inv :: "'s \<Rightarrow> bool"
    and lookup :: "'p \<Rightarrow> 's \<Rightarrow> 'p contact option"
    and change :: "int \<Rightarrow> 'p \<Rightarrow> ('p contact \<Rightarrow> 'p contact) \<Rightarrow> 's \<Rightarrow> 'p contact \<times> 's"
    and delete :: "'p \<Rightarrow> 's \<Rightarrow> bool \<times> 's"
    and accepted :: "'s \<Rightarrow> 'p list"
    and pending :: "'s \<Rightarrow> 'p list"
  assumes change_inv: "inv s \<Longrightarrow> inv (snd (change now p f s))"
    and delete_inv: "inv s \<Longrightarrow> inv (snd (delete p s))"
    and lookup_change: "lookup q (snd (change now p f s)) =
          (if q = p then Some (f (case lookup p s of None \<Rightarrow> new_contact now p | Some c \<Rightarrow> c)) else lookup q s)"
    and change_result: "fst (change now p f s) = f (case lookup p s of None \<Rightarrow> new_contact now p | Some c \<Rightarrow> c)"
    and lookup_delete: "inv s \<Longrightarrow> lookup q (snd (delete p s)) = (if q = p then None else lookup q s)"
    and delete_result: "fst (delete p s) \<longleftrightarrow> lookup p s \<noteq> None"
    and accepted_iff: "inv s \<Longrightarrow> p \<in> set (accepted s) \<longleftrightarrow> (\<exists>c. lookup p s = Some c \<and> ct_state c = stAccepted)"
    and pending_iff: "inv s \<Longrightarrow> p \<in> set (pending s) \<longleftrightarrow> (\<exists>c. lookup p s = Some c \<and> ct_state c = stPending)"
begin

lemma change_twice: "lookup p (snd (change n2 p g (snd (change n1 p f s)))) = lookup p (snd (change n1 p (g \<circ> f) s))"
  by (simp add: lookup_change)

lemma change_fresh: "inv s \<Longrightarrow> lookup q (snd (change now p f (snd (delete p s)))) =
    (if q = p then Some (f (new_contact now p)) else lookup q s)"
  by (simp add: lookup_change lookup_delete)

lemma accepted_pending_disjoint: "inv s \<Longrightarrow> set (accepted s) \<inter> set (pending s) = {}"
  by (auto simp: accepted_iff pending_iff)

text \<open>A change that keeps every state but leaves \<open>p\<close>'s entry in state \<open>st\<close>.\<close>

lemma accepted_change:
  "inv s \<Longrightarrow> (\<And>c. ct_state (f c) = st) \<Longrightarrow>
   set (accepted (snd (change now p f s))) = (if st = stAccepted then insert p (set (accepted s)) else set (accepted s) - {p})"
  by (auto simp: accepted_iff lookup_change change_inv split: if_splits)

end

text \<open>The book's invariant: distinct keys, and every entry names its key.\<close>

definition so_ok :: "'p socialState \<Rightarrow> bool" where
  "so_ok s \<longleftrightarrow> distinct (map fst (so_contacts s)) \<and> (\<forall>p c. so_get p s = Some c \<longrightarrow> ct_peer c = p)"

text \<open>The state of the invariant that is about lookup only.\<close>

definition so_keys :: "'p socialState \<Rightarrow> bool" where
  "so_keys s \<longleftrightarrow> distinct (map fst (so_contacts s))"

lemma saveLocked_keep [simp]: "so_contacts (saveLocked s) = so_contacts s" "so_self (saveLocked s) = so_self s"
  "so_writable (saveLocked s) = so_writable s"
  by (simp_all add: saveLocked_def)

lemma filter_keys_iff:
  "distinct (map fst xs) \<Longrightarrow> p \<in> set (map fst (filter (\<lambda>(p, c). P c) xs)) \<longleftrightarrow> (\<exists>c. map_of xs p = Some c \<and> P c)"
  by (induction xs) (auto split: if_splits intro: rev_image_eqI)

interpretation book: address_book so_keys so_get upsert so_remove acceptedPeers pendingPeers
proof
  show "p \<in> set (acceptedPeers s) \<longleftrightarrow> (\<exists>c. so_get p s = Some c \<and> ct_state c = stAccepted)" if "so_keys s" for p s
    using that filter_keys_iff[of "so_contacts s" p "\<lambda>c. ct_state c = stAccepted"]
    by (simp add: acceptedPeers_def so_keys_def so_get_def)
  show "p \<in> set (pendingPeers s) \<longleftrightarrow> (\<exists>c. so_get p s = Some c \<and> ct_state c = stPending)" if "so_keys s" for p s
    using that filter_keys_iff[of "so_contacts s" p "\<lambda>c. ct_state c = stPending"]
    by (simp add: pendingPeers_def so_keys_def so_get_def)
qed (auto simp: so_keys_def upsert_def so_remove_def so_get_def Let_def distinct_update distinct_delete
    update_conv' AList.delete_conv')

section \<open>What a restart restores\<close>

text \<open>The mutations of a running node; a mutator never changes whose contact it is.\<close>

inductive social_step :: "'p socialState \<Rightarrow> 'p socialState \<Rightarrow> bool" where
  so_upsert: "(\<And>c. ct_peer (f c) = ct_peer c) \<Longrightarrow> social_step s (snd (upsert now p f s))"
| so_removed: "social_step s (snd (so_remove p s))"
| so_presence: "social_step s (snd (setPresence now p on s))"
| so_profile: "social_step s (setProfile hostname nick pic s)"

definition social_init :: "'p socialState \<Rightarrow> bool" where
  "social_init s \<longleftrightarrow> (\<exists>fl. s = newSocialState fl True)"

definition offline :: "'p contact \<Rightarrow> 'p contact" where
  "offline c = c\<lparr>ct_online := False\<rparr>"

definition in_sync :: "'p socialState \<Rightarrow> bool" where
  "in_sync s \<longleftrightarrow> so_self (newSocialState (so_file s) True) = so_self s \<and>
     (\<forall>p. so_get p (newSocialState (so_file s) True) = map_option offline (so_get p s))"

definition social_inv :: "'p socialState \<Rightarrow> bool" where
  "social_inv s \<longleftrightarrow> so_ok s \<and> so_writable s \<and> in_sync s"

lemma load_to_disk: "load_entry (Some (to_disk c)) acc = AList.update (ct_peer c) (offline c) acc"
  by (cases c) (simp add: to_disk_def from_disk_def offline_def)

lemma load_saved:
  "(\<forall>x \<in> set cs. ct_peer (snd x) = fst x) \<Longrightarrow> distinct (map fst cs) \<Longrightarrow>
   map_of (fold load_entry (map (Some \<circ> to_disk \<circ> snd) cs) acc) p =
     (case map_of cs p of Some c \<Rightarrow> Some (offline c) | None \<Rightarrow> map_of acc p)"
proof (induction cs arbitrary: acc)
  case (Cons x cs)
  show ?case
  proof (cases "p = fst x")
    case True
    then have "map_of cs p = None" using Cons.prems(2) by (simp add: map_of_eq_None_iff)
    with Cons True show ?thesis
      by (simp add: load_to_disk update_conv' del: load_entry.simps)
  next
    case False
    with Cons show ?thesis by (simp add: load_to_disk update_conv' del: load_entry.simps split: option.splits)
  qed
qed simp

lemma load_distinct: "distinct (map fst acc) \<Longrightarrow> distinct (map fst (fold load_entry ds acc))"
proof (induction ds arbitrary: acc)
  case (Cons d ds)
  have "distinct (map fst (load_entry d acc))"
    using Cons.prems by (cases "(d, acc)" rule: load_entry.cases) (simp_all add: distinct_update split: option.splits)
  then show ?case using Cons.IH by simp
qed simp

lemma load_entries:
  "(\<forall>p c. map_of acc p = Some c \<longrightarrow> ct_peer c = p \<and> \<not> ct_online c) \<Longrightarrow>
   map_of (fold load_entry ds acc) p = Some c \<Longrightarrow> ct_peer c = p \<and> \<not> ct_online c"
proof (induction ds arbitrary: acc)
  case (Cons d ds)
  have "\<forall>p c. map_of (load_entry d acc) p = Some c \<longrightarrow> ct_peer c = p \<and> \<not> ct_online c"
    using Cons.prems(1)
    by (cases "(d, acc)" rule: load_entry.cases)
      (auto simp: update_conv' from_disk_def split: option.splits if_splits)
  then show ?case using Cons.IH Cons.prems(2) by simp
qed simp

lemma load_entries_nil: "map_of (fold load_entry ds []) p = Some c \<Longrightarrow> ct_peer c = p \<and> \<not> ct_online c"
  by (rule load_entries[of "[]"]) simp_all

lemma newSocialState_get:
  "so_get p (newSocialState fl w) = Some c \<Longrightarrow> ct_peer c = p \<and> \<not> ct_online c"
  by (cases fl) (auto simp: newSocialState_def load_social_def so_get_def dest: load_entries_nil)

lemma newSocialState_ok:
  "so_ok (newSocialState fl w)" "so_file (newSocialState fl w) = fl" "so_writable (newSocialState fl w) = w"
proof -
  show "so_ok (newSocialState fl w)"
    using newSocialState_get load_distinct[of "[]"]
    by (fastforce simp: so_ok_def newSocialState_def load_social_def split: option.splits)
qed (simp_all add: newSocialState_def load_social_def split: option.splits)

lemma newSocialState_flag: "so_self (newSocialState fl w) = so_self (newSocialState fl v)"
  "so_get p (newSocialState fl w) = so_get p (newSocialState fl v)"
  by (auto simp: newSocialState_def load_social_def so_get_def split: option.splits)

lemma offline_same: "\<not> ct_online c \<Longrightarrow> offline c = c"
  by (simp add: offline_def)

lemma offline_idem: "(\<And>c. x = Some c \<Longrightarrow> \<not> ct_online c) \<Longrightarrow> map_option offline x = x"
  by (cases x) (simp_all add: offline_same)

lemma social_inv_init: "social_init s \<Longrightarrow> social_inv s"
proof -
  assume "social_init s"
  then obtain fl where s: "s = newSocialState fl True" by (auto simp: social_init_def)
  have "map_option offline (so_get p s) = so_get p s" for p
    by (intro offline_idem) (auto simp: s dest: newSocialState_get)
  then show ?thesis by (simp add: social_inv_def s newSocialState_ok in_sync_def)
qed

lemma in_sync_saved:
  assumes "so_ok s" "so_writable s"
  shows "in_sync (saveLocked s)"
proof -
  have "\<forall>x \<in> set (so_contacts s). ct_peer (snd x) = fst x"
    using assms(1) by (auto simp: so_ok_def so_get_def)
  then show ?thesis
    using assms load_saved[of "so_contacts s" "[]"]
    by (auto simp: in_sync_def saveLocked_def newSocialState_def load_social_def so_get_def so_ok_def
        split: option.splits)
qed

lemma saveLocked_ok [simp]: "so_ok (saveLocked s) = so_ok s" "so_get p (saveLocked s) = so_get p s"
  by (simp_all add: so_ok_def so_get_def)

lemma so_get_update: "so_get q (s\<lparr>so_contacts := AList.update p c (so_contacts s)\<rparr>) = (if q = p then Some c else so_get q s)"
  by (simp add: so_get_def update_conv')

lemma so_ok_update: "so_ok s \<Longrightarrow> ct_peer c = p \<Longrightarrow> so_ok (s\<lparr>so_contacts := AList.update p c (so_contacts s)\<rparr>)"
  by (auto simp: so_ok_def so_get_update distinct_update)

lemma so_ok_delete: "so_ok s \<Longrightarrow> so_ok (s\<lparr>so_contacts := AList.delete p (so_contacts s)\<rparr>)"
  by (auto simp: so_ok_def so_get_def distinct_delete AList.delete_conv' split: if_splits)

lemma so_ok_entry: "so_ok s \<Longrightarrow> ct_peer (case so_get p s of None \<Rightarrow> new_contact now p | Some c \<Rightarrow> c) = p"
  by (auto simp: so_ok_def new_contact_def split: option.splits)

lemma in_sync_presence:
  assumes "in_sync s" "so_get p s = Some c" "offline c' = offline c"
  shows "in_sync (s\<lparr>so_contacts := AList.update p c' (so_contacts s)\<rparr>)"
  using assms by (simp add: in_sync_def so_get_update)

lemma social_inv_step: "social_inv s \<Longrightarrow> social_step s t \<Longrightarrow> social_inv t"
proof (erule social_step.cases)
  fix f s0 now p assume inv: "social_inv s" and f: "\<And>c. ct_peer (f c) = ct_peer c"
    and "s = s0" "t = snd (upsert now p f s0)"
  then show "social_inv t"
    by (simp add: social_inv_def upsert_def Let_def in_sync_saved so_ok_update so_ok_entry)
next
  fix s0 p assume "social_inv s" "s = s0" "t = snd (so_remove p s0)"
  then show "social_inv t"
    by (simp add: social_inv_def so_remove_def in_sync_saved so_ok_delete)
next
  fix s0 now p on assume inv: "social_inv s" and st: "s = s0" "t = snd (setPresence now p on s0)"
  show "social_inv t"
  proof (cases "so_get p s")
    case (Some c)
    have "ct_peer c = p" using inv Some by (auto simp: social_inv_def so_ok_def)
    with inv st Some show ?thesis
      by (simp add: social_inv_def setPresence_def Let_def in_sync_saved so_ok_update in_sync_presence[of s0 p c] offline_def)
  qed (use inv st in \<open>simp add: setPresence_def\<close>)
next
  fix s0 h nick pic assume "social_inv s" "s = s0" "t = setProfile h nick pic s0"
  then show "social_inv t"
    by (simp add: social_inv_def setProfile_def in_sync_saved so_ok_def so_get_def)
qed

interpretation social: step_invariant social_init social_step social_inv
  by unfold_locales (fact social_inv_init, fact social_inv_step)

section \<open>Properties\<close>


definition book_ex :: "nat socialState" where
  "book_ex = snd (upsert 5 1 (\<lambda>c. c\<lparr>ct_state := stAccepted\<rparr>) (newSocialState None True))"

lemma book_ex_reachable: "reachable social_init social_step book_ex"
  unfolding book_ex_def
  by (rule reach_step[OF reach_init[of social_init "newSocialState None True" social_step]])
    (auto simp: social_init_def intro: so_upsert)


end
