(* ===== verification/Friend.thy ===== *)
theory Friend
  imports Social
begin

text \<open>
  \<open>friend.go\<close>: the friends protocol over the address book. A handler returns the new service
  and its effects in order: the events for the UI, and the goroutines it starts (\<open>Spawn\<close>).
  A task runs later, on the state of that moment, and hands a message to the network, which
  may lose it. JSON framing is left out; peers are authenticated by libp2p, so the remote id
  of a message is its true sender.
\<close>

section \<open>Bounded strings\<close>

text \<open>\<open>utf8.ValidString\<close>: shortest encodings of the scalar values, no surrogates.\<close>

definition cont :: "byte \<Rightarrow> bool" where
  "cont b \<longleftrightarrow> 0x80 \<le> b \<and> b \<le> 0xBF"

fun validUtf8 :: "bytes \<Rightarrow> bool" where
  "validUtf8 [] = True"
| "validUtf8 (a # r) =
     (if a < 0x80 then validUtf8 r
      else (case r of
          b # r2 \<Rightarrow>
            if 0xC2 \<le> a \<and> a \<le> 0xDF then cont b \<and> validUtf8 r2
            else (case r2 of
                c # r3 \<Rightarrow>
                  if 0xE0 \<le> a \<and> a \<le> 0xEF
                  then cont b \<and> cont c \<and> (a = 0xE0 \<longrightarrow> 0xA0 \<le> b) \<and> (a = 0xED \<longrightarrow> b \<le> 0x9F) \<and> validUtf8 r3
                  else (case r3 of
                      d # r4 \<Rightarrow>
                        0xF0 \<le> a \<and> a \<le> 0xF4 \<and> cont b \<and> cont c \<and> cont d \<and>
                        (a = 0xF0 \<longrightarrow> 0x90 \<le> b) \<and> (a = 0xF4 \<longrightarrow> b \<le> 0x8F) \<and> validUtf8 r4
                    | [] \<Rightarrow> False)
              | [] \<Rightarrow> False)
        | [] \<Rightarrow> False))"

text \<open>The loop of \<open>capUtf8\<close>: drop the last byte until what is left is valid.\<close>

function trim_utf8 :: "bytes \<Rightarrow> bytes" where
  "trim_utf8 s = (if length s > 0 \<and> \<not> validUtf8 s then trim_utf8 (take (length s - 1) s) else s)"
  by pat_completeness auto
termination by (relation "measure length") auto

declare trim_utf8.simps [simp del]

definition capUtf8 :: "bytes \<Rightarrow> nat \<Rightarrow> bytes" where
  "capUtf8 s mx = (if length s \<le> mx then (if validUtf8 s then s else []) else trim_utf8 (take mx s))"

section \<open>Messages\<close>

record shareItem =
  si_cid :: bytes
  si_node :: bytes
  si_pkg :: bytes
  si_uid :: bytes
  si_title :: bytes
  si_tileCid :: bytes
  si_tileNode :: bytes

text \<open>A library map, in some order; \<open>[]\<close> also stands for the nil map.\<close>

type_synonym libs = "(bytes \<times> shareItem list) list"

datatype msgType = Request | Accept | Decline | Profile | Presence | Ping | LibraryReq | Library | OtherType

record friendMsg =
  fm_type :: msgType
  fm_nick :: bytes
  fm_pic :: bytes
  fm_note :: bytes
  fm_libs :: libs
  fm_seq :: "64 word"

definition plain_msg :: "msgType \<Rightarrow> friendMsg" where
  "plain_msg t = \<lparr>fm_type = t, fm_nick = [], fm_pic = [], fm_note = [], fm_libs = [], fm_seq = 0\<rparr>"

definition maxSharedLibs :: nat where "maxSharedLibs = 4096"
definition maxLibCids :: nat where "maxLibCids = 100000"
definition maxLibNameLen :: nat where "maxLibNameLen = 256"
definition maxCidLen :: nat where "maxCidLen = 128"
definition maxShareIdLen :: nat where "maxShareIdLen = 256"
definition maxShareTitleLen :: nat where "maxShareTitleLen = 512"
definition maxNickLen :: nat where "maxNickLen = 64"

definition item_ok :: "shareItem \<Rightarrow> bool" where
  "item_ok it \<longleftrightarrow> \<not> (length (si_cid it) = 0 \<or> length (si_cid it) > maxCidLen \<or> length (si_tileCid it) > maxCidLen \<or>
     length (si_node it) > maxShareIdLen \<or> length (si_uid it) > maxShareIdLen \<or> length (si_tileNode it) > maxShareIdLen \<or>
     length (si_pkg it) > maxShareIdLen \<or> length (si_title it) > maxShareTitleLen)"

definition libSnapshotOK :: "libs \<Rightarrow> bool" where
  "libSnapshotOK m \<longleftrightarrow> \<not> length m > maxSharedLibs \<and>
     list_all (\<lambda>(name, items). \<not> (length name = 0 \<or> length name > maxLibNameLen \<or> length items > maxLibCids) \<and>
       list_all item_ok items) m"

section \<open>The service\<close>

record 'p friendService =
  fs_self :: 'p                            \<comment> \<open>\<open>host.ID\<close>\<close>
  fs_social :: "'p socialState"
  fs_shareLibs :: "'p \<rightharpoonup> libs"
  fs_sendSeq :: "64 word"
  fs_pushPending :: "'p set"
  fs_presenceDeny :: "'p set"

datatype eventKind = evFriendRequest | evFriendAccept | evFriendDecline | evFriendPresence | evFriendProfile
  | evFriendRemoved | evFriendLibrary | evFriendSent

text \<open>
  Tasks: a message built now; one built by \<open>helloMsg\<close> when the task runs; the snapshot push;
  a presence ping.
\<close>

datatype 'p task = SendNow 'p friendMsg | SendHello 'p msgType | SnapPush 'p | PingTask 'p

datatype 'p effect =
    Emit eventKind "'p contact"
  | EmitRemoved 'p
  | EmitLibrary 'p libs "64 word"
  | Spawn "'p task"

definition newFriendService :: "nanos \<Rightarrow> 'p \<Rightarrow> 'p socialState \<Rightarrow> 'p friendService" where
  "newFriendService now self so = \<lparr>fs_self = self, fs_social = so, fs_shareLibs = Map.empty,
     fs_sendSeq = word_of_int now, fs_pushPending = {}, fs_presenceDeny = {}\<rparr>"

definition helloMsg :: "bytes option \<Rightarrow> msgType \<Rightarrow> 'p friendService \<Rightarrow> friendMsg" where
  "helloMsg hostname t f =
     (let p = getProfile (fs_social f); nick = (if pf_nick p = [] then defaultNick hostname else pf_nick p) in
      (plain_msg t)\<lparr>fm_nick := nick, fm_pic := pf_pic p\<rparr>)"

definition presenceDenied :: "'p \<Rightarrow> 'p friendService \<Rightarrow> bool" where
  "presenceDenied p f \<longleftrightarrow> p \<in> fs_presenceDeny f"

definition setPresenceDeny :: "'p list \<Rightarrow> 'p friendService \<Rightarrow> 'p friendService" where
  "setPresenceDeny ps f = f\<lparr>fs_presenceDeny := set ps\<rparr>"

definition is_accepted :: "'p \<Rightarrow> 'p friendService \<Rightarrow> bool" where
  "is_accepted p f = (case so_get p (fs_social f) of None \<Rightarrow> False | Some c \<Rightarrow> ct_state c = stAccepted)"

definition fs_upsert :: "int \<Rightarrow> 'p \<Rightarrow> ('p contact \<Rightarrow> 'p contact) \<Rightarrow> 'p friendService \<Rightarrow> 'p contact \<times> 'p friendService" where
  "fs_upsert now p g f = (let (c, so) = upsert now p g (fs_social f) in (c, f\<lparr>fs_social := so\<rparr>))"

subsection \<open>Library shares\<close>

definition pushSnapshot :: "'p \<Rightarrow> 'p friendService \<Rightarrow> 'p effect list \<times> 'p friendService" where
  "pushSnapshot p f =
     (if \<not> is_accepted p f then ([], f)
      else if p \<in> fs_pushPending f then ([], f)
      else ([Spawn (SnapPush p)], f\<lparr>fs_pushPending := insert p (fs_pushPending f)\<rparr>))"

text \<open>The body of the push goroutine up to its \<open>send\<close>.\<close>

definition run_push :: "'p \<Rightarrow> 'p friendService \<Rightarrow> friendMsg \<times> 'p friendService" where
  "run_push p f =
     (let out = (case fs_shareLibs f p of None \<Rightarrow> [] | Some m \<Rightarrow> m); seq = fs_sendSeq f + 1 in
      ((plain_msg Library)\<lparr>fm_libs := out, fm_seq := seq\<rparr>,
       f\<lparr>fs_sendSeq := seq, fs_pushPending := fs_pushPending f - {p}\<rparr>))"

definition setShareLib :: "'p \<Rightarrow> bytes \<Rightarrow> shareItem list \<Rightarrow> 'p friendService \<Rightarrow> 'p effect list \<times> 'p friendService" where
  "setShareLib p lib items f =
     (let m = (case fs_shareLibs f p of None \<Rightarrow> [] | Some m \<Rightarrow> m) in
      pushSnapshot p (f\<lparr>fs_shareLibs := (fs_shareLibs f)(p \<mapsto> AList.update lib items m)\<rparr>))"

definition removeShareLib :: "'p \<Rightarrow> bytes \<Rightarrow> 'p friendService \<Rightarrow> 'p effect list \<times> 'p friendService" where
  "removeShareLib p lib f =
     pushSnapshot p
       (case fs_shareLibs f p of None \<Rightarrow> f
        | Some m \<Rightarrow> (let m' = AList.delete lib m in
            f\<lparr>fs_shareLibs := (fs_shareLibs f)(p := (if length m' = 0 then None else Some m'))\<rparr>))"

definition requestLibraries :: "'p \<Rightarrow> 'p friendService \<Rightarrow> 'p effect list \<times> 'p friendService" where
  "requestLibraries p f = ([Spawn (SendNow p (plain_msg LibraryReq))], f)"

definition purgeShares :: "'p \<Rightarrow> 'p friendService \<Rightarrow> 'p friendService" where
  "purgeShares p f = f\<lparr>fs_shareLibs := (fs_shareLibs f)(p := None), fs_pushPending := fs_pushPending f - {p}\<rparr>"

subsection \<open>Inbound messages\<close>

text \<open>\<open>dispatch\<close>, first lines: the identity fields are bounded before any branch stores them.\<close>

definition bound_msg :: "friendMsg \<Rightarrow> friendMsg" where
  "bound_msg m = m\<lparr>fm_nick := capUtf8 (fm_nick m) maxNickLen,
     fm_pic := (if length (fm_pic m) > maxCidLen then [] else fm_pic m)\<rparr>"

definition absorb :: "friendMsg \<Rightarrow> 'p contact \<Rightarrow> 'p contact" where
  "absorb m c = c\<lparr>ct_nick := (if fm_nick m \<noteq> [] then fm_nick m else ct_nick c),
                 ct_pic := (if fm_pic m \<noteq> [] then fm_pic m else ct_pic c)\<rparr>"

definition answer_request :: "friendState \<Rightarrow> friendState" where
  "answer_request st =
     (if st = stPending then stAccepted
      else if st \<noteq> stAccepted \<and> st \<noteq> stBlocked then stIncoming else st)"

definition on_request :: "int \<Rightarrow> 'p \<Rightarrow> friendMsg \<Rightarrow> 'p friendService \<Rightarrow> 'p effect list \<times> 'p friendService" where
  "on_request now p m f =
     (let crossing = (case so_get p (fs_social f) of None \<Rightarrow> False | Some c \<Rightarrow> ct_state c = stPending);
          (c, f') = fs_upsert now p (\<lambda>c. (absorb m c)\<lparr>ct_state := answer_request (ct_state c)\<rparr>) f
      in if crossing then ([Emit evFriendAccept c, Spawn (SendHello p Accept)], f')
         else ([Emit evFriendRequest c], f'))"

definition on_accept :: "int \<Rightarrow> 'p \<Rightarrow> friendMsg \<Rightarrow> 'p friendService \<Rightarrow> 'p effect list \<times> 'p friendService" where
  "on_accept now p m f =
     (let (c, f') = fs_upsert now p (\<lambda>c. absorb m (c\<lparr>ct_state := stAccepted\<rparr>)) f in
      ([Emit evFriendAccept c], f'))"

definition on_decline :: "'p \<Rightarrow> 'p friendService \<Rightarrow> 'p effect list \<times> 'p friendService" where
  "on_decline p f =
     (case so_get p (fs_social f) of None \<Rightarrow> ([], f)
      | Some c \<Rightarrow> ([Emit evFriendDecline c], f\<lparr>fs_social := snd (so_remove p (fs_social f))\<rparr>))"

definition on_profile :: "int \<Rightarrow> 'p \<Rightarrow> friendMsg \<Rightarrow> 'p friendService \<Rightarrow> 'p effect list \<times> 'p friendService" where
  "on_profile now p m f =
     (if so_get p (fs_social f) = None then ([], f)
      else (let (c, f') = fs_upsert now p (\<lambda>c. c\<lparr>ct_nick := fm_nick m, ct_pic := fm_pic m\<rparr>) f in
            ([Emit evFriendProfile c], f')))"

definition mark_presence :: "int \<Rightarrow> 'p \<Rightarrow> bool \<Rightarrow> 'p friendService \<Rightarrow> 'p effect list \<times> 'p friendService" where
  "mark_presence now p online f =
     (let ((changed, c), so) = setPresence now p online (fs_social f) in
      (case c of Some c' \<Rightarrow> if changed then [Emit evFriendPresence c'] else [] | None \<Rightarrow> [],
       f\<lparr>fs_social := so\<rparr>))"

definition dispatch :: "int \<Rightarrow> 'p \<Rightarrow> friendMsg \<Rightarrow> 'p friendService \<Rightarrow> 'p effect list \<times> 'p friendService" where
  "dispatch now p m0 f =
     (let m = bound_msg m0 in
      case fm_type m of
        Request \<Rightarrow> on_request now p m f
      | Accept \<Rightarrow> on_accept now p m f
      | Decline \<Rightarrow> on_decline p f
      | Profile \<Rightarrow> on_profile now p m f
      | Ping \<Rightarrow> if presenceDenied p f then ([], f) else mark_presence now p True f
      | Presence \<Rightarrow> if presenceDenied p f then ([], f) else mark_presence now p True f
      | LibraryReq \<Rightarrow> if \<not> is_accepted p f then ([], f) else pushSnapshot p f
      | Library \<Rightarrow>
          if \<not> is_accepted p f then ([], f)
          else if \<not> libSnapshotOK (fm_libs m) then ([], f)
          else ([EmitLibrary p (fm_libs m) (fm_seq m)], f)
      | OtherType \<Rightarrow> ([], f))"

text \<open>
  \<open>handleStream\<close>: the block is checked once, when the stream opens; then every message of
  the stream is dispatched, at its time.
\<close>

fun dispatch_all :: "'p \<Rightarrow> (int \<times> friendMsg) list \<Rightarrow> 'p friendService \<Rightarrow> 'p effect list \<times> 'p friendService" where
  "dispatch_all p [] f = ([], f)"
| "dispatch_all p ((now, m) # ms) f =
     (let (e1, f1) = dispatch now p m f; (e2, f2) = dispatch_all p ms f1 in (e1 @ e2, f2))"

definition handleStream :: "'p \<Rightarrow> (int \<times> friendMsg) list \<Rightarrow> 'p friendService \<Rightarrow> 'p effect list \<times> 'p friendService" where
  "handleStream p ms f = (if isBlocked p (fs_social f) then ([], f) else dispatch_all p ms f)"

subsection \<open>Local actions\<close>

text \<open>\<open>valid\<close>: \<open>peer.Decode\<close> takes the id. \<open>None\<close>: the error.\<close>

definition addFriend ::
    "bool \<Rightarrow> bytes option \<Rightarrow> int \<Rightarrow> 'p \<Rightarrow> bytes \<Rightarrow> 'p friendService \<Rightarrow> ('p effect list \<times> 'p friendService) option" where
  "addFriend valid hostname now p note f =
     (if \<not> valid then None
      else (let (c, f') = fs_upsert now p
                  (\<lambda>c. if ct_state c \<noteq> stAccepted then c\<lparr>ct_state := stPending\<rparr> else c) f in
            Some ([Emit evFriendSent c, Spawn (SendNow p ((helloMsg hostname Request f')\<lparr>fm_note := note\<rparr>))], f')))"

definition acceptFriend :: "int \<Rightarrow> 'p \<Rightarrow> 'p friendService \<Rightarrow> 'p effect list \<times> 'p friendService" where
  "acceptFriend now p f =
     (let (c, f') = fs_upsert now p (\<lambda>c. c\<lparr>ct_state := stAccepted\<rparr>) f in
      ([Emit evFriendAccept c, Spawn (SendHello p Accept)], f'))"

definition declineFriend :: "'p \<Rightarrow> 'p friendService \<Rightarrow> 'p effect list \<times> 'p friendService" where
  "declineFriend p f =
     ([EmitRemoved p, Spawn (SendNow p (plain_msg Decline))],
      purgeShares p (f\<lparr>fs_social := snd (so_remove p (fs_social f))\<rparr>))"

definition blockFriend :: "int \<Rightarrow> 'p \<Rightarrow> 'p friendService \<Rightarrow> 'p effect list \<times> 'p friendService" where
  "blockFriend now p f =
     (let (c, f') = fs_upsert now p (\<lambda>c. c\<lparr>ct_state := stBlocked, ct_online := False\<rparr>) f in
      ([Emit evFriendDecline c], purgeShares p f'))"

definition broadcastProfile :: "'p friendService \<Rightarrow> 'p effect list" where
  "broadcastProfile f =
     map (\<lambda>p. Spawn (SendHello p Profile)) (filter (\<lambda>p. \<not> presenceDenied p f) (acceptedPeers (fs_social f)))"

definition presence_tick :: "'p friendService \<Rightarrow> 'p effect list" where
  "presence_tick f =
     map (\<lambda>p. Spawn (PingTask p)) (filter (\<lambda>p. \<not> presenceDenied p f) (acceptedPeers (fs_social f))) @
     map (\<lambda>p. Spawn (SendHello p Request)) (pendingPeers (fs_social f))"

subsection \<open>Tasks\<close>

text \<open>
  \<open>send\<close>: the address must decode and not be our own; then \<open>reach\<close> says whether the dial, the
  stream and the write succeed.
\<close>

definition send_ok :: "bool \<Rightarrow> bool \<Rightarrow> 'p \<Rightarrow> 'p friendService \<Rightarrow> bool" where
  "send_ok valid reach p f \<longleftrightarrow> valid \<and> p \<noteq> fs_self f \<and> reach"

text \<open>What a task sends, what it emits afterwards, and the service after it.\<close>

fun run_task ::
    "bool \<Rightarrow> bool \<Rightarrow> bytes option \<Rightarrow> int \<Rightarrow> 'p task \<Rightarrow> 'p friendService
      \<Rightarrow> ('p \<times> friendMsg) list \<times> 'p effect list \<times> 'p friendService" where
  "run_task valid reach hostname now (SendNow p m) f = (if send_ok valid reach p f then [(p, m)] else [], [], f)"
| "run_task valid reach hostname now (SendHello p t) f =
     (if send_ok valid reach p f then [(p, helloMsg hostname t f)] else [], [], f)"
| "run_task valid reach hostname now (SnapPush p) f =
     (let (m, f') = run_push p f in (if send_ok valid reach p f' then [(p, m)] else [], [], f'))"
| "run_task valid reach hostname now (PingTask p) f =
     (let online = send_ok valid reach p f; (es, f') = mark_presence now p online f in
      (if online then [(p, helloMsg hostname Ping f)] else [], es, f'))"

section \<open>The protocol automaton\<close>

text \<open>
  The contract of \<open>dispatch\<close>: a message of \<open>p\<close> moves the relation to \<open>p\<close> along this automaton
  (\<open>None\<close>: not a contact) and touches no other relation.
\<close>

definition next_state :: "msgType \<Rightarrow> friendState option \<Rightarrow> friendState option" where
  "next_state t st =
     (if t = Request then Some (answer_request (case st of None \<Rightarrow> stNone | Some x \<Rightarrow> x))
      else if t = Accept then Some stAccepted
      else if t = Decline then None else st)"

definition peer_state :: "'p \<Rightarrow> 'p friendService \<Rightarrow> friendState option" where
  "peer_state p f = map_option ct_state (so_get p (fs_social f))"

definition fs_ok :: "'p friendService \<Rightarrow> bool" where
  "fs_ok f \<longleftrightarrow> so_keys (fs_social f)"

lemma is_accepted_state: "is_accepted p f \<longleftrightarrow> peer_state p f = Some stAccepted"
  by (auto simp: is_accepted_def peer_state_def split: option.splits)

lemma pushSnapshot_social [simp]: "fs_social (snd (pushSnapshot p f)) = fs_social f"
  by (simp add: pushSnapshot_def)

lemma purgeShares_social [simp]: "fs_social (purgeShares p f) = fs_social f"
  by (simp add: purgeShares_def)

lemma fs_upsert_social:
  "fs_social (snd (fs_upsert now p g f)) = snd (upsert now p g (fs_social f))"
  "fst (fs_upsert now p g f) = fst (upsert now p g (fs_social f))"
  by (simp_all add: fs_upsert_def split_beta)

lemma fs_upsert_rest:
  "fs_shareLibs (snd (fs_upsert now p g f)) = fs_shareLibs f" "fs_sendSeq (snd (fs_upsert now p g f)) = fs_sendSeq f"
  "fs_pushPending (snd (fs_upsert now p g f)) = fs_pushPending f" "fs_self (snd (fs_upsert now p g f)) = fs_self f"
  "fs_presenceDeny (snd (fs_upsert now p g f)) = fs_presenceDeny f"
  by (simp_all add: fs_upsert_def split_beta)

lemma setPresence_state:
  "map_option ct_state (so_get q (snd (setPresence now p on s))) = map_option ct_state (so_get q s)"
  "so_keys s \<Longrightarrow> so_keys (snd (setPresence now p on s))"
  by (auto simp: setPresence_def Let_def so_get_update so_keys_def distinct_update split: option.splits)

lemma absorb_state [simp]: "ct_state (absorb m c) = ct_state c" "ct_peer (absorb m c) = ct_peer c"
  by (simp_all add: absorb_def)

lemma bound_msg_type [simp]: "fm_type (bound_msg m) = fm_type m"
  by (simp add: bound_msg_def)

lemma mark_presence_social: "fs_social (snd (mark_presence now p on f)) = snd (setPresence now p on (fs_social f))"
  by (simp add: mark_presence_def split_beta)

lemma dispatch_ok: "fs_ok f \<Longrightarrow> fs_ok (snd (dispatch now p m f))"
  by (auto simp: dispatch_def Let_def fs_ok_def on_request_def on_accept_def on_decline_def on_profile_def
      split_beta fs_upsert_social book.change_inv book.delete_inv mark_presence_social setPresence_state
      split: msgType.splits option.splits)


definition friend_ex :: "nat friendService" where
  "friend_ex = newFriendService 0 0 (newSocialState None True)"

lemma friend_ex_ok: "so_keys (fs_social friend_ex)"
  by (simp add: friend_ex_def newFriendService_def newSocialState_def load_social_def so_keys_def)


section \<open>Bounded identities\<close>

lemma trim_utf8_prefix: "\<exists>r. s = trim_utf8 s @ r"
proof (induction s rule: trim_utf8.induct)
  case (1 s)
  show ?case
  proof (cases "length s > 0 \<and> \<not> validUtf8 s")
    case True
    with 1 obtain r where "take (length s - 1) s = trim_utf8 s @ r" by (auto simp: trim_utf8.simps[of s])
    then have "s = trim_utf8 s @ (r @ drop (length s - 1) s)" by (metis append.assoc append_take_drop_id)
    then show ?thesis by blast
  qed (auto simp: trim_utf8.simps[of s])
qed

lemma trim_utf8_valid: "validUtf8 (trim_utf8 s)"
proof (induction s rule: trim_utf8.induct)
  case (1 s) then show ?case by (auto simp: trim_utf8.simps[of s])
qed

lemma trim_utf8_longest: "s = t @ r \<Longrightarrow> validUtf8 t \<Longrightarrow> length t \<le> length (trim_utf8 s)"
proof (induction s arbitrary: r rule: trim_utf8.induct)
  case (1 s)
  show ?case
  proof (cases "length s > 0 \<and> \<not> validUtf8 s")
    case True
    with "1.prems" have "r \<noteq> []" by auto
    then have "take (length s - 1) s = t @ butlast r"
      using "1.prems"(1) by (cases r rule: rev_cases) (simp_all add: butlast_conv_take)
    from "1.IH"[OF True this "1.prems"(2)] True show ?thesis by (simp add: trim_utf8.simps[of s])
  next
    case False
    then have "trim_utf8 s = s" by (subst trim_utf8.simps) (simp only: if_False)
    with "1.prems" show ?thesis by simp
  qed
qed

lemma utf8_lead:
  "a < 0x80 \<Longrightarrow> validUtf8 (a # r) = validUtf8 r"
  "\<not> a < 0x80 \<Longrightarrow> 0xC2 \<le> a \<and> a \<le> 0xDF \<Longrightarrow> validUtf8 (a # b # r) \<longleftrightarrow> cont b \<and> validUtf8 r"
  "\<not> a < 0x80 \<Longrightarrow> \<not> (0xC2 \<le> a \<and> a \<le> 0xDF) \<Longrightarrow> 0xE0 \<le> a \<and> a \<le> 0xEF \<Longrightarrow> validUtf8 (a # b # c # r) \<longleftrightarrow>
     cont b \<and> cont c \<and> (a = 0xE0 \<longrightarrow> 0xA0 \<le> b) \<and> (a = 0xED \<longrightarrow> b \<le> 0x9F) \<and> validUtf8 r"
  "\<not> a < 0x80 \<Longrightarrow> \<not> (0xC2 \<le> a \<and> a \<le> 0xDF) \<Longrightarrow> \<not> (0xE0 \<le> a \<and> a \<le> 0xEF) \<Longrightarrow> validUtf8 (a # b # c # d # r) \<longleftrightarrow>
     0xF0 \<le> a \<and> a \<le> 0xF4 \<and> cont b \<and> cont c \<and> cont d \<and>
     (a = 0xF0 \<longrightarrow> 0x90 \<le> b) \<and> (a = 0xF4 \<longrightarrow> b \<le> 0x8F) \<and> validUtf8 r"
  by (subst validUtf8.simps(2), simp only: if_P if_not_P list.case if_True if_False)+

text \<open>A valid string starts with an encoded character of one to four bytes.\<close>

lemma utf8_char:
  assumes "validUtf8 s" "s \<noteq> []"
  shows "\<exists>ch r. s = ch @ r \<and> ch \<noteq> [] \<and> length ch \<le> 4 \<and> validUtf8 r \<and> (\<forall>t. validUtf8 t \<longrightarrow> validUtf8 (ch @ t))"
proof -
  obtain a r where s: "s = a # r" using assms(2) by (cases s) auto
  show ?thesis
  proof (cases "a < 0x80")
    case True
    with assms s show ?thesis
          by (intro exI[of _ "[a]"] exI[of _ r]) (simp add: utf8_lead del: validUtf8.simps(2))
  next
    case a: False
    with assms s obtain b r2 where r: "r = b # r2" by (cases r) auto
    show ?thesis
    proof (cases "0xC2 \<le> a \<and> a \<le> 0xDF")
      case True
      with a assms s r show ?thesis
          by (intro exI[of _ "[a, b]"] exI[of _ r2]) (simp add: utf8_lead del: validUtf8.simps(2))
    next
      case b: False
      with a assms s r obtain c r3 where r2: "r2 = c # r3" by (cases r2) (auto split: if_splits)
      show ?thesis
      proof (cases "0xE0 \<le> a \<and> a \<le> 0xEF")
        case True
        with a b assms s r r2 show ?thesis
          by (intro exI[of _ "[a, b, c]"] exI[of _ r3]) (simp add: utf8_lead del: validUtf8.simps(2))
      next
        case c: False
        with a b assms s r r2 obtain d r4 where r3: "r3 = d # r4" by (cases r3) (auto split: if_splits)
        with a b c assms s r r2 show ?thesis
          by (intro exI[of _ "[a, b, c, d]"] exI[of _ r4]) (simp add: utf8_lead del: validUtf8.simps(2))
      qed
    qed
  qed
qed

lemma utf8_cut: "validUtf8 s \<Longrightarrow> n \<le> length s \<Longrightarrow> \<exists>k \<le> 3. k \<le> n \<and> validUtf8 (take (n - k) s)"
proof (induction s arbitrary: n rule: length_induct)
  case (1 s)
  show ?case
  proof (cases "s = [] \<or> n = 0")
    case False
    then obtain ch r where ch: "s = ch @ r" "ch \<noteq> []" "length ch \<le> 4" "validUtf8 r"
      "\<forall>t. validUtf8 t \<longrightarrow> validUtf8 (ch @ t)" using utf8_char[of s] "1.prems" by blast
    show ?thesis
    proof (cases "n < length ch")
      case True
      then have "n \<le> 3" using ch(3) by simp
      then show ?thesis by (intro exI[of _ n]) simp
    next
      case n: False
      have "length r < length s" using ch(1,2) by simp
      moreover have "n - length ch \<le> length r" using ch(1) "1.prems"(2) by simp
      ultimately obtain k where k: "k \<le> 3" "k \<le> n - length ch" "validUtf8 (take (n - length ch - k) r)"
        using "1.IH" ch(4) by blast
      have "take (n - k) s = ch @ take (n - length ch - k) r" using n k(2) ch(1) by (simp add: add.commute)
      then show ?thesis using k ch(5) by (intro exI[of _ k]) auto
    qed
  qed (use "1.prems" in \<open>auto intro: exI[of _ 0]\<close>)
qed

text \<open>
  The nickname bound. The result of \<open>capUtf8\<close> is valid UTF-8 of at most \<open>max\<close> bytes and a
  prefix of its argument; of a longer string it is the longest such prefix, so a valid name
  loses at most three bytes more than the bound takes, and a valid name within it nothing.
\<close>

theorem cap_utf8_longest:
  "validUtf8 (capUtf8 s mx) \<and> length (capUtf8 s mx) \<le> mx \<and> s = capUtf8 s mx @ drop (length (capUtf8 s mx)) s \<and>
   (mx < length s \<longrightarrow> (\<forall>t r. s = t @ r \<and> length t \<le> mx \<and> validUtf8 t \<longrightarrow> length t \<le> length (capUtf8 s mx))) \<and>
   (validUtf8 s \<longrightarrow> min mx (length s) \<le> length (capUtf8 s mx) + 3) \<and>
   (validUtf8 s \<and> length s \<le> mx \<longrightarrow> capUtf8 s mx = s)"
proof -
  obtain r where r: "take mx s = trim_utf8 (take mx s) @ r" using trim_utf8_prefix by blast
  then have "s = trim_utf8 (take mx s) @ (r @ drop mx s)" by (metis append.assoc append_take_drop_id)
  then have "s = trim_utf8 (take mx s) @ drop (length (trim_utf8 (take mx s))) s"
    by (metis append_eq_conv_conj)
  then have pre: "s = capUtf8 s mx @ drop (length (capUtf8 s mx)) s"
    unfolding capUtf8_def by (simp split: if_split)
  have "length (trim_utf8 (take mx s)) \<le> length (take mx s)" by (subst (2) r) simp
  then have len: "length (capUtf8 s mx) \<le> mx" by (simp add: capUtf8_def)
  have max: "length t \<le> length (capUtf8 s mx)" if "mx < length s" "s = t @ r" "length t \<le> mx" "validUtf8 t" for t r
    using that trim_utf8_longest[of "take mx s" t "take (mx - length t) r"] by (simp add: capUtf8_def)
  have cut: "min mx (length s) \<le> length (capUtf8 s mx) + 3" if v: "validUtf8 s"
  proof (cases "mx < length s")
    case True
    then obtain k where k: "k \<le> 3" "validUtf8 (take (mx - k) s)" using utf8_cut[OF v, of mx] by auto
    have "mx - k \<le> length (capUtf8 s mx)"
      using max[OF True, of "take (mx - k) s" "drop (mx - k) s"] k True by simp
    then show ?thesis using k(1) True by simp
  qed (use v in \<open>simp add: capUtf8_def\<close>)
  have "validUtf8 (capUtf8 s mx)" by (simp add: capUtf8_def trim_utf8_valid)
  moreover have "capUtf8 s mx = s" if "validUtf8 s" "length s \<le> mx" using that by (simp add: capUtf8_def)
  ultimately show ?thesis using pre len max cut by blast
qed

text \<open>"abc" with a euro sign after it, cut in the middle of the sign.\<close>

definition euro_ex :: bytes where
  "euro_ex = [97, 98, 99, 0xE2, 0x82, 0xAC]"

theorem cap_utf8_longest_witness:
  "validUtf8 (capUtf8 euro_ex 5) \<and> min 5 (length euro_ex) \<le> length (capUtf8 euro_ex 5) + 3"
proof -
  have "validUtf8 euro_ex" by (simp add: euro_ex_def cont_def)
  then show ?thesis using cap_utf8_longest[of euro_ex 5] by blast
qed

section \<open>Runs of one node\<close>

text \<open>
  What can happen to a node, in any order: a message arrives (on a stream that passed the
  block check when it opened), the user acts, the ticker fires, or one of the started tasks
  runs, its send reaching the peer or not. \<open>fr_sent\<close> logs what reached the network;
  \<open>fr_dirty\<close> are the friends whose shares changed since their snapshot was last read.
\<close>

datatype 'p action =
    Inbound 'p int friendMsg
  | AddFriend 'p bytes int | AcceptFriend 'p int | DeclineFriend 'p | BlockFriend 'p int
  | SetShare 'p bytes "shareItem list" | RemoveShare 'p bytes | RequestLibs 'p
  | SetDeny "'p list" | SetSelf bytes bytes | Broadcast | Tick
  | RunTask nat bool int

record 'p friend_sys =
  fr_svc :: "'p friendService"
  fr_tasks :: "'p task list"
  fr_sent :: "('p \<times> friendMsg) list"
  fr_dirty :: "'p set"

definition spawned :: "'p effect list \<Rightarrow> 'p task list" where
  "spawned es = concat (map (\<lambda>e. case e of Spawn t \<Rightarrow> [t] | _ \<Rightarrow> []) es)"

fun task_peer :: "'p task \<Rightarrow> 'p" where
  "task_peer (SendNow p m) = p"
| "task_peer (SendHello p t) = p"
| "task_peer (SnapPush p) = p"
| "task_peer (PingTask p) = p"

definition apply_local :: "'p effect list \<times> 'p friendService \<Rightarrow> 'p set \<Rightarrow> 'p friend_sys \<Rightarrow> 'p friend_sys" where
  "apply_local r d s = s\<lparr>fr_svc := snd r, fr_tasks := fr_tasks s @ spawned (fst r), fr_dirty := d\<rparr>"

fun exec :: "('p \<Rightarrow> bool) \<Rightarrow> bytes option \<Rightarrow> 'p action \<Rightarrow> 'p friend_sys \<Rightarrow> 'p friend_sys" where
  "exec vld h (Inbound p now m) s = apply_local (dispatch now p m (fr_svc s)) (fr_dirty s) s"
| "exec vld h (AddFriend p note now) s =
     (case addFriend (vld p) h now p note (fr_svc s) of None \<Rightarrow> s | Some r \<Rightarrow> apply_local r (fr_dirty s) s)"
| "exec vld h (AcceptFriend p now) s = apply_local (acceptFriend now p (fr_svc s)) (fr_dirty s) s"
| "exec vld h (DeclineFriend p) s = apply_local (declineFriend p (fr_svc s)) (fr_dirty s - {p}) s"
| "exec vld h (BlockFriend p now) s = apply_local (blockFriend now p (fr_svc s)) (fr_dirty s - {p}) s"
| "exec vld h (SetShare p lib items) s =
     apply_local (setShareLib p lib items (fr_svc s))
       (if is_accepted p (fr_svc s) then insert p (fr_dirty s) else fr_dirty s) s"
| "exec vld h (RemoveShare p lib) s =
     apply_local (removeShareLib p lib (fr_svc s))
       (if is_accepted p (fr_svc s) then insert p (fr_dirty s) else fr_dirty s) s"
| "exec vld h (RequestLibs p) s = apply_local (requestLibraries p (fr_svc s)) (fr_dirty s) s"
| "exec vld h (SetDeny ps) s = apply_local ([], setPresenceDeny ps (fr_svc s)) (fr_dirty s) s"
| "exec vld h (SetSelf nick pic) s =
     apply_local ([], (fr_svc s)\<lparr>fs_social := setProfile h nick pic (fs_social (fr_svc s))\<rparr>) (fr_dirty s) s"
| "exec vld h Broadcast s = apply_local (broadcastProfile (fr_svc s), fr_svc s) (fr_dirty s) s"
| "exec vld h Tick s = apply_local (presence_tick (fr_svc s), fr_svc s) (fr_dirty s) s"
| "exec vld h (RunTask i reach now) s =
     (if i < length (fr_tasks s)
      then (let t = fr_tasks s ! i;
                (out, es, f') = run_task (vld (task_peer t)) reach h now t (fr_svc s)
            in s\<lparr>fr_svc := f', fr_tasks := take i (fr_tasks s) @ drop (Suc i) (fr_tasks s) @ spawned es,
                 fr_sent := fr_sent s @ out,
                 fr_dirty := (case t of SnapPush p \<Rightarrow> fr_dirty s - {p} | _ \<Rightarrow> fr_dirty s)\<rparr>)
      else s)"

definition friend_init :: "'p friend_sys \<Rightarrow> bool" where
  "friend_init s \<longleftrightarrow> (\<exists>now self. s = \<lparr>fr_svc = newFriendService now self (newSocialState None True),
     fr_tasks = [], fr_sent = [], fr_dirty = {}\<rparr>)"

text \<open>The snapshot counter starts at the clock and never gets to wrap.\<close>

inductive friend_step :: "('p \<Rightarrow> bool) \<Rightarrow> bytes option \<Rightarrow> 'p friend_sys \<Rightarrow> 'p friend_sys \<Rightarrow> bool" for vld h where
  friend_act: "fs_sendSeq (fr_svc s) \<noteq> - 1 \<Longrightarrow> friend_step vld h s (exec vld h a s)"

inductive_cases friend_stepE: "friend_step vld h s t"

subsection \<open>Tasks that carry no library\<close>

definition no_lib :: "'p task \<Rightarrow> bool" where
  "no_lib t \<longleftrightarrow> (case t of SendNow p m \<Rightarrow> fm_type m \<noteq> Library | SendHello p ty \<Rightarrow> ty \<noteq> Library | _ \<Rightarrow> True)"

lemma spawned_simps [simp]:
  "spawned [] = []" "spawned (Spawn t # es) = t # spawned es" "spawned (Emit k c # es) = spawned es"
  "spawned (EmitRemoved p # es) = spawned es" "spawned (EmitLibrary p l q # es) = spawned es"
  "spawned (es @ fs) = spawned es @ spawned fs"
  by (simp_all add: spawned_def)

lemma spawned_map [simp]: "spawned (map (\<lambda>p. Spawn (g p)) ps) = map g ps"
  by (induction ps) simp_all

lemma plain_type [simp]: "fm_type (plain_msg t) = t" "fm_type (helloMsg h t f) = t"
  by (simp_all add: plain_msg_def helloMsg_def Let_def)

lemma mark_presence_spawned [simp]: "spawned (fst (mark_presence now p on f)) = []"
  by (simp add: mark_presence_def split_beta split: option.splits)

lemma pushSnapshot_spawned: "set (spawned (fst (pushSnapshot p f))) \<subseteq> {SnapPush p}"
  by (simp add: pushSnapshot_def)

lemma dispatch_spawned:
  "set (spawned (fst (dispatch now p m f))) \<subseteq> {SnapPush p, SendHello p Accept}"
  using pushSnapshot_spawned[of p f]
  by (auto simp: dispatch_def Let_def on_request_def on_accept_def on_decline_def on_profile_def split_beta
      split: msgType.splits option.splits)

lemma run_task_spawned [simp]: "spawned (fst (snd (run_task v reach h now t f))) = []"
  by (cases t) (simp_all add: split_beta Let_def)

lemma exec_no_lib:
  assumes "list_all no_lib (fr_tasks s)"
  shows "list_all no_lib (fr_tasks (exec vld h a s))"
proof (cases a)
  case (Inbound p now m)
  with assms dispatch_spawned[of now p m "fr_svc s"] show ?thesis
    by (auto simp: apply_local_def list_all_iff no_lib_def)
next
  case (AddFriend p nt now)
  with assms show ?thesis
    by (auto simp: addFriend_def split_beta apply_local_def no_lib_def)
next
  case (SetShare p lib items)
  with assms show ?thesis
    using pushSnapshot_spawned[of p] by (fastforce simp: setShareLib_def apply_local_def list_all_iff no_lib_def Let_def)
next
  case (RemoveShare p lib)
  with assms show ?thesis
    using pushSnapshot_spawned[of p] by (fastforce simp: removeShareLib_def apply_local_def list_all_iff no_lib_def Let_def)
next
  case (RunTask i reach now)
  with assms RunTask show ?thesis
    by (auto simp: Let_def split_beta list_all_iff dest: in_set_takeD in_set_dropD)
qed (use assms in \<open>auto simp: apply_local_def acceptFriend_def declineFriend_def blockFriend_def requestLibraries_def
    broadcastProfile_def presence_tick_def split_beta list_all_iff no_lib_def\<close>)

subsection \<open>The invariant\<close>

text \<open>Names and pictures in the book are bounded.\<close>

definition contact_bounded :: "'p contact \<Rightarrow> bool" where
  "contact_bounded c \<longleftrightarrow> validUtf8 (ct_nick c) \<and> length (ct_nick c) \<le> maxNickLen \<and> length (ct_pic c) \<le> maxCidLen"

definition book_bounded :: "'p socialState \<Rightarrow> bool" where
  "book_bounded s \<longleftrightarrow> so_keys s \<and> (\<forall>p c. so_get p s = Some c \<longrightarrow> contact_bounded c)"

lemma book_bounded_change:
  assumes "book_bounded s" "\<And>c. contact_bounded c \<Longrightarrow> contact_bounded (g c)"
  shows "book_bounded (snd (upsert now p g s))"
proof -
  have "contact_bounded (new_contact now p)" by (simp add: contact_bounded_def new_contact_def)
  then show ?thesis
    using assms by (auto simp: book_bounded_def book.change_inv book.lookup_change split: option.splits if_splits)
qed

lemma book_bounded_remove: "book_bounded s \<Longrightarrow> book_bounded (snd (so_remove p s))"
  by (auto simp: book_bounded_def book.delete_inv book.lookup_delete split: if_splits)

lemma book_bounded_presence: "book_bounded s \<Longrightarrow> book_bounded (snd (setPresence now p on s))"
  using setPresence_state(2)[of s now p on]
  by (auto simp: book_bounded_def setPresence_def Let_def so_get_update contact_bounded_def split: option.splits if_splits)

lemma bound_msg_bounded: "validUtf8 (fm_nick (bound_msg m))" "length (fm_nick (bound_msg m)) \<le> maxNickLen"
  "length (fm_pic (bound_msg m)) \<le> maxCidLen"
proof -
  show "validUtf8 (fm_nick (bound_msg m))" by (simp add: bound_msg_def capUtf8_def trim_utf8_valid)
  obtain r where "take maxNickLen (fm_nick m) = trim_utf8 (take maxNickLen (fm_nick m)) @ r"
    using trim_utf8_prefix by blast
  then have "length (trim_utf8 (take maxNickLen (fm_nick m))) \<le> maxNickLen"
    by (metis length_append length_take le_add1 min.bounded_iff)
  then show "length (fm_nick (bound_msg m)) \<le> maxNickLen" by (simp add: bound_msg_def capUtf8_def)
qed (simp add: bound_msg_def)

lemma absorb_bounded: "contact_bounded c \<Longrightarrow> contact_bounded (absorb (bound_msg m) c)"
  using bound_msg_bounded[of m] by (simp add: contact_bounded_def absorb_def)

lemma dispatch_bounded: "book_bounded (fs_social f) \<Longrightarrow> book_bounded (fs_social (snd (dispatch now p m f)))"
proof -
  assume b: "book_bounded (fs_social f)"
  have req: "contact_bounded c \<Longrightarrow> contact_bounded ((absorb (bound_msg m) c)\<lparr>ct_state := x\<rparr>)"
    and acc: "contact_bounded c \<Longrightarrow> contact_bounded (absorb (bound_msg m) (c\<lparr>ct_state := x\<rparr>))"
    and prof: "contact_bounded (c\<lparr>ct_nick := fm_nick (bound_msg m), ct_pic := fm_pic (bound_msg m)\<rparr>)" for c :: "'a contact" and x
    using absorb_bounded[of c m] absorb_bounded[of "c\<lparr>ct_state := x\<rparr>" m] bound_msg_bounded[of m]
    by (simp_all add: contact_bounded_def)
  show ?thesis
    using b by (auto simp: dispatch_def Let_def on_request_def on_accept_def on_decline_def on_profile_def split_beta
        fs_upsert_social mark_presence_social
        intro!: book_bounded_change book_bounded_remove book_bounded_presence req acc prof
        split: msgType.splits option.splits)
qed

lemma run_task_social:
  "fs_social (snd (snd (run_task v reach h now t f))) = fs_social f \<or>
   (\<exists>p on. fs_social (snd (snd (run_task v reach h now t f))) = snd (setPresence now p on (fs_social f)))"
  by (cases t) (auto simp: split_beta Let_def run_push_def mark_presence_social)

lemma exec_bounded:
  assumes "book_bounded (fs_social (fr_svc s))"
  shows "book_bounded (fs_social (fr_svc (exec vld h a s)))"
proof (cases a)
  case (RunTask i reach now)
  with assms run_task_social[of "vld (task_peer (fr_tasks s ! i))" reach h now "fr_tasks s ! i" "fr_svc s"]
  show ?thesis by (auto simp: Let_def split_beta book_bounded_presence)
next
  case (SetSelf nick pic)
  with assms show ?thesis by (simp add: apply_local_def setProfile_def book_bounded_def so_keys_def so_get_def)
next
  case (AddFriend p nt now)
  with assms show ?thesis
    by (auto simp: addFriend_def split_beta apply_local_def fs_upsert_social contact_bounded_def intro!: book_bounded_change)
next
  case (RemoveShare p lib)
  with assms show ?thesis by (simp add: apply_local_def removeShareLib_def Let_def split: option.splits)
qed (use assms in \<open>auto simp: apply_local_def dispatch_bounded acceptFriend_def declineFriend_def blockFriend_def
    setShareLib_def requestLibraries_def setPresenceDeny_def split_beta Let_def fs_upsert_social contact_bounded_def
    intro!: book_bounded_change book_bounded_remove\<close>)

text \<open>Pushes: pending ones have a task, and a changed share is pending.\<close>

definition pushes_ok :: "'p friendService \<Rightarrow> 'p task list \<Rightarrow> 'p set \<Rightarrow> bool" where
  "pushes_ok f ts d \<longleftrightarrow> d \<subseteq> fs_pushPending f \<and> (\<forall>p \<in> fs_pushPending f. SnapPush p \<in> set ts)"

lemma pushes_ok_more: "pushes_ok f ts d \<Longrightarrow> fs_pushPending f' = fs_pushPending f \<Longrightarrow> pushes_ok f' (ts @ us) d"
  by (auto simp: pushes_ok_def)

lemma pushes_ok_purge: "pushes_ok f ts d \<Longrightarrow> fs_pushPending f' = fs_pushPending f \<Longrightarrow>
   pushes_ok (purgeShares p f') (ts @ us) (d - {p})"
  by (auto simp: pushes_ok_def purgeShares_def)

lemma pushes_ok_push: "pushes_ok f ts d \<Longrightarrow> fs_pushPending f' = fs_pushPending f \<Longrightarrow> is_accepted p f' = is_accepted p f \<Longrightarrow>
   pushes_ok (snd (pushSnapshot p f')) (ts @ spawned (fst (pushSnapshot p f')))
     (if is_accepted p f then insert p d else d)"
  by (auto simp: pushes_ok_def pushSnapshot_def)

lemma pushes_ok_push': "pushes_ok f ts d \<Longrightarrow>
   pushes_ok (snd (pushSnapshot p f)) (ts @ spawned (fst (pushSnapshot p f))) d"
  by (auto simp: pushes_ok_def pushSnapshot_def)

lemma mark_presence_rest:
  "fs_pushPending (snd (mark_presence now p on f)) = fs_pushPending f" "fs_sendSeq (snd (mark_presence now p on f)) = fs_sendSeq f"
  "fs_shareLibs (snd (mark_presence now p on f)) = fs_shareLibs f"
  by (simp_all add: mark_presence_def split_beta)

lemma dispatch_pushes:
  assumes "pushes_ok f ts d"
  shows "pushes_ok (snd (dispatch now p m f)) (ts @ spawned (fst (dispatch now p m f))) d"
proof (cases "fm_type m = LibraryReq")
  case True
  then show ?thesis using assms pushes_ok_push'[OF assms] by (simp add: dispatch_def Let_def)
next
  case False
  then have "fs_pushPending (snd (dispatch now p m f)) = fs_pushPending f"
    by (auto simp: dispatch_def Let_def on_request_def on_accept_def on_decline_def on_profile_def split_beta
        fs_upsert_rest mark_presence_rest split: msgType.splits option.splits)
  then show ?thesis using assms by (rule pushes_ok_more[rotated])
qed

lemma run_task_pending:
  "fs_pushPending (snd (snd (run_task v reach h now t f))) =
     (case t of SnapPush p \<Rightarrow> fs_pushPending f - {p} | _ \<Rightarrow> fs_pushPending f)"
  by (cases t) (simp_all add: split_beta Let_def run_push_def mark_presence_rest)

lemma pushes_ok_run:
  assumes "pushes_ok f ts d" "i < length ts"
    and "fs_pushPending f' = (case ts ! i of SnapPush p \<Rightarrow> fs_pushPending f - {p} | _ \<Rightarrow> fs_pushPending f)"
  shows "pushes_ok f' (take i ts @ drop (Suc i) ts) (case ts ! i of SnapPush p \<Rightarrow> d - {p} | _ \<Rightarrow> d)"
proof -
  have "set ts = insert (ts ! i) (set (take i ts @ drop (Suc i) ts))"
    using assms(2) by (metis id_take_nth_drop list.simps(15) set_append Un_insert_right)
  then have "t \<in> set (take i ts @ drop (Suc i) ts) \<or> t = ts ! i" if "t \<in> set ts" for t using that by blast
  then show ?thesis using assms unfolding pushes_ok_def by (cases "ts ! i") auto
qed

lemma is_accepted_shares [simp]:
  "is_accepted p (f\<lparr>fs_shareLibs := x\<rparr>) = is_accepted p f"
  by (simp add: is_accepted_def)

lemma exec_pushes:
  assumes "pushes_ok (fr_svc s) (fr_tasks s) (fr_dirty s)"
  shows "pushes_ok (fr_svc (exec vld h a s)) (fr_tasks (exec vld h a s)) (fr_dirty (exec vld h a s))"
proof (cases a)
  case (RunTask i reach now)
  with assms pushes_ok_run[OF assms, of i] show ?thesis
    by (auto simp: Let_def split_beta run_task_pending)
next
  case (SetShare p lib items)
  then show ?thesis using pushes_ok_push[OF assms]
    by (simp add: apply_local_def setShareLib_def Let_def)
next
  case (RemoveShare p lib)
  show ?thesis
  proof (cases "fs_shareLibs (fr_svc s) p")
    case None
    then show ?thesis using RemoveShare pushes_ok_push[OF assms, of "fr_svc s" p]
      by (simp add: apply_local_def removeShareLib_def)
  next
    case (Some m)
    then show ?thesis using RemoveShare pushes_ok_push[OF assms]
      by (simp add: apply_local_def removeShareLib_def Let_def)
  qed
next
  case (DeclineFriend p)
  with pushes_ok_purge[OF assms] show ?thesis by (simp add: apply_local_def declineFriend_def)
next
  case (BlockFriend p now)
  have "pushes_ok (purgeShares p (snd (fs_upsert now p g (fr_svc s)))) (fr_tasks s @ []) (fr_dirty s - {p})" for g
    by (rule pushes_ok_purge[OF assms fs_upsert_rest(3)])
  with BlockFriend show ?thesis by (simp add: apply_local_def blockFriend_def split_beta)
next
  case (AddFriend p nt now)
  with assms show ?thesis
    by (auto simp: addFriend_def split_beta apply_local_def fs_upsert_rest intro: pushes_ok_more)
qed (use assms in \<open>auto simp: apply_local_def dispatch_pushes acceptFriend_def requestLibraries_def setPresenceDeny_def
    split_beta fs_upsert_rest intro: pushes_ok_more[where us = "[]", simplified] pushes_ok_more\<close>)

text \<open>The stamps of the snapshots sent, in order.\<close>

definition stamps :: "('p \<times> friendMsg) list \<Rightarrow> nat list" where
  "stamps sent = map (unat \<circ> fm_seq \<circ> snd) (filter (\<lambda>(p, m). fm_type m = Library) sent)"

definition stamps_ok :: "64 word \<Rightarrow> ('p \<times> friendMsg) list \<Rightarrow> bool" where
  "stamps_ok seq sent \<longleftrightarrow> sorted_wrt (<) (stamps sent) \<and> (\<forall>x \<in> set (stamps sent). x \<le> unat seq)"

lemma stamps_append: "stamps (xs @ ys) = stamps xs @ stamps ys"
  by (simp add: stamps_def)

lemma dispatch_seq: "fs_sendSeq (snd (dispatch now p m f)) = fs_sendSeq f"
  by (auto simp: dispatch_def Let_def on_request_def on_accept_def on_decline_def on_profile_def split_beta
      fs_upsert_rest mark_presence_rest pushSnapshot_def split: msgType.splits option.splits)

lemma run_task_sent:
  assumes "no_lib t"
  shows "fs_sendSeq (snd (snd (run_task v reach h now t f))) = fs_sendSeq f \<and> stamps (fst (run_task v reach h now t f)) = [] \<or>
    fs_sendSeq (snd (snd (run_task v reach h now t f))) = fs_sendSeq f + 1 \<and>
      set (stamps (fst (run_task v reach h now t f))) \<subseteq> {unat (fs_sendSeq f + 1)} \<and>
      length (stamps (fst (run_task v reach h now t f))) \<le> 1"
  using assms by (cases t) (auto simp: split_beta Let_def run_push_def mark_presence_rest stamps_def no_lib_def)

lemma stamps_ok_next:
  assumes "stamps_ok seq sent" "seq \<noteq> - 1" "set (stamps out) \<subseteq> {unat (seq + 1)}" "length (stamps out) \<le> 1"
  shows "stamps_ok (seq + 1) (sent @ out)"
proof -
  have lt: "unat seq < unat (seq + 1)"
  proof -
    have "1 + seq \<noteq> 0" using assms(2) by (metis add.commute eq_neg_iff_add_eq_0)
    then show ?thesis using unatSuc[of seq] by (simp add: add.commute)
  qed
  have "stamps out = [] \<or> stamps out = [unat (seq + 1)]"
    using assms(3,4) by (cases "stamps out") auto
  then show ?thesis
    using assms(1) lt by (auto simp: stamps_ok_def stamps_append sorted_wrt_append)
qed

definition friend_inv :: "'p friend_sys \<Rightarrow> bool" where
  "friend_inv s \<longleftrightarrow> book_bounded (fs_social (fr_svc s)) \<and> pushes_ok (fr_svc s) (fr_tasks s) (fr_dirty s) \<and>
     list_all no_lib (fr_tasks s) \<and> stamps_ok (fs_sendSeq (fr_svc s)) (fr_sent s)"

lemma friend_inv_init: "friend_init s \<Longrightarrow> friend_inv s"
  by (auto simp: friend_init_def friend_inv_def book_bounded_def newFriendService_def newSocialState_def
      load_social_def so_keys_def so_get_def pushes_ok_def stamps_ok_def stamps_def)

lemma exec_stamps:
  assumes "list_all no_lib (fr_tasks s)" "stamps_ok (fs_sendSeq (fr_svc s)) (fr_sent s)" "fs_sendSeq (fr_svc s) \<noteq> - 1"
  shows "stamps_ok (fs_sendSeq (fr_svc (exec vld h a s))) (fr_sent (exec vld h a s))"
proof (cases a)
  case (RunTask i reach now)
  show ?thesis
  proof (cases "i < length (fr_tasks s)")
    case True
    then have "no_lib (fr_tasks s ! i)" using assms(1) by (simp add: list_all_length)
    from run_task_sent[OF this, of "vld (task_peer (fr_tasks s ! i))" reach h now "fr_svc s"]
      True RunTask assms stamps_ok_next[OF assms(2,3)]
    show ?thesis by (auto simp: Let_def split_beta stamps_ok_def stamps_append)
  qed (use RunTask assms in simp)
next
  case (RemoveShare p lib)
  with assms show ?thesis
    by (simp add: apply_local_def removeShareLib_def Let_def pushSnapshot_def split: option.splits)
next
  case (AddFriend p nt now)
  with assms show ?thesis by (auto simp: addFriend_def split_beta apply_local_def fs_upsert_rest)
qed (use assms in \<open>simp_all add: apply_local_def dispatch_seq acceptFriend_def declineFriend_def blockFriend_def
    purgeShares_def setShareLib_def pushSnapshot_def Let_def requestLibraries_def setPresenceDeny_def split_beta fs_upsert_rest\<close>)

lemma friend_inv_step: "friend_inv s \<Longrightarrow> friend_step vld h s t \<Longrightarrow> friend_inv t"
  by (erule friend_stepE) (simp add: friend_inv_def exec_bounded exec_pushes exec_no_lib exec_stamps)

lemma friend_reach: "reachable friend_init (friend_step vld h) s \<Longrightarrow> fs_sendSeq (fr_svc s) \<noteq> - 1 \<Longrightarrow>
   reachable friend_init (friend_step vld h) (exec vld h a s)"
  by (rule reach_step) (auto intro: friend_act)

interpretation friends: step_invariant friend_init "friend_step vld h" friend_inv for vld h
  by unfold_locales (fact friend_inv_init, fact friend_inv_step)

section \<open>Properties of a node\<close>

text \<open>A run: friend 4 is accepted and library 65 shared with it; nothing sent yet.\<close>

definition item_ex :: shareItem where
  "item_ex = \<lparr>si_cid = [98], si_node = [], si_pkg = [], si_uid = [], si_title = [], si_tileCid = [], si_tileNode = []\<rparr>"

definition sys_ex0 :: "nat friend_sys" where
  "sys_ex0 = \<lparr>fr_svc = newFriendService 1 0 (newSocialState None True), fr_tasks = [], fr_sent = [], fr_dirty = {}\<rparr>"

definition sys_ex1 :: "nat friend_sys" where
  "sys_ex1 = exec (\<lambda>p. True) None (AcceptFriend 4 7) sys_ex0"

definition sys_ex2 :: "nat friend_sys" where
  "sys_ex2 = exec (\<lambda>p. True) None (SetShare 4 [65] [item_ex]) sys_ex1"

lemmas sys_eval = sys_ex0_def newFriendService_def newSocialState_def load_social_def acceptFriend_def
  fs_upsert_def upsert_def so_get_def new_contact_def apply_local_def is_accepted_def setShareLib_def pushSnapshot_def
  Let_def split_beta saveLocked_def

lemma sys_ex1_reachable: "reachable friend_init (friend_step (\<lambda>p. True) None) sys_ex1"
proof -
  have "reachable friend_init (friend_step (\<lambda>p. True) None) sys_ex0"
    by (rule reach_init) (auto simp: friend_init_def sys_ex0_def)
  moreover have "fs_sendSeq (fr_svc sys_ex0) \<noteq> - 1" by (simp add: sys_ex0_def newFriendService_def)
  ultimately show ?thesis unfolding sys_ex1_def by (rule friend_reach)
qed

lemma sys_ex1_eval: "is_accepted 4 (fr_svc sys_ex1)" "fs_sendSeq (fr_svc sys_ex1) \<noteq> - 1"
  "fs_self (fr_svc sys_ex1) = 0"
  by (simp_all add: sys_ex1_def sys_eval)

lemma sys_ex2_reachable: "reachable friend_init (friend_step (\<lambda>p. True) None) sys_ex2"
  unfolding sys_ex2_def by (intro friend_reach sys_ex1_reachable sys_ex1_eval)

lemma sys_ex2_dirty: "4 \<in> fr_dirty sys_ex2" "fs_self (fr_svc sys_ex2) \<noteq> 4"
  using sys_ex1_eval by (simp_all add: sys_ex2_def apply_local_def setShareLib_def pushSnapshot_def Let_def)

text \<open>
  Whatever peers send, every name and picture id in the address book stays bounded: valid
  UTF-8 of at most 64 bytes, and at most 128 bytes.
\<close>

theorem friend_identities_bounded:
  assumes "reachable friend_init (friend_step vld h) s" "so_get p (fs_social (fr_svc s)) = Some c"
  shows "validUtf8 (ct_nick c) \<and> length (ct_nick c) \<le> 64 \<and> length (ct_pic c) \<le> 128"
  using friends.reachable_inv[OF assms(1)] assms(2)
  by (auto simp: friend_inv_def book_bounded_def contact_bounded_def maxNickLen_def maxCidLen_def)

theorem friend_identities_bounded_witness: "length (ct_nick (new_contact 7 (4::nat))) \<le> 64 \<and> is_accepted 4 (fr_svc sys_ex1)"
proof -
  have "so_get 4 (fs_social (fr_svc sys_ex1)) = Some ((new_contact 7 4)\<lparr>ct_state := stAccepted\<rparr>)"
    by (simp add: sys_ex1_def sys_eval saveLocked_def)
  from friend_identities_bounded[OF sys_ex1_reachable this] sys_ex1_eval show ?thesis by simp
qed

text \<open>
  No share change is lost to coalescing. In a run, while the shares of an accepted friend
  have changed since its snapshot was last read, a push to it is scheduled; and whenever that
  push runs and reaches the friend, it sends the complete shared set of that moment.
\<close>

theorem share_update_not_lost:
  assumes "reachable friend_init (friend_step vld h) s" "p \<in> fr_dirty s" "vld p" "p \<noteq> fs_self (fr_svc s)"
  shows "\<exists>i < length (fr_tasks s). fr_tasks s ! i = SnapPush p \<and>
    (\<exists>m. fr_sent (exec vld h (RunTask i True now) s) = fr_sent s @ [(p, m)] \<and> fm_type m = Library \<and>
       fm_libs m = (case fs_shareLibs (fr_svc s) p of None \<Rightarrow> [] | Some l \<Rightarrow> l))"
proof -
  have "SnapPush p \<in> set (fr_tasks s)"
    using friends.reachable_inv[OF assms(1)] assms(2) by (auto simp: friend_inv_def pushes_ok_def)
  then obtain i where i: "i < length (fr_tasks s)" "fr_tasks s ! i = SnapPush p" by (auto simp: in_set_conv_nth)
  with assms show ?thesis
    by (intro exI[of _ i]) (simp add: Let_def split_beta run_push_def send_ok_def)
qed

theorem share_update_not_lost_witness:
  "\<exists>i < length (fr_tasks sys_ex2). fr_tasks sys_ex2 ! i = SnapPush 4 \<and>
    (\<exists>m. fr_sent (exec (\<lambda>p. True) None (RunTask i True 9) sys_ex2) = fr_sent sys_ex2 @ [(4, m)] \<and> fm_type m = Library \<and>
       fm_libs m = (case fs_shareLibs (fr_svc sys_ex2) 4 of None \<Rightarrow> [] | Some l \<Rightarrow> l))"
  by (rule share_update_not_lost[OF sys_ex2_reachable]) (use sys_ex2_dirty in auto)

text \<open>What a run sends of libraries to a peer we share nothing with.\<close>

definition unshared :: "'p \<Rightarrow> 'p friend_sys \<Rightarrow> bool" where
  "unshared p s \<longleftrightarrow> fs_shareLibs (fr_svc s) p = None \<and> list_all no_lib (fr_tasks s)"

definition sends_nothing :: "'p \<Rightarrow> ('p \<times> friendMsg) list \<Rightarrow> bool" where
  "sends_nothing p out \<longleftrightarrow> (\<forall>(q, m) \<in> set out. q = p \<longrightarrow> fm_type m = Library \<longrightarrow> fm_libs m = [])"

lemma dispatch_shares: "fs_shareLibs (snd (dispatch now p m f)) = fs_shareLibs f"
  by (auto simp: dispatch_def Let_def on_request_def on_accept_def on_decline_def on_profile_def split_beta
      fs_upsert_rest mark_presence_rest pushSnapshot_def split: msgType.splits option.splits)

lemma run_task_shares: "fs_shareLibs (snd (snd (run_task v reach h now t f))) = fs_shareLibs f"
  by (cases t) (simp_all add: split_beta Let_def run_push_def mark_presence_rest)

lemma exec_unshared:
  assumes "unshared p s" "\<And>l i. a \<noteq> SetShare p l i"
  shows "unshared p (exec vld h a s)"
proof -
  have "fs_shareLibs (fr_svc (exec vld h a s)) p = None"
  proof (cases a)
    case (RunTask i reach now)
    with assms show ?thesis by (simp add: unshared_def Let_def split_beta run_task_shares)
  next
    case (RemoveShare q lib)
    with assms show ?thesis
      by (auto simp: unshared_def apply_local_def removeShareLib_def pushSnapshot_def Let_def split: option.splits)
  next
    case (AddFriend q nt now)
    with assms show ?thesis by (auto simp: unshared_def addFriend_def split_beta apply_local_def fs_upsert_rest)
  qed (use assms in \<open>auto simp: unshared_def apply_local_def dispatch_shares acceptFriend_def declineFriend_def blockFriend_def
      purgeShares_def setShareLib_def pushSnapshot_def Let_def requestLibraries_def setPresenceDeny_def split_beta fs_upsert_rest\<close>)
  with assms(1) show ?thesis by (simp add: unshared_def exec_no_lib)
qed

lemma run_task_sends:
  "no_lib t \<Longrightarrow> fs_shareLibs f p = None \<Longrightarrow> sends_nothing p (fst (run_task v reach h now t f))"
  by (cases t) (auto simp: sends_nothing_def no_lib_def split_beta Let_def run_push_def)

lemma exec_sends:
  assumes "unshared p s"
  shows "\<exists>out. fr_sent (exec vld h a s) = fr_sent s @ out \<and> sends_nothing p out"
proof (cases a)
  case (RunTask i reach now)
  show ?thesis
  proof (cases "i < length (fr_tasks s)")
    case True
    then have "no_lib (fr_tasks s ! i)" using assms by (simp add: unshared_def list_all_length)
    with True RunTask assms show ?thesis by (simp add: Let_def split_beta unshared_def run_task_sends)
  qed (use RunTask in \<open>simp add: sends_nothing_def\<close>)
qed (simp_all add: sends_nothing_def apply_local_def addFriend_def split_beta)

lemma run_unshared:
  assumes "unshared p s" "\<And>l i. SetShare p l i \<notin> set as"
  shows "\<exists>out. fr_sent (fold (exec vld h) as s) = fr_sent s @ out \<and> sends_nothing p out"
  using assms
proof (induction as arbitrary: s)
  case (Cons a as)
  obtain out1 where 1: "fr_sent (exec vld h a s) = fr_sent s @ out1" "sends_nothing p out1"
    using exec_sends[OF Cons.prems(1)] by blast
  have "unshared p (exec vld h a s)" using Cons.prems by (intro exec_unshared) auto
  then obtain out2 where "fr_sent (fold (exec vld h) as (exec vld h a s)) = fr_sent (exec vld h a s) @ out2" "sends_nothing p out2"
    using Cons.IH Cons.prems(2) by (metis list.set_intros(2))
  with 1 show ?case by (intro exI[of _ "out1 @ out2"]) (auto simp: sends_nothing_def)
qed (simp add: sends_nothing_def)



text \<open>
  Snapshots are ordered. The stamps of the library snapshots a node sends, in the order in
  which their contents were read, are strictly increasing: a receiver that keeps the highest
  stamp keeps the newest set, in whatever order the streams arrive.
\<close>

theorem snapshot_stamps_increase:
  assumes "reachable friend_init (friend_step vld h) s"
  shows "sorted_wrt (<) (stamps (fr_sent s))"
  using friends.reachable_inv[OF assms] by (simp add: friend_inv_def stamps_ok_def)

theorem snapshot_stamps_increase_witness:
  "sorted_wrt (<) (stamps (fr_sent (exec (\<lambda>p. True) None (RunTask 1 True 9) sys_ex2)))"
proof (rule snapshot_stamps_increase, rule friend_reach[OF sys_ex2_reachable])
  show "fs_sendSeq (fr_svc sys_ex2) \<noteq> - 1"
    using sys_ex1_eval by (simp add: sys_ex2_def apply_local_def setShareLib_def pushSnapshot_def Let_def)
qed

section \<open>Two nodes\<close>

text \<open>
  C37. A handshake completes. Let A have an outstanding request to B. Its ticker re-sends the
  request every time. When one arrives at B, then B, if it has a request out to A itself
  (crossing), and otherwise after its user accepts, has A as a friend and a task that answers;
  when that answer reaches A, A has B as a friend.
\<close>

theorem friend_handshake_completes:
  fixes fA fB :: "'p friendService" and hA hB :: "bytes option" and n1 n2 n3 n4 :: int and a b :: 'p
  assumes okA: "so_keys (fs_social fA)" and okB: "so_keys (fs_social fB)"
    and A: "peer_state b fA = Some stPending"
    and B: "peer_state a fB \<noteq> Some stBlocked" "a \<noteq> fs_self fB"
  defines "req \<equiv> helloMsg hA Request fA"
  defines "got \<equiv> dispatch n1 a req fB"
  defines "ans \<equiv> (if peer_state a fB = Some stPending then got else acceptFriend n2 a (snd got))"
  shows "Spawn (SendHello b Request) \<in> set (presence_tick fA) \<and>
    Spawn (SendHello a Accept) \<in> set (fst ans) \<and> is_accepted a (snd ans) \<and>
    (\<exists>m. fst (run_task True True hB n3 (SendHello a Accept) (snd ans)) = [(a, m)] \<and>
       is_accepted b (snd (dispatch n4 b m fA)))"
proof -
  have "b \<in> set (pendingPeers (fs_social fA))"
    using A book.pending_iff[OF okA] by (auto simp: peer_state_def)
  then have tick: "Spawn (SendHello b Request) \<in> set (presence_tick fA)" by (simp add: presence_tick_def)
  have self: "fs_self (snd ans) = fs_self fB"
    by (simp add: ans_def got_def acceptFriend_def split_beta fs_upsert_rest dispatch_def Let_def req_def
        on_request_def)
  have ty: "fm_type req = Request" by (simp add: req_def)
  have crossing: "Spawn (SendHello a Accept) \<in> set (fst got) \<and> is_accepted a (snd got)" if "peer_state a fB = Some stPending"
    using that ty
    by (auto simp: got_def dispatch_def Let_def on_request_def split_beta is_accepted_state peer_state_def
        fs_upsert_social book.lookup_change answer_request_def)
  have accepted: "is_accepted a (snd (acceptFriend n2 a (snd got)))"
    by (simp add: acceptFriend_def split_beta is_accepted_state peer_state_def fs_upsert_social book.lookup_change)
  have answered: "Spawn (SendHello a Accept) \<in> set (fst (acceptFriend n2 a (snd got)))"
    by (simp add: acceptFriend_def split_beta)
  have final: "is_accepted b (snd (dispatch n4 b m fA))" if "fm_type m = Accept" for m
    using that by (simp add: dispatch_def Let_def on_accept_def split_beta is_accepted_state peer_state_def
        fs_upsert_social book.lookup_change)
  show ?thesis
    using tick crossing accepted answered final self B(2) by (auto simp: ans_def send_ok_def)
qed

definition node_a :: "nat friendService" where
  "node_a = snd (the (addFriend True None 5 4 [] (newFriendService 1 3 (newSocialState None True))))"

definition node_b :: "nat friendService" where
  "node_b = newFriendService 1 4 (newSocialState None True)"

theorem friend_handshake_completes_witness:
  "Spawn (SendHello 4 Request) \<in> set (presence_tick node_a)"
proof -
  have "so_keys (fs_social node_a)" "so_keys (fs_social node_b)" "peer_state 4 node_a = Some stPending"
    "peer_state 3 node_b \<noteq> Some stBlocked" "3 \<noteq> fs_self node_b"
    by (simp_all add: node_a_def node_b_def addFriend_def sys_eval so_keys_def peer_state_def)
  from friend_handshake_completes[OF this] show ?thesis by blast
qed

section \<open>Where consent and convergence fail\<close>

text \<open>
  An Accept is taken from anyone: a stranger, or a peer whose request we have not answered,
  makes itself a friend. The block of a peer is not looked at either, once its stream is open.
\<close>

lemma unasked_accept_befriends: "fm_type m = Accept \<Longrightarrow> is_accepted p (snd (dispatch now p m f))"
  by (simp add: dispatch_def Let_def on_accept_def split_beta is_accepted_state peer_state_def
      fs_upsert_social book.lookup_change)

text \<open>
  The answer to a request is sent once. If it is lost, the asker keeps asking, and a peer that
  has already accepted never answers again.
\<close>

lemma lost_answer_not_repeated:
  assumes "is_accepted p f" "fm_type m = Request"
  shows "spawned (fst (dispatch now p m f)) = [] \<and> is_accepted p (snd (dispatch now p m f))"
  using assms
  by (auto simp: is_accepted_def dispatch_def Let_def on_request_def split_beta answer_request_def
      fs_upsert_social book.lookup_change split: option.splits)

text \<open>
  A friend that declines us keeps its shares: befriended again, it is served the library that
  was shared before, with no new toggle.
\<close>

lemma inbound_decline_keeps_shares: "fs_shareLibs (snd (dispatch now p (plain_msg Decline) f)) = fs_shareLibs f"
  by (rule dispatch_shares)

end
