(* ===== verification/Link.thy ===== *)
theory Link
  imports Prelude "HOL-Library.Signed_Division"
begin

text \<open>
  \<open>overlaylink.go\<close>: the maintainer of one link per accepted friend. Peers and connection ids
  are type parameters. What the host reports (connectedness, the direct QUIC connections) is
  an argument; what it is asked to do is a list of effects. \<open>evaluate\<close> is cut at its critical
  sections, so a run may interleave them with everything else the maintainer does.
\<close>

section \<open>Heartbeats\<close>

definition linkMagic :: bytes where
  "linkMagic = [0x56, 0x47, 0x48, 0x42]"

definition heartbeatPacket :: "byte \<Rightarrow> 64 word \<Rightarrow> bytes" where
  "heartbeatPacket kind ts = linkMagic @ [kind] @ be_bytes 8 ts"

definition isHeartbeat :: "bytes \<Rightarrow> bool" where
  "isHeartbeat pkt \<longleftrightarrow> length pkt = 13 \<and> take 4 pkt = linkMagic"

definition heartbeat_ts :: "bytes \<Rightarrow> 64 word" where
  "heartbeat_ts pkt = get_be (drop 5 pkt)"

section \<open>State\<close>

definition linkBeatEvery :: nanos where "linkBeatEvery = seconds 4"
definition linkBeatMiss :: nat where "linkBeatMiss = 3"
definition linkDialBackoff :: nanos where "linkDialBackoff = seconds 2"
definition linkDialMax :: nanos where "linkDialMax = minutes 5"
definition linkUpgradeTry :: nanos where "linkUpgradeTry = seconds 30"

datatype link_state = linkDown | linkConnecting | linkRelayed | linkDirect

text \<open>The states are ordered by quality.\<close>

fun link_rank :: "link_state \<Rightarrow> nat" where
  "link_rank linkDown = 0"
| "link_rank linkConnecting = 1"
| "link_rank linkRelayed = 2"
| "link_rank linkDirect = 3"

lemma link_rank_inj: "link_rank a = link_rank b \<Longrightarrow> a = b"
  by (cases a; cases b) simp_all

instantiation link_state :: linorder
begin

definition less_eq_link_state :: "link_state \<Rightarrow> link_state \<Rightarrow> bool" where
  "a \<le> b \<longleftrightarrow> link_rank a \<le> link_rank b"

definition less_link_state :: "link_state \<Rightarrow> link_state \<Rightarrow> bool" where
  "a < b \<longleftrightarrow> link_rank a < link_rank b"

instance
  by standard (auto simp: less_eq_link_state_def less_link_state_def intro: link_rank_inj)

end

text \<open>The empty connection id and the zero times are \<open>None\<close>.\<close>

record 'c peerLink =
  pl_nick :: bytes
  pl_state :: link_state
  pl_rttMs :: int
  pl_lastPong :: "nanos option"
  pl_everPonged :: bool
  pl_provenConnID :: "'c option"
  pl_missed :: nat
  pl_dialing :: bool
  pl_nextDial :: "nanos option"
  pl_backoff :: nanos
  pl_lastUp :: "nanos option"
  pl_dgTx :: "64 word"
  pl_dgRx :: "64 word"
  pl_streamTx :: "64 word"
  pl_demoted :: "64 word"

record ('p, 'c) linkMaintainer =
  lm_links :: "'p \<rightharpoonup> 'c peerLink"
  lm_protected :: "'p set"    \<comment> \<open>the ConnManager's pins with our tag\<close>

definition newLinkMaintainer :: "('p, 'c) linkMaintainer" where
  "newLinkMaintainer = \<lparr>lm_links = Map.empty, lm_protected = {}\<rparr>"

definition new_link :: "bytes \<Rightarrow> 'c peerLink" where
  "new_link nick = \<lparr>pl_nick = nick, pl_state = linkDown, pl_rttMs = -1, pl_lastPong = None,
     pl_everPonged = False, pl_provenConnID = None, pl_missed = 0, pl_dialing = False, pl_nextDial = None,
     pl_backoff = linkDialBackoff, pl_lastUp = None, pl_dgTx = 0, pl_dgRx = 0, pl_streamTx = 0, pl_demoted = 0\<rparr>"

definition update_link :: "'p \<Rightarrow> ('c peerLink \<Rightarrow> 'c peerLink) \<Rightarrow> ('p, 'c) linkMaintainer \<Rightarrow> ('p, 'c) linkMaintainer" where
  "update_link p f m = m\<lparr>lm_links := (lm_links m)(p := map_option f (lm_links m p))\<rparr>"

section \<open>The trust gate\<close>

definition lm_has :: "'p \<Rightarrow> ('p, 'c) linkMaintainer \<Rightarrow> bool" where
  "lm_has p m \<longleftrightarrow> lm_links m p \<noteq> None"

definition datagramsTrusted :: "'p \<Rightarrow> ('p, 'c) linkMaintainer \<Rightarrow> bool" where
  "datagramsTrusted p m =
     (case lm_links m p of None \<Rightarrow> False | Some l \<Rightarrow> pl_everPonged l \<and> pl_missed l < linkBeatMiss)"

definition trustedConnFor :: "'p \<Rightarrow> ('p, 'c) linkMaintainer \<Rightarrow> 'c option \<times> bool" where
  "trustedConnFor p m =
     (case lm_links m p of None \<Rightarrow> (None, False)
      | Some l \<Rightarrow> if \<not> pl_everPonged l \<or> pl_missed l \<ge> linkBeatMiss then (None, True) else (pl_provenConnID l, True))"

text \<open>\<open>time.Since\<close> saturates at 64 bits; \<open>Milliseconds\<close> truncates.\<close>

definition since_ms :: "nanos \<Rightarrow> 64 word \<Rightarrow> int" where
  "since_ms now ts = (max (- (2 ^ 63)) (min (2 ^ 63 - 1) (now - sint ts))) sdiv 1000000"

definition note_pong :: "nanos \<Rightarrow> 'c \<Rightarrow> 64 word \<Rightarrow> 'c peerLink \<Rightarrow> 'c peerLink" where
  "note_pong now c ts l = l\<lparr>pl_rttMs := since_ms now ts, pl_lastPong := Some now, pl_everPonged := True,
     pl_provenConnID := Some c, pl_missed := 0\<rparr>"

text \<open>\<open>handleHeartbeat\<close>: the reply it sends, and the maintainer after it.\<close>

definition handleHeartbeat ::
    "nanos \<Rightarrow> 'p \<Rightarrow> 'c \<Rightarrow> bytes \<Rightarrow> ('p, 'c) linkMaintainer \<Rightarrow> bytes option \<times> ('p, 'c) linkMaintainer" where
  "handleHeartbeat now p c pkt m =
     (if \<not> isHeartbeat pkt then (None, m)
      else if pkt ! 4 = 0 then (Some (heartbeatPacket 1 (heartbeat_ts pkt)), m)
      else if pkt ! 4 = 1 then (None, update_link p (note_pong now c (heartbeat_ts pkt)) m)
      else (None, m))"

definition noteTx :: "'p \<Rightarrow> ('p, 'c) linkMaintainer \<Rightarrow> ('p, 'c) linkMaintainer" where
  "noteTx p = update_link p (\<lambda>l. l\<lparr>pl_dgTx := pl_dgTx l + 1\<rparr>)"

definition noteRx :: "'p \<Rightarrow> ('p, 'c) linkMaintainer \<Rightarrow> ('p, 'c) linkMaintainer" where
  "noteRx p = update_link p (\<lambda>l. l\<lparr>pl_dgRx := pl_dgRx l + 1\<rparr>)"

definition noteStream :: "'p \<Rightarrow> ('p, 'c) linkMaintainer \<Rightarrow> ('p, 'c) linkMaintainer" where
  "noteStream p = update_link p (\<lambda>l. l\<lparr>pl_streamTx := pl_streamTx l + 1\<rparr>)"

definition suspect :: "'p \<Rightarrow> ('p, 'c) linkMaintainer \<Rightarrow> ('p, 'c) linkMaintainer" where
  "suspect p = update_link p (\<lambda>l. if pl_everPonged l then l\<lparr>pl_missed := linkBeatMiss\<rparr> else l)"

section \<open>Dials\<close>

text \<open>The kicks return the kind of dial they start.\<close>

definition kickDial :: "nanos \<Rightarrow> bool \<Rightarrow> 'c peerLink \<Rightarrow> bool option \<times> 'c peerLink" where
  "kickDial now direct l =
     (if pl_dialing l \<or> (case pl_nextDial l of None \<Rightarrow> False | Some t \<Rightarrow> now < t) then (None, l)
      else (Some direct, l\<lparr>pl_dialing := True\<rparr>))"

definition kickUpgrade :: "nanos \<Rightarrow> 'c peerLink \<Rightarrow> bool option \<times> 'c peerLink" where
  "kickUpgrade now l =
     (if (case pl_lastUp l of None \<Rightarrow> True | Some t \<Rightarrow> now - t > linkUpgradeTry)
      then kickDial now True (l\<lparr>pl_lastUp := Some now\<rparr>) else (None, l))"

text \<open>The dial goroutine's last two sections; a recovered panic only runs the deferred one.\<close>

definition dial_result :: "nanos \<Rightarrow> bool \<Rightarrow> 'c peerLink \<Rightarrow> 'c peerLink" where
  "dial_result now success l =
     (if success then l\<lparr>pl_nextDial := None, pl_backoff := linkDialBackoff\<rparr>
      else l\<lparr>pl_nextDial := Some (now + pl_backoff l),
             pl_backoff := (if pl_backoff l < linkDialMax then pl_backoff l * 2 else pl_backoff l)\<rparr>)"

definition dial_end :: "'c peerLink \<Rightarrow> 'c peerLink" where
  "dial_end l = l\<lparr>pl_dialing := False\<rparr>"

section \<open>The tick\<close>

definition sync_members :: "('p \<rightharpoonup> bytes) \<Rightarrow> ('p, 'c) linkMaintainer \<Rightarrow> ('p, 'c) linkMaintainer" where
  "sync_members want m =
     \<lparr>lm_links = (\<lambda>p. case want p of None \<Rightarrow> None
        | Some nick \<Rightarrow> Some (case lm_links m p of None \<Rightarrow> new_link nick | Some l \<Rightarrow> l\<lparr>pl_nick := nick\<rparr>)),
      lm_protected = lm_protected m - (dom (lm_links m) - dom want)\<rparr>"

text \<open>\<open>evaluate\<close>, first section: the proven connection is gone.\<close>

definition check_gone :: "'c list \<Rightarrow> 'c peerLink \<Rightarrow> 'c peerLink" where
  "check_gone conns l =
     (if pl_everPonged l \<and> (case pl_provenConnID l of None \<Rightarrow> False | Some c \<Rightarrow> c \<notin> set conns)
      then l\<lparr>pl_rttMs := -1, pl_everPonged := False, pl_provenConnID := None, pl_missed := 0,
             pl_demoted := pl_demoted l + 1\<rparr>
      else l)"

text \<open>The section after the beats: a miss, and at the limit the demotion.\<close>

definition count_miss :: "nanos \<Rightarrow> 'c peerLink \<Rightarrow> 'c peerLink" where
  "count_miss now l =
     (if pl_everPonged l \<and> (case pl_lastPong l of None \<Rightarrow> True | Some t \<Rightarrow> now - t > linkBeatEvery)
      then l\<lparr>pl_missed := pl_missed l + 1\<rparr> else l)"

definition demote :: "'c peerLink \<Rightarrow> 'c peerLink" where
  "demote l =
     (if pl_everPonged l \<and> pl_missed l \<ge> linkBeatMiss
      then l\<lparr>pl_rttMs := -1, pl_everPonged := False, pl_missed := 0, pl_demoted := pl_demoted l + 1\<rparr>
      else l)"

definition next_link_state :: "bool \<Rightarrow> bool \<Rightarrow> 'c peerLink \<Rightarrow> link_state" where
  "next_link_state direct connected l =
     (if direct \<and> pl_everPonged l \<and> pl_missed l < linkBeatMiss then linkDirect
      else if connected then linkRelayed
      else if pl_dialing l then linkConnecting else linkDown)"

datatype ('p, 'c) link_effect = EnsureRecvLoops 'p | SendBeat 'c bytes | StartDial 'p bool

definition start_dial :: "'p \<Rightarrow> bool option \<Rightarrow> ('p, 'c) link_effect list" where
  "start_dial p k = (case k of None \<Rightarrow> [] | Some d \<Rightarrow> [StartDial p d])"

text \<open>
  What the link becomes and what \<open>evaluate\<close> does: \<open>connected\<close> covers limited connections,
  \<open>conns\<close> are the direct QUIC ones.
\<close>

definition evaluate_link ::
    "nanos \<Rightarrow> bool \<Rightarrow> 'c list \<Rightarrow> 'p \<Rightarrow> 'c peerLink \<Rightarrow> ('p, 'c) link_effect list \<times> 'c peerLink" where
  "evaluate_link now connected conns p l0 =
     (let direct = length conns > 0;
          l1 = check_gone conns l0;
          loops = (if connected then [EnsureRecvLoops p] else []);
          nxt = next_link_state direct connected l1
      in if direct then
           (let beats = map (\<lambda>c. SendBeat c (heartbeatPacket 0 (word_of_int now))) conns;
                l2 = count_miss now l1;
                demoted_now = (pl_everPonged l2 \<and> pl_missed l2 \<ge> linkBeatMiss);
                l3 = demote l2;
                (k, l4) = (if demoted_now \<or> \<not> pl_everPonged l2 then kickUpgrade now l3 else (None, l3))
            in (loops @ beats @ start_dial p k, l4\<lparr>pl_state := (if demoted_now then linkRelayed else nxt)\<rparr>))
         else if connected then
           (let (k, l2) = kickUpgrade now l1 in (loops @ start_dial p k, l2\<lparr>pl_state := nxt\<rparr>))
         else
           (let (k, l2) = kickDial now False l1 in (loops @ start_dial p k, l2\<lparr>pl_state := nxt\<rparr>)))"

definition evaluate ::
    "nanos \<Rightarrow> bool \<Rightarrow> 'c list \<Rightarrow> 'p \<Rightarrow> ('p, 'c) linkMaintainer \<Rightarrow> ('p, 'c) link_effect list \<times> ('p, 'c) linkMaintainer" where
  "evaluate now connected conns p m =
     (case lm_links m p of None \<Rightarrow> ([], m)
      | Some l \<Rightarrow>
          (let (es, l') = evaluate_link now connected conns p l in
           (es, m\<lparr>lm_links := (lm_links m)(p \<mapsto> l'),
                  lm_protected := (if connected \<or> length conns > 0 then insert p (lm_protected m) else lm_protected m)\<rparr>)))"

text \<open>\<open>tick\<close>: \<open>env\<close> is what the host reports of each peer, \<open>ps\<close> the order of the walk.\<close>

fun tick_links ::
    "nanos \<Rightarrow> ('p \<Rightarrow> bool \<times> 'c list) \<Rightarrow> 'p list \<Rightarrow> ('p, 'c) linkMaintainer
      \<Rightarrow> ('p, 'c) link_effect list \<times> ('p, 'c) linkMaintainer" where
  "tick_links now env [] m = ([], m)"
| "tick_links now env (p # ps) m =
     (let (e1, m1) = evaluate now (fst (env p)) (snd (env p)) p m; (e2, m2) = tick_links now env ps m1 in (e1 @ e2, m2))"

definition lm_tick ::
    "nanos \<Rightarrow> ('p \<rightharpoonup> bytes) \<Rightarrow> ('p \<Rightarrow> bool \<times> 'c list) \<Rightarrow> 'p list \<Rightarrow> ('p, 'c) linkMaintainer
      \<Rightarrow> ('p, 'c) link_effect list \<times> ('p, 'c) linkMaintainer" where
  "lm_tick now want env ps m = tick_links now env ps (sync_members want m)"

text \<open>\<open>snapshot\<close>, one entry: online, state, round-trip time.\<close>

definition link_info :: "'c peerLink \<Rightarrow> bool \<times> link_state \<times> int" where
  "link_info l = (pl_state l = linkDirect \<or> pl_state l = linkRelayed, pl_state l, pl_rttMs l)"

section \<open>The wire format\<close>

definition read_heartbeat :: "bytes \<Rightarrow> ((byte \<times> 64 word) \<times> bytes) option" where
  "read_heartbeat b =
     (if isHeartbeat (take 13 b) then Some ((b ! 4, heartbeat_ts (take 13 b)), drop 13 b) else None)"

lemma length_heartbeat [simp]: "length (heartbeatPacket k ts) = 13"
  by (simp add: heartbeatPacket_def linkMagic_def)

lemma heartbeat_fields [simp]:
  "isHeartbeat (heartbeatPacket k ts)" "heartbeatPacket k ts ! 4 = k" "heartbeat_ts (heartbeatPacket k ts) = ts"
  by (simp_all add: isHeartbeat_def heartbeatPacket_def linkMagic_def heartbeat_ts_def get_be_be_bytes_full)

interpretation heartbeat: codec "\<lambda>(k, ts). heartbeatPacket k ts" read_heartbeat "\<lambda>_. True"
proof
  fix x :: "byte \<times> 64 word" and r
  obtain k ts where x: "x = (k, ts)" by fastforce
  have "(heartbeatPacket k ts @ r) ! 4 = k" by (simp add: nth_append)
  then show "read_heartbeat ((case x of (k, ts) \<Rightarrow> heartbeatPacket k ts) @ r) = Some (x, r)"
    by (simp add: x read_heartbeat_def)
qed

section \<open>Runs\<close>

text \<open>
  Every critical section of the maintainer is a step; the second component remembers on which
  connections of which peer a pong ever arrived.
\<close>

inductive link_step ::
    "('p, 'c) linkMaintainer \<times> ('p \<times> 'c) set \<Rightarrow> ('p, 'c) linkMaintainer \<times> ('p \<times> 'c) set \<Rightarrow> bool" where
  ls_heartbeat: "link_step (m, g) (snd (handleHeartbeat now p c pkt m),
     if isHeartbeat pkt \<and> pkt ! 4 = 1 then insert (p, c) g else g)"
| ls_tx: "link_step (m, g) (noteTx p m, g)"
| ls_rx: "link_step (m, g) (noteRx p m, g)"
| ls_stream: "link_step (m, g) (noteStream p m, g)"
| ls_suspect: "link_step (m, g) (suspect p m, g)"
| ls_sync: "link_step (m, g) (sync_members want m, g)"
| ls_gone: "link_step (m, g) (update_link p (check_gone conns) m, g)"
| ls_miss: "link_step (m, g) (update_link p (demote \<circ> count_miss now) m, g)"
| ls_upgrade: "link_step (m, g) (update_link p (snd \<circ> kickUpgrade now) m, g)"
| ls_dial: "link_step (m, g) (update_link p (snd \<circ> kickDial now direct) m, g)"
| ls_result: "link_step (m, g) (update_link p (dial_result now success) m, g)"
| ls_dialed: "link_step (m, g) (update_link p dial_end m, g)"
| ls_state: "link_step (m, g) (update_link p (\<lambda>l. l\<lparr>pl_state := st\<rparr>) m, g)"
| ls_protect: "link_step (m, g) (m\<lparr>lm_protected := insert p (lm_protected m)\<rparr>, g)"

inductive_cases link_stepE: "link_step s t"

definition link_init :: "('p, 'c) linkMaintainer \<times> ('p \<times> 'c) set \<Rightarrow> bool" where
  "link_init s \<longleftrightarrow> s = (newLinkMaintainer, {})"

definition backoffs :: "nanos set" where
  "backoffs = (\<lambda>k. linkDialBackoff * 2 ^ k) ` {..8}"

definition link_ok :: "'p \<Rightarrow> ('p \<times> 'c) set \<Rightarrow> 'c peerLink \<Rightarrow> bool" where
  "link_ok p g l \<longleftrightarrow>
     (pl_everPonged l \<longrightarrow> (\<exists>c. pl_provenConnID l = Some c \<and> (p, c) \<in> g) \<and> pl_lastPong l \<noteq> None) \<and>
     pl_missed l \<le> linkBeatMiss \<and> pl_backoff l \<in> backoffs"

definition link_inv :: "('p, 'c) linkMaintainer \<times> ('p \<times> 'c) set \<Rightarrow> bool" where
  "link_inv s = (case s of (m, g) \<Rightarrow> \<forall>p l. lm_links m p = Some l \<longrightarrow> link_ok p g l)"

lemma link_inv_update:
  "link_inv (m, g) \<Longrightarrow> g \<subseteq> g' \<Longrightarrow> (\<And>l. link_ok p g l \<Longrightarrow> link_ok p g' (f l)) \<Longrightarrow> link_inv (update_link p f m, g')"
  unfolding link_inv_def update_link_def link_ok_def by (auto split: if_splits) blast+

lemma backoffs_range: "b \<in> backoffs \<Longrightarrow> linkDialBackoff \<le> b \<and> b \<le> seconds 512"
proof -
  assume "b \<in> backoffs"
  then obtain k where k: "k \<le> 8" "b = linkDialBackoff * 2 ^ k" by (auto simp: backoffs_def)
  have "(2::int) ^ k \<le> 2 ^ 8" using k(1) by (intro power_increasing) simp_all
  moreover have "(1::int) \<le> 2 ^ k" by simp
  ultimately show ?thesis unfolding k(2) linkDialBackoff_def by simp
qed

lemma backoffs_next: "b \<in> backoffs \<Longrightarrow> b < linkDialMax \<Longrightarrow> b * 2 \<in> backoffs"
proof -
  assume b: "b \<in> backoffs" "b < linkDialMax"
  then obtain k where k: "k \<le> 8" "b = linkDialBackoff * 2 ^ k" by (auto simp: backoffs_def)
  have "k \<noteq> 8" using b(2) k(2) by (auto simp: linkDialBackoff_def linkDialMax_def)
  then show ?thesis using k unfolding backoffs_def by (intro image_eqI[of _ _ "Suc k"]) auto
qed

lemma backoffs_first: "linkDialBackoff \<in> backoffs"
  unfolding backoffs_def by (intro image_eqI[of _ _ 0]) simp_all

lemma link_ok_pieces:
  "link_ok p g l \<Longrightarrow> link_ok p g (check_gone conns l)"
  "link_ok p g l \<Longrightarrow> link_ok p g (demote (count_miss now l))"
  "link_ok p g l \<Longrightarrow> link_ok p g (snd (kickUpgrade now l))"
  "link_ok p g l \<Longrightarrow> link_ok p g (snd (kickDial now d l))"
  "link_ok p g l \<Longrightarrow> link_ok p g (dial_result now success l)"
  "link_ok p g l \<Longrightarrow> link_ok p g (dial_end l)"
  by (auto simp: link_ok_def check_gone_def demote_def count_miss_def kickUpgrade_def kickDial_def dial_result_def
      dial_end_def backoffs_next backoffs_first linkBeatMiss_def split: if_splits)

lemma link_inv_heartbeat:
  "link_inv (m, g) \<Longrightarrow> link_inv (snd (handleHeartbeat now p c pkt m),
     if isHeartbeat pkt \<and> pkt ! 4 = 1 then insert (p, c) g else g)"
  using link_inv_update[of m g "insert (p, c) g" p "note_pong now c (heartbeat_ts pkt)"]
  by (auto simp: handleHeartbeat_def link_ok_def note_pong_def)

lemma link_inv_sync: "link_inv (m, g) \<Longrightarrow> link_inv (sync_members want m, g)"
  by (auto simp: link_inv_def sync_members_def link_ok_def new_link_def backoffs_first split: option.splits)

lemma link_inv_step: "link_inv s \<Longrightarrow> link_step s t \<Longrightarrow> link_inv t"
proof (erule link_stepE, goal_cases)
  case (1 m g now p c pkt) then show ?case by (simp add: link_inv_heartbeat del: handleHeartbeat_def)
next
  case (6 m g want) then show ?case by (simp add: link_inv_sync)
next
  case (14 m g p) then show ?case by (simp add: link_inv_def)
qed (auto simp: noteTx_def noteRx_def noteStream_def suspect_def link_ok_pieces intro!: link_inv_update,
    auto simp: link_ok_def)

interpretation linkm: step_invariant link_init link_step link_inv
  by unfold_locales (simp add: link_init_def link_inv_def newLinkMaintainer_def, fact link_inv_step)

text \<open>\<open>evaluate\<close> is a sequence of those sections.\<close>

lemma evaluate_link_sections:
  "snd (evaluate_link now connected conns p l) =
     (let nxt = next_link_state (length conns > 0) connected (check_gone conns l) in
      if length conns > 0 then
        (let l2 = count_miss now (check_gone conns l);
             demoted_now = (pl_everPonged l2 \<and> pl_missed l2 \<ge> linkBeatMiss)
         in (if demoted_now \<or> \<not> pl_everPonged l2 then snd (kickUpgrade now (demote l2)) else demote l2)
              \<lparr>pl_state := if demoted_now then linkRelayed else nxt\<rparr>)
      else if connected then (snd (kickUpgrade now (check_gone conns l)))\<lparr>pl_state := nxt\<rparr>
      else (snd (kickDial now False (check_gone conns l)))\<lparr>pl_state := nxt\<rparr>)"
  by (simp add: evaluate_link_def Let_def split_beta)

lemma evaluate_steps: "link_step\<^sup>*\<^sup>* (m, g) (snd (evaluate now connected conns p m), g)"
proof (cases "lm_links m p")
  case (Some l)
  define st where "st = pl_state (snd (evaluate_link now connected conns p l))"
  define m1 where "m1 = update_link p (check_gone conns) m"
  define m2 where "m2 = (if length conns > 0 then update_link p (demote \<circ> count_miss now) m1 else m1)"
  define l2 where "l2 = count_miss now (check_gone conns l)"
  define m3 where "m3 = (if length conns > 0
      then (if pl_everPonged l2 \<and> pl_missed l2 \<ge> linkBeatMiss \<or> \<not> pl_everPonged l2 then update_link p (snd \<circ> kickUpgrade now) m2 else m2)
      else if connected then update_link p (snd \<circ> kickUpgrade now) m2 else update_link p (snd \<circ> kickDial now False) m2)"
  define m4 where "m4 = update_link p (\<lambda>l. l\<lparr>pl_state := st\<rparr>) m3"
  have 1: "link_step (m, g) (m1, g)" unfolding m1_def by (rule ls_gone)
  have 2: "link_step\<^sup>*\<^sup>* (m1, g) (m2, g)" by (auto simp: m2_def intro: ls_miss)
  have 3: "link_step\<^sup>*\<^sup>* (m2, g) (m3, g)" by (auto simp: m3_def intro: ls_upgrade ls_dial)
  have 4: "link_step (m3, g) (m4, g)" unfolding m4_def by (rule ls_state)
  have 5: "link_step (m4, g) (m4\<lparr>lm_protected := insert p (lm_protected m4)\<rparr>, g)" by (rule ls_protect)
  have prot: "lm_protected m4 = lm_protected m" by (auto simp: m4_def m3_def m2_def m1_def update_link_def)
  have links: "m4 = m\<lparr>lm_links := (lm_links m)(p \<mapsto> snd (evaluate_link now connected conns p l))\<rparr>"
    unfolding m4_def st_def
    by (auto simp: m3_def m2_def m1_def l2_def update_link_def Some evaluate_link_sections Let_def)
  have "link_step\<^sup>*\<^sup>* (m, g) (m4, g)" using 1 2 3 4 by (meson converse_rtranclp_into_rtranclp rtranclp.simps rtranclp_trans)
  moreover from this have "link_step\<^sup>*\<^sup>* (m, g) (m4\<lparr>lm_protected := insert p (lm_protected m4)\<rparr>, g)"
    using 5 by (rule rtranclp.rtrancl_into_rtrancl)
  ultimately show ?thesis
    using prot by (auto simp: evaluate_def Some split_beta links)
qed (simp add: evaluate_def)

section \<open>Properties\<close>

text \<open>A run: friend 3 is tracked, and a pong of its connection 8 arrives at time 5.\<close>

definition lm_ex0 :: "(nat, nat) linkMaintainer" where
  "lm_ex0 = sync_members [3 \<mapsto> []] newLinkMaintainer"

definition lm_ex :: "(nat, nat) linkMaintainer" where
  "lm_ex = snd (handleHeartbeat 5 3 8 (heartbeatPacket 1 2) lm_ex0)"

lemma lm_ex_reachable: "reachable link_init link_step (lm_ex, {(3, 8)})"
proof -
  have 0: "reachable link_init link_step (newLinkMaintainer, {} :: (nat \<times> nat) set)"
    by (rule reach_init) (simp add: link_init_def)
  have 1: "reachable link_init link_step (lm_ex0, {})" unfolding lm_ex0_def by (rule reach_step[OF 0 ls_sync])
  show ?thesis
    using reach_step[OF 1 ls_heartbeat[of lm_ex0 "{}" 5 3 8 "heartbeatPacket 1 2"]] by (simp add: lm_ex_def)
qed

lemma lm_ex_link: "lm_links lm_ex 3 = Some (note_pong 5 8 2 (new_link []))"
  by (simp add: lm_ex_def lm_ex0_def handleHeartbeat_def update_link_def sync_members_def newLinkMaintainer_def)

text \<open>
  C29. Datagrams prove themselves. In every interleaving of heartbeats, send errors, ticks, dials
  and membership changes, the connection the transmit gate trusts for a friend is one on which
  a pong of that friend arrived, a peer that is not a friend is never trusted, and after an
  evaluation the trusted connection is one that still exists.
\<close>

theorem link_trust_proven:
  assumes "reachable link_init link_step (m, g)" "fst (trustedConnFor p m) = Some c"
  shows "(p, c) \<in> g \<and> lm_has p m \<and>
    (fst (trustedConnFor p (snd (evaluate now connected conns p m))) \<noteq> None \<longrightarrow>
       (\<exists>c' \<in> set conns. fst (trustedConnFor p (snd (evaluate now connected conns p m))) = Some c'))"
proof -
  from assms(2) obtain l where l: "lm_links m p = Some l" "pl_everPonged l" "pl_provenConnID l = Some c"
    by (auto simp: trustedConnFor_def split: option.splits if_splits)
  have "link_ok p g l" using linkm.reachable_inv[OF assms(1)] l(1) by (simp add: link_inv_def)
  then have "(p, c) \<in> g" using l(2,3) by (auto simp: link_ok_def)
  moreover have "c' \<in> set conns" if "fst (trustedConnFor p (snd (evaluate now connected conns p m))) = Some c'" for c'
    using that l
    by (auto simp: trustedConnFor_def evaluate_def evaluate_link_sections split_beta Let_def check_gone_def count_miss_def
        demote_def kickUpgrade_def kickDial_def split: if_splits)
  ultimately show ?thesis using l(1) by (auto simp: lm_has_def)
qed

theorem link_trust_proven_witness: "(3, 8) \<in> {(3::nat, 8::nat)} \<and> lm_has 3 lm_ex"
proof -
  have "fst (trustedConnFor 3 lm_ex) = Some 8"
    by (simp add: trustedConnFor_def lm_ex_link note_pong_def linkBeatMiss_def)
  from link_trust_proven[OF lm_ex_reachable this] show ?thesis by blast
qed

text \<open>Silence: what evaluations do to a link whose last pong was at \<open>t\<close>.\<close>

definition silent :: "nanos \<Rightarrow> nat \<Rightarrow> 'c peerLink \<Rightarrow> bool" where
  "silent t k l \<longleftrightarrow> \<not> pl_everPonged l \<or>
     pl_provenConnID l \<noteq> None \<and> pl_lastPong l = Some t \<and> k \<le> pl_missed l"

lemma kick_keep:
  "pl_everPonged (snd (kickUpgrade n l)) = pl_everPonged l" "pl_missed (snd (kickUpgrade n l)) = pl_missed l"
  "pl_provenConnID (snd (kickUpgrade n l)) = pl_provenConnID l" "pl_lastPong (snd (kickUpgrade n l)) = pl_lastPong l"
  "pl_everPonged (snd (kickDial n d l)) = pl_everPonged l" "pl_missed (snd (kickDial n d l)) = pl_missed l"
  "pl_provenConnID (snd (kickDial n d l)) = pl_provenConnID l" "pl_lastPong (snd (kickDial n d l)) = pl_lastPong l"
  by (simp_all add: kickUpgrade_def kickDial_def)

lemma silent_evaluate:
  assumes "silent t k l" "n - t > linkBeatEvery"
  shows "silent t (Suc k) (snd (evaluate_link n connected conns p l)) \<and>
    (linkBeatMiss \<le> Suc k \<longrightarrow> \<not> pl_everPonged (snd (evaluate_link n connected conns p l)))"
  using assms
  by (cases "conns = []")
    (auto simp: silent_def evaluate_link_sections Let_def kick_keep check_gone_def count_miss_def demote_def
      split: option.splits if_splits)

lemma silent_evaluates:
  assumes "silent t k l" "\<forall>(n, cn, cs) \<in> set evs. n - t > linkBeatEvery" "evs \<noteq> []" "linkBeatMiss \<le> k + length evs"
  shows "\<not> pl_everPonged (fold (\<lambda>(n, cn, cs) l. snd (evaluate_link n cn cs p l)) evs l)"
  using assms
proof (induction evs arbitrary: k l)
  case (Cons e evs)
  obtain n cn cs where e: "e = (n, cn, cs)" by (cases e)
  have 1: "silent t (Suc k) (snd (evaluate_link n cn cs p l))"
    "linkBeatMiss \<le> Suc k \<longrightarrow> \<not> pl_everPonged (snd (evaluate_link n cn cs p l))"
    using silent_evaluate[OF Cons.prems(1), of n cn cs p] Cons.prems(2) by (auto simp: e)
  show ?case
  proof (cases "evs = []")
    case True
    with 1(2) Cons.prems(4) show ?thesis by (simp add: e)
  next
    case False
    with Cons.IH[OF 1(1)] Cons.prems show ?thesis by (simp add: e)
  qed
qed simp

lemma fold_evaluate:
  "lm_links m p = Some l \<Longrightarrow> lm_links (fold (\<lambda>(n, cn, cs) m. snd (evaluate n cn cs p m)) evs m) p =
     Some (fold (\<lambda>(n, cn, cs) l. snd (evaluate_link n cn cs p l)) evs l)"
  by (induction evs arbitrary: m l) (auto simp: evaluate_def split_beta)

text \<open>
  Trust ends with the pongs. If the last pong of a proven link is older than a beat, then
  three evaluations without a new one, whatever connections they find, leave it distrusted:
  the datagram gate is shut until another pong arrives.
\<close>

theorem link_silence_demotes:
  assumes "lm_links m p = Some l" "pl_lastPong l = Some t" "pl_provenConnID l \<noteq> None"
    and "\<forall>(n, cn, cs) \<in> set evs. n - t > linkBeatEvery" "3 \<le> length evs"
  shows "\<not> datagramsTrusted p (fold (\<lambda>(n, cn, cs) m. snd (evaluate n cn cs p m)) evs m)"
proof -
  have "silent t 0 l" using assms by (simp add: silent_def)
  then have "\<not> pl_everPonged (fold (\<lambda>(n, cn, cs) l. snd (evaluate_link n cn cs p l)) evs l)"
    using assms(4,5) by (intro silent_evaluates) (auto simp: linkBeatMiss_def)
  then show ?thesis by (simp add: datagramsTrusted_def fold_evaluate[OF assms(1)])
qed

theorem link_silence_demotes_witness:
  "\<not> datagramsTrusted 3 (fold (\<lambda>(n, cn, cs) m. snd (evaluate n cn cs 3 m))
     [(seconds 5, True, [8]), (seconds 9, True, [8, 9]), (seconds 13, True, [8])] lm_ex)"
  by (rule link_silence_demotes[OF lm_ex_link, where t = 5]) (simp_all add: note_pong_def linkBeatEvery_def)

text \<open>
  What the panel shows is the truth. After an evaluation the link counts as online exactly
  when the host has a connection to the friend, it is "direct" exactly when the transmit gate
  now trusts the datagram path, "relayed" for every other connection, and "down" or
  "connecting" without one, according to whether a dial was in flight.
\<close>

theorem link_state_exact:
  fixes m :: "('p, 'c) linkMaintainer" and now :: nanos and connected :: bool and conns :: "'c list"
  assumes "reachable link_init link_step (m, g)" "lm_links m p = Some l" "conns \<noteq> [] \<longrightarrow> connected"
  defines "m' \<equiv> snd (evaluate now connected conns p m)"
  shows "\<exists>l'. lm_links m' p = Some l' \<and> (fst (link_info l') \<longleftrightarrow> connected) \<and>
    (pl_state l' = linkDirect \<longleftrightarrow> datagramsTrusted p m') \<and>
    (linkRelayed \<le> pl_state l' \<longleftrightarrow> connected) \<and>
    (\<not> connected \<longrightarrow> pl_state l' = (if pl_dialing l then linkConnecting else linkDown))"
proof -
  have "link_ok p g l" using linkm.reachable_inv[OF assms(1)] assms(2) by (simp add: link_inv_def)
  then have proven: "pl_everPonged l \<longrightarrow> pl_provenConnID l \<noteq> None" by (auto simp: link_ok_def)
  have m': "lm_links m' p = Some (snd (evaluate_link now connected conns p l))"
    by (simp add: m'_def evaluate_def assms(2) split_beta)
  show ?thesis
  proof (cases "conns = []")
    case True
    with proven show ?thesis unfolding m' datagramsTrusted_def
      by (auto simp: m' evaluate_link_sections Let_def link_info_def next_link_state_def kick_keep check_gone_def
          less_eq_link_state_def split: option.splits if_splits)
  next
    case False
    then have "connected" using assms(3) by simp
    have st: "pl_state (snd (evaluate_link now connected conns p l)) =
        (if pl_everPonged (snd (evaluate_link now connected conns p l)) \<and>
            pl_missed (snd (evaluate_link now connected conns p l)) < linkBeatMiss then linkDirect else linkRelayed)"
      using False \<open>connected\<close>
      by (auto simp: evaluate_link_sections Let_def next_link_state_def kick_keep count_miss_def demote_def)
    with \<open>connected\<close> show ?thesis unfolding m' datagramsTrusted_def
      by (auto simp: m' link_info_def less_eq_link_state_def)
  qed
qed

theorem link_state_exact_witness:
  "\<exists>l'. lm_links (snd (evaluate 6 True [8] 3 lm_ex)) 3 = Some l' \<and> fst (link_info l')"
proof -
  have "[8::nat] \<noteq> [] \<longrightarrow> True" by simp
  from link_state_exact[OF lm_ex_reachable lm_ex_link this, of 6] show ?thesis by blast
qed

lemma start_dial_Some: "x \<in> set (start_dial p k) \<longleftrightarrow> (\<exists>d. k = Some d \<and> x = StartDial p d)"
  by (auto simp: start_dial_def split: option.splits)

text \<open>
  No link is ever stuck. In a run, evaluating a friend the host has no connection to
  starts a dial, unless one is in flight or the last failure set a date for the next one that
  is still ahead; and a failure sets that date between two and 512 seconds ahead.
\<close>

theorem link_repairs:
  assumes "reachable link_init link_step (m, g)" "lm_links m p = Some l"
  shows "(StartDial p False \<in> set (fst (evaluate now False [] p m)) \<or> pl_dialing l \<or>
      (\<exists>t. pl_nextDial l = Some t \<and> now < t)) \<and>
    (\<exists>t. pl_nextDial (dial_result now False l) = Some t \<and> now + seconds 2 \<le> t \<and> t \<le> now + seconds 512) \<and>
    \<not> pl_dialing (dial_end (dial_result now False l))"
proof -
  have "link_ok p g l" using linkm.reachable_inv[OF assms(1)] assms(2) by (simp add: link_inv_def)
  then have "linkDialBackoff \<le> pl_backoff l" "pl_backoff l \<le> seconds 512"
    using backoffs_range by (auto simp: link_ok_def)
  then show ?thesis
    by (auto simp: evaluate_def assms(2) split_beta evaluate_link_def Let_def start_dial_Some kickDial_def check_gone_def
        dial_result_def dial_end_def linkDialBackoff_def split: option.splits)
qed

theorem link_repairs_witness:
  "\<exists>t. pl_nextDial (dial_result 9 False (note_pong 5 (8::nat) 2 (new_link []))) = Some t \<and> 9 + seconds 2 \<le> t \<and> t \<le> 9 + seconds 512"
  using link_repairs[OF lm_ex_reachable lm_ex_link, of 9] by blast

text \<open>
  The backoff after \<open>k\<close> failures. It doubles while it is below \<open>linkDialMax\<close>, so it goes past
  it: from the eighth failure on it is 512 seconds, not five minutes.
\<close>

lemma dial_result_backoff:
  "pl_backoff (dial_result now False l) = (if pl_backoff l < linkDialMax then pl_backoff l * 2 else pl_backoff l)"
  by (simp add: dial_result_def)

lemma backoff_exact:
  "pl_backoff l = linkDialBackoff \<Longrightarrow>
   pl_backoff ((dial_result now False ^^ k) l) = linkDialBackoff * 2 ^ min k 8"
proof (induction k)
  case (Suc k)
  then have b: "pl_backoff ((dial_result now False ^^ k) l) = linkDialBackoff * 2 ^ min k 8" by simp
  show ?case
  proof (cases "k < 8")
    case True
    then have "(2::int) ^ k \<le> 2 ^ 7" by (intro power_increasing) simp_all
    then have "linkDialBackoff * 2 ^ k < linkDialMax" by (simp add: linkDialBackoff_def linkDialMax_def)
    with b True show ?thesis by (simp add: dial_result_backoff min_def)
  next
    case False
    then have "\<not> linkDialBackoff * 2 ^ min k 8 < linkDialMax" by (simp add: linkDialBackoff_def linkDialMax_def min_def)
    with b False show ?thesis by (simp add: dial_result_backoff min_def)
  qed
qed simp

lemma new_link_backoff: "pl_backoff (new_link nick) = linkDialBackoff"
  by (simp add: new_link_def)

lemma backoff_exceeds_max: "linkDialMax < pl_backoff ((dial_result now False ^^ 8) (new_link nick))"
  unfolding backoff_exact[OF new_link_backoff] by (simp add: linkDialBackoff_def linkDialMax_def)

end
