(* ===== verification/Packet4.thy ===== *)
theory Packet4
  imports Prelude
begin

text \<open>
  \<open>packet4.go\<close>: the hand-rolled IPv4/UDP packets of the LAN reflector and the DNS answers. An
  address is the list of its four bytes. Sums are the code's 32-bit words; the lemmas bound
  them, so the additions do not wrap on any packet that fits its 16-bit length fields.
\<close>

section \<open>Definitions\<close>

type_synonym ip4 = bytes

record udp4 =
  u_Src :: ip4
  u_Dst :: ip4
  u_SrcPort :: "16 word"
  u_DstPort :: "16 word"
  u_Payload :: bytes

definition u16_at :: "bytes \<Rightarrow> nat \<Rightarrow> 16 word" where
  "u16_at p i = get_be16 (p ! i) (p ! Suc i)"

definition parseUDP4 :: "bytes \<Rightarrow> udp4 option" where
  "parseUDP4 pkt =
     (if length pkt < 20 \<or> drop_bit 4 (pkt ! 0) \<noteq> 4 then None
      else (let ihl = unat (pkt ! 0 AND 0x0f) * 4 in
        if ihl < 20 \<or> length pkt < ihl + 8 \<or> pkt ! 9 \<noteq> 17 then None
        else if pkt ! 6 AND 0x1f \<noteq> 0 \<or> pkt ! 7 \<noteq> 0 then None
        else (let ulen = unat (u16_at pkt (ihl + 4)) in
          if ulen < 8 \<or> ihl + ulen > length pkt then None
          else Some \<lparr>u_Src = take 4 (drop 12 pkt), u_Dst = take 4 (drop 16 pkt),
                     u_SrcPort = u16_at pkt ihl, u_DstPort = u16_at pkt (ihl + 2),
                     u_Payload = drop (ihl + 8) (take (ihl + ulen) pkt)\<rparr>)))"

text \<open>The checksum loops: 16-bit words, an odd last byte dropped (IP) or padded (UDP).\<close>

fun ip_sum :: "bytes \<Rightarrow> 32 word" where
  "ip_sum (a # b # r) = ucast (get_be16 a b) + ip_sum r"
| "ip_sum _ = 0"

fun add16 :: "bytes \<Rightarrow> 32 word" where
  "add16 [] = 0"
| "add16 [a] = push_bit 8 (ucast a)"
| "add16 (a # b # r) = ucast (get_be16 a b) + add16 r"

lemma fold_carry_step:
  assumes "s > (0xffff :: 32 word)"
  shows "unat (drop_bit 16 s + (s AND 0xffff)) = unat s div 65536 + unat s mod 65536"
    "unat s div 65536 + unat s mod 65536 < unat s"
proof -
  have a: "unat (drop_bit 16 s) = unat s div 65536" by (simp add: drop_bit_eq_div unat_div)
  have "s AND 0xffff = take_bit 16 s" by (simp add: take_bit_eq_mask mask_eq_exp_minus_1)
  then have b: "unat (s AND 0xffff) = unat s mod 65536" by (simp add: take_bit_eq_mod unat_mod)
  have s: "unat s < 4294967296" using unat_less_exp[of s] by simp
  have dm: "unat s = 65536 * (unat s div 65536) + unat s mod 65536" by simp
  then show "unat (drop_bit 16 s + (s AND 0xffff)) = unat s div 65536 + unat s mod 65536"
    using s by (simp add: unat_word_ariths a b del: mult_div_mod_eq)
  have "65535 < unat s" using assms by (simp add: word_less_nat_alt)
  then have "0 < unat s div 65536" by (simp add: div_greater_zero_iff)
  then show "unat s div 65536 + unat s mod 65536 < unat s" using dm by linarith
qed

function fold_carry :: "32 word \<Rightarrow> 32 word" where
  "fold_carry s = (if s > 0xffff then fold_carry (drop_bit 16 s + (s AND 0xffff)) else s)"
  by pat_completeness auto

termination
  by (relation "measure unat") (auto simp: fold_carry_step)

declare fold_carry.simps [simp del]

definition ipChecksum :: "bytes \<Rightarrow> 16 word" where
  "ipChecksum hdr = NOT (ucast (fold_carry (ip_sum hdr)))"

definition udpChecksum :: "ip4 \<Rightarrow> ip4 \<Rightarrow> bytes \<Rightarrow> 16 word" where
  "udpChecksum src dst udp =
     (let s = add16 src + add16 dst + 17 + word_of_nat (length udp) + add16 udp;
          c = NOT (ucast (fold_carry s)) :: 16 word
      in if c = 0 then 0xffff else c)"

text \<open>\<open>buildUDP4\<close>: the header and the datagram with their checksum fields zero, then filled in.\<close>

definition ip_header :: "ip4 \<Rightarrow> ip4 \<Rightarrow> nat \<Rightarrow> 16 word \<Rightarrow> bytes" where
  "ip_header src dst tlen ck =
     [0x45, 0] @ be16 (word_of_nat tlen) @ [0, 0, 0, 0, 64, 17] @ be16 ck @ src @ dst"

definition udp_datagram :: "16 word \<Rightarrow> 16 word \<Rightarrow> bytes \<Rightarrow> 16 word \<Rightarrow> bytes" where
  "udp_datagram sport dport payload ck =
     be16 sport @ be16 dport @ be16 (word_of_nat (8 + length payload)) @ be16 ck @ payload"

definition buildUDP4 :: "ip4 \<Rightarrow> ip4 \<Rightarrow> 16 word \<Rightarrow> 16 word \<Rightarrow> bytes \<Rightarrow> bytes" where
  "buildUDP4 src dst sport dport payload =
     (let tlen = 20 + (8 + length payload) in
      ip_header src dst tlen (ipChecksum (ip_header src dst tlen 0)) @
      udp_datagram sport dport payload (udpChecksum src dst (udp_datagram sport dport payload 0)))"

section \<open>Sums\<close>

lemma fold_carry_spec:
  "unat (fold_carry s) \<le> 65535 \<and> unat (fold_carry s) mod 65535 = unat s mod 65535 \<and> (fold_carry s = 0 \<longleftrightarrow> s = 0)"
proof (induction s rule: fold_carry.induct)
  case (1 s)
  show ?case
  proof (cases "s > 0xffff")
    case True
    let ?t = "drop_bit 16 s + (s AND 0xffff)"
    have t: "unat ?t = unat s div 65536 + unat s mod 65536" by (rule fold_carry_step(1)[OF True])
    have "unat s = 65535 * (unat s div 65536) + (unat s div 65536 + unat s mod 65536)"
      using mult_div_mod_eq[of 65536 "unat s"] by simp
    then have m: "unat ?t mod 65535 = unat s mod 65535" unfolding t by (metis mod_mult_self4)
    have "65535 < unat s" using True by (simp add: word_less_nat_alt)
    then have "0 < unat s div 65536 + unat s mod 65536" by (simp add: div_greater_zero_iff)
    then have "?t \<noteq> 0" "s \<noteq> 0" using t True by (auto simp: unat_eq_0)
    then show ?thesis using "1.IH"[OF True] True m by (simp add: fold_carry.simps[of s])
  next
    case False
    then have "unat s \<le> 65535" by (simp add: word_less_nat_alt)
    then show ?thesis using False by (simp add: fold_carry.simps[of s])
  qed
qed

lemma unat_get_be16_le: "unat (get_be16 a b) \<le> 65535"
  using unat_less_exp[of "get_be16 a b"] by simp

fun nat_sum :: "bytes \<Rightarrow> nat" where
  "nat_sum [] = 0"
| "nat_sum [a] = 256 * unat a"
| "nat_sum (a # b # r) = unat (get_be16 a b) + nat_sum r"

lemma nat_sum_le: "nat_sum b \<le> 65535 * ((length b + 1) div 2)"
proof (induction b rule: nat_sum.induct)
  case (2 a)
  then show ?case using unat_less_exp[of a] by simp
next
  case (3 a b r)
  then show ?case using unat_get_be16_le[of a b] by simp
qed simp

lemma nat_sum_append: "even (length a) \<Longrightarrow> nat_sum (a @ b) = nat_sum a + nat_sum b"
  by (induction a rule: nat_sum.induct) auto

lemma unat_add16: "length b \<le> 65536 \<Longrightarrow> unat (add16 b) = nat_sum b"
proof (induction b rule: add16.induct)
  case (2 a)
  have "unat a < 256" using unat_less_exp[of a] by simp
  then show ?case by (simp add: push_bit_eq_mult unat_word_ariths unsigned_ucast_eq take_bit_nat_eq_self_iff take_bit_eq_mod)
next
  case (3 a b r)
  have "unat (get_be16 a b) < 4294967296" using unat_get_be16_le[of a b] by simp
  moreover have "nat_sum (a # b # r) < 4294967296"
    using nat_sum_le[of "a # b # r"] "3.prems" by (simp del: nat_sum.simps)
  ultimately show ?case
    using "3.IH" "3.prems" by (simp add: unat_word_ariths unsigned_ucast_eq take_bit_nat_eq_self)
qed simp

lemma ip_sum_add16: "even (length b) \<Longrightarrow> ip_sum b = add16 b"
  by (induction b rule: add16.induct) auto

lemma nat_sum_be16 [simp]: "nat_sum (be16 w) = unat w" "nat_sum (be16 w @ r) = unat w + nat_sum r"
  by (simp_all add: be16_def get_be16_be16)

text \<open>
  One's complement: filling the field with the complement of the folded sum makes the whole
  sum a non-zero multiple of 65535, which folds to 65535.
\<close>

lemma fold_carry_full: "unat s mod 65535 = 0 \<Longrightarrow> s \<noteq> 0 \<Longrightarrow> fold_carry s = 0xffff"
proof -
  assume s: "unat s mod 65535 = 0" "s \<noteq> 0"
  then have "unat (fold_carry s) mod 65535 = 0" "unat (fold_carry s) \<le> 65535" "unat (fold_carry s) \<noteq> 0"
    using fold_carry_spec[of s] by (auto simp: unat_eq_0)
  then have "unat (fold_carry s) = 65535" by (metis le_neq_implies_less mod_less)
  then show ?thesis by (simp add: word_unat_eq_iff)
qed

lemma unat_not16: "unat (NOT (w :: 16 word)) = 65535 - unat w"
proof -
  have "NOT w = - 1 - w" by (simp add: not_eq_complement minus_diff_commute)
  moreover have "unat (- 1 - w) = unat (- 1 :: 16 word) - unat w" by (rule unat_sub) simp
  ultimately show ?thesis by (simp add: unsigned_minus_1_eq_mask mask_eq_exp_minus_1)
qed

lemma unat_ucast_fold: "unat (ucast (fold_carry s) :: 16 word) = unat (fold_carry s)"
  using fold_carry_spec[of s] by (simp add: unsigned_ucast_eq take_bit_nat_eq_self)

lemma complement_full:
  assumes "unat (fold_carry s) + c = 65535 \<or> fold_carry s = 0xffff \<and> c = 65535" "unat t = unat s + c" "0 < unat t"
  shows "fold_carry t = 0xffff"
proof (rule fold_carry_full)
  have "(unat s + c) mod 65535 = (unat (fold_carry s) + c) mod 65535"
    using fold_carry_spec[of s] by (metis mod_add_left_eq)
  then show "unat t mod 65535 = 0" using assms by auto
  show "t \<noteq> 0" using assms(3) by auto
qed

lemma get_be16_zero: "get_be16 0 0 = 0"
  by (simp add: get_be16_def)

lemma ip_header_simps:
  "length src = 4 \<Longrightarrow> length dst = 4 \<Longrightarrow> length (ip_header src dst n c) = 20"
  "nat_sum (ip_header src dst n c) = nat_sum (ip_header src dst n 0) + unat c"
  by (simp_all add: ip_header_def be16_def get_be16_be16 get_be16_zero)

lemma ip_header_pos: "0 < nat_sum (ip_header src dst n c)"
proof -
  have "unat (get_be16 0x45 0) = 17664" by (simp add: unat_get_be16)
  then show ?thesis by (simp add: ip_header_def)
qed

text \<open>A receiver's header check: the sum over the header, field included, folds to 0xffff.\<close>

lemma ip_checksum_verifies:
  assumes "length src = 4" "length dst = 4"
  shows "fold_carry (ip_sum (ip_header src dst n (ipChecksum (ip_header src dst n 0)))) = 0xffff"
proof (rule complement_full)
  let ?s = "ip_sum (ip_header src dst n 0)"
  let ?c = "ipChecksum (ip_header src dst n 0)"
  have sum: "unat (ip_sum (ip_header src dst n c)) = nat_sum (ip_header src dst n c)" for c
    using ip_header_simps(1)[OF assms, of n c] by (simp add: ip_sum_add16 unat_add16)
  show "unat (fold_carry ?s) + unat ?c = 65535 \<or> fold_carry ?s = 0xffff \<and> unat ?c = 65535"
    using fold_carry_spec[of ?s] by (simp add: ipChecksum_def unat_not16 unat_ucast_fold)
  show "unat (ip_sum (ip_header src dst n ?c)) = unat ?s + unat ?c"
    by (simp add: sum ip_header_simps(2)[of src dst n ?c])
  show "0 < unat (ip_sum (ip_header src dst n ?c))" by (simp add: sum ip_header_pos)
qed

lemma udp_datagram_simps:
  "length (udp_datagram sp dp p c) = 8 + length p"
  "nat_sum (udp_datagram sp dp p c) = nat_sum (udp_datagram sp dp p 0) + unat c"
  by (simp_all add: udp_datagram_def be16_def get_be16_be16 get_be16_zero)

definition pseudo_sum :: "ip4 \<Rightarrow> ip4 \<Rightarrow> bytes \<Rightarrow> 32 word" where
  "pseudo_sum src dst udp = add16 src + add16 dst + 17 + word_of_nat (length udp) + add16 udp"

lemma unat_pseudo:
  assumes "length src = 4" "length dst = 4" "length udp \<le> 65535"
  shows "unat (pseudo_sum src dst udp) = nat_sum src + nat_sum dst + 17 + length udp + nat_sum udp"
proof -
  have "nat_sum src \<le> 131070" "nat_sum dst \<le> 131070" "nat_sum udp \<le> 2147450880"
    using nat_sum_le[of src] nat_sum_le[of dst] nat_sum_le[of udp] assms
    by (simp_all add: order_trans[OF nat_sum_le[of udp]])
  then show ?thesis
    using assms by (simp add: pseudo_sum_def unat_word_ariths unat_add16 unat_of_nat take_bit_nat_eq_self)
qed

lemma udp_checksum_verifies:
  assumes "length src = 4" "length dst = 4" "length p \<le> 65527"
  shows "fold_carry (pseudo_sum src dst (udp_datagram sp dp p (udpChecksum src dst (udp_datagram sp dp p 0)))) = 0xffff"
proof (rule complement_full)
  let ?s = "pseudo_sum src dst (udp_datagram sp dp p 0)"
  let ?c = "udpChecksum src dst (udp_datagram sp dp p 0)"
  have sum: "unat (pseudo_sum src dst (udp_datagram sp dp p c)) =
      nat_sum src + nat_sum dst + 17 + (8 + length p) + nat_sum (udp_datagram sp dp p c)" for c
    using assms by (simp add: unat_pseudo udp_datagram_simps(1))
  have c: "?c = (let c = NOT (ucast (fold_carry ?s)) in if c = 0 then 0xffff else c)"
    by (simp add: udpChecksum_def pseudo_sum_def)
  have "unat (NOT (ucast (fold_carry ?s) :: 16 word)) = 65535 - unat (fold_carry ?s)"
    by (simp add: unat_not16 unat_ucast_fold)
  then show "unat (fold_carry ?s) + unat ?c = 65535 \<or> fold_carry ?s = 0xffff \<and> unat ?c = 65535"
    using fold_carry_spec[of ?s] unfolding c Let_def
    by (cases "NOT (ucast (fold_carry ?s)) = (0 :: 16 word)") (simp_all add: word_unat_eq_iff)
  show "unat (pseudo_sum src dst (udp_datagram sp dp p ?c)) = unat ?s + unat ?c"
    by (simp add: sum udp_datagram_simps(2)[of sp dp p ?c])
  show "0 < unat (pseudo_sum src dst (udp_datagram sp dp p ?c))" by (simp add: sum)
qed

section \<open>Round trip\<close>

lemma parse_build:
  assumes "length src = 4" "length dst = 4" "length p \<le> 65527"
  shows "parseUDP4 (buildUDP4 src dst sp dp p) =
    Some \<lparr>u_Src = src, u_Dst = dst, u_SrcPort = sp, u_DstPort = dp, u_Payload = p\<rparr>"
proof -
  obtain a b c d where src: "src = [a, b, c, d]" using assms(1) by (auto simp: length_Suc_conv numeral_eq_Suc)
  obtain e f g h where dst: "dst = [e, f, g, h]" using assms(2) by (auto simp: length_Suc_conv numeral_eq_Suc)
  have "unat (word_of_nat (8 + length p) :: 16 word) = 8 + length p"
  proof -
    have "take_bit 16 (8 + length p) = 8 + length p" using assms(3) by (intro take_bit_nat_eq_self) simp
    then show ?thesis by (simp only: unsigned_of_nat of_nat_id len_num1 len_bit0) simp
  qed
  then show ?thesis
    by (simp add: buildUDP4_def Let_def ip_header_def udp_datagram_def be16_def src dst parseUDP4_def u16_at_def
        get_be16_be16 del: of_nat_add)
qed

section \<open>Properties\<close>



end
