(* ===== verification/Overlay.thy ===== *)
theory Overlay
  imports Link Packet4 "HOL-Library.AList"
begin

text \<open>
  \<open>overlay.go\<close>: the packet datapath of the virtual LAN. A canonical dotted IPv4 string is its
  four bytes, so a route whose key is no such string (it could never match a packet) is left
  out. Peers, connections and streams are type parameters; what the host answers (its
  connections, whether a datagram, a dial or a write succeeds) is an argument.
\<close>

section \<open>Frames\<close>

definition ipv4Dst :: "bytes \<Rightarrow> ip4 option" where
  "ipv4Dst pkt = (if length pkt < 20 \<or> drop_bit 4 (pkt ! 0) \<noteq> 4 then None else Some (take 4 (drop 16 pkt)))"

definition writeFrame :: "bytes \<Rightarrow> bytes option" where
  "writeFrame pkt = (if length pkt > 0xffff then None else Some (be16 (word_of_nat (length pkt)) @ pkt))"

definition readFrame :: "bytes \<Rightarrow> (bytes \<times> bytes) option" where
  "readFrame b =
     (case b of
        h1 # h2 # r \<Rightarrow>
          (let n = unat (get_be16 h1 h2) in if length r < n then None else Some (take n r, drop n r))
      | _ \<Rightarrow> None)"

lemma unat_of_length: "n \<le> 65535 \<Longrightarrow> unat (word_of_nat n :: 16 word) = n"
proof -
  assume "n \<le> 65535"
  then have "take_bit 16 n = n" by (intro take_bit_nat_eq_self) simp
  then show ?thesis by (simp add: unsigned_of_nat)
qed

interpretation frame: codec "\<lambda>p. the (writeFrame p)" readFrame "\<lambda>p. length p \<le> 65535"
proof
  fix x r :: bytes assume "length x \<le> 65535"
  then show "readFrame (the (writeFrame x) @ r) = Some (x, r)"
    by (simp add: writeFrame_def readFrame_def be16_def get_be16_be16 unat_of_length)
qed

section \<open>Configuration and routing\<close>

record 'p overlay_routes =
  ov_localVIP :: bytes
  ov_routes :: "(ip4 \<times> 'p) list"      \<comment> \<open>a map; its order is that of the iteration\<close>
  ov_bcast :: "ip4 option"
  ov_subnet :: "(ip4 \<times> ip4) option"  \<comment> \<open>network and mask\<close>
  ov_excluded :: "'p set"

text \<open>
  \<open>configure\<close>: \<open>decode\<close> is \<open>peer.Decode\<close>, \<open>subnet\<close> what \<open>net.ParseCIDR\<close> makes of the string. The
  error of a bad peer id leaves the service as it was.
\<close>

fun decode_routes :: "('s \<Rightarrow> 'p option) \<Rightarrow> (ip4 \<times> 's) list \<Rightarrow> (ip4 \<times> 'p) list option" where
  "decode_routes decode [] = Some []"
| "decode_routes decode ((vip, s) # r) =
     (case decode s of None \<Rightarrow> None
      | Some p \<Rightarrow> (case decode_routes decode r of None \<Rightarrow> None | Some rs \<Rightarrow> Some ((vip, p) # rs)))"

definition directed_bcast :: "ip4 \<Rightarrow> ip4 \<Rightarrow> ip4" where
  "directed_bcast ip msk = map2 (\<lambda>a m. a OR NOT m) ip msk"

definition ov_configure ::
    "('s \<Rightarrow> 'p option) \<Rightarrow> bytes \<Rightarrow> (ip4 \<times> ip4) option \<Rightarrow> (ip4 \<times> 's) list \<Rightarrow> 'p overlay_routes \<Rightarrow> 'p overlay_routes option" where
  "ov_configure decode vip subnet peerByVIP o' =
     (case decode_routes decode peerByVIP of None \<Rightarrow> None
      | Some rs \<Rightarrow> Some (o'\<lparr>ov_localVIP := vip, ov_routes := rs,
          ov_bcast := map_option (\<lambda>(ip, m). directed_bcast ip m) subnet, ov_subnet := subnet\<rparr>))"

definition setExcluded :: "'p set \<Rightarrow> 'p overlay_routes \<Rightarrow> 'p overlay_routes" where
  "setExcluded ps o' = o'\<lparr>ov_excluded := ps\<rparr>"

definition isFanout :: "'p overlay_routes \<Rightarrow> ip4 \<Rightarrow> bool" where
  "isFanout o' dst \<longleftrightarrow> dst = [255, 255, 255, 255] \<or> ov_bcast o' = Some dst \<or> 224 \<le> dst ! 0 \<and> dst ! 0 \<le> 239"

definition subnet_contains :: "ip4 \<times> ip4 \<Rightarrow> ip4 \<Rightarrow> bool" where
  "subnet_contains n dst = (map2 (AND) (fst n) (snd n) = map2 (AND) dst (snd n))"

definition routesContain :: "(ip4 \<times> 'p) list \<Rightarrow> 'p \<Rightarrow> bool" where
  "routesContain rs p \<longleftrightarrow> list_ex (\<lambda>(vip, q). q = p) rs"

text \<open>What \<open>handleOutbound\<close> does with one packet; \<open>gw\<close>, \<open>relay\<close>: the plane is up.\<close>

datatype 'p plan = ForwardTo 'p bytes | ReflectOut udp4 | InjectNAT bytes

definition handleOutbound :: "bool \<Rightarrow> bool \<Rightarrow> bytes \<Rightarrow> 'p overlay_routes \<Rightarrow> 'p plan list" where
  "handleOutbound gw relay pkt o' =
     (case ipv4Dst pkt of None \<Rightarrow> []
      | Some dst \<Rightarrow>
          if isFanout o' dst then
            map (\<lambda>p. ForwardTo p pkt) (filter (\<lambda>p. p \<notin> ov_excluded o') (map snd (ov_routes o'))) @
            (if relay then (case parseUDP4 pkt of None \<Rightarrow> [] | Some u \<Rightarrow> [ReflectOut u]) else [])
          else
            (case map_of (ov_routes o') dst of
               Some p \<Rightarrow> if p \<notin> ov_excluded o' then [ForwardTo p pkt]
                         else if gw \<and> (case ov_subnet o' of None \<Rightarrow> True | Some n \<Rightarrow> \<not> subnet_contains n dst)
                         then [InjectNAT pkt] else []
             | None \<Rightarrow> if gw \<and> (case ov_subnet o' of None \<Rightarrow> True | Some n \<Rightarrow> \<not> subnet_contains n dst)
                       then [InjectNAT pkt] else []))"

section \<open>The datagram fast path\<close>

datatype dg_result = DgSent | DgTooLarge | DgError

text \<open>
  \<open>sendDatagram\<close>: the connection that carried the packet, if any. \<open>conns\<close> are the peer's
  connections, \<open>quic\<close> says which unwrap to a direct QUIC one, \<open>dg\<close> what \<open>SendDatagram\<close> answers;
  no maintainer is \<open>None\<close>.
\<close>

definition sendDatagram ::
    "bool \<Rightarrow> 'c list \<Rightarrow> ('c \<Rightarrow> bool) \<Rightarrow> ('c \<Rightarrow> dg_result) \<Rightarrow> 'p \<Rightarrow> ('p, 'c) linkMaintainer option
      \<Rightarrow> 'c option \<times> ('p, 'c) linkMaintainer option" where
  "sendDatagram force conns quic dg p lm =
     (if force then (None, lm)
      else (let qc = (case lm of
                None \<Rightarrow> List.find quic conns
              | Some m \<Rightarrow> (case trustedConnFor p m of
                    (Some c, True) \<Rightarrow> (if c \<in> set conns \<and> quic c then Some c else None)
                  | _ \<Rightarrow> None))
            in case qc of None \<Rightarrow> (None, lm)
               | Some c \<Rightarrow> (case dg c of
                     DgSent \<Rightarrow> (Some c, map_option (noteTx p) lm)
                   | DgTooLarge \<Rightarrow> (None, lm)
                   | DgError \<Rightarrow> (None, map_option (suspect p) lm))))"

section \<open>The stream fallback\<close>

text \<open>The per-peer queue of 64: a full one loses its oldest packet.\<close>

definition sendQueueCap :: nat where "sendQueueCap = 64"

definition enqueueStream :: "bytes \<Rightarrow> bytes list \<Rightarrow> bytes list" where
  "enqueueStream pkt q = (if length q < sendQueueCap then q @ [pkt] else tl q @ [pkt])"

definition forward_packet ::
    "bool \<Rightarrow> 'c list \<Rightarrow> ('c \<Rightarrow> bool) \<Rightarrow> ('c \<Rightarrow> dg_result) \<Rightarrow> 'p \<Rightarrow> bytes
      \<Rightarrow> ('p, 'c) linkMaintainer option \<times> ('p \<Rightarrow> bytes list) \<Rightarrow> ('p, 'c) linkMaintainer option \<times> ('p \<Rightarrow> bytes list)" where
  "forward_packet force conns quic dg p pkt s =
     (let (c, lm) = sendDatagram force conns quic dg p (fst s) in
      (lm, if c = None then (snd s)(p := enqueueStream pkt (snd s p)) else snd s))"

text \<open>
  \<open>sendStream\<close>: the cached stream, or one opened now (\<open>opened\<close>: what the dial and the open
  give); \<open>raced\<close> is a stream another goroutine cached meanwhile, which is kept and ours reset.
\<close>

definition sendStream ::
    "'s option \<Rightarrow> 's option \<Rightarrow> 'p \<Rightarrow> ('p \<rightharpoonup> 's) \<Rightarrow> 's option \<times> 's list \<times> ('p \<rightharpoonup> 's)" where
  "sendStream opened raced p sends =
     (case sends p of Some s \<Rightarrow> (Some s, [], sends)
      | None \<Rightarrow>
          (case opened of None \<Rightarrow> (None, [], case raced of None \<Rightarrow> sends | Some r \<Rightarrow> sends(p \<mapsto> r))
           | Some s \<Rightarrow> (case raced of Some r \<Rightarrow> (Some r, [s], sends(p \<mapsto> r)) | None \<Rightarrow> (Some s, [], sends(p \<mapsto> s)))))"

definition dropStream :: "'p \<Rightarrow> 's \<Rightarrow> ('p \<rightharpoonup> 's) \<Rightarrow> ('p \<rightharpoonup> 's)" where
  "dropStream p s sends = (if sends p = Some s then sends(p := None) else sends)"

text \<open>
  \<open>forwardStream\<close>: one retry on a fresh stream; \<open>open1\<close>, \<open>open2\<close> are the arguments of \<open>sendStream\<close>.
  \<open>wr\<close>: the write of the frame succeeds; the
  result is the streams it wrote the frame to in full, and whether it succeeded.
\<close>

definition forwardStream ::
    "'s option \<times> 's option \<Rightarrow> 's option \<times> 's option \<Rightarrow> ('s \<Rightarrow> bool) \<Rightarrow> 'p \<Rightarrow> bytes \<Rightarrow> ('p \<rightharpoonup> 's) \<Rightarrow> (('s \<times> bytes) list \<times> bool) \<times> ('p \<rightharpoonup> 's)" where
  "forwardStream open1 open2 wr p pkt sends =
     (let write = (\<lambda>s. case writeFrame pkt of None \<Rightarrow> None | Some b \<Rightarrow> if wr s then Some (s, b) else None) in
      case sendStream (fst open1) (snd open1) p sends of
        (None, _, sends1) \<Rightarrow> (([], False), sends1)
      | (Some s, _, sends1) \<Rightarrow>
          (case write s of
             Some w \<Rightarrow> (([w], True), sends1)
           | None \<Rightarrow>
               (case sendStream (fst open2) (snd open2) p (dropStream p s sends1) of
                  (None, _, sends2) \<Rightarrow> (([], False), sends2)
                | (Some s2, _, sends2) \<Rightarrow>
                    (case write s2 of Some w \<Rightarrow> (([w], True), sends2) | None \<Rightarrow> (([], False), sends2)))))"

section \<open>Receiving\<close>

text \<open>What the handlers read of the service while they run: the routes, the friends, a link.\<close>

record ('p, 'c) rx_view =
  rx_routes :: "(ip4 \<times> 'p) list"
  rx_linkm :: "('p, 'c) linkMaintainer option"
  rx_link :: bool

definition authorized :: "'p \<Rightarrow> ('p, 'c) rx_view \<Rightarrow> bool" where
  "authorized p v \<longleftrightarrow> routesContain (rx_routes v) p \<or> (case rx_linkm v of None \<Rightarrow> False | Some m \<Rightarrow> lm_has p m)"

text \<open>
  \<open>handleInbound\<close>: each frame comes with the service as it is when the frame has been read and
  whether the write to the link succeeds. The result is what is written to the link.
\<close>

fun inbound_frames :: "'p \<Rightarrow> (bytes \<times> ('p, 'c) rx_view \<times> bool) list \<Rightarrow> bytes list" where
  "inbound_frames p [] = []"
| "inbound_frames p ((pkt, v, ok) # r) =
     (if \<not> authorized p v then []
      else if ipv4Dst pkt = None then inbound_frames p r
      else if \<not> rx_link v then inbound_frames p r
      else if ok then pkt # inbound_frames p r else [])"

definition handleInbound :: "'p \<Rightarrow> ('p, 'c) rx_view \<Rightarrow> (bytes \<times> ('p, 'c) rx_view \<times> bool) list \<Rightarrow> bytes list" where
  "handleInbound p v frames = (if \<not> authorized p v then [] else inbound_frames p frames)"

text \<open>\<open>maybeStartDatagramLoop\<close>: \<open>running\<close> are the connections with a loop.\<close>

definition maybeStartDatagramLoop ::
    "'c \<Rightarrow> 'p \<Rightarrow> bool \<Rightarrow> ('p, 'c) rx_view \<Rightarrow> 'c set \<Rightarrow> bool \<times> 'c set" where
  "maybeStartDatagramLoop c p quic v running =
     (if \<not> authorized p v then (False, running)
      else if \<not> quic then (False, running)
      else if c \<in> running then (False, running)
      else (True, insert c running))"

text \<open>
  One turn of \<open>datagramRecvLoop\<close>: what is written to the link, the reply datagram, and the
  maintainer after it.
\<close>

definition recv_datagram ::
    "nanos \<Rightarrow> 'c \<Rightarrow> 'p \<Rightarrow> bytes \<Rightarrow> ('p, 'c) rx_view
      \<Rightarrow> bytes list \<times> bytes option \<times> ('p, 'c) linkMaintainer option" where
  "recv_datagram now c p pkt v =
     (if isHeartbeat pkt then
        (case rx_linkm v of None \<Rightarrow> ([], None, None)
         | Some m \<Rightarrow> (let (r, m') = handleHeartbeat now p c pkt m in ([], r, Some m')))
      else if ipv4Dst pkt = None then ([], None, rx_linkm v)
      else (if rx_link v then [pkt] else [], None, map_option (noteRx p) (rx_linkm v)))"

section \<open>The link's life\<close>

text \<open>
  \<open>attach\<close>, \<open>detach\<close> and the end of \<open>readLoop\<close>. Links, gateways and reflectors are numbered as
  they are made; \<open>tn_open\<close> are those not closed. A gateway or reflector is made outside the
  lock (\<open>tn_flight\<close>, with the link it is for) and installed only if the link still is the one.
\<close>

record tun_sys =
  tn_running :: bool
  tn_link :: "nat option"
  tn_gw :: "nat option"
  tn_relay :: "nat option"
  tn_open :: "nat set"
  tn_flight :: "(nat \<times> nat) set"
  tn_next :: nat

definition opt_set :: "'a option \<Rightarrow> 'a set" where
  "opt_set x = (case x of None \<Rightarrow> {} | Some a \<Rightarrow> {a})"

definition tun_detach :: "tun_sys \<Rightarrow> tun_sys" where
  "tun_detach s = s\<lparr>tn_running := False, tn_link := None, tn_gw := None, tn_relay := None,
     tn_open := tn_open s - (opt_set (tn_link s) \<union> opt_set (tn_gw s) \<union> opt_set (tn_relay s))\<rparr>"

definition tun_attach :: "tun_sys \<Rightarrow> tun_sys" where
  "tun_attach s0 =
     (let s = (if tn_running s0 \<or> tn_link s0 \<noteq> None \<or> tn_gw s0 \<noteq> None \<or> tn_relay s0 \<noteq> None
               then tun_detach s0 else s0) in
      s\<lparr>tn_running := True, tn_link := Some (tn_next s), tn_open := insert (tn_next s) (tn_open s),
        tn_next := tn_next s + 1\<rparr>)"

text \<open>The creation of a plane for the link \<open>l\<close>, and its conditional install.\<close>

definition plane_make :: "nat \<Rightarrow> tun_sys \<Rightarrow> tun_sys" where
  "plane_make l s = s\<lparr>tn_open := insert (tn_next s) (tn_open s), tn_flight := insert (l, tn_next s) (tn_flight s),
     tn_next := tn_next s + 1\<rparr>"

definition gw_install :: "nat \<times> nat \<Rightarrow> tun_sys \<Rightarrow> tun_sys" where
  "gw_install lx s =
     (if tn_running s \<and> tn_link s = Some (fst lx)
      then s\<lparr>tn_gw := Some (snd lx), tn_flight := tn_flight s - {lx}\<rparr>
      else s\<lparr>tn_open := tn_open s - {snd lx}, tn_flight := tn_flight s - {lx}\<rparr>)"

definition relay_install :: "nat \<times> nat \<Rightarrow> tun_sys \<Rightarrow> tun_sys" where
  "relay_install lx s =
     (if tn_running s \<and> tn_link s = Some (fst lx)
      then s\<lparr>tn_relay := Some (snd lx), tn_flight := tn_flight s - {lx}\<rparr>
      else s\<lparr>tn_open := tn_open s - {snd lx}, tn_flight := tn_flight s - {lx}\<rparr>)"

definition readLoop_exit :: "nat \<Rightarrow> tun_sys \<Rightarrow> tun_sys" where
  "readLoop_exit l s = (if tn_running s \<and> tn_link s = Some l then s\<lparr>tn_running := False\<rparr> else s)"

text \<open>An attach makes each plane at most once for its link, so an install finds none there.\<close>

inductive tun_step :: "tun_sys \<Rightarrow> tun_sys \<Rightarrow> bool" where
  tn_attach: "tun_step s (tun_attach s)"
| tn_detach: "tun_step s (tun_detach s)"
| tn_make: "tun_step s (plane_make l s)"
| tn_gw: "lx \<in> tn_flight s \<Longrightarrow> tn_gw s = None \<Longrightarrow> tun_step s (gw_install lx s)"
| tn_relay: "lx \<in> tn_flight s \<Longrightarrow> tn_relay s = None \<Longrightarrow> tun_step s (relay_install lx s)"
| tn_dead: "tun_step s (readLoop_exit l s)"

inductive_cases tun_stepE: "tun_step s t"

definition tun_init :: "tun_sys \<Rightarrow> bool" where
  "tun_init s \<longleftrightarrow> tn_link s = None \<and> tn_gw s = None \<and> tn_relay s = None \<and> tn_open s = {} \<and> tn_flight s = {}"

definition tun_inv :: "tun_sys \<Rightarrow> bool" where
  "tun_inv s \<longleftrightarrow>
     tn_open s \<subseteq> opt_set (tn_link s) \<union> opt_set (tn_gw s) \<union> opt_set (tn_relay s) \<union> snd ` tn_flight s"

lemma tun_inv_detach: "tun_inv s \<Longrightarrow> tun_inv (tun_detach s)"
  by (auto simp: tun_inv_def tun_detach_def opt_set_def split: option.splits)

lemma tun_inv_step: "tun_inv s \<Longrightarrow> tun_step s t \<Longrightarrow> tun_inv t"
proof (erule tun_stepE, goal_cases)
  case 1
  let ?s = "if tn_running s \<or> tn_link s \<noteq> None \<or> tn_gw s \<noteq> None \<or> tn_relay s \<noteq> None then tun_detach s else s"
  have inv: "tun_inv ?s" using 1 by (simp add: tun_inv_detach)
  have "tn_link ?s = None" by (simp add: tun_detach_def)
  with inv 1 show ?thesis by (auto simp: tun_attach_def Let_def tun_inv_def opt_set_def)
next
  case 2 then show ?thesis by (simp add: tun_inv_detach)
qed (auto simp: tun_inv_def plane_make_def gw_install_def relay_install_def readLoop_exit_def opt_set_def split: if_splits)

interpretation tun: step_invariant tun_init tun_step tun_inv
  by unfold_locales (simp add: tun_init_def tun_inv_def, fact tun_inv_step)

section \<open>Properties\<close>

text \<open>
  Nothing leaks. In every order of attaches, detaches, deaths of the packet loop and late
  installs, every link, gateway and reflector that is still open is one the service holds, or
  one a running attach is about to install or close; so a detach, once the attaches under way
  have finished, leaves nothing open.
\<close>

theorem overlay_no_leak:
  assumes "reachable tun_init tun_step s"
  shows "tn_open s \<subseteq> opt_set (tn_link s) \<union> opt_set (tn_gw s) \<union> opt_set (tn_relay s) \<union> snd ` tn_flight s \<and>
    tn_open (tun_detach s) \<subseteq> snd ` tn_flight s"
  using tun.reachable_inv[OF assms] by (auto simp: tun_inv_def tun_detach_def)

definition tun_ex :: tun_sys where
  "tun_ex = \<lparr>tn_running = False, tn_link = None, tn_gw = None, tn_relay = None, tn_open = {}, tn_flight = {}, tn_next = 0\<rparr>"

theorem overlay_no_leak_witness: "tn_open (tun_detach (readLoop_exit 0 (tun_attach tun_ex))) = {}"
proof -
  have 0: "reachable tun_init tun_step tun_ex" by (rule reach_init) (simp add: tun_init_def tun_ex_def)
  have 1: "reachable tun_init tun_step (tun_attach tun_ex)" by (rule reach_step[OF 0 tn_attach])
  have "reachable tun_init tun_step (readLoop_exit 0 (tun_attach tun_ex))" by (rule reach_step[OF 1 tn_dead])
  from overlay_no_leak[OF this] show ?thesis
    by (simp add: readLoop_exit_def tun_attach_def tun_ex_def)
qed

lemma directed_bcast_ex: "directed_bcast [10, 66, 0, 0] [255, 255, 0, 0] = [10, 66, 255, 255]"
  by (simp add: directed_bcast_def)

text \<open>
  Routing. A packet goes to a peer only unchanged, and only if the peer is not excluded and
  either owns the destination or the destination is a broadcast or multicast address; in the
  latter case every peer that is routed and not excluded gets it. The NAT sees only packets
  for addresses outside the LAN, never a broadcast. Anything but IPv4 goes nowhere.
\<close>

theorem overlay_routing:
  "(ForwardTo p q \<in> set (handleOutbound gw relay pkt o') \<longleftrightarrow>
      q = pkt \<and> p \<notin> ov_excluded o' \<and>
      (\<exists>dst. ipv4Dst pkt = Some dst \<and>
        (if isFanout o' dst then p \<in> snd ` set (ov_routes o') else map_of (ov_routes o') dst = Some p))) \<and>
   (InjectNAT q \<in> set (handleOutbound gw relay pkt o') \<longrightarrow>
      q = pkt \<and> gw \<and> (\<exists>dst. ipv4Dst pkt = Some dst \<and> \<not> isFanout o' dst \<and>
        (case ov_subnet o' of None \<Rightarrow> True | Some n \<Rightarrow> \<not> subnet_contains n dst))) \<and>
   (ipv4Dst pkt = None \<longrightarrow> handleOutbound gw relay pkt o' = [])"
proof (cases "ipv4Dst pkt")
  case (Some dst)
  show ?thesis
  proof (cases "isFanout o' dst")
    case True
    have plan: "handleOutbound gw relay pkt o' =
        map (\<lambda>p. ForwardTo p pkt) (filter (\<lambda>p. p \<notin> ov_excluded o') (map snd (ov_routes o'))) @
        (if relay then (case parseUDP4 pkt of None \<Rightarrow> [] | Some u \<Rightarrow> [ReflectOut u]) else [])"
      using Some True by (simp add: handleOutbound_def)
    have set: "set (handleOutbound gw relay pkt o') =
        (\<lambda>p. ForwardTo p pkt) ` {p \<in> snd ` set (ov_routes o'). p \<notin> ov_excluded o'} \<union>
        (if relay then ReflectOut ` set_option (parseUDP4 pkt) else {})"
      unfolding plan by (cases "parseUDP4 pkt"; cases relay) simp_all
    have "ForwardTo p q \<notin> (if relay then ReflectOut ` set_option (parseUDP4 pkt) else {})"
      "InjectNAT q \<notin> (if relay then ReflectOut ` set_option (parseUDP4 pkt) else {})"
      by (cases "parseUDP4 pkt"; simp)+
    then show ?thesis using Some True by (simp add: set image_iff conj_ac)
  next
    case False
    with Some show ?thesis
      by (cases "map_of (ov_routes o') dst"; cases "ov_subnet o'") (auto simp: handleOutbound_def)
  qed
qed (simp add: handleOutbound_def)

definition ov_ex :: "nat overlay_routes" where
  "ov_ex = \<lparr>ov_localVIP = [], ov_routes = [([10, 66, 0, 2], 7), ([10, 66, 0, 3], 9)], ov_bcast = Some [10, 66, 255, 255],
     ov_subnet = Some ([10, 66, 0, 0], [255, 255, 0, 0]), ov_excluded = {9}\<rparr>"

definition pkt_ex :: bytes where
  "pkt_ex = [0x45, 0, 0, 20, 0, 0, 0, 0, 64, 17, 0, 0, 10, 66, 0, 1, 10, 66, 255, 255]"

theorem overlay_routing_witness: "ForwardTo 7 pkt_ex \<in> set (handleOutbound True True pkt_ex ov_ex)"
proof -
  have dst: "ipv4Dst pkt_ex = Some [10, 66, 255, 255]" by (simp add: ipv4Dst_def pkt_ex_def)
  have "isFanout ov_ex [10, 66, 255, 255]" by (simp add: isFanout_def ov_ex_def)
  with dst show ?thesis
    by (intro overlay_routing[THEN conjunct1, THEN iffD2]) (simp add: ov_ex_def)
qed

text \<open>
  No packet is entrusted to an unverified path. With a maintainer, a packet for a peer
  either travels as a datagram on the one connection the maintainer trusts for it, which is
  direct and still there, or it is queued last for the reliable stream; a failed datagram
  send closes the gate, so the next packet takes the stream.
\<close>

theorem overlay_forward_safe:
  assumes "forward_packet force conns quic dg p pkt (Some m, qs) = (lm, qs')"
  shows "(\<exists>c. fst (sendDatagram force conns quic dg p (Some m)) = Some c \<and> trustedConnFor p m = (Some c, True) \<and>
            c \<in> set conns \<and> quic c \<and> dg c = DgSent \<and> qs' = qs) \<or>
         (qs' p \<noteq> [] \<and> last (qs' p) = pkt \<and>
           (\<forall>c. trustedConnFor p m = (Some c, True) \<and> c \<in> set conns \<and> quic c \<and> \<not> force \<and> dg c = DgError \<longrightarrow>
              (\<exists>m'. lm = Some m' \<and> \<not> datagramsTrusted p m')))"
proof -
  have q: "enqueueStream pkt q \<noteq> []" "last (enqueueStream pkt q) = pkt" for q by (simp_all add: enqueueStream_def)
  have sus: "\<not> datagramsTrusted p (suspect p m)"
    by (auto simp: datagramsTrusted_def suspect_def update_link_def linkBeatMiss_def split: option.splits)
  show ?thesis
    using assms q sus
    by (auto simp: forward_packet_def sendDatagram_def Let_def split: if_splits option.splits prod.splits
        bool.splits dg_result.splits)
qed

theorem overlay_forward_safe_witness:
  "(snd (forward_packet False [9] (\<lambda>_. True) (\<lambda>_. DgSent) 3 [1] (Some lm_ex, \<lambda>_. []))) 3 = [[1]]"
proof -
  have "trustedConnFor 3 lm_ex = (Some 8, True)"
    by (simp add: trustedConnFor_def lm_ex_link note_pong_def linkBeatMiss_def)
  then have f: "forward_packet False [9] (\<lambda>_. True) (\<lambda>_. DgSent) 3 [1] (Some lm_ex, \<lambda>_. []) = (Some lm_ex, (\<lambda>_. [])(3 := [[1]]))"
    by (simp add: forward_packet_def sendDatagram_def enqueueStream_def sendQueueCap_def)
  from overlay_forward_safe[OF f] show ?thesis by (simp add: f sendDatagram_def \<open>trustedConnFor 3 lm_ex = (Some 8, True)\<close>)
qed

text \<open>The queue keeps the freshest 64 packets, in order.\<close>

lemma enqueue_last: "length q \<le> sendQueueCap \<Longrightarrow>
   enqueueStream pkt q = drop (length q + 1 - sendQueueCap) (q @ [pkt])"
  by (cases q) (auto simp: enqueueStream_def sendQueueCap_def)

lemma drop_append_le: "j \<le> length xs \<Longrightarrow> drop j (xs @ ys) = drop j xs @ ys"
  by simp

lemma enqueue_all:
  "length q \<le> sendQueueCap \<Longrightarrow> fold enqueueStream pkts q = drop (length q + length pkts - sendQueueCap) (q @ pkts)"
proof (induction pkts arbitrary: q)
  case (Cons pkt pkts)
  define j where "j = length q + 1 - sendQueueCap"
  define q' where "q' = enqueueStream pkt q"
  have q': "q' = drop j (q @ [pkt])" unfolding q'_def j_def by (rule enqueue_last[OF Cons.prems])
  have j: "j \<le> length (q @ [pkt])" by (simp add: j_def)
  have len: "length q' = length q + 1 - j" by (simp add: q')
  then have "length q' \<le> sendQueueCap" by (simp add: j_def)
  then have "fold enqueueStream pkts q' = drop (length q' + length pkts - sendQueueCap) (q' @ pkts)" by (rule Cons.IH)
  also have "q' @ pkts = drop j (q @ pkt # pkts)"
    unfolding q' using drop_append_le[OF j, of pkts] by (simp only: append_assoc append_Cons append_Nil)
  also have "drop (length q' + length pkts - sendQueueCap) (drop j (q @ pkt # pkts)) =
      drop (length q' + length pkts - sendQueueCap + j) (q @ pkt # pkts)" by (rule drop_drop)
  also have "length q' + length pkts - sendQueueCap + j = length q + length (pkt # pkts) - sendQueueCap"
    using len Cons.prems by (auto simp: j_def sendQueueCap_def)
  finally show ?case by (simp add: q'_def)
qed simp



text \<open>
  The datagram loop has no such check: once started for a connection, it injects the packets
  of a peer that is no friend any more.
\<close>

lemma datagrams_not_rechecked:
  "\<not> isHeartbeat pkt \<Longrightarrow> ipv4Dst pkt \<noteq> None \<Longrightarrow> \<not> authorized p v \<Longrightarrow> rx_link v \<Longrightarrow>
   fst (recv_datagram now c p pkt v) = [pkt]"
  by (simp add: recv_datagram_def)

end
