(* ===== verification/FriendLan.thy ===== *)
theory FriendLan
  imports Social Overlay "HOL-Library.Char_ord" "HOL-Library.List_Lexorder"
begin

text \<open>
  The host-less LAN of friends (\<open>friendlan.go\<close>): every peer's address is a function of its peer id,
  the routing table is the accepted friends. A peer id is a string; \<open>sha\<close> gives the first two bytes
  of SHA-256. A dotted address string is its four bytes, as in \<open>overlay.go\<close>'s theory, and \<open>dotted\<close>
  prints it for the launch variables.
\<close>

definition lanSubnet :: "ip4 \<times> ip4" where
  "lanSubnet = ([10, 66, 0, 0], [255, 255, 0, 0])"

definition lanVIP :: "('p \<Rightarrow> byte \<times> byte) \<Rightarrow> 'p \<Rightarrow> ip4" where
  "lanVIP sha p =
     (let (hi, lo) = sha p;
          lo = (if hi = 0 \<and> lo = 0 then 1 else lo);
          lo = (if hi = 255 \<and> lo = 255 then 254 else lo) in
      [10, 66, hi, lo])"

text \<open>The loop over the address book: a later friend of the same address takes the entry over.\<close>

definition lan_entry :: "('p \<Rightarrow> byte \<times> byte) \<Rightarrow> 'p \<Rightarrow> 'p set \<Rightarrow> 'p contact \<Rightarrow> (ip4 \<times> 'p) list \<Rightarrow> (ip4 \<times> 'p) list" where
  "lan_entry sha self excluded c m =
     (if ct_state c \<noteq> stAccepted \<or> ct_peer c = self \<or> ct_peer c \<in> excluded then m
      else AList.update (lanVIP sha (ct_peer c)) (ct_peer c) m)"

definition lanConfigFrom :: "('p \<Rightarrow> byte \<times> byte) \<Rightarrow> 'p \<Rightarrow> 'p socialState option \<Rightarrow> 'p set
    \<Rightarrow> (ip4 \<times> (ip4 \<times> ip4) \<times> (ip4 \<times> 'p) list) option" where
  "lanConfigFrom sha self social excluded =
     (case social of None \<Rightarrow> None
      | Some s \<Rightarrow> Some (lanVIP sha self, lanSubnet, fold (lan_entry sha self excluded) (so_list s) []))"

definition shortPeer :: "string \<Rightarrow> string" where
  "shortPeer p = (if length p > 10 then drop (length p - 8) p else p)"

definition to_bytes :: "string \<Rightarrow> bytes" where
  "to_bytes = map (\<lambda>c. of_nat (of_char c))"

definition dotted :: "ip4 \<Rightarrow> string" where
  "dotted ip = decimal (unat (ip ! 0)) @ ''.'' @ decimal (unat (ip ! 1)) @ ''.'' @ decimal (unat (ip ! 2)) @ ''.''
     @ decimal (unat (ip ! 3))"

fun join_commas :: "bytes list \<Rightarrow> bytes" where
  "join_commas [] = []"
| "join_commas [x] = x"
| "join_commas (x # xs) = x @ [0x2c] @ join_commas xs"

record launch_vars =
  lv_self_vip :: ip4
  lv_self_name :: bytes
  lv_subnet :: "ip4 \<times> ip4"
  lv_vips :: "ip4 list"
  lv_names :: "bytes list"

definition nick_of :: "string socialState \<Rightarrow> string \<Rightarrow> bytes" where
  "nick_of s p = (case find (\<lambda>c. ct_peer c = p \<and> ct_nick c \<noteq> []) (rev (so_list s)) of
     None \<Rightarrow> to_bytes (shortPeer p) | Some c \<Rightarrow> ct_nick c)"

definition vip_of :: "(ip4 \<times> string) list \<Rightarrow> string \<Rightarrow> ip4" where
  "vip_of table p = (case find (\<lambda>(v, q). q = p) (rev table) of None \<Rightarrow> [] | Some (v, q) \<Rightarrow> v)"

definition lanLaunchVarsFrom :: "(string \<Rightarrow> byte \<times> byte) \<Rightarrow> string \<Rightarrow> string socialState option \<Rightarrow> string set
    \<Rightarrow> launch_vars option" where
  "lanLaunchVarsFrom sha self social excluded =
     (case lanConfigFrom sha self social excluded of None \<Rightarrow> None
      | Some (vip, subnet, table) \<Rightarrow>
          let pids = sort (map snd table); s = the social; nick = pf_nick (getProfile s) in
          Some \<lparr>lv_self_vip = vip,
            lv_self_name = (if nick = [] then to_bytes (''Player-'' @ shortPeer self) else nick),
            lv_subnet = subnet, lv_vips = map (vip_of table) pids, lv_names = map (nick_of s) pids\<rparr>)"

definition peer_vips_var :: "launch_vars \<Rightarrow> bytes" where
  "peer_vips_var v = join_commas (map (to_bytes \<circ> dotted) (lv_vips v))"

definition peer_names_var :: "launch_vars \<Rightarrow> bytes" where
  "peer_names_var v = join_commas (lv_names v)"

section \<open>The table\<close>

text \<open>Who is on our LAN.\<close>

definition lan_friends :: "'p \<Rightarrow> 'p set \<Rightarrow> 'p contact list \<Rightarrow> 'p set" where
  "lan_friends self excluded cs = {ct_peer c | c. c \<in> set cs \<and> ct_state c = stAccepted} - {self} - excluded"

lemma lan_friends_simps [simp]:
  "lan_friends self ex [] = {}"
  "lan_friends self ex (c # cs) =
     (if ct_state c \<noteq> stAccepted \<or> ct_peer c = self \<or> ct_peer c \<in> ex then lan_friends self ex cs
      else insert (ct_peer c) (lan_friends self ex cs))"
  by (auto simp: lan_friends_def)

lemma lan_friends_append: "lan_friends self ex (a @ b) = lan_friends self ex a \<union> lan_friends self ex b"
  by (auto simp: lan_friends_def)

lemma update_subset: "set (AList.update k v m) \<subseteq> insert (k, v) (set m)"
  by (induction m) auto

lemma fold_lan_snoc:
  "fold (lan_entry sha self ex) (cs @ [c]) [] = lan_entry sha self ex c (fold (lan_entry sha self ex) cs [])"
  by simp

lemma lan_table_distinct: "distinct (map fst (fold (lan_entry sha self ex) cs []))"
  by (induction cs rule: rev_induct) (simp_all add: lan_entry_def distinct_update)

lemma lan_table_entries:
  "(v, p) \<in> set (fold (lan_entry sha self ex) cs []) \<Longrightarrow> p \<in> lan_friends self ex cs \<and> v = lanVIP sha p"
proof (induction cs rule: rev_induct)
  case (snoc c cs)
  show ?case
  proof (cases "ct_state c \<noteq> stAccepted \<or> ct_peer c = self \<or> ct_peer c \<in> ex")
    case True
    then show ?thesis using snoc by (simp add: lan_entry_def lan_friends_append)
  next
    case False
    then have "lan_entry sha self ex c m = AList.update (lanVIP sha (ct_peer c)) (ct_peer c) m" for m
      by (auto simp: lan_entry_def)
    then have "(v, p) \<in> insert (lanVIP sha (ct_peer c), ct_peer c) (set (fold (lan_entry sha self ex) cs []))"
      using snoc.prems update_subset unfolding fold_lan_snoc by fastforce
    then show ?thesis using False snoc.IH by (auto simp: lan_friends_append)
  qed
qed simp

lemma lan_table_keys: "fst ` set (fold (lan_entry sha self ex) cs []) = lanVIP sha ` lan_friends self ex cs"
proof (induction cs rule: rev_induct)
  case (snoc c cs)
  show ?case
    unfolding fold_lan_snoc lan_friends_append image_Un snoc.IH[symmetric]
    by (simp add: lan_entry_def dom_update)
qed simp

lemma lanVIP_form: "\<exists>hi lo. lanVIP sha p = [10, 66, hi, lo] \<and> (hi, lo) \<noteq> (0, 0) \<and> (hi, lo) \<noteq> (255, 255)"
  by (cases "sha p") (auto simp: lanVIP_def Let_def)

lemma decode_routes_Some: "decode_routes Some t = Some t"
proof (induction t)
  case (Cons x t)
  then show ?case by (cases x) simp
qed simp

lemma lan_unique:
  assumes "p \<in> lan_friends self ex cs" "\<forall>q \<in> lan_friends self ex cs. lanVIP sha q = lanVIP sha p \<longrightarrow> q = p"
  shows "map_of (fold (lan_entry sha self ex) cs []) (lanVIP sha p) = Some p"
proof -
  let ?m = "fold (lan_entry sha self ex) cs []"
  have "lanVIP sha p \<in> fst ` set ?m" unfolding lan_table_keys using assms(1) by (rule imageI)
  then obtain q where q: "map_of ?m (lanVIP sha p) = Some q" by (metis domIff dom_map_of_conv_image_fst option.exhaust)
  from lan_table_entries[OF map_of_SomeD[OF q]] have "q \<in> lan_friends self ex cs \<and> lanVIP sha p = lanVIP sha q" .
  then show ?thesis using q assms(2) by auto
qed

lemma lan_not_fanout:
  "ov_bcast o' = Some (directed_bcast [10, 66, 0, 0] [255, 255, 0, 0]) \<Longrightarrow> \<not> isFanout o' (lanVIP sha p)"
  using lanVIP_form[of sha p] by (auto simp: isFanout_def directed_bcast_def)

text \<open>The friends' LAN needs no exchange: the table a node derives from its own address book
  routes exactly the addresses of its accepted friends that are not excluded, each to a friend of
  that address and never to itself; a friend's entry is the address that friend gives itself; no
  address is the network's or the broadcast's; and once the overlay is configured with it, a packet
  to the address a friend derived for itself goes to that friend and nowhere else, unless another
  friend's id hashes to the same address.\<close>

theorem friend_lan_routes:
  assumes "lanConfigFrom sha self (Some s) ex = Some (vip, subnet, table)"
    "ov_configure Some vip (Some subnet) table o' = Some o2"
    "p \<in> lan_friends self ex (so_list s)" "p \<notin> ov_excluded o'"
    "lanConfigFrom sha p peer_book ex' = Some (vip', subnet', table')"
    "\<forall>q \<in> lan_friends self ex (so_list s). lanVIP sha q = vip' \<longrightarrow> q = p"
    "ipv4Dst pkt = Some vip'"
  shows "handleOutbound gw relay pkt o2 = [ForwardTo p pkt] \<and> vip' \<notin> {[10, 66, 0, 0], [10, 66, 255, 255]}
    \<and> fst ` set table = lanVIP sha ` lan_friends self ex (so_list s)
    \<and> snd ` set table \<subseteq> lan_friends self ex (so_list s) \<and> self \<notin> snd ` set table"
proof -
  have t: "table = fold (lan_entry sha self ex) (so_list s) []" "subnet = ([10, 66, 0, 0], [255, 255, 0, 0])"
    using assms(1) by (simp_all add: lanConfigFrom_def lanSubnet_def)
  have v: "vip' = lanVIP sha p" using assms(5) by (auto simp: lanConfigFrom_def split: option.splits)
  have o2: "o2 = o'\<lparr>ov_localVIP := vip, ov_routes := table,
      ov_bcast := Some (directed_bcast [10, 66, 0, 0] [255, 255, 0, 0]), ov_subnet := Some subnet\<rparr>"
    using assms(2) t(2) by (simp add: ov_configure_def decode_routes_Some)
  have nf: "\<not> isFanout o2 vip'" unfolding v by (rule lan_not_fanout) (simp add: o2)
  have u: "\<forall>q \<in> lan_friends self ex (so_list s). lanVIP sha q = lanVIP sha p \<longrightarrow> q = p" using assms(6) unfolding v .
  have "ov_routes o2 = table" unfolding o2 by simp
  then have "map_of (ov_routes o2) vip' = Some p" using lan_unique[OF assms(3) u] unfolding v t(1) by simp
  moreover have "p \<notin> ov_excluded o2" using assms(4) o2 by simp
  ultimately have "handleOutbound gw relay pkt o2 = [ForwardTo p pkt]"
    using assms(7) nf by (simp add: handleOutbound_def)
  moreover have "vip' \<notin> {[10, 66, 0, 0], [10, 66, 255, 255]}" using lanVIP_form[of sha p] v by auto
  moreover have "fst ` set table = lanVIP sha ` lan_friends self ex (so_list s)" unfolding t(1) by (rule lan_table_keys)
  moreover have sub: "snd ` set table \<subseteq> lan_friends self ex (so_list s)" unfolding t(1) using lan_table_entries by force
  moreover have "self \<notin> snd ` set table" using sub by (auto simp: lan_friends_def)
  ultimately show ?thesis by blast
qed

definition lan_book :: "nat socialState" where
  "lan_book = \<lparr>so_self = \<lparr>pf_nick = [], pf_pic = []\<rparr>,
     so_contacts = [(3, (new_contact 0 3)\<lparr>ct_state := stAccepted\<rparr>), (5, new_contact 0 5)], so_file = None, so_writable = True\<rparr>"

definition lan_pkt :: bytes where
  "lan_pkt = [0x45, 0, 0, 20, 0, 0, 0, 0, 64, 17, 0, 0, 10, 66, 0, 1, 10, 66, 0, 3]"

definition lan_sha :: "nat \<Rightarrow> byte \<times> byte" where
  "lan_sha p = (0, of_nat p)"

theorem friend_lan_routes_witness:
  "handleOutbound True True lan_pkt
     (the (ov_configure Some [10, 66, 0, 7] (Some lanSubnet) [([10, 66, 0, 3], 3)] (ov_ex\<lparr>ov_excluded := {}\<rparr>))) = [ForwardTo 3 lan_pkt]"
proof -
  have c: "lanConfigFrom lan_sha 7 (Some lan_book) {} = Some ([10, 66, 0, 7], lanSubnet, [([10, 66, 0, 3], 3)])"
    by (simp add: lanConfigFrom_def lan_book_def so_list_def new_contact_def lan_entry_def lanVIP_def lan_sha_def Let_def)
  obtain o2 where o2: "ov_configure Some [10, 66, 0, 7] (Some lanSubnet) [([10, 66, 0, 3], 3 :: nat)] (ov_ex\<lparr>ov_excluded := {}\<rparr>) = Some o2"
    by (simp add: ov_configure_def)
  have f: "lan_friends 7 {} (so_list lan_book) = {3 :: nat}"
    by (simp add: lan_book_def so_list_def new_contact_def)
  have p: "lanConfigFrom lan_sha 3 (Some lan_book) {} = Some ([10, 66, 0, 3], lanSubnet, [])"
    by (simp add: lanConfigFrom_def lan_book_def so_list_def new_contact_def lan_entry_def lanVIP_def lan_sha_def Let_def)
  have dst: "ipv4Dst lan_pkt = Some [10, 66, 0, 3]" by (simp add: lan_pkt_def ipv4Dst_def)
  have u: "\<forall>q \<in> lan_friends 7 {} (so_list lan_book). lanVIP lan_sha q = [10, 66, 0, 3] \<longrightarrow> q = 3" unfolding f by blast
  have m: "3 \<in> lan_friends 7 {} (so_list lan_book)" "3 \<notin> ov_excluded (ov_ex\<lparr>ov_excluded := {}\<rparr>)" unfolding f by simp_all
  show ?thesis unfolding o2 option.sel by (rule friend_lan_routes[OF c o2 m p u dst, THEN conjunct1])
qed

text \<open>The launch variables: the two lists run parallel, in the order of the peer ids, one entry per
  address on the LAN.\<close>

lemma launch_lists_parallel:
  assumes "lanLaunchVarsFrom sha self (Some s) ex = Some v"
  shows "\<exists>pids. sorted pids \<and> set pids \<subseteq> lan_friends self ex (so_list s)
    \<and> lv_names v = map (nick_of s) pids \<and> length (lv_vips v) = length pids"
proof -
  let ?t = "fold (lan_entry sha self ex) (so_list s) []"
  have "lv_names v = map (nick_of s) (sort (map snd ?t))" "length (lv_vips v) = length (sort (map snd ?t))"
    using assms by (auto simp: lanLaunchVarsFrom_def lanConfigFrom_def Let_def)
  moreover have "snd ` set ?t \<subseteq> lan_friends self ex (so_list s)" using lan_table_entries by force
  ultimately show ?thesis by (intro exI[of _ "sort (map snd ?t)"]) simp
qed

end
