(* ===== verification/NetGate.thy ===== *)
theory NetGate
  imports Complex_Main Prelude
begin

text \<open>
  The dial budget and the private-address filter (\<open>netgate.go\<close>). The bucket's \<open>float64\<close> count is a
  rational, its rounding left out; a \<open>net.IP\<close> is its bytes. A blocked dial is a taker in line with
  its deadline, and every iteration of \<open>take\<close> is one step of the gate, so any number of dials
  interleave. What the bench gater, the address book and the multiaddr parser answer are arguments.
\<close>

section \<open>The token bucket\<close>

definition dialRate :: rat where
  "dialRate = 4"

definition dialBurst :: rat where
  "dialBurst = 12"

definition dialMaxWait :: nanos where
  "dialMaxWait = seconds 3"

definition to_seconds :: "nanos \<Rightarrow> rat" where
  "to_seconds d = of_int d / 1000000000"

record tokenBucket =
  tb_tokens :: rat
  tb_last :: "nanos option" \<comment> \<open>\<open>None\<close>: the zero time\<close>

datatype take_result = Taken | Wait nanos | Refused

definition refill :: "nanos \<Rightarrow> tokenBucket \<Rightarrow> tokenBucket" where
  "refill now b =
     (let (last, tokens) = (case tb_last b of None \<Rightarrow> (now, dialBurst) | Some l \<Rightarrow> (l, tb_tokens b));
          tokens = tokens + to_seconds (now - last) * dialRate in
      \<lparr>tb_tokens = (if tokens > dialBurst then dialBurst else tokens), tb_last = Some now\<rparr>)"

definition take_try :: "nanos \<Rightarrow> nanos \<Rightarrow> tokenBucket \<Rightarrow> tokenBucket \<times> take_result" where
  "take_try now deadline b =
     (let b1 = refill now b in
      if tb_tokens b1 \<ge> 1 then (b1\<lparr>tb_tokens := tb_tokens b1 - 1\<rparr>, Taken)
      else let wait = \<lfloor>(1 - tb_tokens b1) / dialRate * 1000000000\<rfloor> in
        if now + wait > deadline then (b1, Refused) else (b1, Wait wait))"

text \<open>What is in the bucket, and what it may still gain by \<open>t\<close>.\<close>

definition bucket_ok :: "nanos \<Rightarrow> tokenBucket \<Rightarrow> bool" where
  "bucket_ok t b \<longleftrightarrow>
     (case tb_last b of None \<Rightarrow> True | Some l \<Rightarrow> l \<le> t \<and> 0 \<le> tb_tokens b \<and> tb_tokens b \<le> dialBurst)"

definition potential :: "nanos \<Rightarrow> tokenBucket \<Rightarrow> rat" where
  "potential t b =
     (case tb_last b of None \<Rightarrow> dialBurst | Some l \<Rightarrow> min dialBurst (tb_tokens b + to_seconds (t - l) * dialRate))"

lemma to_seconds_diff: "to_seconds (a - b) = to_seconds a - to_seconds b"
  by (simp add: to_seconds_def diff_divide_distrib)

lemma to_seconds_mono: "a \<le> b \<Longrightarrow> to_seconds a \<le> to_seconds b"
  by (simp add: to_seconds_def divide_right_mono)

lemma to_seconds_nonneg: "0 \<le> a \<Longrightarrow> 0 \<le> to_seconds a"
  by (simp add: to_seconds_def)

lemma refill_tokens: "tb_tokens (refill now b) = potential now b" "tb_last (refill now b) = Some now"
  by (auto simp: refill_def potential_def Let_def to_seconds_def min_def split: option.splits)

lemma potential_bounds: "bucket_ok t b \<Longrightarrow> t \<le> now \<Longrightarrow> 0 \<le> potential now b \<and> potential now b \<le> dialBurst"
  by (auto simp: bucket_ok_def potential_def dialBurst_def dialRate_def to_seconds_nonneg split: option.splits)

lemma potential_now: "tb_last b = Some now \<Longrightarrow> tb_tokens b \<le> dialBurst \<Longrightarrow> potential now b = tb_tokens b"
  by (simp add: potential_def to_seconds_def)

lemma take_try_ok:
  assumes "bucket_ok t b" "t \<le> now" "take_try now dl b = (b', r)"
  shows "bucket_ok now b'" "potential now b' + (if r = Taken then 1 else 0) \<le> potential now b"
    "r = Wait w \<Longrightarrow> 0 \<le> w \<and> now + w \<le> dl" "potential now b' \<le> dialBurst"
proof -
  note R = refill_tokens[of now b] potential_bounds[OF assms(1,2)]
  show "bucket_ok now b'" "potential now b' + (if r = Taken then 1 else 0) \<le> potential now b"
    "potential now b' \<le> dialBurst"
    using assms(3) R by (auto simp: take_try_def Let_def bucket_ok_def potential_now split: if_splits)
  assume "r = Wait w"
  then show "0 \<le> w \<and> now + w \<le> dl"
    using assms(3) R by (auto simp: take_try_def Let_def dialRate_def split: if_splits)
qed

text \<open>A taker past its deadline is answered at once.\<close>

lemma take_after_deadline:
  "bucket_ok t b \<Longrightarrow> t \<le> now \<Longrightarrow> dl < now \<Longrightarrow> snd (take_try now dl b) \<noteq> Wait w"
proof
  assume a: "bucket_ok t b" "t \<le> now" "dl < now" "snd (take_try now dl b) = Wait w"
  have "0 \<le> w \<and> now + w \<le> dl" using take_try_ok(3)[OF a(1,2) prod.collapse[symmetric] a(4)] .
  then show False using a(3) by simp
qed

section \<open>The gate\<close>

record 'p gate =
  gt_bucket :: tokenBucket
  gt_line :: "('p \<times> nanos) list" \<comment> \<open>takers in line, with their deadlines\<close>
  gt_now :: nanos
  gt_priority :: nat
  gt_budget :: nat
  gt_refused :: nat

datatype dial_answer = Allow | Deny | In_line

text \<open>\<open>InterceptPeerDial\<close> up to \<open>take\<close>, and each iteration of \<open>take\<close> with what follows it.\<close>

definition priority_peer :: "bool \<Rightarrow> bool \<Rightarrow> bool \<Rightarrow> bool" where
  "priority_peer friend lan wanted \<longleftrightarrow> friend \<or> lan \<or> wanted"

definition InterceptPeerDial :: "'p \<Rightarrow> bool option \<Rightarrow> bool \<Rightarrow> 'p gate \<Rightarrow> dial_answer \<times> 'p gate" where
  "InterceptPeerDial p inner prio g =
     (if inner = Some False then (Deny, g)
      else if prio then (Allow, g\<lparr>gt_priority := gt_priority g + 1\<rparr>)
      else (In_line, g\<lparr>gt_line := gt_line g @ [(p, gt_now g + dialMaxWait)]\<rparr>))"

definition take_iteration :: "'p \<times> nanos \<Rightarrow> 'p gate \<Rightarrow> dial_answer \<times> 'p gate" where
  "take_iteration x g =
     (case take_try (gt_now g) (snd x) (gt_bucket g) of
        (b, Taken) \<Rightarrow> (Allow, g\<lparr>gt_bucket := b, gt_line := remove1 x (gt_line g), gt_budget := gt_budget g + 1\<rparr>)
      | (b, Refused) \<Rightarrow> (Deny, g\<lparr>gt_bucket := b, gt_line := remove1 x (gt_line g), gt_refused := gt_refused g + 1\<rparr>)
      | (b, Wait w) \<Rightarrow> (In_line, g\<lparr>gt_bucket := b\<rparr>))"

inductive gate_step :: "'p gate \<Rightarrow> 'p gate \<Rightarrow> bool" where
  gate_dial: "gate_step g (snd (InterceptPeerDial p inner prio g))"
| gate_take: "x \<in> set (gt_line g) \<Longrightarrow> gate_step g (snd (take_iteration x g))"
| gate_tick: "gt_now g \<le> t \<Longrightarrow> gate_step g (g\<lparr>gt_now := t\<rparr>)"

definition gate_init :: "'p gate \<Rightarrow> bool" where
  "gate_init g \<longleftrightarrow> tb_last (gt_bucket g) = None \<and> gt_line g = [] \<and> gt_budget g = 0"

definition gate_inv :: "'p gate \<Rightarrow> bool" where
  "gate_inv g \<longleftrightarrow> bucket_ok (gt_now g) (gt_bucket g) \<and> (\<forall>(p, d) \<in> set (gt_line g). d \<le> gt_now g + dialMaxWait)"

lemma gate_line_later: "(\<forall>(p, d) \<in> set l. d \<le> a + k) \<Longrightarrow> a \<le> b \<Longrightarrow> \<forall>(p, d) \<in> set l. d \<le> b + (k :: int)"
  by force

lemma take_iteration_cases:
  obtains b r where "take_try (gt_now g) (snd x) (gt_bucket g) = (b, r)"
    "gt_bucket (snd (take_iteration x g)) = b" "gt_now (snd (take_iteration x g)) = gt_now g"
    "gt_budget (snd (take_iteration x g)) = gt_budget g + (if r = Taken then 1 else 0)"
    "set (gt_line (snd (take_iteration x g))) \<subseteq> set (gt_line g)"
  using set_remove1_subset[of x "gt_line g"]
  by (cases "take_try (gt_now g) (snd x) (gt_bucket g)"; cases "snd (take_try (gt_now g) (snd x) (gt_bucket g))")
    (auto simp: take_iteration_def)

lemma gate_step_inv:
  assumes "gate_inv g" "gate_step g g'"
  shows "gate_inv g' \<and> gt_now g \<le> gt_now g'
    \<and> of_nat (gt_budget g') + potential (gt_now g') (gt_bucket g')
      \<le> of_nat (gt_budget g) + potential (gt_now g) (gt_bucket g) + to_seconds (gt_now g' - gt_now g) * dialRate"
  using assms(2)
proof cases
  case (gate_dial p inner prio)
  then show ?thesis using assms(1)
    by (auto simp: InterceptPeerDial_def gate_inv_def to_seconds_def dialMaxWait_def)
next
  case (gate_take x)
  obtain b r where b: "take_try (gt_now g) (snd x) (gt_bucket g) = (b, r)"
    "gt_bucket g' = b" "gt_now g' = gt_now g" "gt_budget g' = gt_budget g + (if r = Taken then 1 else 0)"
    "set (gt_line g') \<subseteq> set (gt_line g)"
    using gate_take(1) take_iteration_cases[of g x] by metis
  have ok: "bucket_ok (gt_now g) (gt_bucket g)" using assms(1) by (simp add: gate_inv_def)
  then show ?thesis using take_try_ok[OF ok order_refl b(1)] b assms(1)
    by (auto simp: gate_inv_def to_seconds_def split: if_splits)
next
  case (gate_tick t)
  let ?x = "to_seconds (t - gt_now g)"
  have "0 \<le> ?x" using gate_tick(2) by (intro to_seconds_nonneg) simp
  moreover have "potential t (gt_bucket g) \<le> potential (gt_now g) (gt_bucket g) + ?x * dialRate"
  proof (cases "tb_last (gt_bucket g)")
    case (Some l)
    have "to_seconds (t - l) = to_seconds (gt_now g - l) + ?x" by (simp add: to_seconds_diff)
    then show ?thesis using Some \<open>0 \<le> ?x\<close> by (simp add: potential_def dialRate_def min_def)
  qed (use \<open>0 \<le> ?x\<close> in \<open>simp add: potential_def dialRate_def\<close>)
  moreover have "bucket_ok t (gt_bucket g)"
    using assms(1) gate_tick(2) by (auto simp: gate_inv_def bucket_ok_def split: option.splits)
  ultimately show ?thesis using assms(1) gate_tick gate_line_later[of "gt_line g" "gt_now g" dialMaxWait t]
    by (simp add: gate_inv_def)
qed

interpretation gate: step_invariant gate_init gate_step gate_inv
proof
  show "gate_init g \<Longrightarrow> gate_inv g" for g :: "'p gate" by (simp add: gate_init_def gate_inv_def bucket_ok_def)
  show "gate_inv g \<Longrightarrow> gate_step g g' \<Longrightarrow> gate_inv g'" for g g' :: "'p gate" by (drule (1) gate_step_inv) simp
qed

lemma gate_run:
  assumes "gate_step\<^sup>*\<^sup>* g g'" "gate_inv g"
  shows "gate_inv g' \<and> gt_now g \<le> gt_now g'
    \<and> of_nat (gt_budget g') + potential (gt_now g') (gt_bucket g')
      \<le> of_nat (gt_budget g) + potential (gt_now g) (gt_bucket g) + to_seconds (gt_now g' - gt_now g) * dialRate"
  using assms
proof (induction rule: rtranclp_induct)
  case (step g1 g2)
  have I: "gate_inv g1" using step by simp
  have "to_seconds (gt_now g2 - gt_now g) = to_seconds (gt_now g1 - gt_now g) + to_seconds (gt_now g2 - gt_now g1)"
    by (simp add: to_seconds_diff)
  then show ?case using gate_step_inv[OF I step.hyps(2)] step
    by (auto simp: algebra_simps)
qed (simp add: to_seconds_def)

text \<open>C35. The dial budget holds over every window: from any reachable state on, whatever dials arrive
  and however their waits interleave, the dials let through on the budget are at most twelve plus
  four per second elapsed; a taker in line never waits past its three seconds, and one whose
  deadline is past is answered at once.\<close>

theorem dial_budget_bounded:
  assumes "reachable gate_init gate_step g" "gate_step\<^sup>*\<^sup>* g g'"
  shows "of_nat (gt_budget g') \<le> of_nat (gt_budget g) + 12 + 4 * to_seconds (gt_now g' - gt_now g)
    \<and> (\<forall>(p, d) \<in> set (gt_line g'). d \<le> gt_now g' + seconds 3)
    \<and> (\<forall>(p, d) \<in> set (gt_line g'). \<forall>w. snd (take_try (gt_now g') d (gt_bucket g')) = Wait w
         \<longrightarrow> 0 \<le> w \<and> gt_now g' + w \<le> d)"
proof -
  have I: "gate_inv g" using assms(1) by (rule gate.reachable_inv)
  note run = gate_run[OF assms(2) I]
  have ok: "bucket_ok (gt_now g) (gt_bucket g)" "bucket_ok (gt_now g') (gt_bucket g')"
    using I run by (simp_all add: gate_inv_def)
  have "potential (gt_now g) (gt_bucket g) \<le> 12" "0 \<le> potential (gt_now g') (gt_bucket g')"
    using potential_bounds[OF ok(1) order_refl] potential_bounds[OF ok(2) order_refl] by (simp_all add: dialBurst_def)
  moreover have "snd (take_try (gt_now g') d (gt_bucket g')) = Wait w \<Longrightarrow> 0 \<le> w \<and> gt_now g' + w \<le> d" for d w
    using take_try_ok(3)[OF ok(2) order_refl prod.collapse[symmetric]] .
  ultimately show ?thesis using run by (simp add: gate_inv_def dialMaxWait_def dialRate_def)
qed

definition gate_example :: "nat gate" where
  "gate_example = \<lparr>gt_bucket = \<lparr>tb_tokens = 0, tb_last = None\<rparr>, gt_line = [], gt_now = 7, gt_priority = 0,
     gt_budget = 0, gt_refused = 0\<rparr>"

lemma gate_example_run:
  "gate_step\<^sup>*\<^sup>* gate_example (snd (take_iteration (3, 7 + dialMaxWait) (snd (InterceptPeerDial 3 None False gate_example))))"
proof -
  have "gate_step gate_example (snd (InterceptPeerDial 3 None False gate_example))" by (rule gate_dial)
  moreover have "gate_step (snd (InterceptPeerDial 3 None False gate_example))
      (snd (take_iteration (3, 7 + dialMaxWait) (snd (InterceptPeerDial 3 None False gate_example))))"
    by (rule gate_take) (simp add: InterceptPeerDial_def gate_example_def)
  ultimately show ?thesis by (meson rtranclp.rtrancl_into_rtrancl rtranclp.rtrancl_refl)
qed

theorem dial_budget_bounded_witness:
  "(of_nat (gt_budget (snd (take_iteration (3, 7 + dialMaxWait) (snd (InterceptPeerDial 3 None False gate_example))))) :: rat) \<le> 12"
proof -
  have "reachable gate_init gate_step gate_example" by (rule reach_init) (simp add: gate_init_def gate_example_def)
  from dial_budget_bounded[OF this gate_example_run] show ?thesis
    by (simp add: take_iteration_def InterceptPeerDial_def gate_example_def take_try_def refill_def Let_def
        dialBurst_def to_seconds_def)
qed

section \<open>Private addresses\<close>

type_synonym net_ip = bytes

definition To4 :: "net_ip \<Rightarrow> bytes option" where
  "To4 ip = (if length ip = 4 then Some ip
     else if length ip = 16 \<and> take 10 ip = replicate 10 0 \<and> ip ! 10 = 0xff \<and> ip ! 11 = 0xff then Some (drop 12 ip)
     else None)"

definition IsPrivate :: "net_ip \<Rightarrow> bool" where
  "IsPrivate ip = (case To4 ip of
       Some q \<Rightarrow> q ! 0 = 10 \<or> q ! 0 = 172 \<and> q ! 1 AND 0xf0 = 16 \<or> q ! 0 = 192 \<and> q ! 1 = 168
     | None \<Rightarrow> length ip = 16 \<and> ip ! 0 AND 0xfe = 0xfc)"

definition IsLoopback :: "net_ip \<Rightarrow> bool" where
  "IsLoopback ip = (case To4 ip of Some q \<Rightarrow> q ! 0 = 127 | None \<Rightarrow> ip = replicate 15 0 @ [1])"

definition IsLinkLocalUnicast :: "net_ip \<Rightarrow> bool" where
  "IsLinkLocalUnicast ip = (case To4 ip of
       Some q \<Rightarrow> q ! 0 = 169 \<and> q ! 1 = 254
     | None \<Rightarrow> length ip = 16 \<and> ip ! 0 = 0xfe \<and> ip ! 1 AND 0xc0 = 0x80)"

definition IsUnspecified :: "net_ip \<Rightarrow> bool" where
  "IsUnspecified ip = (case To4 ip of Some q \<Rightarrow> q = [0, 0, 0, 0] | None \<Rightarrow> ip = replicate 16 0)"

definition cgnat_contains :: "net_ip \<Rightarrow> bool" where
  "cgnat_contains ip = (case To4 ip of Some q \<Rightarrow> q ! 0 = 100 \<and> q ! 1 AND 0xc0 = 64 | None \<Rightarrow> False)"

text \<open>\<open>None\<close>: the multiaddr names no IP.\<close>

definition privateAddr :: "net_ip option \<Rightarrow> bool" where
  "privateAddr a = (case a of None \<Rightarrow> False
     | Some ip \<Rightarrow> IsPrivate ip \<or> IsLoopback ip \<or> IsLinkLocalUnicast ip \<or> IsUnspecified ip \<or> cgnat_contains ip)"

section \<open>Who is close\<close>

text \<open>A \<open>sync.Map\<close> of expiry times: the LAN peers and the wanted providers.\<close>

definition lanPeerTTL :: nanos where
  "lanPeerTTL = minutes 60"

definition wantedProviderTTL :: nanos where
  "wantedProviderTTL = minutes 2"

type_synonym 'p expiries = "'p \<Rightarrow> nanos option"

definition note_expiry :: "nanos \<Rightarrow> 'p \<Rightarrow> nanos \<Rightarrow> 'p expiries \<Rightarrow> 'p expiries" where
  "note_expiry ttl p now m = m(p \<mapsto> now + ttl)"

definition is_fresh :: "'p \<Rightarrow> nanos \<Rightarrow> 'p expiries \<Rightarrow> bool \<times> 'p expiries" where
  "is_fresh p now m = (case m p of None \<Rightarrow> (False, m)
     | Some e \<Rightarrow> if now > e then (False, m(p := None)) else (True, m))"

definition noteLanPeer :: "'p \<Rightarrow> nanos \<Rightarrow> 'p expiries \<Rightarrow> 'p expiries" where
  "noteLanPeer = note_expiry lanPeerTTL"

definition isLanPeer :: "'p \<Rightarrow> nanos \<Rightarrow> 'p expiries \<Rightarrow> bool \<times> 'p expiries" where
  "isLanPeer = is_fresh"

definition noteWantedProvider :: "'p \<Rightarrow> nanos \<Rightarrow> 'p expiries \<Rightarrow> 'p expiries" where
  "noteWantedProvider = note_expiry wantedProviderTTL"

definition isWantedProvider :: "'p \<Rightarrow> nanos \<Rightarrow> 'p expiries \<Rightarrow> bool \<times> 'p expiries" where
  "isWantedProvider = is_fresh"

definition isFriend :: "'p list \<Rightarrow> 'p \<Rightarrow> bool" where
  "isFriend accepted p \<longleftrightarrow> list_ex (\<lambda>f. f = p) accepted"

definition InterceptAddrDial :: "bool option \<Rightarrow> net_ip option \<Rightarrow> 'p list \<Rightarrow> 'p \<Rightarrow> nanos \<Rightarrow> 'p expiries \<Rightarrow> bool \<times> 'p expiries" where
  "InterceptAddrDial inner a accepted p now lan =
     (if inner = Some False then (False, lan)
      else if privateAddr a \<and> \<not> isFriend accepted p
      then (case isLanPeer p now lan of (True, m) \<Rightarrow> (True, m) | (False, m) \<Rightarrow> (False, m))
      else (True, lan))"

text \<open>The private IPv4 blocks as intervals of the address read as a number.\<close>

definition ip4_number :: "bytes \<Rightarrow> nat" where
  "ip4_number q = ((unat (q ! 0) * 256 + unat (q ! 1)) * 256 + unat (q ! 2)) * 256 + unat (q ! 3)"

definition private_blocks :: "(nat \<times> nat) list" where
  "private_blocks =
     [(0, 0), (0x0a000000, 0x0affffff), (0x64400000, 0x647fffff), (0x7f000000, 0x7fffffff),
      (0xa9fe0000, 0xa9feffff), (0xac100000, 0xac1fffff), (0xc0a80000, 0xc0a8ffff)]"

lemma byte_top_bits:
  "(b :: byte) AND 0xf0 = 16 \<longleftrightarrow> 16 \<le> unat b \<and> unat b \<le> 31"
  "(b :: byte) AND 0xc0 = 64 \<longleftrightarrow> 64 \<le> unat b \<and> unat b \<le> 127"
proof -
  have all: "b \<in> set (map word_of_nat [0..<256])"
  proof -
    have "b = word_of_nat (unat b)" by simp
    moreover have "unat b < 256" using unat_less_exp[of b] by simp
    ultimately show ?thesis by (metis atLeastLessThan_upt atLeast0LessThan imageI lessThan_iff set_map)
  qed
  have c: "list_all (\<lambda>b :: byte. (b AND 0xf0 = 16 \<longleftrightarrow> 16 \<le> unat b \<and> unat b \<le> 31)
    \<and> (b AND 0xc0 = 64 \<longleftrightarrow> 64 \<le> unat b \<and> unat b \<le> 127)) (map word_of_nat [0..<256])"
    by code_simp
  show "(b :: byte) AND 0xf0 = 16 \<longleftrightarrow> 16 \<le> unat b \<and> unat b \<le> 31"
    "(b :: byte) AND 0xc0 = 64 \<longleftrightarrow> 64 \<le> unat b \<and> unat b \<le> 127"
    using c all by (auto simp: list_all_iff)
qed

lemma block_interval:
  assumes "b < 256" "c < 256" "d < 256" "B' < (256 :: nat)"
  shows "(A * 256 + B) * 65536 \<le> ((a * 256 + b) * 256 + c) * 256 + d
      \<and> ((a * 256 + b) * 256 + c) * 256 + d \<le> (A * 256 + B') * 65536 + 65535 \<longleftrightarrow>
    A * 256 + B \<le> a * 256 + b \<and> a * 256 + b \<le> A * 256 + B'"
proof -
  have "((a * 256 + b) * 256 + c) * 256 + d = (a * 256 + b) * 65536 + (c * 256 + d)" by simp
  moreover have "c * 256 + d < 65536" using assms by linarith
  moreover have "X * 65536 \<le> m * 65536 + r \<longleftrightarrow> X \<le> m" "m * 65536 + r \<le> Y * 65536 + 65535 \<longleftrightarrow> m \<le> Y"
    if "r < 65536" for X Y m r :: nat using that by (rule_tac iffI; linarith)+
  ultimately show ?thesis by metis
qed

lemma high_bytes:
  "b < 256 \<Longrightarrow> B' < 256 \<Longrightarrow> B \<le> (256::nat) \<Longrightarrow>
   A * 256 + B \<le> a * 256 + b \<and> a * 256 + b \<le> A * 256 + B' \<longleftrightarrow> a = A \<and> B \<le> b \<and> b \<le> B'"
  by (cases a A rule: linorder_cases) auto

lemma block_bytes:
  assumes "length q = 4" "B' < 256" "B \<le> 256"
  shows "(A * 256 + B) * 65536 \<le> ip4_number q \<and> ip4_number q \<le> (A * 256 + B') * 65536 + 65535 \<longleftrightarrow>
    unat (q ! 0) = A \<and> B \<le> unat (q ! 1) \<and> unat (q ! 1) \<le> B'"
proof -
  have "unat (q ! i) < 256" for i using unat_less_exp[of "q ! i"] by simp
  then show ?thesis unfolding ip4_number_def
    using block_interval[of "unat (q ! 1)" "unat (q ! 2)" "unat (q ! 3)" B' A B "unat (q ! 0)"]
      high_bytes[of "unat (q ! 1)" B' B A "unat (q ! 0)"] assms by blast
qed

lemma between_same: "(c \<le> x \<and> x \<le> c) \<longleftrightarrow> (x :: nat) = c"
  by auto

lemma To4_length: "To4 ip = Some q \<Longrightarrow> length q = 4"
  by (auto simp: To4_def split: if_splits)

lemma ip4_zero: "length q = 4 \<Longrightarrow> q = [0, 0, 0, 0] \<longleftrightarrow> ip4_number q \<le> 0"
proof -
  assume "length q = 4"
  then obtain a b c d where "q = [a, b, c, d]" by (auto simp: length_Suc_conv numeral_eq_Suc)
  then show ?thesis by (auto simp: ip4_number_def unat_eq_0)
qed

text \<open>Each test of the code is one block of addresses.\<close>

lemma private_v4_blocks:
  assumes "To4 ip = Some q"
  shows "privateAddr (Some ip) \<longleftrightarrow> list_ex (\<lambda>(lo, hi). lo \<le> ip4_number q \<and> ip4_number q \<le> hi) private_blocks"
proof -
  have len: "length q = 4" using assms by (rule To4_length)
  have u: "unat (q ! 1) \<le> 255" using unat_less_exp[of "q ! 1"] by simp
  let ?in = "\<lambda>lo hi. lo \<le> ip4_number q \<and> ip4_number q \<le> hi"
  have p: "IsPrivate ip \<longleftrightarrow> unat (q ! 0) = 10 \<or> unat (q ! 0) = 172 \<and> 16 \<le> unat (q ! 1) \<and> unat (q ! 1) \<le> 31
      \<or> unat (q ! 0) = 192 \<and> unat (q ! 1) = 168"
    unfolding IsPrivate_def assms option.case byte_top_bits unfolding word_unat_eq_iff by simp
  have l: "IsLoopback ip \<longleftrightarrow> unat (q ! 0) = 127" "IsLinkLocalUnicast ip \<longleftrightarrow> unat (q ! 0) = 169 \<and> unat (q ! 1) = 254"
    "cgnat_contains ip \<longleftrightarrow> unat (q ! 0) = 100 \<and> 64 \<le> unat (q ! 1) \<and> unat (q ! 1) \<le> 127"
    unfolding IsLoopback_def IsLinkLocalUnicast_def cgnat_contains_def assms option.case byte_top_bits unfolding word_unat_eq_iff
    by simp_all
  have z: "IsUnspecified ip \<longleftrightarrow> ?in 0 0"
    unfolding IsUnspecified_def assms option.case ip4_zero[OF len] by simp
  have b: "?in 0x0a000000 0x0affffff \<longleftrightarrow> unat (q ! 0) = 10" "?in 0x7f000000 0x7fffffff \<longleftrightarrow> unat (q ! 0) = 127"
    "?in 0x64400000 0x647fffff \<longleftrightarrow> unat (q ! 0) = 100 \<and> 64 \<le> unat (q ! 1) \<and> unat (q ! 1) \<le> 127"
    "?in 0xa9fe0000 0xa9feffff \<longleftrightarrow> unat (q ! 0) = 169 \<and> unat (q ! 1) = 254"
    "?in 0xac100000 0xac1fffff \<longleftrightarrow> unat (q ! 0) = 172 \<and> 16 \<le> unat (q ! 1) \<and> unat (q ! 1) \<le> 31"
    "?in 0xc0a80000 0xc0a8ffff \<longleftrightarrow> unat (q ! 0) = 192 \<and> unat (q ! 1) = 168"
    using block_bytes[OF len, of 255 0 10] block_bytes[OF len, of 255 0 127] block_bytes[OF len, of 127 64 100]
      block_bytes[OF len, of 254 254 169] block_bytes[OF len, of 31 16 172] block_bytes[OF len, of 168 168 192] u
    by (simp_all add: between_same)
  show ?thesis
    unfolding privateAddr_def option.case p l z private_blocks_def list_ex_Nil_iff list_ex_Cons_iff prod.case b by blast
qed

lemma is_fresh_iff: "fst (is_fresh p now m) \<longleftrightarrow> (\<exists>e. m p = Some e \<and> now \<le> e)"
  by (auto simp: is_fresh_def split: option.splits)

text \<open>The private-address filter: an address is refused exactly when the bench gater refuses it,
  or it is private and its peer is neither an accepted friend nor a peer noted on our LAN within the
  last hour; and an IPv4 address (mapped or not) is private exactly when, read as a number, it lies
  in one of the blocks 0.0.0.0, 10/8, 100.64/10, 127/8, 169.254/16, 172.16/12 and 192.168/16.\<close>

theorem private_dials_filtered:
  "(fst (InterceptAddrDial inner a accepted p now (noteLanPeer p t lan)) \<longleftrightarrow>
      inner \<noteq> Some False \<and> (privateAddr a \<longrightarrow> p \<in> set accepted \<or> now \<le> t + minutes 60))
   \<and> (fst (InterceptAddrDial inner a accepted p now (lan(p := None))) \<longleftrightarrow>
      inner \<noteq> Some False \<and> (privateAddr a \<longrightarrow> p \<in> set accepted))
   \<and> (To4 ip = Some q \<longrightarrow>
        (privateAddr (Some ip) \<longleftrightarrow> list_ex (\<lambda>(lo, hi). lo \<le> ip4_number q \<and> ip4_number q \<le> hi) private_blocks))"
  using private_v4_blocks[of ip q]
    is_fresh_iff[of p now "noteLanPeer p t lan"] is_fresh_iff[of p now "lan(p := None)"]
  by (auto simp: InterceptAddrDial_def isLanPeer_def isFriend_def list_ex_iff noteLanPeer_def note_expiry_def
      lanPeerTTL_def split: prod.splits bool.splits)

theorem private_dials_filtered_witness:
  "\<not> fst (InterceptAddrDial None (Some [172, 31, 0, 9]) [5] (3 :: nat) 9 (Map.empty(3 := None)))
   \<and> fst (InterceptAddrDial None (Some [172, 32, 0, 9]) [5] (3 :: nat) 9 (Map.empty(3 := None)))"
  using private_dials_filtered[of None "Some [172, 31, 0, 9]" "[5]" "3 :: nat" 9 0 Map.empty "[172, 31, 0, 9]" "[172, 31, 0, 9]"]
    private_dials_filtered[of None "Some [172, 32, 0, 9]" "[5]" "3 :: nat" 9 0 Map.empty "[172, 32, 0, 9]" "[172, 32, 0, 9]"]
  by (simp add: To4_def private_blocks_def ip4_number_def)

end
