(* ===== verification/HostRelay.thy ===== *)
theory HostRelay
  imports NetGate Packet4
begin

text \<open>
  The real-LAN broadcast reflector (\<open>hostrelay.go\<close>). A host socket is its port; whether a port can
  be bound, a datagram sent or a packet injected is an argument. The sockets are IPv4 ones, so the
  sender of a datagram is four bytes; \<open>canon_ip\<close> is the address two spellings share (the map keys of
  the code are \<open>IP.String()\<close>).
\<close>

definition relayMaxPorts :: nat where
  "relayMaxPorts = 32"

record hostRelay =
  hr_gameVIP :: ip4
  hr_bcastAddr :: ip4
  hr_socks :: "16 word list"
  hr_done :: bool
  hr_hostIPs :: "net_ip set"
  hr_bcastTo :: "ip4 list"
  hr_hostRefT :: nanos
  hr_rx :: nat
  hr_tx :: nat
  hr_dropped :: nat

definition canon_ip :: "net_ip \<Rightarrow> net_ip" where
  "canon_ip ip = (case To4 ip of Some q \<Rightarrow> q | None \<Rightarrow> ip)"

text \<open>\<open>IPMask.Size\<close>: the leading ones and the length in bits, or zeros for a mask with a hole.\<close>

definition mask_bits :: "bytes \<Rightarrow> bool list" where
  "mask_bits m = concat (map (\<lambda>b. map (bit b) [7, 6, 5, 4, 3, 2, 1, 0]) m)"

definition mask_size :: "bytes \<Rightarrow> nat \<times> nat" where
  "mask_size m =
     (let bs = mask_bits m; ones = length (takeWhile (\<lambda>x. x) bs) in
      if list_all Not (drop ones bs) then (ones, length bs) else (0, 0))"

definition iface_bcast :: "net_ip \<times> bytes \<Rightarrow> ip4 option" where
  "iface_bcast x =
     (case To4 (fst x) of None \<Rightarrow> None
      | Some v4 \<Rightarrow>
          if v4 ! 0 = 127 then None
          else case mask_size (snd x) of (ones, bits) \<Rightarrow>
            if bits = 32 \<and> ones < 31 then Some (map2 (\<lambda>a m. a OR NOT m) v4 (snd x)) else None)"

fun dedup :: "ip4 option list \<Rightarrow> ip4 list \<Rightarrow> ip4 list" where
  "dedup [] out = out"
| "dedup (None # r) out = dedup r out"
| "dedup (Some b # r) out = dedup r (if b \<in> set out then out else out @ [b])"

definition refreshHostIPs :: "nanos \<Rightarrow> (net_ip \<times> bytes) list \<Rightarrow> hostRelay \<Rightarrow> hostRelay" where
  "refreshHostIPs now ifaces r =
     r\<lparr>hr_hostIPs := canon_ip ` fst ` set ifaces, hr_bcastTo := dedup (map iface_bcast ifaces) [], hr_hostRefT := now\<rparr>"

definition newHostRelay :: "ip4 \<Rightarrow> nanos \<Rightarrow> (net_ip \<times> bytes) list \<Rightarrow> hostRelay" where
  "newHostRelay vip now ifaces = refreshHostIPs now ifaces
     \<lparr>hr_gameVIP = vip, hr_bcastAddr = [255, 255, 255, 255], hr_socks = [], hr_done = False, hr_hostIPs = {},
      hr_bcastTo = [], hr_hostRefT = 0, hr_rx = 0, hr_tx = 0, hr_dropped = 0\<rparr>"

definition relay_close :: "hostRelay \<Rightarrow> hostRelay" where
  "relay_close r = r\<lparr>hr_done := True, hr_socks := []\<rparr>"

definition ensure :: "(16 word \<Rightarrow> bool) \<Rightarrow> 16 word \<Rightarrow> hostRelay \<Rightarrow> bool \<times> hostRelay" where
  "ensure can_bind port r =
     (if port = 0 then (False, r)
      else if hr_done r then (False, r)
      else if port \<in> set (hr_socks r) then (True, r)
      else if length (hr_socks r) \<ge> relayMaxPorts then (False, r)
      else if \<not> can_bind port then (False, r)
      else (True, r\<lparr>hr_socks := hr_socks r @ [port]\<rparr>))"

definition broadcastTargets :: "hostRelay \<Rightarrow> ip4 list" where
  "broadcastTargets r =
     (if hr_bcastAddr r \<noteq> [255, 255, 255, 255] then [hr_bcastAddr r] else [255, 255, 255, 255] # hr_bcastTo r)"

text \<open>What leaves for the real LAN: the socket's port, the destination and the payload.\<close>

record emission =
  em_from :: "16 word"
  em_to :: ip4
  em_port :: "16 word"
  em_payload :: bytes

definition emission_of :: "udp4 \<Rightarrow> ip4 \<Rightarrow> emission" where
  "emission_of u dst = \<lparr>em_from = u_SrcPort u, em_to = dst, em_port = u_DstPort u, em_payload = u_Payload u\<rparr>"

definition fromGame :: "(16 word \<Rightarrow> bool) \<Rightarrow> (ip4 \<Rightarrow> bool) \<Rightarrow> udp4 \<Rightarrow> hostRelay \<Rightarrow> emission list \<times> hostRelay" where
  "fromGame can_bind sends u r =
     (let (src, r1) = ensure can_bind (u_SrcPort u) r;
          (_, r2) = ensure can_bind (u_DstPort u) r1 in
      if \<not> src then ([], r2)
      else let targets = (if 224 \<le> u_Dst u ! 0 \<and> u_Dst u ! 0 \<le> 239 then [u_Dst u] else broadcastTargets r2);
               sent = filter sends targets in
           (map (emission_of u) sent, r2\<lparr>hr_tx := hr_tx r2 + length sent\<rparr>))"

definition isHostIP :: "nanos \<Rightarrow> (net_ip \<times> bytes) list \<Rightarrow> ip4 \<Rightarrow> hostRelay \<Rightarrow> bool \<times> hostRelay" where
  "isHostIP now ifaces ip r =
     (let r = (if now - hr_hostRefT r > seconds 30 then refreshHostIPs now ifaces r else r) in
      (canon_ip ip \<in> hr_hostIPs r, r))"

text \<open>One iteration of \<open>recvLoop\<close>: the packet handed to \<open>inject\<close>, if any.\<close>

definition recv_datagram_relay ::
    "nanos \<Rightarrow> (net_ip \<times> bytes) list \<Rightarrow> bool \<Rightarrow> 16 word \<Rightarrow> ip4 \<Rightarrow> 16 word \<Rightarrow> bytes \<Rightarrow> hostRelay \<Rightarrow> bytes option \<times> hostRelay" where
  "recv_datagram_relay now ifaces injects port sender from_port payload r =
     (case isHostIP now ifaces sender r of
        (True, r1) \<Rightarrow> (None, r1\<lparr>hr_dropped := hr_dropped r1 + 1\<rparr>)
      | (False, r1) \<Rightarrow>
          (Some (buildUDP4 sender (hr_gameVIP r1) from_port port payload),
           if injects then r1\<lparr>hr_rx := hr_rx r1 + 1\<rparr> else r1))"

section \<open>Runs\<close>

inductive relay_step :: "hostRelay \<Rightarrow> hostRelay \<Rightarrow> bool" where
  relay_game: "relay_step r (snd (fromGame can_bind sends u r))"
| relay_recv: "port \<in> set (hr_socks r) \<Longrightarrow>
    relay_step r (snd (recv_datagram_relay now ifaces injects port sender from_port payload r))"
| relay_refresh: "relay_step r (refreshHostIPs now ifaces r)"
| relay_closes: "relay_step r (relay_close r)"

definition relay_init :: "hostRelay \<Rightarrow> bool" where
  "relay_init r \<longleftrightarrow> (\<exists>vip now ifaces. length vip = 4 \<and> r = newHostRelay vip now ifaces)"

definition relay_inv :: "hostRelay \<Rightarrow> bool" where
  "relay_inv r \<longleftrightarrow> length (hr_socks r) \<le> relayMaxPorts \<and> distinct (hr_socks r) \<and> 0 \<notin> set (hr_socks r)
     \<and> (hr_done r \<longrightarrow> hr_socks r = []) \<and> length (hr_gameVIP r) = 4 \<and> hr_bcastAddr r = [255, 255, 255, 255]"

lemma ensure_inv: "relay_inv r \<Longrightarrow> relay_inv (snd (ensure can_bind port r))"
  by (auto simp: ensure_def relay_inv_def relayMaxPorts_def)

lemma ensure_true: "fst (ensure can_bind port r) \<Longrightarrow> port \<in> set (hr_socks (snd (ensure can_bind port r)))"
  by (auto simp: ensure_def split: if_splits)

lemma ensure_keeps: "set (hr_socks r) \<subseteq> set (hr_socks (snd (ensure can_bind port r)))"
  "hr_bcastTo (snd (ensure can_bind port r)) = hr_bcastTo r" "hr_bcastAddr (snd (ensure can_bind port r)) = hr_bcastAddr r"
  by (auto simp: ensure_def)

lemma refresh_inv: "relay_inv r \<Longrightarrow> relay_inv (refreshHostIPs now ifaces r)"
  by (simp add: relay_inv_def refreshHostIPs_def)

lemma relay_step_inv: "relay_inv r \<Longrightarrow> relay_step r r' \<Longrightarrow> relay_inv r'"
proof (erule relay_step.cases)
  fix r0 can_bind sends u assume "relay_inv r" "r = r0" "r' = snd (fromGame can_bind sends u r0)"
  moreover have "relay_inv x \<Longrightarrow> relay_inv (x\<lparr>hr_tx := n\<rparr>)" for x n by (simp add: relay_inv_def)
  ultimately show "relay_inv r'"
    using ensure_inv[of r can_bind "u_SrcPort u"] ensure_inv[of "snd (ensure can_bind (u_SrcPort u) r)" can_bind "u_DstPort u"]
    by (auto simp: fromGame_def Let_def split: prod.splits)
next
  fix port r0 now ifaces injects sender from_port payload
  assume "relay_inv r" "r = r0" "r' = snd (recv_datagram_relay now ifaces injects port sender from_port payload r0)"
  then show "relay_inv r'" using refresh_inv[of r now ifaces]
    by (auto simp: recv_datagram_relay_def isHostIP_def Let_def relay_inv_def split: prod.splits bool.splits if_splits)
next
  fix r0 now ifaces assume "relay_inv r" "r = r0" "r' = refreshHostIPs now ifaces r0"
  then show "relay_inv r'" by (simp add: refresh_inv)
next
  fix r0 assume "relay_inv r" "r = r0" "r' = relay_close r0"
  then show "relay_inv r'" by (simp add: relay_inv_def relay_close_def)
qed

lemma relay_init_inv: "relay_init r \<Longrightarrow> relay_inv r"
  by (auto simp: relay_init_def relay_inv_def newHostRelay_def refreshHostIPs_def)

interpretation relay: step_invariant relay_init relay_step relay_inv
  by unfold_locales (rule relay_init_inv relay_step_inv; assumption)+

lemma fromGame_emissions:
  assumes "fromGame can_bind sends u r = (out, r')"
  shows "set out \<subseteq> emission_of u ` (if 224 \<le> u_Dst u ! 0 \<and> u_Dst u ! 0 \<le> 239 then {u_Dst u} else set (broadcastTargets r))
    \<and> (out \<noteq> [] \<longrightarrow> u_SrcPort u \<in> set (hr_socks r')) \<and> hr_tx r' = hr_tx r + length out"
proof -
  obtain a r1 where e1: "ensure can_bind (u_SrcPort u) r = (a, r1)" by fastforce
  obtain b r2 where e2: "ensure can_bind (u_DstPort u) r1 = (b, r2)" by fastforce
  have bt: "broadcastTargets r2 = broadcastTargets r" using ensure_keeps(2,3)[of can_bind "u_SrcPort u" r] e1
    ensure_keeps(2,3)[of can_bind "u_DstPort u" r1] e2 by (simp add: broadcastTargets_def)
  have tx: "hr_tx r2 = hr_tx r" using e1 e2 by (auto simp: ensure_def split: if_splits)
  have "a \<Longrightarrow> u_SrcPort u \<in> set (hr_socks r2)" using ensure_true[of can_bind "u_SrcPort u" r] e1
    ensure_keeps(1)[of r1 can_bind "u_DstPort u"] e2 by auto
  then show ?thesis using assms e1 e2 bt tx by (auto simp: fromGame_def Let_def split: if_splits)
qed

text \<open>The reflector. In every run: at most 32 host sockets, none on port 0, none once closed;
  what it sends for a game's broadcast leaves the socket of the game's own source port, unchanged in
  port and payload, to the limited broadcast and the directed ones (a multicast group: to the group);
  what it injects is the received datagram, readdressed to the game and otherwise unchanged, and one
  sent from an address of this machine is never injected but counted as a dropped loop.\<close>

theorem relay_bridges:
  assumes "reachable relay_init relay_step r" "length sender = 4" "length payload \<le> 65527"
    "fromGame can_bind sends u r = (out, r')"
    "recv_datagram_relay now ifaces injects port sender from_port payload r = (pkt, r'')"
  shows "length (hr_socks r) \<le> 32 \<and> distinct (hr_socks r) \<and> 0 \<notin> set (hr_socks r) \<and> (hr_done r \<longrightarrow> hr_socks r = [] \<and> out = [])
    \<and> (\<forall>e \<in> set out. em_from e = u_SrcPort u \<and> em_from e \<in> set (hr_socks r') \<and> em_port e = u_DstPort u
          \<and> em_payload e = u_Payload u
          \<and> em_to e \<in> (if 224 \<le> u_Dst u ! 0 \<and> u_Dst u ! 0 \<le> 239 then {u_Dst u} else {[255, 255, 255, 255]} \<union> set (hr_bcastTo r)))
    \<and> (pkt = None \<longleftrightarrow> canon_ip sender \<in> hr_hostIPs r'')
    \<and> (\<forall>b. pkt = Some b \<longrightarrow> parseUDP4 b = Some \<lparr>u_Src = sender, u_Dst = hr_gameVIP r, u_SrcPort = from_port,
          u_DstPort = port, u_Payload = payload\<rparr>)
    \<and> (pkt = None \<longrightarrow> hr_dropped r'' = hr_dropped r + 1)"
proof -
  have I: "relay_inv r" using assms(1) by (rule relay.reachable_inv)
  note E = fromGame_emissions[OF assms(4)]
  have b: "broadcastTargets r = [255, 255, 255, 255] # hr_bcastTo r" using I by (simp add: broadcastTargets_def relay_inv_def)
  have closed: "hr_done r \<Longrightarrow> out = []" using assms(4) by (auto simp: fromGame_def ensure_def Let_def split: if_splits)
  have em: "e \<in> set out \<Longrightarrow> em_from e = u_SrcPort u \<and> em_from e \<in> set (hr_socks r') \<and> em_port e = u_DstPort u
          \<and> em_payload e = u_Payload u
          \<and> em_to e \<in> (if 224 \<le> u_Dst u ! 0 \<and> u_Dst u ! 0 \<le> 239 then {u_Dst u} else {[255, 255, 255, 255]} \<union> set (hr_bcastTo r))" for e
    using E b by (auto simp: emission_of_def split: if_splits)
  obtain h r1 where h: "isHostIP now ifaces sender r = (h, r1)" by fastforce
  have r1: "h \<longleftrightarrow> canon_ip sender \<in> hr_hostIPs r1" "hr_gameVIP r1 = hr_gameVIP r" "hr_dropped r1 = hr_dropped r"
    using h[symmetric] by (simp_all add: isHostIP_def Let_def refreshHostIPs_def del: image_iff)
  have g: "length (hr_gameVIP r) = 4" using I by (simp add: relay_inv_def)
  have rx: "(pkt = None \<longleftrightarrow> canon_ip sender \<in> hr_hostIPs r'')
    \<and> (\<forall>b. pkt = Some b \<longrightarrow> b = buildUDP4 sender (hr_gameVIP r) from_port port payload)
    \<and> (pkt = None \<longrightarrow> hr_dropped r'' = hr_dropped r + 1)"
    using assms(5) h r1 by (cases h) (auto simp: recv_datagram_relay_def split: if_splits)
  have parse: "\<forall>b. pkt = Some b \<longrightarrow> parseUDP4 b = Some \<lparr>u_Src = sender, u_Dst = hr_gameVIP r, u_SrcPort = from_port,
          u_DstPort = port, u_Payload = payload\<rparr>"
  proof (intro allI impI)
    fix b assume "pkt = Some b"
    then have "b = buildUDP4 sender (hr_gameVIP r) from_port port payload" using rx by blast
    then show "parseUDP4 b = Some \<lparr>u_Src = sender, u_Dst = hr_gameVIP r, u_SrcPort = from_port,
          u_DstPort = port, u_Payload = payload\<rparr>"
      by (simp only: parse_build[OF assms(2) g assms(3)])
  qed
  have inv: "length (hr_socks r) \<le> 32 \<and> distinct (hr_socks r) \<and> 0 \<notin> set (hr_socks r) \<and> (hr_done r \<longrightarrow> hr_socks r = [] \<and> out = [])"
    using I closed by (simp add: relay_inv_def relayMaxPorts_def)
  have emissions: "\<forall>e \<in> set out. em_from e = u_SrcPort u \<and> em_from e \<in> set (hr_socks r') \<and> em_port e = u_DstPort u
          \<and> em_payload e = u_Payload u
          \<and> em_to e \<in> (if 224 \<le> u_Dst u ! 0 \<and> u_Dst u ! 0 \<le> 239 then {u_Dst u} else {[255, 255, 255, 255]} \<union> set (hr_bcastTo r))"
    by (intro ballI em)
  show ?thesis using inv emissions rx parse by (intro conjI) blast+
qed

definition relay_ex :: hostRelay where
  "relay_ex = newHostRelay [10, 66, 0, 7] 0 [([192, 168, 1, 5], [255, 255, 255, 0])]"

theorem relay_bridges_witness:
  "fst (recv_datagram_relay 1 [] True 9 [192, 168, 1, 5] 7 [1] relay_ex) = None
   \<and> map_option parseUDP4 (fst (recv_datagram_relay 1 [] True 9 [192, 168, 1, 6] 7 [1] relay_ex)) =
      Some (Some \<lparr>u_Src = [192, 168, 1, 6], u_Dst = [10, 66, 0, 7], u_SrcPort = 7, u_DstPort = 9, u_Payload = [1]\<rparr>)"
proof -
  have r: "reachable relay_init relay_step relay_ex"
    by (rule reach_init) (auto simp: relay_init_def relay_ex_def intro!: exI[of _ "[10, 66, 0, 7]"])
  have g: "hr_gameVIP relay_ex = [10, 66, 0, 7]" by (simp add: relay_ex_def newHostRelay_def refreshHostIPs_def)
  let ?u = "\<lparr>u_Src = [10, 66, 0, 7], u_Dst = [255, 255, 255, 255], u_SrcPort = 9, u_DstPort = 9, u_Payload = [1]\<rparr>"
  note T = relay_bridges[OF r _ _ prod.collapse[symmetric, of "fromGame (\<lambda>_. True) (\<lambda>_. True) ?u relay_ex"]
      prod.collapse[symmetric]]
  have h: "hr_hostIPs (snd (recv_datagram_relay 1 [] True 9 sender 7 [1] relay_ex)) = {[192, 168, 1, 5]}" for sender
    by (simp add: recv_datagram_relay_def isHostIP_def relay_ex_def newHostRelay_def refreshHostIPs_def canon_ip_def To4_def
        split: prod.splits bool.splits)
  have "fst (recv_datagram_relay 1 [] True 9 [192, 168, 1, 5] 7 [1] relay_ex) = None"
    using T[of "[192, 168, 1, 5]" "[1]" 1 "[]" True 9 7] by (simp add: h canon_ip_def To4_def)
  moreover obtain b where b: "fst (recv_datagram_relay 1 [] True 9 [192, 168, 1, 6] 7 [1] relay_ex) = Some b"
    using T[of "[192, 168, 1, 6]" "[1]" 1 "[]" True 9 7] by (auto simp: h canon_ip_def To4_def)
  moreover have "parseUDP4 b = Some \<lparr>u_Src = [192, 168, 1, 6], u_Dst = [10, 66, 0, 7], u_SrcPort = 7, u_DstPort = 9, u_Payload = [1]\<rparr>"
    using T[of "[192, 168, 1, 6]" "[1]" 1 "[]" True 9 7] b by (simp add: g)
  ultimately show ?thesis by simp
qed

end
