(* ===== verification/Gateway.thy ===== *)
theory Gateway
  imports Prelude
begin

text \<open>
  The HTTPS fallback (\<open>gateway.go\<close>): the ranges a leaf resume asks for, the scope of a request,
  the hedged race between gateways, and the import of the winner's CAR. A gateway is its index in
  the list; what its server answers is an argument, as are the CID check (\<open>verified c b\<close>: the bytes
  hash to the CID) and the outcome of a block store's \<open>Put\<close>. File offsets are far below \<open>2 ^ 63\<close>
  (they lie inside a file), so the subtractions of the code are written over \<open>int\<close>.
\<close>

section \<open>Ranges of a leaf resume\<close>

record byteRange =
  br_from :: int
  br_to :: int

definition gatewayRunGap :: int where
  "gatewayRunGap = 1048576"

definition gatewayMaxRanges :: nat where
  "gatewayMaxRanges = 8"

fun coalesce :: "byteRange list \<Rightarrow> byteRange list \<Rightarrow> byteRange list" where
  "coalesce out [] = out"
| "coalesce out (m # ms) =
     (if out \<noteq> [] \<and> br_from m - br_to (last out) - 1 \<le> gatewayRunGap
      then coalesce (butlast out @ [(last out)\<lparr>br_to := max (br_to (last out)) (br_to m)\<rparr>]) ms
      else coalesce (out @ [m]) ms)"

definition hole :: "byteRange list \<Rightarrow> nat \<Rightarrow> int" where
  "hole out i = br_from (out ! (i + 1)) - br_to (out ! i)"

definition closest :: "byteRange list \<Rightarrow> nat" where
  "closest out = foldl (\<lambda>best i. if hole out i < hole out best then i else best) 0 [1..<length out - 1]"

definition merge_at :: "byteRange list \<Rightarrow> nat \<Rightarrow> byteRange list" where
  "merge_at out best =
     take best out @ [(out ! best)\<lparr>br_to := br_to (out ! (best + 1))\<rparr>] @ drop (best + 2) out"

function shrink :: "byteRange list \<Rightarrow> byteRange list" where
  "shrink out = (if length out > gatewayMaxRanges then shrink (merge_at out (closest out)) else out)"
  by pat_completeness auto

lemma closest_bound: "length out \<ge> 2 \<Longrightarrow> closest out + 1 < length out"
proof -
  have "foldl (\<lambda>best i. if f i < (f best :: int) then i else best) b is \<in> insert b (set is)" for f b "is"
    by (induction "is" arbitrary: b) auto
  from this[of "hole out" 0 "[1..<length out - 1]"] show "length out \<ge> 2 \<Longrightarrow> closest out + 1 < length out"
    by (auto simp: closest_def)
qed

lemma length_merge_at: "b + 1 < length out \<Longrightarrow> length (merge_at out b) = length out - 1"
  by (simp add: merge_at_def)

termination shrink
  by (relation "measure length") (use closest_bound in \<open>auto simp: gatewayMaxRanges_def length_merge_at\<close>)

declare shrink.simps [simp del]

definition gatewayRanges :: "byteRange list \<Rightarrow> byteRange list" where
  "gatewayRanges missing = shrink (coalesce [] missing)"

text \<open>Spans sorted by offset, more than \<open>g\<close> bytes apart, none of them empty.\<close>

definition spans :: "int \<Rightarrow> byteRange list \<Rightarrow> bool" where
  "spans g l \<longleftrightarrow> sorted_wrt (\<lambda>a b. br_from b - br_to a - 1 > g) l \<and> (\<forall>r\<in>set l. br_from r \<le> br_to r)"

definition covered :: "byteRange list \<Rightarrow> byteRange \<Rightarrow> bool" where
  "covered out m \<longleftrightarrow> (\<exists>r\<in>set out. br_from r \<le> br_from m \<and> br_to m \<le> br_to r)"

text \<open>Every range asked for begins and ends where a missing span does.\<close>

definition tight :: "byteRange list \<Rightarrow> byteRange list \<Rightarrow> bool" where
  "tight missing out \<longleftrightarrow>
     (\<forall>r\<in>set out. (\<exists>a\<in>set missing. br_from r = br_from a) \<and> (\<exists>b\<in>set missing. br_to r = br_to b))"

lemma spans_append:
  "spans g (xs @ ys) \<longleftrightarrow> spans g xs \<and> spans g ys \<and> (\<forall>a\<in>set xs. \<forall>b\<in>set ys. br_from b - br_to a - 1 > g)"
  by (auto simp: spans_def sorted_wrt_append)

lemma spans_Cons:
  "spans g (x # ys) \<longleftrightarrow> spans g ys \<and> br_from x \<le> br_to x \<and> (\<forall>b\<in>set ys. br_from b - br_to x - 1 > g)"
  by (auto simp: spans_def)

lemma spans_Nil [simp]: "spans g []"
  by (simp add: spans_def)

text \<open>Joining two neighbours: one range from the first's start to the second's end.\<close>

lemma join_spans:
  assumes "spans g (xs @ a # b # ys)" "0 \<le> g"
  shows "spans g (xs @ a\<lparr>br_to := br_to b\<rparr> # ys)"
proof -
  have "br_from a \<le> br_to a" "br_to a < br_from b" "br_from b \<le> br_to b"
    using assms by (auto simp: spans_append spans_Cons)
  then show ?thesis using assms by (auto simp: spans_append spans_Cons)
qed

lemma merge_at_split:
  assumes "b + 1 < length out"
  obtains xs x y ys where "out = xs @ x # y # ys" "merge_at out b = xs @ x\<lparr>br_to := br_to y\<rparr> # ys"
proof -
  have "out = take b out @ out ! b # out ! (b + 1) # drop (b + 2) out"
    using assms id_take_nth_drop[of b out] Cons_nth_drop_Suc[of "b + 1" out] by simp
  then show ?thesis by (rule that) (simp add: merge_at_def)
qed

lemma shrink_keeps:
  "spans g out \<Longrightarrow> 0 \<le> g \<Longrightarrow> tight missing out \<Longrightarrow>
   spans g (shrink out) \<and> tight missing (shrink out) \<and> length (shrink out) \<le> gatewayMaxRanges
   \<and> (\<forall>m. covered out m \<longrightarrow> covered (shrink out) m) \<and> (shrink out = [] \<longleftrightarrow> out = [])"
proof (induction out rule: shrink.induct)
  case (1 out)
  show ?case
  proof (cases "length out > gatewayMaxRanges")
    case False
    then show ?thesis using 1 by (subst (1 2 3 4 5) shrink.simps) simp
  next
    case True
    then have "closest out + 1 < length out" by (intro closest_bound) (simp add: gatewayMaxRanges_def)
    then obtain xs x y ys where o: "out = xs @ x # y # ys" and m: "merge_at out (closest out) = xs @ x\<lparr>br_to := br_to y\<rparr> # ys"
      by (rule merge_at_split)
    have xy: "br_from x \<le> br_to x" "br_to x < br_from y" "br_from y \<le> br_to y"
      using 1(2,3) o by (auto simp: spans_append spans_Cons)
    have "spans g (merge_at out (closest out))" unfolding m using 1(2,3) o by (auto intro: join_spans)
    moreover have "tight missing (merge_at out (closest out))" unfolding m using 1(4) o by (auto simp: tight_def)
    moreover have "covered out r \<Longrightarrow> covered (merge_at out (closest out)) r" for r
      unfolding m using o xy by (fastforce simp: covered_def)
    moreover have "merge_at out (closest out) \<noteq> []" unfolding m by simp
    moreover have "shrink out = shrink (merge_at out (closest out))" using True by (subst shrink.simps) simp
    ultimately show ?thesis using 1(1)[OF True] 1(3) True by (auto simp: gatewayMaxRanges_def)
  qed
qed

lemma coalesce_keeps:
  "spans gatewayRunGap out \<Longrightarrow> spans (-1) ms \<Longrightarrow> (\<forall>a\<in>set out. \<forall>b\<in>set ms. br_to a < br_from b) \<Longrightarrow>
   tight M out \<Longrightarrow> set ms \<subseteq> set M \<Longrightarrow>
   spans gatewayRunGap (coalesce out ms) \<and> tight M (coalesce out ms)
   \<and> (\<forall>m. covered out m \<or> m \<in> set ms \<longrightarrow> covered (coalesce out ms) m)
   \<and> (coalesce out ms = [] \<longleftrightarrow> out = [] \<and> ms = [])"
proof (induction ms arbitrary: out)
  case (Cons m ms)
  show ?case
  proof (cases "out \<noteq> [] \<and> br_from m - br_to (last out) - 1 \<le> gatewayRunGap")
    case True
    then obtain xs x where o: "out = xs @ [x]" by (metis append_butlast_last_id)
    have xm: "br_from x \<le> br_to x" "br_to x < br_from m" "br_from m \<le> br_to m"
      using Cons.prems o by (auto simp: spans_append spans_Cons)
    let ?out = "xs @ [x\<lparr>br_to := br_to m\<rparr>]"
    have eq: "coalesce out (m # ms) = coalesce ?out ms" using True o xm by (simp add: max_def)
    have 1: "spans gatewayRunGap ?out" using Cons.prems(1) o xm by (auto simp: spans_append spans_Cons)
    have 2: "spans (-1) ms" "set ms \<subseteq> set M" using Cons.prems by (auto simp: spans_Cons)
    have 3: "\<forall>a\<in>set ?out. \<forall>b\<in>set ms. br_to a < br_from b"
      using Cons.prems(2,3) o by (force simp: spans_Cons)
    have 4: "tight M ?out" using Cons.prems(4,5) o by (auto simp: tight_def)
    have 5: "covered out r \<or> r = m \<Longrightarrow> covered ?out r" for r
      using o xm by (fastforce simp: covered_def)
    show ?thesis unfolding eq using Cons.IH[OF 1 2(1) 3 4 2(2)] 5 by auto
  next
    case False
    then have eq: "coalesce out (m # ms) = coalesce (out @ [m]) ms" by (auto simp: if_not_P)
    have apart: "\<forall>a\<in>set out. br_from m - br_to a - 1 > gatewayRunGap"
    proof
      fix a assume a: "a \<in> set out"
      then obtain xs x where o: "out = xs @ [x]" by (metis append_butlast_last_id empty_iff list.set(1))
      have x: "br_from m - br_to x - 1 > gatewayRunGap" using False o by simp
      show "br_from m - br_to a - 1 > gatewayRunGap"
      proof (cases "a = x")
        case False
        then have "a \<in> set xs" using a o by simp
        then have "br_to a < br_from x" "br_from x \<le> br_to x"
          using Cons.prems(1) o by (auto simp: spans_append spans_Cons gatewayRunGap_def)
        then show ?thesis using x by simp
      qed (simp add: x)
    qed
    have 1: "spans gatewayRunGap (out @ [m])" using Cons.prems(1,2) apart by (auto simp: spans_append spans_Cons)
    have 2: "spans (-1) ms" "set ms \<subseteq> set M" using Cons.prems by (auto simp: spans_Cons)
    have 3: "\<forall>a\<in>set (out @ [m]). \<forall>b\<in>set ms. br_to a < br_from b"
      using Cons.prems(2,3) by (force simp: spans_Cons)
    have 4: "tight M (out @ [m])" using Cons.prems(4,5) by (auto simp: tight_def)
    have 5: "covered out r \<or> r = m \<Longrightarrow> covered (out @ [m]) r" for r by (auto simp: covered_def)
    show ?thesis unfolding eq using Cons.IH[OF 1 2(1) 3 4 2(2)] 5 by auto
  qed
qed auto

lemma gatewayRanges_spec:
  assumes "spans (-1) missing"
  shows "spans gatewayRunGap (gatewayRanges missing)" "length (gatewayRanges missing) \<le> 8"
    "\<And>m. m \<in> set missing \<Longrightarrow> covered (gatewayRanges missing) m" "tight missing (gatewayRanges missing)"
    "gatewayRanges missing = [] \<longleftrightarrow> missing = []"
proof -
  have "spans gatewayRunGap (coalesce [] missing) \<and> tight missing (coalesce [] missing)
   \<and> (\<forall>m\<in>set missing. covered (coalesce [] missing) m) \<and> (coalesce [] missing = [] \<longleftrightarrow> missing = [])"
    using coalesce_keeps[of "[]" missing missing] assms by (auto simp: tight_def)
  then show "spans gatewayRunGap (gatewayRanges missing)" "length (gatewayRanges missing) \<le> 8"
    "\<And>m. m \<in> set missing \<Longrightarrow> covered (gatewayRanges missing) m" "tight missing (gatewayRanges missing)"
    "gatewayRanges missing = [] \<longleftrightarrow> missing = []"
    using shrink_keeps[of gatewayRunGap "coalesce [] missing" missing]
    by (auto simp: gatewayRanges_def gatewayMaxRanges_def gatewayRunGap_def)
qed

text \<open>What a leaf resume asks a gateway for: from the missing spans of a file (sorted, not
  overlapping, adjacent ones allowed), at most eight ranges, more than \<open>gatewayRunGap\<close> bytes apart and
  in file order; every missing byte lies in one of them, each begins and ends with missing bytes,
  and nothing is asked for exactly when nothing is missing.\<close>

theorem gateway_ranges_cover:
  assumes "spans (-1) missing"
  shows "spans gatewayRunGap (gatewayRanges missing) \<and> length (gatewayRanges missing) \<le> 8
    \<and> (\<forall>m\<in>set missing. covered (gatewayRanges missing) m) \<and> tight missing (gatewayRanges missing)
    \<and> (gatewayRanges missing = [] \<longleftrightarrow> missing = [])"
  using gatewayRanges_spec[OF assms] by blast

theorem gateway_ranges_cover_witness:
  "covered (gatewayRanges [\<lparr>br_from = 0, br_to = 9\<rparr>, \<lparr>br_from = 10, br_to = 29\<rparr>]) \<lparr>br_from = 10, br_to = 29\<rparr>"
  using gateway_ranges_cover[of "[\<lparr>br_from = 0, br_to = 9\<rparr>, \<lparr>br_from = 10, br_to = 29\<rparr>]"]
  by (simp add: spans_def)

text \<open>The scope of a request: the whole DAG, the bytes from an offset on, or an inclusive range.\<close>

definition carScopeQuery :: "int \<Rightarrow> int \<Rightarrow> string" where
  "carScopeQuery fromByte toByte =
     (if fromByte < 0 then ''dag-scope=all''
      else if toByte < 0 then ''dag-scope=entity&entity-bytes='' @ decimal (nat fromByte) @ '':*''
      else ''dag-scope=entity&entity-bytes='' @ decimal (nat fromByte) @ '':'' @ decimal (nat toByte))"

definition range_query :: "byteRange \<Rightarrow> string" where
  "range_query r = carScopeQuery (br_from r) (br_to r)"

lemma colon_not_digit: "\<not> is_digit CHR '':''"
  by (simp add: is_digit_def)

text \<open>Two ranges of a file never ask for the same bytes under one query.\<close>

lemma range_query_inj:
  assumes "0 \<le> br_from a" "0 \<le> br_to a" "0 \<le> br_from b" "0 \<le> br_to b" "range_query a = range_query b"
  shows "a = b"
proof -
  have "decimal (nat (br_from a)) @ CHR '':'' # decimal (nat (br_to a)) =
        decimal (nat (br_from b)) @ CHR '':'' # decimal (nat (br_to b))"
    using assms by (simp add: range_query_def carScopeQuery_def)
  then have "nat (br_from a) = nat (br_from b) \<and> decimal (nat (br_to a)) = decimal (nat (br_to b))"
    unfolding decimal_sep[OF colon_not_digit] .
  then show ?thesis using assms by (cases a; cases b) (simp add: eq_nat_nat_iff)
qed

section \<open>The hedged race\<close>

definition trustlessGateways :: "string list" where
  "trustlessGateways = [''https://gateway.pinata.cloud'', ''https://ipfs.io'', ''https://w3s.link'']"

datatype 'e race_out = Racing | Streaming nat | Served | Stream_failed 'e | All_failed "'e option" | Ctx_cancelled

text \<open>
  \<open>rc_waiting\<close> holds the candidates opened whose report is still to come, \<open>rc_cancelled\<close> those whose
  context is cancelled, \<open>rc_bodies\<close> the response bodies taken from the channel and not closed;
  \<open>rc_hedged\<close> remembers that the hedge timer has fired.
\<close>

record 'e race =
  rc_fired :: nat
  rc_received :: nat
  rc_waiting :: "nat set"
  rc_cancelled :: "nat set"
  rc_bodies :: "nat set"
  rc_lastErr :: "'e option"
  rc_drain :: nat
  rc_hedged :: bool
  rc_out :: "'e race_out"

definition race_start :: "string list \<Rightarrow> 'e race" where
  "race_start gws =
     \<lparr>rc_fired = 1, rc_received = 0, rc_waiting = {0}, rc_cancelled = {}, rc_bodies = {}, rc_lastErr = None,
      rc_drain = 0, rc_hedged = False, rc_out = Racing\<rparr>"

definition fireRest :: "string list \<Rightarrow> 'e race \<Rightarrow> 'e race" where
  "fireRest gws r =
     r\<lparr>rc_waiting := rc_waiting r \<union> {rc_fired r..<length gws}, rc_fired := max (rc_fired r) (length gws)\<rparr>"

definition on_hedge :: "string list \<Rightarrow> 'e race \<Rightarrow> 'e race" where
  "on_hedge gws r = (fireRest gws r)\<lparr>rc_hedged := True\<rparr>"

definition on_failure :: "string list \<Rightarrow> nat \<Rightarrow> 'e \<Rightarrow> 'e race \<Rightarrow> 'e race" where
  "on_failure gws i e r =
     (let r1 = r\<lparr>rc_waiting := rc_waiting r - {i}, rc_received := rc_received r + 1, rc_lastErr := Some e\<rparr>;
          r2 = (if rc_fired r1 < length gws then fireRest gws r1 else r1) in
      if rc_received r2 < length gws then r2
      else r2\<lparr>rc_out := All_failed (rc_lastErr r2), rc_cancelled := {..<length gws}\<rparr>)"

definition on_commit :: "string list \<Rightarrow> nat \<Rightarrow> 'e race \<Rightarrow> 'e race" where
  "on_commit gws i r =
     (let received = rc_received r + 1 in
      r\<lparr>rc_waiting := rc_waiting r - {i}, rc_received := received,
        rc_cancelled := rc_cancelled r \<union> {j. j < rc_fired r \<and> gws ! j \<noteq> gws ! i},
        rc_bodies := insert i (rc_bodies r),
        rc_drain := rc_fired r - received,
        rc_fired := max (rc_fired r) (length gws),
        rc_out := Streaming i\<rparr>)"

definition stream_end :: "string list \<Rightarrow> nat \<Rightarrow> 'e option \<Rightarrow> 'e race \<Rightarrow> 'e race" where
  "stream_end gws i err r =
     r\<lparr>rc_bodies := rc_bodies r - {i}, rc_cancelled := rc_cancelled r \<union> {..<length gws},
       rc_out := (case err of None \<Rightarrow> Served | Some e \<Rightarrow> Stream_failed e)\<rparr>"

definition drain_loser :: "nat \<Rightarrow> bool \<Rightarrow> 'e race \<Rightarrow> 'e race" where
  "drain_loser i cand r =
     (let r1 = r\<lparr>rc_waiting := rc_waiting r - {i}, rc_drain := rc_drain r - 1\<rparr> in
      if cand then r1\<lparr>rc_cancelled := insert i (rc_cancelled r1), rc_bodies := rc_bodies r1 - {i}\<rparr> else r1)"

definition on_ctx_done :: "string list \<Rightarrow> 'e race \<Rightarrow> 'e race" where
  "on_ctx_done gws r = r\<lparr>rc_cancelled := {..<length gws}, rc_out := Ctx_cancelled\<rparr>"

inductive gw_step :: "string list \<Rightarrow> 'e race \<Rightarrow> 'e race \<Rightarrow> bool" for gws where
  gw_failure: "rc_out r = Racing \<Longrightarrow> i \<in> rc_waiting r \<Longrightarrow> gw_step gws r (on_failure gws i e r)"
| gw_commit: "rc_out r = Racing \<Longrightarrow> i \<in> rc_waiting r \<Longrightarrow> gw_step gws r (on_commit gws i r)"
| gw_hedge: "rc_out r = Racing \<Longrightarrow> gw_step gws r (on_hedge gws r)"
| gw_ctx: "rc_out r = Racing \<Longrightarrow> gw_step gws r (on_ctx_done gws r)"
| gw_end: "rc_out r = Streaming i \<Longrightarrow> gw_step gws r (stream_end gws i err r)"
| gw_drain: "rc_drain r > 0 \<Longrightarrow> i \<in> rc_waiting r \<Longrightarrow> gw_step gws r (drain_loser i cand r)"

definition race_inv :: "string list \<Rightarrow> 'e race \<Rightarrow> bool" where
  "race_inv gws r \<longleftrightarrow> rc_waiting r \<subseteq> {..<length gws} \<and>
     (case rc_out r of
        Racing \<Rightarrow> 0 < rc_fired r \<and> rc_fired r \<le> length gws \<and> rc_waiting r \<subseteq> {..<rc_fired r}
          \<and> card (rc_waiting r) + rc_received r = rc_fired r \<and> rc_received r < length gws
          \<and> rc_bodies r = {} \<and> rc_cancelled r = {} \<and> rc_drain r = 0
          \<and> (rc_lastErr r = None \<longleftrightarrow> rc_received r = 0)
          \<and> (rc_fired r < length gws \<longrightarrow> rc_received r = 0)
          \<and> (\<not> rc_hedged r \<and> rc_lastErr r = None \<longrightarrow> rc_waiting r = {0})
      | Streaming i \<Rightarrow> i < length gws \<and> rc_bodies r = {i} \<and> i \<notin> rc_cancelled r \<and> i \<notin> rc_waiting r
          \<and> rc_waiting r \<subseteq> rc_cancelled r \<and> card (rc_waiting r) = rc_drain r
      | All_failed e \<Rightarrow> e \<noteq> None \<and> rc_received r = length gws \<and> rc_waiting r = {} \<and> rc_bodies r = {} \<and> rc_drain r = 0
      | Ctx_cancelled \<Rightarrow> rc_bodies r = {} \<and> rc_waiting r \<subseteq> rc_cancelled r \<and> rc_drain r = 0
      | _ \<Rightarrow> rc_bodies r = {} \<and> rc_waiting r \<subseteq> rc_cancelled r \<and> card (rc_waiting r) = rc_drain r)"

lemma race_inv_waiting_finite: "race_inv gws r \<Longrightarrow> finite (rc_waiting r)"
  unfolding race_inv_def using finite_subset[OF _ finite_lessThan] by blast

lemma race_inv_racing:
  "race_inv gws r \<Longrightarrow> rc_out r = Racing \<Longrightarrow>
     rc_waiting r \<subseteq> {..<length gws} \<and> 0 < rc_fired r \<and> rc_fired r \<le> length gws \<and> rc_waiting r \<subseteq> {..<rc_fired r}
     \<and> card (rc_waiting r) + rc_received r = rc_fired r \<and> rc_received r < length gws
     \<and> rc_bodies r = {} \<and> rc_cancelled r = {} \<and> rc_drain r = 0
     \<and> (rc_lastErr r = None \<longleftrightarrow> rc_received r = 0) \<and> (rc_fired r < length gws \<longrightarrow> rc_received r = 0)
     \<and> (\<not> rc_hedged r \<and> rc_lastErr r = None \<longrightarrow> rc_waiting r = {0})"
  by (simp add: race_inv_def)

lemma fire_rest_card:
  "w \<subseteq> {..<f} \<Longrightarrow> f \<le> n \<Longrightarrow> card (w \<union> {f..<n}) = card w + (n - f)"
proof -
  assume a: "w \<subseteq> {..<f}" "f \<le> n"
  then have "finite w" "w \<inter> {f..<n} = {}" using finite_subset by auto
  then show ?thesis by (simp add: card_Un_disjoint)
qed

lemma race_inv_hedge:
  assumes "race_inv gws r" "rc_out r = Racing"
  shows "race_inv gws (on_hedge gws r)"
proof -
  note R = race_inv_racing[OF assms]
  have "card (rc_waiting r \<union> {rc_fired r..<length gws}) = card (rc_waiting r) + (length gws - rc_fired r)"
    using R by (intro fire_rest_card) auto
  then have "card (rc_waiting r \<union> {rc_fired r..<length gws}) + rc_received r = length gws" using R by linarith
  moreover have "gws \<noteq> []" using R by auto
  moreover have "rc_waiting r \<union> {rc_fired r..<length gws} \<subseteq> {..<length gws}" using R by auto
  ultimately show ?thesis using R assms(2)
    by (simp add: race_inv_def on_hedge_def fireRest_def max_absorb2)
qed

lemma race_inv_failure:
  assumes "race_inv gws r" "rc_out r = Racing" "i \<in> rc_waiting r"
  shows "race_inv gws (on_failure gws i e r)"
proof -
  note R = race_inv_racing[OF assms(1,2)]
  note fin = race_inv_waiting_finite[OF assms(1)]
  have c: "card (rc_waiting r - {i}) = card (rc_waiting r) - 1" "0 < card (rc_waiting r)"
    using fin assms(3) by (auto simp: card_gt_0_iff)
  show ?thesis
  proof (cases "rc_fired r < length gws")
    case True
    have "card ((rc_waiting r - {i}) \<union> {rc_fired r..<length gws}) = card (rc_waiting r - {i}) + (length gws - rc_fired r)"
      using R by (intro fire_rest_card) auto
    then have "card ((rc_waiting r - {i}) \<union> {rc_fired r..<length gws}) + Suc (rc_received r) = length gws"
      using R c by linarith
    moreover have "gws \<noteq> []" using R by auto
    moreover have "(rc_waiting r - {i}) \<union> {rc_fired r..<length gws} \<subseteq> {..<length gws}" using R by auto
    moreover have "Suc (rc_received r) < length gws" using R True c by linarith
    ultimately show ?thesis using R assms(2) True
      by (simp add: race_inv_def on_failure_def fireRest_def max_absorb2 Let_def)
  next
    case False
    then have f: "rc_fired r = length gws" using R by simp
    show ?thesis
    proof (cases "rc_received r + 1 < length gws")
      case True
      then show ?thesis using R c assms(2) f by (auto simp: race_inv_def on_failure_def Let_def)
    next
      case False
      then have "card (rc_waiting r) = 1" using R f c by linarith
      then have "rc_waiting r - {i} = {}" using assms(3) by (metis card_1_singletonE Diff_eq_empty_iff singletonD subset_refl)
      then show ?thesis using R assms(2) f False by (auto simp: race_inv_def on_failure_def Let_def)
    qed
  qed
qed

lemma race_inv_commit:
  assumes "race_inv gws r" "rc_out r = Racing" "i \<in> rc_waiting r" "distinct gws"
  shows "race_inv gws (on_commit gws i r)"
proof -
  note R = race_inv_racing[OF assms(1,2)]
  have i: "i < rc_fired r" "i < length gws" using R assms(3) by auto
  have c: "card (rc_waiting r - {i}) = card (rc_waiting r) - 1"
    using race_inv_waiting_finite[OF assms(1)] assms(3) by simp
  have "rc_waiting r - {i} \<subseteq> {j. j < rc_fired r \<and> gws ! j \<noteq> gws ! i}"
    using R assms(4) i by (auto simp: nth_eq_iff_index_eq)
  then show ?thesis using R c i assms(2) by (auto simp: race_inv_def on_commit_def Let_def)
qed

lemma race_inv_drain:
  assumes "race_inv gws r" "rc_drain r > 0" "i \<in> rc_waiting r"
  shows "race_inv gws (drain_loser i cand r)"
proof -
  have c: "card (rc_waiting r - {i}) = card (rc_waiting r) - 1"
    using race_inv_waiting_finite[OF assms(1)] assms(3) by simp
  then show ?thesis using assms
    by (cases "rc_out r") (auto simp: race_inv_def drain_loser_def Let_def)
qed

interpretation gateway: step_invariant "\<lambda>r. r = race_start trustlessGateways" "gw_step trustlessGateways"
  "race_inv trustlessGateways"
proof
  fix r r' :: "'a race"
  show "r = race_start trustlessGateways \<Longrightarrow> race_inv trustlessGateways r"
    by (simp add: race_inv_def race_start_def trustlessGateways_def)
  have d: "distinct trustlessGateways" by (simp add: trustlessGateways_def)
  assume I: "race_inv trustlessGateways r" and s: "gw_step trustlessGateways r r'"
  from s show "race_inv trustlessGateways r'"
  proof (cases rule: gw_step.cases)
    case (gw_end i err)
    then show ?thesis using I by (auto simp: race_inv_def stream_end_def split: option.splits)
  next
    case gw_ctx
    then show ?thesis using I by (simp add: race_inv_def on_ctx_done_def)
  qed (use I d in \<open>auto intro: race_inv_failure race_inv_commit race_inv_hedge race_inv_drain\<close>)
qed

text \<open>C39. The hedged race, in every interleaving of reports, the hedge timer, cancellation and the
  end of the winner's stream: the primary runs alone until it fails or the timer fires; the race
  never waits when no report can come; one candidate at most streams, its context alive and every
  other one cancelled, with exactly the outstanding reports left to drain; "all failed" is answered
  only after every gateway has reported, with an error; and nothing is left open when it returns.\<close>

theorem gateway_race_sound:
  assumes "reachable (\<lambda>r. r = race_start trustlessGateways) (gw_step trustlessGateways) r"
  shows "(rc_out r = Racing \<and> \<not> rc_hedged r \<and> rc_lastErr r = None \<longrightarrow> rc_waiting r = {0})
    \<and> (rc_out r = Racing \<longrightarrow> rc_waiting r \<noteq> {})
    \<and> (\<forall>i. rc_out r = Streaming i \<longrightarrow>
         rc_bodies r = {i} \<and> i \<notin> rc_cancelled r \<and> rc_waiting r \<subseteq> rc_cancelled r \<and> card (rc_waiting r) = rc_drain r)
    \<and> (\<forall>e. rc_out r = All_failed e \<longrightarrow> e \<noteq> None \<and> rc_received r = 3 \<and> rc_waiting r = {})
    \<and> (rc_out r \<noteq> Racing \<and> (\<forall>i. rc_out r \<noteq> Streaming i) \<longrightarrow> rc_bodies r = {} \<and> rc_waiting r \<subseteq> rc_cancelled r)"
proof -
  have I: "race_inv trustlessGateways r" using assms by (rule gateway.reachable_inv)
  have "rc_out r = Racing \<Longrightarrow> rc_waiting r \<noteq> {}"
  proof
    assume "rc_out r = Racing" "rc_waiting r = {}"
    then show False using race_inv_racing[OF I] by (metis add_0 card.empty less_irrefl less_le_trans neq0_conv)
  qed
  then show ?thesis using I
    by (cases "rc_out r") (auto simp: race_inv_def trustlessGateways_def)
qed

lemma race_example:
  "reachable (\<lambda>r. r = race_start trustlessGateways) (gw_step trustlessGateways)
     (on_commit trustlessGateways 2 (on_hedge trustlessGateways (race_start trustlessGateways)) :: string race)"
proof -
  let ?r0 = "race_start trustlessGateways :: string race"
  have "reachable (\<lambda>r. r = race_start trustlessGateways) (gw_step trustlessGateways) ?r0" by (rule reach_init) simp
  then have "reachable (\<lambda>r. r = race_start trustlessGateways) (gw_step trustlessGateways) (on_hedge trustlessGateways ?r0)"
    by (rule reach_step) (rule gw_hedge, simp add: race_start_def)
  then show ?thesis
    by (rule reach_step) (rule gw_commit, simp_all add: race_start_def on_hedge_def fireRest_def trustlessGateways_def)
qed

theorem gateway_race_sound_witness:
  "rc_bodies (on_commit trustlessGateways 2 (on_hedge trustlessGateways (race_start trustlessGateways)) :: string race) = {2}"
  using gateway_race_sound[OF race_example] by (simp add: on_commit_def Let_def)

section \<open>The winner's CAR\<close>

datatype 'c car_item = Car_block 'c bytes | Car_error

record 'c response =
  rs_status :: int
  rs_header_ok :: bool
  rs_items :: "'c car_item list"

datatype gw_error =
  No_answer | Bad_status int | Bad_header | Empty_car | First_block | Bad_cid | Put_error | Read_error | No_root

text \<open>\<open>openCarCandidate\<close>: the first block, verified, and what follows it in the stream.\<close>

definition openCarCandidate :: "('c \<Rightarrow> bytes \<Rightarrow> bool) \<Rightarrow> 'c response option \<Rightarrow> gw_error + (('c \<times> bytes) \<times> 'c car_item list)" where
  "openCarCandidate verified resp =
     (case resp of None \<Rightarrow> Inl No_answer
      | Some r \<Rightarrow>
          if rs_status r \<noteq> 200 then Inl (Bad_status (rs_status r))
          else if \<not> rs_header_ok r then Inl Bad_header
          else (case rs_items r of
              [] \<Rightarrow> Inl Empty_car
            | Car_error # _ \<Rightarrow> Inl First_block
            | Car_block c b # rest \<Rightarrow> if verified c b then Inr ((c, b), rest) else Inl Bad_cid))"

record 'c car_import =
  ci_store :: "'c \<Rightarrow> bytes option"
  ci_read :: nat
  ci_shown :: "nat list"

definition put_block :: "('c \<Rightarrow> bool) \<Rightarrow> 'c \<Rightarrow> bytes \<Rightarrow> 'c car_import \<Rightarrow> 'c car_import \<times> bool" where
  "put_block put_ok c b s =
     (let s1 = s\<lparr>ci_read := ci_read s + length b, ci_shown := ci_shown s @ [ci_read s + length b]\<rparr> in
      if put_ok c then (s1\<lparr>ci_store := (ci_store s1)(c \<mapsto> b)\<rparr>, True) else (s1, False))"

fun import_rest :: "('c \<Rightarrow> bytes \<Rightarrow> bool) \<Rightarrow> ('c \<Rightarrow> bool) \<Rightarrow> 'c car_item list \<Rightarrow> nat \<Rightarrow> 'c car_import
    \<Rightarrow> 'c car_import \<times> (gw_error + nat)" where
  "import_rest verified put_ok [] got s = (s, Inr got)"
| "import_rest verified put_ok (Car_error # r) got s = (s, Inl Read_error)"
| "import_rest verified put_ok (Car_block c b # r) got s =
     (if \<not> verified c b then (s, Inl Bad_cid)
      else (case put_block put_ok c b s of
          (s', False) \<Rightarrow> (s', Inl Put_error)
        | (s', True) \<Rightarrow> import_rest verified put_ok r (got + 1) s'))"

definition streamCarCandidate :: "('c \<Rightarrow> bytes \<Rightarrow> bool) \<Rightarrow> ('c \<Rightarrow> bool) \<Rightarrow> 'c \<times> bytes \<Rightarrow> 'c car_item list \<Rightarrow> 'c
    \<Rightarrow> ('c \<Rightarrow> bytes option) \<Rightarrow> 'c car_import \<times> (gw_error + nat)" where
  "streamCarCandidate verified put_ok first rest root st =
     (case put_block put_ok (fst first) (snd first) \<lparr>ci_store = st, ci_read = 0, ci_shown = []\<rparr> of
        (s, False) \<Rightarrow> (s, Inl Put_error)
      | (s, True) \<Rightarrow>
          (case import_rest verified put_ok rest 1 s of
             (s', Inl e) \<Rightarrow> (s', Inl e)
           | (s', Inr got) \<Rightarrow> if ci_store s' root = None then (s', Inl No_root) else (s', Inr got)))"

definition gateway_attempt :: "('c \<Rightarrow> bytes \<Rightarrow> bool) \<Rightarrow> ('c \<Rightarrow> bool) \<Rightarrow> 'c response option \<Rightarrow> 'c
    \<Rightarrow> ('c \<Rightarrow> bytes option) \<Rightarrow> 'c car_import \<times> (gw_error + nat)" where
  "gateway_attempt verified put_ok resp root st =
     (case openCarCandidate verified resp of
        Inl e \<Rightarrow> (\<lparr>ci_store = st, ci_read = 0, ci_shown = []\<rparr>, Inl e)
      | Inr (first, rest) \<Rightarrow> streamCarCandidate verified put_ok first rest root st)"

text \<open>Every block of the stream is sound, and the store after a full import.\<close>

definition sound_items :: "('c \<Rightarrow> bytes \<Rightarrow> bool) \<Rightarrow> ('c \<Rightarrow> bool) \<Rightarrow> 'c car_item list \<Rightarrow> bool" where
  "sound_items verified put_ok items = list_all (\<lambda>x. case x of Car_error \<Rightarrow> False | Car_block c b \<Rightarrow> verified c b \<and> put_ok c) items"

definition item_cids :: "'c car_item list \<Rightarrow> 'c set" where
  "item_cids items = {c. \<exists>b. Car_block c b \<in> set items}"

lemma item_cids_simps [simp]:
  "item_cids [] = {}" "item_cids (Car_block c b # r) = insert c (item_cids r)" "item_cids (Car_error # r) = item_cids r"
  by (auto simp: item_cids_def)

text \<open>What an import never does: store bytes that do not hash to their CID, or drop a block.\<close>

definition store_grows :: "('c \<Rightarrow> bytes \<Rightarrow> bool) \<Rightarrow> ('c \<Rightarrow> bytes option) \<Rightarrow> ('c \<Rightarrow> bytes option) \<Rightarrow> bool" where
  "store_grows verified st st' \<longleftrightarrow>
     (\<forall>c b. st' c = Some b \<longrightarrow> st c = Some b \<or> verified c b) \<and> (\<forall>c. st c \<noteq> None \<longrightarrow> st' c \<noteq> None)"

lemma store_grows_refl [simp]: "store_grows verified st st"
  by (simp add: store_grows_def)

lemma store_grows_trans: "store_grows v a b \<Longrightarrow> store_grows v b c \<Longrightarrow> store_grows v a c"
  unfolding store_grows_def by meson

lemma store_grows_put: "verified c b \<Longrightarrow> store_grows verified st (st(c \<mapsto> b))"
  by (auto simp: store_grows_def)

lemma import_rest_spec:
  "import_rest verified put_ok items got s = (s', res) \<Longrightarrow>
   store_grows verified (ci_store s) (ci_store s')
   \<and> (isl res \<longleftrightarrow> \<not> sound_items verified put_ok items)
   \<and> (\<not> isl res \<longrightarrow> res = Inr (got + length items) \<and> dom (ci_store s') = dom (ci_store s) \<union> item_cids items)"
proof (induction verified put_ok items got s arbitrary: s' res rule: import_rest.induct)
  case (3 verified put_ok c b r got s)
  show ?case
  proof (cases "verified c b \<and> put_ok c")
    case True
    obtain t where p: "put_block put_ok c b s = (t, True)" "ci_store t = (ci_store s)(c \<mapsto> b)"
      using True by (simp_all add: put_block_def Let_def)
    have e: "import_rest verified put_ok r (got + 1) t = (s', res)" using "3.prems" True p(1) by simp
    have IH: "store_grows verified (ci_store t) (ci_store s')
      \<and> (isl res \<longleftrightarrow> \<not> sound_items verified put_ok r)
      \<and> (\<not> isl res \<longrightarrow> res = Inr (got + 1 + length r) \<and> dom (ci_store s') = dom (ci_store t) \<union> item_cids r)"
      using "3.IH"[of t] e True p(1) by simp
    have "store_grows verified (ci_store s) (ci_store t)" using True p(2) by (simp add: store_grows_put)
    with IH have "store_grows verified (ci_store s) (ci_store s')" by (blast intro: store_grows_trans)
    then show ?thesis using IH True p(2) by (auto simp: sound_items_def)
  next
    case False
    then show ?thesis using "3.prems"
      by (auto simp: put_block_def Let_def sound_items_def split: if_splits)
  qed
qed (auto simp: sound_items_def)

text \<open>C6. The gateway is an untrusted mirror: whatever it answers, a block enters the store only if
  its bytes hash to its CID, and nothing the store held is lost; an attempt succeeds exactly when the
  answer is a 200 whose CAR is readable to its end, not empty, all of whose blocks verify and are
  stored, and the store then holds the root; it then counts every block.\<close>

theorem gateway_trustless:
  "case gateway_attempt verified put_ok resp root st of (s', res) \<Rightarrow>
     store_grows verified st (ci_store s')
     \<and> (\<not> isl res \<longleftrightarrow> (\<exists>r. resp = Some r \<and> rs_status r = 200 \<and> rs_header_ok r \<and> rs_items r \<noteq> []
          \<and> sound_items verified put_ok (rs_items r) \<and> (root \<in> item_cids (rs_items r) \<or> st root \<noteq> None)))
     \<and> (\<not> isl res \<longrightarrow> res = Inr (length (rs_items (the resp))) \<and> ci_store s' root \<noteq> None
          \<and> item_cids (rs_items (the resp)) \<subseteq> dom (ci_store s'))"
proof (cases "openCarCandidate verified resp")
  case (Inl e)
  then show ?thesis
    by (auto simp: gateway_attempt_def openCarCandidate_def sound_items_def
        split: option.splits if_splits list.splits car_item.splits)
next
  case (Inr fr)
  then obtain r c b rest where o: "resp = Some r" "rs_status r = 200" "rs_header_ok r" "rs_items r = Car_block c b # rest"
    "verified c b" "fr = ((c, b), rest)"
    by (auto simp: openCarCandidate_def split: option.splits if_splits list.splits car_item.splits)
  show ?thesis
  proof (cases "put_ok c")
    case False
    then show ?thesis using Inr o
      by (simp add: gateway_attempt_def streamCarCandidate_def put_block_def Let_def sound_items_def)
  next
    case True
    let ?s = "\<lparr>ci_store = st(c \<mapsto> b), ci_read = length b, ci_shown = [length b]\<rparr>"
    obtain s' res where i: "import_rest verified put_ok rest 1 ?s = (s', res)" by fastforce
    note S = import_rest_spec[OF i]
    have g: "store_grows verified st (ci_store s')"
      using S o(5) store_grows_trans[OF store_grows_put] by fastforce
    have at: "gateway_attempt verified put_ok resp root st =
      (case res of Inl e \<Rightarrow> (s', Inl e) | Inr got \<Rightarrow> if ci_store s' root = None then (s', Inl No_root) else (s', Inr got))"
      using Inr o True i by (simp add: gateway_attempt_def streamCarCandidate_def put_block_def Let_def)
    show ?thesis
    proof (cases res)
      case (Inl e)
      then show ?thesis using at g S o True by (auto simp: sound_items_def)
    next
      case (Inr got)
      then have d: "dom (ci_store s') = insert c (dom st) \<union> item_cids rest" "got = 1 + length rest"
        "sound_items verified put_ok rest" using S by auto
      have "ci_store s' root = None \<longleftrightarrow> root \<notin> insert c (dom st) \<union> item_cids rest" using d(1) by (metis domIff)
      then show ?thesis using at g Inr o True d by (auto simp: sound_items_def dom_def)
    qed
  qed
qed

theorem gateway_trustless_witness:
  "isl (snd (gateway_attempt (\<lambda>c b. c = length b) (\<lambda>_. True)
     (Some \<lparr>rs_status = 200, rs_header_ok = True, rs_items = [Car_block 2 [1, 2], Car_block 9 [1]]\<rparr>) 2 (\<lambda>_. None)))"
  using gateway_trustless[where verified = "\<lambda>c b. c = length b" and put_ok = "\<lambda>_. True" and resp =
      "Some \<lparr>rs_status = 200, rs_header_ok = True, rs_items = [Car_block 2 [1, 2], Car_block 9 [1]]\<rparr>"
      and root = "2::nat" and st = "\<lambda>_. None"]
  by (auto simp: sound_items_def split: prod.splits)

section \<open>Sizes and the watchdog\<close>

text \<open>A HEAD request's answer: the length of a 200, else unknown; the first gateway that knows it.\<close>

definition headSize :: "(int \<times> int) option \<Rightarrow> int" where
  "headSize resp = (case resp of None \<Rightarrow> -1 | Some (status, len) \<Rightarrow> if status = 200 \<and> len > 0 then len else -1)"

fun gatewaySize :: "(int \<times> int) option list \<Rightarrow> int" where
  "gatewaySize [] = -1"
| "gatewaySize (a # as) = (if headSize a > 0 then headSize a else gatewaySize as)"

lemma gateway_size_known: "gatewaySize as > 0 \<or> gatewaySize as = -1"
  by (induction as) (auto simp: headSize_def split: option.splits)

end
