(* ===== verification/Resume.thy ===== *)
theory Resume
  imports Prelude
begin

text \<open>
  The resume sidecar of a file fetch (\<open>resume.go\<close>): one bit per leaf of the file, kept beside the
  preallocated \<open>dest.tmp\<close> in \<open>dest.part\<close>. The bitmap operations work on the bytes as the code's
  do, with \<open>None\<close> for the run-time panic of an index out of range; the disk is a map from paths to
  file contents, and a fault says at which of \<open>savePart\<close>'s system calls the write stops.
\<close>

section \<open>The bitmap\<close>

record partBits =
  pb_root :: bytes
  pb_total :: "64 word"
  pb_count :: nat
  pb_nset :: nat
  pb_bits :: bytes

definition newPartBits :: "bytes \<Rightarrow> 64 word \<Rightarrow> nat \<Rightarrow> partBits" where
  "newPartBits root tot cnt =
     \<lparr>pb_root = root, pb_total = tot, pb_count = cnt, pb_nset = 0,
      pb_bits = replicate ((cnt + 7) div 8) 0\<rparr>"

definition leaf_bit :: "nat \<Rightarrow> byte" where
  "leaf_bit i = push_bit (i mod 8) 1"

definition pb_get :: "partBits \<Rightarrow> nat \<Rightarrow> bool option" where
  "pb_get p i =
     (if i div 8 < length (pb_bits p) then Some (pb_bits p ! (i div 8) AND leaf_bit i \<noteq> 0) else None)"

definition pb_set :: "partBits \<Rightarrow> nat \<Rightarrow> partBits option" where
  "pb_set p i =
     (if \<not> i div 8 < length (pb_bits p) then None
      else if pb_bits p ! (i div 8) AND leaf_bit i = 0
      then Some (p\<lparr>pb_bits := (pb_bits p)[i div 8 := pb_bits p ! (i div 8) OR leaf_bit i],
                   pb_nset := pb_nset p + 1\<rparr>)
      else Some p)"

definition allSet :: "partBits \<Rightarrow> bool" where
  "allSet p \<longleftrightarrow> pb_nset p = pb_count p"

text \<open>The set bits among the leaves, and the invariant that ties the counter to them.\<close>

definition leaves_done :: "partBits \<Rightarrow> nat set" where
  "leaves_done p = {i. i < pb_count p \<and> pb_get p i = Some True}"

definition pb_ok :: "partBits \<Rightarrow> bool" where
  "pb_ok p \<longleftrightarrow> length (pb_bits p) = (pb_count p + 7) div 8 \<and> pb_nset p = card (leaves_done p)"

lemma leaf_bit_test: "x AND leaf_bit i \<noteq> 0 \<longleftrightarrow> bit x (i mod 8)"
proof
  assume "x AND leaf_bit i \<noteq> 0"
  then obtain n where "bit (x AND leaf_bit i) n" by (auto simp: bit_eq_iff)
  then show "bit x (i mod 8)" by (auto simp: leaf_bit_def bit_simps)
next
  assume "bit x (i mod 8)"
  then have "bit (x AND leaf_bit i) (i mod 8)" by (auto simp: leaf_bit_def bit_simps)
  then show "x AND leaf_bit i \<noteq> 0" by auto
qed

lemma bit_or_leaf_bit: "bit (x OR leaf_bit i) (j mod 8) \<longleftrightarrow> bit x (j mod 8) \<or> j mod 8 = i mod 8"
  by (auto simp: leaf_bit_def bit_simps)

lemma pb_get_bit:
  "pb_get p i = (if i div 8 < length (pb_bits p) then Some (bit (pb_bits p ! (i div 8)) (i mod 8)) else None)"
  by (simp add: pb_get_def leaf_bit_test)

lemma leaf_index: "i < c \<Longrightarrow> i div 8 < (c + 7) div (8::nat)"
  by linarith

lemma pb_get_defined: "pb_ok p \<Longrightarrow> i < pb_count p \<Longrightarrow> pb_get p i \<noteq> None"
  by (simp add: pb_get_def pb_ok_def leaf_index)

lemma finite_leaves_done [simp]: "finite (leaves_done p)"
  by (simp add: leaves_done_def)

lemma leaves_done_below: "leaves_done p \<subseteq> {..<pb_count p}"
  by (auto simp: leaves_done_def)

lemma pb_ok_new: "pb_ok (newPartBits root tot cnt)" "leaves_done (newPartBits root tot cnt) = {}"
proof -
  show "leaves_done (newPartBits root tot cnt) = {}"
    by (auto simp: leaves_done_def newPartBits_def pb_get_bit)
  then show "pb_ok (newPartBits root tot cnt)"
    by (simp add: pb_ok_def newPartBits_def)
qed

lemma pb_set_spec:
  assumes "pb_ok p" "i < pb_count p"
  obtains p' where "pb_set p i = Some p'" "pb_ok p'" "pb_count p' = pb_count p" "pb_root p' = pb_root p"
    "pb_total p' = pb_total p" "leaves_done p' = insert i (leaves_done p)"
proof -
  have ix: "i div 8 < length (pb_bits p)" using assms by (simp add: pb_ok_def leaf_index)
  show ?thesis
  proof (cases "i \<in> leaves_done p")
    case True
    then have "pb_set p i = Some p" using ix by (auto simp: pb_set_def leaves_done_def pb_get_def)
    then show ?thesis using that assms True by (simp add: insert_absorb)
  next
    case False
    then have z: "pb_bits p ! (i div 8) AND leaf_bit i = 0"
      using ix assms(2) by (auto simp: leaves_done_def pb_get_def)
    let ?p = "p\<lparr>pb_bits := (pb_bits p)[i div 8 := pb_bits p ! (i div 8) OR leaf_bit i], pb_nset := pb_nset p + 1\<rparr>"
    have get: "pb_get ?p j = Some True \<longleftrightarrow> pb_get p j = Some True \<or> j = i" for j
    proof (cases "j div 8 = i div 8")
      case True
      then have "j mod 8 = i mod 8 \<longleftrightarrow> j = i" by (metis div_mult_mod_eq)
      then show ?thesis using True ix by (simp add: pb_get_bit bit_or_leaf_bit)
    next
      case False
      then show ?thesis by (auto simp: pb_get_bit)
    qed
    have ins: "leaves_done ?p = insert i (leaves_done p)"
      using get assms(2) by (auto simp: leaves_done_def)
    moreover have "pb_ok ?p" using assms ins False by (simp add: pb_ok_def)
    ultimately show ?thesis using that[of ?p] z ix by (simp add: pb_set_def)
  qed
qed

lemma allSet_iff: "pb_ok p \<Longrightarrow> allSet p \<longleftrightarrow> leaves_done p = {..<pb_count p}"
proof -
  assume "pb_ok p"
  then have "allSet p \<longleftrightarrow> card (leaves_done p) = card {..<pb_count p}" by (simp add: pb_ok_def allSet_def)
  also have "\<dots> \<longleftrightarrow> leaves_done p = {..<pb_count p}"
    using card_subset_eq[OF finite_lessThan leaves_done_below, of p] by metis
  finally show ?thesis .
qed

text \<open>A run of writes: every leaf the loop reports is marked, in any order and any number of times.\<close>

fun pb_set_all :: "partBits \<Rightarrow> nat list \<Rightarrow> partBits option" where
  "pb_set_all p [] = Some p"
| "pb_set_all p (i # is) = (case pb_set p i of None \<Rightarrow> None | Some q \<Rightarrow> pb_set_all q is)"

lemma pb_set_all_spec:
  "pb_ok p \<Longrightarrow> set is \<subseteq> {..<pb_count p} \<Longrightarrow>
   \<exists>q. pb_set_all p is = Some q \<and> pb_ok q \<and> leaves_done q = leaves_done p \<union> set is
     \<and> pb_count q = pb_count p \<and> pb_root q = pb_root p \<and> pb_total q = pb_total p"
proof (induction "is" arbitrary: p)
  case (Cons i "is")
  obtain q where "pb_set p i = Some q" "pb_ok q" "pb_count q = pb_count p" "pb_root q = pb_root p"
    "pb_total q = pb_total p" "leaves_done q = insert i (leaves_done p)"
    using Cons.prems by (auto elim: pb_set_spec)
  with Cons.IH[of q] Cons.prems show ?case by auto
qed simp

section \<open>The sidecar on disk\<close>

type_synonym disk = "string \<Rightarrow> bytes option"

definition partPath :: "string \<Rightarrow> string" where
  "partPath dest = dest @ ''.part''"

definition tmpPath :: "string \<Rightarrow> string" where
  "tmpPath dest = dest @ ''.tmp''"

definition partExists :: "disk \<Rightarrow> string \<Rightarrow> bool" where
  "partExists d dest \<longleftrightarrow> d (partPath dest) \<noteq> None"

definition removePartial :: "disk \<Rightarrow> string \<Rightarrow> disk" where
  "removePartial d dest = d(tmpPath dest := None, partPath dest := None)"

definition partMagic :: bytes where
  "partMagic = [0x56, 0x47, 0x50, 0x54]"

definition part_bytes :: "partBits \<Rightarrow> bytes" where
  "part_bytes p =
     partMagic @ le_bytes 2 (of_nat (length (pb_root p)) :: 16 word) @ pb_root p
     @ le_bytes 8 (pb_total p) @ le_bytes 8 (of_nat (pb_count p) :: 64 word) @ pb_bits p"

fun count_leaves :: "partBits \<Rightarrow> nat \<Rightarrow> nat" where
  "count_leaves p 0 = 0"
| "count_leaves p (Suc i) = count_leaves p i + (if pb_get p i = Some True then 1 else 0)"

definition part_of_bytes :: "bytes \<Rightarrow> bytes \<Rightarrow> 64 word \<Rightarrow> nat \<Rightarrow> partBits option" where
  "part_of_bytes b root tot cnt =
     (if length b < 6 \<or> take 4 b \<noteq> partMagic then None
      else let rl = unat (get_le (take 2 (drop 4 b)) :: 16 word) in
      if length b < 6 + rl + 16 then None
      else let r = take rl (drop 6 b);
               t = get_le (take 8 (drop (6 + rl) b)) :: 64 word;
               c = sint (get_le (take 8 (drop (6 + rl + 8) b)) :: 64 word);
               nb = (cnt + 7) div 8 in
      if r \<noteq> root \<or> t \<noteq> tot \<or> c \<noteq> int cnt \<or> length b < 6 + rl + 16 + nb then None
      else let p = (newPartBits root tot cnt)\<lparr>pb_bits := take nb (drop (6 + rl + 16) b)\<rparr> in
      Some (p\<lparr>pb_nset := count_leaves p cnt\<rparr>))"

definition loadPart :: "disk \<Rightarrow> string \<Rightarrow> bytes \<Rightarrow> 64 word \<Rightarrow> nat \<Rightarrow> partBits option" where
  "loadPart d dest root tot cnt =
     (case d (partPath dest) of None \<Rightarrow> None | Some b \<Rightarrow> part_of_bytes b root tot cnt)"

text \<open>Where a write of the sidecar can stop; \<open>Write_fault n\<close> has written \<open>n\<close> bytes.\<close>

datatype fault = No_fault | Open_fault | Write_fault nat | Sync_fault | Close_fault | Rename_fault

definition savePart :: "disk \<Rightarrow> string \<Rightarrow> partBits \<Rightarrow> fault \<Rightarrow> disk \<times> bool" where
  "savePart d dest p flt =
     (let buf = part_bytes p; sib = partPath dest @ ''.w'' in
      case flt of
        Open_fault \<Rightarrow> (d, False)
      | Write_fault n \<Rightarrow> (d(sib \<mapsto> take n buf), False)
      | Sync_fault \<Rightarrow> (d(sib \<mapsto> buf), False)
      | Close_fault \<Rightarrow> (d(sib \<mapsto> buf), False)
      | Rename_fault \<Rightarrow> (d(sib \<mapsto> buf), False)
      | No_fault \<Rightarrow> (d(partPath dest \<mapsto> buf, sib := None), True))"

lemma count_leaves_card: "count_leaves p n = card {i. i < n \<and> pb_get p i = Some True}"
proof (induction n)
  case (Suc n)
  have "{i. i < Suc n \<and> pb_get p i = Some True} =
    (if pb_get p n = Some True then insert n {i. i < n \<and> pb_get p i = Some True} else {i. i < n \<and> pb_get p i = Some True})"
    by (auto simp: less_Suc_eq)
  with Suc show ?case by simp
qed simp

lemma pb_get_cong: "pb_bits p = pb_bits q \<Longrightarrow> pb_get p i = pb_get q i"
  by (simp add: pb_get_def)

lemma count_leaves_cong: "pb_bits p = pb_bits q \<Longrightarrow> count_leaves p n = count_leaves q n"
  by (induction n) (simp_all add: pb_get_cong[of p q])

lemma le16_len: "n < 65536 \<Longrightarrow> unat (get_le (le_bytes 2 (of_nat n :: 16 word)) :: 16 word) = n"
  by (simp add: codec_simps unat_of_nat)

lemma sint_le64: "n < 2 ^ 63 \<Longrightarrow> sint (get_le (le_bytes 8 (of_nat n :: 64 word)) :: 64 word) = int n"
proof -
  assume "n < 2 ^ 63"
  then have "int n < 2 ^ 63" by (metis of_nat_less_iff of_nat_numeral of_nat_power)
  then show "sint (get_le (le_bytes 8 (of_nat n :: 64 word)) :: 64 word) = int n"
    by (simp add: codec_simps signed_of_nat signed_take_bit_int_eq_self_iff)
qed

text \<open>What the reader finds at its offsets in bytes the writer made.\<close>

lemma part_fields:
  fixes root bs :: bytes and tot :: "64 word" and cnt k :: nat
  assumes "length root < 65536"
  defines "b \<equiv> part_bytes \<lparr>pb_root = root, pb_total = tot, pb_count = cnt, pb_nset = k, pb_bits = bs\<rparr>"
  shows "length b = 22 + length root + length bs" "take 4 b = partMagic"
    "take 2 (drop 4 b) = le_bytes 2 (of_nat (length root) :: 16 word)"
    "take (length root) (drop 6 b) = root"
    "take 8 (drop (6 + length root) b) = le_bytes 8 tot"
    "take 8 (drop (6 + length root + 8) b) = le_bytes 8 (of_nat cnt :: 64 word)"
    "drop (6 + length root + 16) b = bs"
proof -
  have b: "b = partMagic @ le_bytes 2 (of_nat (length root) :: 16 word) @ root @ le_bytes 8 tot
     @ le_bytes 8 (of_nat cnt :: 64 word) @ bs"
    by (simp add: b_def part_bytes_def)
  have m: "length partMagic = 4" by (simp add: partMagic_def)
  show "length b = 22 + length root + length bs" "take 4 b = partMagic"
    "take 2 (drop 4 b) = le_bytes 2 (of_nat (length root) :: 16 word)"
    "take (length root) (drop 6 b) = root"
    "take 8 (drop (6 + length root) b) = le_bytes 8 tot"
    "take 8 (drop (6 + length root + 8) b) = le_bytes 8 (of_nat cnt :: 64 word)"
    "drop (6 + length root + 16) b = bs"
    using m by (simp_all add: b)
qed

lemma part_of_bytes_own:
  assumes "pb_ok p" "length (pb_root p) < 65536" "pb_count p < 2 ^ 63"
  shows "part_of_bytes (part_bytes p) root tot cnt =
    (if root = pb_root p \<and> tot = pb_total p \<and> cnt = pb_count p then Some p else None)"
proof (cases p)
  case (fields r t c k bs)
  have F: "length (part_bytes p) = 22 + length r + length bs" "take 4 (part_bytes p) = partMagic"
    "take 2 (drop 4 (part_bytes p)) = le_bytes 2 (of_nat (length r) :: 16 word)"
    "take (length r) (drop 6 (part_bytes p)) = r"
    "take 8 (drop (6 + length r) (part_bytes p)) = le_bytes 8 t"
    "take 8 (drop (6 + length r + 8) (part_bytes p)) = le_bytes 8 (of_nat c :: 64 word)"
    "drop (6 + length r + 16) (part_bytes p) = bs"
    using part_fields[of r t c k bs] assms(2) fields by simp_all
  have rl: "unat (get_le (take 2 (drop 4 (part_bytes p))) :: 16 word) = length r"
    unfolding F using assms(2) fields by (simp add: le16_len)
  have c: "sint (get_le (take 8 (drop (6 + length r + 8) (part_bytes p))) :: 64 word) = int c"
    unfolding F using assms(3) fields by (simp add: sint_le64)
  have t: "(get_le (take 8 (drop (6 + length r) (part_bytes p))) :: 64 word) = t"
    unfolding F by (simp add: codec_simps)
  have len: "length bs = (c + 7) div 8" and k: "k = count_leaves p c"
    using assms(1) fields by (simp_all add: pb_ok_def leaves_done_def count_leaves_card)
  have k': "count_leaves ((newPartBits r t c)\<lparr>pb_bits := bs\<rparr>) c = k"
    unfolding k by (rule count_leaves_cong) (simp add: fields)
  have e: "part_of_bytes (part_bytes p) root tot cnt =
    (if r \<noteq> root \<or> t \<noteq> tot \<or> int c \<noteq> int cnt \<or> length (part_bytes p) < 6 + length r + 16 + (cnt + 7) div 8 then None
     else Some (((newPartBits root tot cnt)\<lparr>pb_bits := take ((cnt + 7) div 8) bs\<rparr>)
       \<lparr>pb_nset := count_leaves ((newPartBits root tot cnt)\<lparr>pb_bits := take ((cnt + 7) div 8) bs\<rparr>) cnt\<rparr>))"
    unfolding part_of_bytes_def Let_def rl c t F(4) F(7) by (simp add: F(1,2))
  show ?thesis
  proof (cases "root = r \<and> tot = t \<and> cnt = c")
    case True
    then show ?thesis unfolding e using F(1) len k' by (simp add: fields newPartBits_def)
  next
    case False
    then show ?thesis unfolding e by (auto simp: fields)
  qed
qed

lemma load_after_save:
  "fst (savePart d dest p flt) (partPath dest) =
     (if flt = No_fault then Some (part_bytes p) else d (partPath dest))"
  by (cases flt) (auto simp: savePart_def Let_def)

lemma saved_iff: "snd (savePart d dest p flt) \<longleftrightarrow> flt = No_fault"
  by (cases flt) (simp_all add: savePart_def Let_def)

text \<open>C31. Resume state survives the disk: what \<open>savePart\<close> writes, \<open>loadPart\<close> returns
  bit for bit with its counter, for the same root, size and leaf count and for no other; and a write
  that stops at any of its system calls reports the error and leaves what the next start loads as it
  was before, so a crash never resumes against a half-written bitmap.\<close>

theorem resume_roundtrip:
  assumes "pb_ok p" "length (pb_root p) < 65536" "pb_count p < 2 ^ 63"
  shows "(snd (savePart d dest p flt) \<longleftrightarrow> flt = No_fault) \<and>
    loadPart (fst (savePart d dest p flt)) dest root tot cnt =
      (if flt \<noteq> No_fault then loadPart d dest root tot cnt
       else if root = pb_root p \<and> tot = pb_total p \<and> cnt = pb_count p then Some p
       else None)"
  using part_of_bytes_own[OF assms, of root tot cnt] saved_iff[of d dest p flt]
  by (simp add: loadPart_def load_after_save)

definition part_example :: partBits where
  "part_example = \<lparr>pb_root = [0x51], pb_total = 700, pb_count = 9, pb_nset = 2, pb_bits = [0x80, 1]\<rparr>"

lemma part_example_ok: "pb_ok part_example"
proof -
  have "count_leaves part_example 9 = 2" by code_simp
  then show ?thesis by (simp add: pb_ok_def leaves_done_def count_leaves_card part_example_def)
qed

theorem resume_roundtrip_witness:
  "loadPart (fst (savePart (\<lambda>_. None) ''a'' part_example No_fault)) ''a'' [0x51] 700 9 = Some part_example
   \<and> loadPart (fst (savePart (\<lambda>_. None) ''a'' part_example (Write_fault 7))) ''a'' [0x51] 700 9 = None"
  using resume_roundtrip[OF part_example_ok, of "\<lambda>_. None" "''a''" No_fault "[0x51]" 700 9]
    resume_roundtrip[OF part_example_ok, of "\<lambda>_. None" "''a''" "Write_fault 7" "[0x51]" 700 9]
  by (simp add: part_example_def loadPart_def)

text \<open>The bitmap counts exactly: a fresh one has no leaf, marking leaves of the file in any order
  and with repetitions never panics, the leaves read back are exactly those marked (by earlier runs or
  this one), and \<open>allSet\<close> answers true exactly when every leaf of the file has been marked.\<close>

theorem resume_bits_exact:
  assumes "pb_ok p" "set is \<subseteq> {..<pb_count p}"
  shows "\<exists>q. pb_set_all p is = Some q \<and> pb_ok q \<and> leaves_done q = leaves_done p \<union> set is
    \<and> (allSet q \<longleftrightarrow> leaves_done p \<union> set is = {..<pb_count p})"
  using pb_set_all_spec[OF assms] allSet_iff by fastforce

theorem resume_bits_exact_witness:
  "\<exists>q. pb_set_all (newPartBits [] 3 3) [2, 0, 2, 1] = Some q \<and> allSet q"
  using resume_bits_exact[OF pb_ok_new(1), of "[2, 0, 2, 1]" "[]" 3 3] pb_ok_new(2)[of "[]" 3 3]
  by (auto simp: newPartBits_def lessThan_def)

end
