(* ===== verification/Provide.thy ===== *)
theory Provide
  imports Prelude "HOL-Library.AList"
begin

text \<open>
  Making what we hold findable (\<open>provide.go\<close>, \<open>seedannounce.go\<close>): the keys waiting to be handed to
  the sweeping provider, those handed over and not yet known announced, and the marks in the
  datastore that survive a restart. The provider is not under \<open>src/\<close>: a \<open>StartProviding\<close> call is a
  step of the environment that files some of the keys (all of them, when it returns no error), and
  what \<open>Stats\<close> answers is an argument. Every lock-held stretch of the code is one definition here,
  so flushes, confirmations, offers and stops of several goroutines interleave between them.
\<close>

section \<open>State\<close>

record 'k provideState =
  pv_pending :: "('k \<times> bool) list" \<comment> \<open>key and force\<close>
  pv_unconfirmed :: "('k \<times> nanos) list" \<comment> \<open>key and when it was handed over\<close>
  pv_handed :: "'k set"
  pv_leftover :: "'k list option"
  pv_listed :: bool
  pv_seeded :: bool
  pv_pruneWith :: bool
  pv_wentOffline :: bool
  pv_lostBefore :: nanos
  pv_started :: bool
  pv_ready :: bool
  pv_checkedAt :: "nanos option"
  pv_provider :: bool
  pv_refile :: "'k set"
  pv_announced :: "'k set"
  pv_written :: bool \<comment> \<open>there is a datastore and its batches commit\<close>

definition zeroTime :: nanos where
  "zeroTime = - seconds 62135596800"

definition fresh_run :: "'k set \<Rightarrow> 'k set \<Rightarrow> bool \<Rightarrow> 'k provideState" where
  "fresh_run refile ann written =
     \<lparr>pv_pending = [], pv_unconfirmed = [], pv_handed = {}, pv_leftover = None, pv_listed = False, pv_seeded = False,
      pv_pruneWith = False, pv_wentOffline = False, pv_lostBefore = zeroTime, pv_started = False, pv_ready = False,
      pv_checkedAt = None, pv_provider = False, pv_refile = refile, pv_announced = ann, pv_written = written\<rparr>"

datatype mark = RefileNS | AnnouncedNS

definition setMarks :: "mark \<Rightarrow> 'k list \<Rightarrow> bool \<Rightarrow> 'k provideState \<Rightarrow> 'k provideState" where
  "setMarks ns ks on ps =
     (if \<not> pv_written ps \<or> ks = [] then ps
      else case ns of
        RefileNS \<Rightarrow> ps\<lparr>pv_refile := (if on then pv_refile ps \<union> set ks else pv_refile ps - set ks)\<rparr>
      | AnnouncedNS \<Rightarrow> ps\<lparr>pv_announced := (if on then pv_announced ps \<union> set ks else pv_announced ps - set ks)\<rparr>)"

definition is_announced :: "'k provideState \<Rightarrow> 'k \<Rightarrow> bool" where
  "is_announced ps h \<longleftrightarrow> pv_written ps \<and> h \<in> pv_announced ps"

section \<open>What the provider reports\<close>

record prov_stats =
  st_closed :: bool
  st_connected :: bool
  st_prefix :: int \<comment> \<open>the average prefix length; only its sign is read\<close>
  st_pendingKeys :: nat
  st_pendingRegions :: nat
  st_ongoingKeys :: nat
  st_ongoingRegions :: nat

definition prov_online :: "prov_stats \<Rightarrow> bool" where
  "prov_online st \<longleftrightarrow> st_connected st \<and> st_prefix st \<ge> 0"

definition noteReadiness :: "nanos \<Rightarrow> bool \<Rightarrow> 'k provideState \<Rightarrow> 'k provideState" where
  "noteReadiness now ready ps = ps\<lparr>pv_ready := ready, pv_checkedAt := Some now\<rparr>"

definition providerReadyNow :: "nanos \<Rightarrow> prov_stats option \<Rightarrow> 'k provideState \<Rightarrow> bool \<times> 'k provideState" where
  "providerReadyNow now st ps =
     (let r = (case st of None \<Rightarrow> False | Some st \<Rightarrow> \<not> st_closed st \<and> prov_online st) in (r, noteReadiness now r ps))"

definition providerReadyTTL :: nanos where
  "providerReadyTTL = seconds 5"

definition providerReady :: "nanos \<Rightarrow> prov_stats option \<Rightarrow> 'k provideState \<Rightarrow> bool \<times> 'k provideState" where
  "providerReady now st ps =
     (case pv_checkedAt ps of
        Some t \<Rightarrow> if now - t < providerReadyTTL then (pv_ready ps, ps) else providerReadyNow now st ps
      | None \<Rightarrow> providerReadyNow now st ps)"

definition noteOffline :: "'k provideState \<Rightarrow> 'k provideState" where
  "noteOffline ps = ps\<lparr>pv_wentOffline := True\<rparr>"

definition noteOnline :: "nanos \<Rightarrow> 'k provideState \<Rightarrow> 'k provideState" where
  "noteOnline now ps = (if pv_wentOffline ps then ps\<lparr>pv_wentOffline := False, pv_lostBefore := now\<rparr> else ps)"

definition dropProvider :: "'k provideState \<Rightarrow> 'k provideState" where
  "dropProvider ps = ps\<lparr>pv_pruneWith := False\<rparr>"

section \<open>Offering keys\<close>

definition put_pending :: "'k \<times> bool \<Rightarrow> ('k \<times> bool) list \<Rightarrow> ('k \<times> bool) list" where
  "put_pending x m = AList.update (fst x) (snd x \<or> map_of m (fst x) = Some True) m"

text \<open>\<open>offerProvides\<close> up to its flush: whether the retry loop is to be started.\<close>

definition offerProvides :: "('k \<times> bool) list \<Rightarrow> 'k provideState \<Rightarrow> bool \<times> 'k provideState" where
  "offerProvides keys ps =
     (\<not> pv_started ps, ps\<lparr>pv_pending := fold put_pending keys (pv_pending ps), pv_started := True\<rparr>)"

definition startProviding :: "'k list \<Rightarrow> 'k provideState \<Rightarrow> 'k provideState" where
  "startProviding ks ps =
     (if ks = [] then ps
      else snd (offerProvides (map (\<lambda>k. (k, False)) ks) (ps\<lparr>pv_handed := pv_handed ps \<union> set ks\<rparr>)))"

definition restoreRefiles :: "'k list \<Rightarrow> 'k provideState \<Rightarrow> 'k provideState" where
  "restoreRefiles found ps =
     (if \<not> pv_written ps \<or> found = [] then ps else snd (offerProvides (map (\<lambda>k. (k, True)) found) ps))"

text \<open>\<open>useProvider\<close> before it restores and prunes; \<open>stored\<close> is what the keystore lists, if it can.\<close>

definition useProvider :: "'k list option \<Rightarrow> 'k provideState \<Rightarrow> 'k provideState" where
  "useProvider stored ps =
     (let list = \<not> pv_listed ps;
          ps = ps\<lparr>pv_listed := True, pv_pruneWith := True\<rparr>;
          ps = (if list \<and> stored \<noteq> None then ps\<lparr>pv_leftover := stored\<rparr> else ps) in
      ps\<lparr>pv_provider := True\<rparr>)"

text \<open>\<open>dropLeftovers\<close>: the stale keys and the state without them; what is to be offered again.\<close>

definition drop_stale :: "'k provideState \<Rightarrow> 'k list \<times> 'k provideState" where
  "drop_stale ps =
     (if \<not> pv_seeded ps \<or> \<not> pv_pruneWith ps then ([], ps)
      else case pv_leftover ps of None \<Rightarrow> ([], ps)
        | Some left \<Rightarrow>
            (let stale = filter (\<lambda>k. k \<notin> pv_handed ps) left in
             (stale, ps\<lparr>pv_pending := filter (\<lambda>(k, _). k \<notin> set stale) (pv_pending ps),
                        pv_unconfirmed := filter (\<lambda>(k, _). k \<notin> set stale) (pv_unconfirmed ps),
                        pv_leftover := None\<rparr>)))"

definition clear_marks :: "'k list \<Rightarrow> 'k provideState \<Rightarrow> 'k provideState" where
  "clear_marks ks ps = setMarks AnnouncedNS ks False (setMarks RefileNS ks False ps)"

definition offer_again :: "'k list \<Rightarrow> 'k provideState \<Rightarrow> 'k provideState" where
  "offer_again stale ps =
     (let again = filter (\<lambda>k. k \<in> pv_handed ps) stale in
      if again = [] then ps else snd (offerProvides (map (\<lambda>k. (k, True)) again) ps))"

definition stop_memory :: "'k list \<Rightarrow> 'k provideState \<Rightarrow> 'k provideState" where
  "stop_memory ks ps =
     ps\<lparr>pv_pending := filter (\<lambda>(k, _). k \<notin> set ks) (pv_pending ps),
        pv_unconfirmed := filter (\<lambda>(k, _). k \<notin> set ks) (pv_unconfirmed ps)\<rparr>"

section \<open>Handing over\<close>

definition flush_snapshot :: "'k provideState \<Rightarrow> 'k list \<times> 'k list" where
  "flush_snapshot ps =
     (map fst (filter (\<lambda>(k, force). \<not> force) (pv_pending ps)), map fst (filter (\<lambda>(k, force). force) (pv_pending ps)))"

definition flush_track :: "'k list \<Rightarrow> 'k list \<Rightarrow> 'k provideState \<Rightarrow> 'k list" where
  "flush_track fresh forced ps = filter (\<lambda>h. \<not> is_announced ps h) fresh @ forced"

text \<open>After both calls: the tracked keys still pending are unconfirmed, the others gone.\<close>

fun settle_track :: "nanos \<Rightarrow> 'k list \<Rightarrow> 'k provideState \<Rightarrow> 'k list \<times> 'k provideState" where
  "settle_track t [] ps = ([], ps)"
| "settle_track t (h # r) ps =
     (if map_of (pv_pending ps) h \<noteq> None
      then settle_track t r (ps\<lparr>pv_unconfirmed := AList.update h t (pv_unconfirmed ps)\<rparr>)
      else if map_of (pv_unconfirmed ps) h = None
      then (case settle_track t r ps of (gone, ps') \<Rightarrow> (h # gone, ps'))
      else settle_track t r ps)"

definition flush_finish :: "nanos \<Rightarrow> 'k list \<Rightarrow> 'k list \<Rightarrow> 'k list \<Rightarrow> 'k provideState \<Rightarrow> 'k list \<times> 'k provideState" where
  "flush_finish t fresh forced track ps =
     (case settle_track t track ps of
        (gone, ps') \<Rightarrow> (gone, ps'\<lparr>pv_pending := filter (\<lambda>(k, _). k \<notin> set (fresh @ forced)) (pv_pending ps')\<rparr>))"

text \<open>
  \<open>flushProvides\<close> with nothing running beside it: \<open>ok1\<close>, \<open>ok2\<close> are what the two \<open>StartProviding\<close>
  calls return; the calls made are listed.
\<close>

definition flushProvides :: "nanos \<Rightarrow> prov_stats option \<Rightarrow> bool \<Rightarrow> bool \<Rightarrow> 'k provideState
    \<Rightarrow> (bool \<times> 'k list) list \<times> 'k provideState" where
  "flushProvides now st ok1 ok2 ps =
     (if \<not> pv_provider ps then ([], ps)
      else case flush_snapshot ps of (fresh, forced) \<Rightarrow>
        if fresh = [] \<and> forced = [] then ([], ps)
        else case providerReady now st ps of (ready, ps) \<Rightarrow>
          if \<not> ready then ([], ps)
          else let track = flush_track fresh forced ps;
                   ps = setMarks RefileNS track True ps;
                   call1 = (if fresh = [] then [] else [(False, fresh)]);
                   call2 = (if forced = [] then [] else [(True, forced)]) in
            if fresh \<noteq> [] \<and> \<not> ok1 then (call1, ps)
            else if forced \<noteq> [] \<and> \<not> ok2 then (call1 @ call2, ps)
            else case flush_finish now fresh forced track ps of
              (gone, ps) \<Rightarrow> (call1 @ call2, setMarks RefileNS gone False ps))"

section \<open>Confirming\<close>

definition stats_kept :: "prov_stats \<Rightarrow> bool" where
  "stats_kept st \<longleftrightarrow> st_prefix st \<ge> 0"

definition stats_drained :: "prov_stats \<Rightarrow> bool" where
  "stats_drained st \<longleftrightarrow> st_pendingKeys st = 0 \<and> st_pendingRegions st = 0 \<and> st_ongoingKeys st = 0 \<and> st_ongoingRegions st = 0"

fun confirm_settle :: "bool \<Rightarrow> ('k \<times> nanos) list \<Rightarrow> 'k provideState \<Rightarrow> 'k list \<times> 'k provideState" where
  "confirm_settle kept [] ps = ([], ps)"
| "confirm_settle kept ((h, t) # r) ps =
     (if map_of (pv_unconfirmed ps) h = None then confirm_settle kept r ps
      else let ps = ps\<lparr>pv_unconfirmed := AList.delete h (pv_unconfirmed ps)\<rparr> in
        if kept \<and> t > pv_lostBefore ps
        then (case confirm_settle kept r ps of (settled, ps') \<Rightarrow> (h # settled, ps'))
        else confirm_settle kept r (ps\<lparr>pv_pending := AList.update h True (pv_pending ps)\<rparr>))"

definition confirm_read :: "nanos \<Rightarrow> prov_stats option \<Rightarrow> ('k \<times> nanos) list \<Rightarrow> 'k provideState \<Rightarrow> 'k list \<times> 'k provideState" where
  "confirm_read now st snap ps =
     (case st of None \<Rightarrow> ([], ps)
      | Some st \<Rightarrow>
          if st_closed st then ([], ps)
          else let ps = noteReadiness now (prov_online st) ps in
            if stats_kept st \<and> \<not> stats_drained st then ([], ps)
            else confirm_settle (stats_kept st) snap ps)"

definition confirmUnconfirmed :: "nanos \<Rightarrow> prov_stats option \<Rightarrow> 'k provideState \<Rightarrow> 'k provideState" where
  "confirmUnconfirmed now st ps =
     (if \<not> pv_provider ps \<or> pv_unconfirmed ps = [] then ps
      else case confirm_read now st (pv_unconfirmed ps) ps of
        (settled, ps) \<Rightarrow> setMarks RefileNS settled False (setMarks AnnouncedNS settled True ps))"

section \<open>What the app hands over\<close>

definition unlisted :: "'c list \<Rightarrow> 'c set \<Rightarrow> 'c list" where
  "unlisted all listed = filter (\<lambda>c. c \<notin> listed) all"

text \<open>\<open>runSeedAnnounce\<close>: \<open>pins\<close> is what \<open>pinLs\<close> lists, with whether it failed; the pruning follows.\<close>

definition runSeedAnnounce :: "'k list \<Rightarrow> 'k list \<Rightarrow> 'k list \<times> bool \<Rightarrow> 'k provideState \<Rightarrow> 'k provideState" where
  "runSeedAnnounce colls pkgs pins ps =
     (let content = unlisted (fst pins) (set colls \<union> set pkgs);
          ps = startProviding content (startProviding pkgs (startProviding colls ps)) in
      if snd pins then ps else ps\<lparr>pv_seeded := True\<rparr>)"

section \<open>The map operations\<close>

definition has_key :: "('k \<times> 'v) list \<Rightarrow> 'k \<Rightarrow> bool" where
  "has_key m k \<longleftrightarrow> map_of m k \<noteq> None"

lemma has_key_simps [simp]:
  "\<not> has_key [] k" "has_key (AList.update h v m) k \<longleftrightarrow> k = h \<or> has_key m k"
  "has_key (AList.delete h m) k \<longleftrightarrow> k \<noteq> h \<and> has_key m k"
  by (auto simp: has_key_def update_conv' delete_conv')

lemma map_of_filter_keys: "map_of (filter (\<lambda>(k, _). P k) m) k = (if P k then map_of m k else None)"
  by (induction m) auto

lemma has_key_filter [simp]: "has_key (filter (\<lambda>(k, _). P k) m) k \<longleftrightarrow> P k \<and> has_key m k"
  by (simp add: has_key_def map_of_filter_keys)

lemma has_key_iff: "has_key m k \<longleftrightarrow> k \<in> fst ` set m"
  by (simp add: has_key_def map_of_eq_None_iff)

lemma has_key_put [simp]: "has_key (fold put_pending keys m) k \<longleftrightarrow> has_key m k \<or> k \<in> fst ` set keys"
  by (induction keys arbitrary: m) (auto simp: put_pending_def)

lemma put_forced: "map_of m k = Some True \<or> (k, True) \<in> set keys \<Longrightarrow> map_of (fold put_pending keys m) k = Some True"
proof (induction keys arbitrary: m)
  case (Cons x keys)
  show ?case
  proof (cases "map_of (put_pending x m) k = Some True")
    case False
    then have "(k, True) \<in> set keys" using Cons.prems by (cases x) (auto simp: put_pending_def update_conv' split: if_splits)
    then show ?thesis using Cons.IH by simp
  qed (simp add: Cons.IH)
qed simp

lemma snapshot_keys:
  "flush_snapshot ps = (fresh, forced) \<Longrightarrow> k \<in> set fresh \<or> k \<in> set forced \<Longrightarrow> has_key (pv_pending ps) k"
  by (auto simp: flush_snapshot_def has_key_iff intro: rev_image_eqI)

lemma settle_track_spec:
  "settle_track t track ps = (gone, ps') \<Longrightarrow>
     pv_pending ps' = pv_pending ps \<and> pv_refile ps' = pv_refile ps \<and> pv_announced ps' = pv_announced ps
     \<and> pv_written ps' = pv_written ps
     \<and> (\<forall>k. has_key (pv_unconfirmed ps') k \<longleftrightarrow> has_key (pv_unconfirmed ps) k \<or> k \<in> set track \<and> has_key (pv_pending ps) k)
     \<and> (\<forall>k \<in> set gone. \<not> has_key (pv_pending ps) k \<and> \<not> has_key (pv_unconfirmed ps) k)"
proof (induction track arbitrary: ps gone ps')
  case (Cons h r)
  consider (pend) "has_key (pv_pending ps) h" | (gone) "\<not> has_key (pv_pending ps) h" "\<not> has_key (pv_unconfirmed ps) h"
    | (other) "\<not> has_key (pv_pending ps) h" "has_key (pv_unconfirmed ps) h" by blast
  then show ?case
  proof cases
    case pend
    let ?ps = "ps\<lparr>pv_unconfirmed := AList.update h t (pv_unconfirmed ps)\<rparr>"
    have "settle_track t r ?ps = (gone, ps')" using Cons.prems pend by (simp add: has_key_def)
    from Cons.IH[OF this] show ?thesis using pend by auto
  next
    case gone
    then obtain g where "settle_track t r ps = (g, ps')" "gone = h # g"
      using Cons.prems by (auto simp: has_key_def split: prod.splits)
    with Cons.IH[of ps g ps'] show ?thesis using gone by auto
  next
    case other
    then have "settle_track t r ps = (gone, ps')" using Cons.prems by (auto simp: has_key_def)
    from Cons.IH[OF this] show ?thesis using other by auto
  qed
qed simp

lemma confirm_settle_spec:
  "confirm_settle kept snap ps = (settled, ps') \<Longrightarrow>
     pv_refile ps' = pv_refile ps \<and> pv_announced ps' = pv_announced ps \<and> pv_written ps' = pv_written ps
     \<and> (\<forall>k. has_key (pv_unconfirmed ps') k \<longrightarrow> has_key (pv_unconfirmed ps) k)
     \<and> (\<forall>k. has_key (pv_pending ps') k \<longrightarrow> has_key (pv_pending ps) k \<or> has_key (pv_unconfirmed ps) k)
     \<and> (\<forall>k. has_key (pv_pending ps) k \<longrightarrow> has_key (pv_pending ps') k)
     \<and> (\<forall>k. has_key (pv_unconfirmed ps) k \<longrightarrow> has_key (pv_unconfirmed ps') k \<or> k \<in> set settled \<or> has_key (pv_pending ps') k)
     \<and> (\<forall>k \<in> set settled. has_key (pv_unconfirmed ps) k \<and> kept \<and> (\<exists>t > pv_lostBefore ps. (k, t) \<in> set snap))"
proof (induction kept snap ps arbitrary: settled ps' rule: confirm_settle.induct)
  case (2 kept h t r ps)
  let ?ps = "ps\<lparr>pv_unconfirmed := AList.delete h (pv_unconfirmed ps)\<rparr>"
  let ?pf = "?ps\<lparr>pv_pending := AList.update h True (pv_pending ?ps)\<rparr>"
  consider (stopped) "map_of (pv_unconfirmed ps) h = None"
    | (settle) "map_of (pv_unconfirmed ps) h \<noteq> None" "kept \<and> t > pv_lostBefore ?ps"
    | (again) "map_of (pv_unconfirmed ps) h \<noteq> None" "\<not> (kept \<and> t > pv_lostBefore ?ps)" by blast
  then show ?case
  proof cases
    case stopped
    then show ?thesis using "2.IH"(1)[OF stopped] "2.prems" by auto
  next
    case settle
    then obtain g where g: "confirm_settle kept r ?ps = (g, ps')" "settled = h # g"
      using "2.prems" by (auto simp: Let_def split: prod.splits)
    have "has_key (pv_unconfirmed ps) h" using settle by (simp add: has_key_def)
    with "2.IH"(2)[OF settle(1) refl settle(2) g(1)] g(2) settle show ?thesis by auto
  next
    case again
    then have g: "confirm_settle kept r ?pf = (settled, ps')" using "2.prems" by (auto simp: Let_def)
    have "has_key (pv_unconfirmed ps) h" using again by (simp add: has_key_def)
    with "2.IH"(3)[OF again(1) refl again(2), simplified] g show ?thesis by auto
  qed
qed simp

section \<open>Runs\<close>

datatype flush_pc = Fl_track | Fl_mark | Fl_fresh | Fl_forced | Fl_finish | Fl_unmark

record 'k flush =
  fl_pc :: flush_pc
  fl_fresh :: "'k list"
  fl_forced :: "'k list"
  fl_track :: "'k list"
  fl_at :: nanos
  fl_gone :: "'k list"

datatype confirm_pc = Cf_read | Cf_announce | Cf_unmark

record 'k confirm =
  cf_pc :: confirm_pc
  cf_snap :: "('k \<times> nanos) list"
  cf_settled :: "'k list"

text \<open>
  The node with its goroutines in flight. \<open>sy_filed\<close>: what the provider's keystore holds;
  \<open>sy_offered\<close>: what this run offered; \<open>sy_settled\<close>: every key the code took to be announced;
  \<open>sy_stopped\<close>: every key the app stopped or that was pruned.
\<close>

record 'k prov_sys =
  sy_st :: "'k provideState"
  sy_flushes :: "'k flush list"
  sy_confirms :: "'k confirm list"
  sy_filed :: "'k set"
  sy_offered :: "'k set"
  sy_settled :: "'k set"
  sy_stopped :: "'k set"

inductive prov_step :: "'k prov_sys \<Rightarrow> 'k prov_sys \<Rightarrow> bool" where
  pr_offer: "prov_step s (s\<lparr>sy_st := startProviding ks (sy_st s), sy_offered := sy_offered s \<union> set ks\<rparr>)"
| pr_restore: "set found \<subseteq> pv_refile (sy_st s) \<Longrightarrow>
    prov_step s (s\<lparr>sy_st := restoreRefiles found (sy_st s), sy_offered := sy_offered s \<union> set found\<rparr>)"
| pr_use: "prov_step s (s\<lparr>sy_st := useProvider stored (sy_st s)\<rparr>)"
| pr_seeded: "prov_step s (s\<lparr>sy_st := (sy_st s)\<lparr>pv_seeded := True\<rparr>\<rparr>)"
| pr_prune: "drop_stale (sy_st s) = (stale, st') \<Longrightarrow> prov_step s (s\<lparr>sy_st := st', sy_stopped := sy_stopped s \<union> set stale\<rparr>)"
| pr_again: "set stale \<subseteq> sy_stopped s \<Longrightarrow>
    prov_step s (s\<lparr>sy_st := offer_again stale (sy_st s), sy_offered := sy_offered s \<union> set stale\<rparr>)"
| pr_stop: "prov_step s (s\<lparr>sy_st := stop_memory ks (sy_st s), sy_stopped := sy_stopped s \<union> set ks\<rparr>)"
| pr_clear: "set ks \<subseteq> sy_stopped s \<Longrightarrow> prov_step s (s\<lparr>sy_st := setMarks ns ks False (sy_st s)\<rparr>)"
| pr_unfile: "ks \<subseteq> sy_stopped s \<Longrightarrow> prov_step s (s\<lparr>sy_filed := sy_filed s - ks\<rparr>)"
| pr_offline: "prov_step s (s\<lparr>sy_st := noteOffline (sy_st s)\<rparr>)"
| pr_online: "prov_step s (s\<lparr>sy_st := noteOnline now (sy_st s)\<rparr>)"
| pr_close: "prov_step s (s\<lparr>sy_st := dropProvider (sy_st s)\<rparr>)"
| pr_ready: "prov_step s (s\<lparr>sy_st := snd (providerReady now st (sy_st s))\<rparr>)"
| pr_flush: "flush_snapshot (sy_st s) = (fresh, forced) \<Longrightarrow> fst (providerReady now st (sy_st s)) \<Longrightarrow>
    prov_step s (s\<lparr>sy_flushes := sy_flushes s @
      [\<lparr>fl_pc = Fl_track, fl_fresh = fresh, fl_forced = forced, fl_track = [], fl_at = 0, fl_gone = []\<rparr>]\<rparr>)"
| pr_track: "sy_flushes s = a @ f # b \<Longrightarrow> fl_pc f = Fl_track \<Longrightarrow>
    prov_step s (s\<lparr>sy_flushes := a @ f\<lparr>fl_pc := Fl_mark, fl_track := flush_track (fl_fresh f) (fl_forced f) (sy_st s)\<rparr> # b\<rparr>)"
| pr_mark: "sy_flushes s = a @ f # b \<Longrightarrow> fl_pc f = Fl_mark \<Longrightarrow>
    prov_step s (s\<lparr>sy_st := setMarks RefileNS (fl_track f) True (sy_st s),
      sy_flushes := a @ f\<lparr>fl_pc := Fl_fresh, fl_at := now\<rparr> # b\<rparr>)"
| pr_fresh: "sy_flushes s = a @ f # b \<Longrightarrow> fl_pc f = Fl_fresh \<Longrightarrow>
    prov_step s (s\<lparr>sy_filed := sy_filed s \<union> set (fl_fresh f), sy_flushes := a @ f\<lparr>fl_pc := Fl_forced\<rparr> # b\<rparr>)"
| pr_forced: "sy_flushes s = a @ f # b \<Longrightarrow> fl_pc f = Fl_forced \<Longrightarrow>
    prov_step s (s\<lparr>sy_filed := sy_filed s \<union> set (fl_forced f), sy_flushes := a @ f\<lparr>fl_pc := Fl_finish\<rparr> # b\<rparr>)"
| pr_failed: "sy_flushes s = a @ f # b \<Longrightarrow> fl_pc f \<in> {Fl_fresh, Fl_forced} \<Longrightarrow> ks \<subseteq> set (fl_fresh f @ fl_forced f) \<Longrightarrow>
    prov_step s (s\<lparr>sy_filed := sy_filed s \<union> ks, sy_flushes := a @ b\<rparr>)"
| pr_finish: "sy_flushes s = a @ f # b \<Longrightarrow> fl_pc f = Fl_finish \<Longrightarrow>
    flush_finish (fl_at f) (fl_fresh f) (fl_forced f) (fl_track f) (sy_st s) = (gone, st') \<Longrightarrow>
    prov_step s (s\<lparr>sy_st := st', sy_flushes := a @ f\<lparr>fl_pc := Fl_unmark, fl_gone := gone\<rparr> # b\<rparr>)"
| pr_unmark: "sy_flushes s = a @ f # b \<Longrightarrow> fl_pc f = Fl_unmark \<Longrightarrow>
    prov_step s (s\<lparr>sy_st := setMarks RefileNS (fl_gone f) False (sy_st s), sy_flushes := a @ b\<rparr>)"
| pr_confirm: "prov_step s (s\<lparr>sy_confirms := sy_confirms s @
      [\<lparr>cf_pc = Cf_read, cf_snap = pv_unconfirmed (sy_st s), cf_settled = []\<rparr>]\<rparr>)"
| pr_read: "sy_confirms s = a @ c # b \<Longrightarrow> cf_pc c = Cf_read \<Longrightarrow>
    confirm_read now st (cf_snap c) (sy_st s) = (settled, st') \<Longrightarrow>
    prov_step s (s\<lparr>sy_st := st', sy_settled := sy_settled s \<union> set settled,
      sy_confirms := a @ c\<lparr>cf_pc := Cf_announce, cf_settled := settled\<rparr> # b\<rparr>)"
| pr_announced: "sy_confirms s = a @ c # b \<Longrightarrow> cf_pc c = Cf_announce \<Longrightarrow>
    prov_step s (s\<lparr>sy_st := setMarks AnnouncedNS (cf_settled c) True (sy_st s), sy_confirms := a @ c\<lparr>cf_pc := Cf_unmark\<rparr> # b\<rparr>)"
| pr_settled: "sy_confirms s = a @ c # b \<Longrightarrow> cf_pc c = Cf_unmark \<Longrightarrow>
    prov_step s (s\<lparr>sy_st := setMarks RefileNS (cf_settled c) False (sy_st s), sy_confirms := a @ b\<rparr>)"
| pr_crash: "prov_step s (s\<lparr>sy_st := fresh_run (pv_refile (sy_st s)) (pv_announced (sy_st s)) (pv_written (sy_st s)),
      sy_flushes := [], sy_confirms := [], sy_offered := {}\<rparr>)"

definition prov_init :: "'k prov_sys \<Rightarrow> bool" where
  "prov_init s \<longleftrightarrow> s = \<lparr>sy_st = fresh_run {} {} True, sy_flushes = [], sy_confirms = [], sy_filed = {}, sy_offered = {},
     sy_settled = {}, sy_stopped = {}\<rparr>"

text \<open>What holds of one key that was never stopped.\<close>

definition flush_ok :: "'k \<Rightarrow> 'k prov_sys \<Rightarrow> 'k flush \<Rightarrow> bool" where
  "flush_ok k s f \<longleftrightarrow>
     (k \<in> set (fl_fresh f @ fl_forced f) \<longrightarrow> k \<in> sy_offered s)
     \<and> (k \<in> set (fl_track f) \<longrightarrow> k \<in> set (fl_fresh f @ fl_forced f))
     \<and> (fl_pc f \<noteq> Fl_track \<and> k \<in> set (fl_fresh f @ fl_forced f) \<longrightarrow> k \<in> set (fl_track f) \<or> k \<in> sy_settled s)
     \<and> (fl_pc f \<notin> {Fl_track, Fl_mark} \<and> k \<in> set (fl_track f) \<longrightarrow> k \<in> pv_refile (sy_st s) \<or> k \<in> sy_settled s)
     \<and> (k \<in> set (fl_gone f) \<longrightarrow> k \<in> sy_settled s)"

definition key_ok :: "'k \<Rightarrow> 'k prov_sys \<Rightarrow> bool" where
  "key_ok k s \<longleftrightarrow>
     (k \<in> sy_offered s \<longrightarrow> has_key (pv_pending (sy_st s)) k \<or> has_key (pv_unconfirmed (sy_st s)) k \<or> k \<in> sy_settled s)
     \<and> (k \<in> sy_filed s \<longrightarrow> k \<in> pv_refile (sy_st s) \<or> k \<in> sy_settled s)
     \<and> (has_key (pv_pending (sy_st s)) k \<or> has_key (pv_unconfirmed (sy_st s)) k \<longrightarrow> k \<in> sy_offered s)
     \<and> (has_key (pv_unconfirmed (sy_st s)) k \<longrightarrow> k \<in> pv_refile (sy_st s) \<or> k \<in> sy_settled s)
     \<and> (k \<in> pv_announced (sy_st s) \<longrightarrow> k \<in> sy_settled s)
     \<and> (\<forall>f \<in> set (sy_flushes s). flush_ok k s f)
     \<and> (\<forall>c \<in> set (sy_confirms s). k \<in> set (cf_settled c) \<longrightarrow> k \<in> sy_settled s)"

definition prov_inv :: "'k prov_sys \<Rightarrow> bool" where
  "prov_inv s \<longleftrightarrow> pv_written (sy_st s) \<and> (\<forall>k. k \<notin> sy_stopped s \<longrightarrow> key_ok k s)"

text \<open>The five things of the state a key's safety looks at.\<close>

definition same_marks :: "'k provideState \<Rightarrow> 'k provideState \<Rightarrow> bool" where
  "same_marks a b \<longleftrightarrow> pv_refile a = pv_refile b \<and> pv_announced a = pv_announced b \<and> pv_written a = pv_written b"

lemma offer_obs:
  "pv_pending (snd (offerProvides keys ps)) = fold put_pending keys (pv_pending ps)"
  "pv_unconfirmed (snd (offerProvides keys ps)) = pv_unconfirmed ps"
  "same_marks (snd (offerProvides keys ps)) ps"
  by (simp_all add: offerProvides_def same_marks_def)

lemma start_obs:
  "has_key (pv_pending (startProviding ks ps)) k \<longleftrightarrow> has_key (pv_pending ps) k \<or> k \<in> set ks"
  "pv_unconfirmed (startProviding ks ps) = pv_unconfirmed ps" "same_marks (startProviding ks ps) ps"
  by (auto simp: startProviding_def offer_obs image_image) (auto simp: offerProvides_def same_marks_def)

lemma restore_obs:
  "pv_written ps \<Longrightarrow> has_key (pv_pending (restoreRefiles found ps)) k \<longleftrightarrow> has_key (pv_pending ps) k \<or> k \<in> set found"
  "pv_unconfirmed (restoreRefiles found ps) = pv_unconfirmed ps" "same_marks (restoreRefiles found ps) ps"
  by (auto simp: restoreRefiles_def offer_obs image_image) (auto simp: offerProvides_def same_marks_def)

lemma again_obs:
  "k \<notin> set stale \<Longrightarrow> has_key (pv_pending (offer_again stale ps)) k \<longleftrightarrow> has_key (pv_pending ps) k"
  "pv_unconfirmed (offer_again stale ps) = pv_unconfirmed ps" "same_marks (offer_again stale ps) ps"
  by (auto simp: offer_again_def offer_obs Let_def image_image) (auto simp: offerProvides_def same_marks_def)

lemma prune_obs:
  assumes "drop_stale ps = (stale, ps')"
  shows "k \<notin> set stale \<Longrightarrow> has_key (pv_pending ps') k \<longleftrightarrow> has_key (pv_pending ps) k"
    "k \<notin> set stale \<Longrightarrow> has_key (pv_unconfirmed ps') k \<longleftrightarrow> has_key (pv_unconfirmed ps) k" "same_marks ps' ps"
  using assms by (auto simp: drop_stale_def Let_def same_marks_def split: if_splits option.splits)

lemma stop_obs:
  "k \<notin> set ks \<Longrightarrow> has_key (pv_pending (stop_memory ks ps)) k \<longleftrightarrow> has_key (pv_pending ps) k"
  "k \<notin> set ks \<Longrightarrow> has_key (pv_unconfirmed (stop_memory ks ps)) k \<longleftrightarrow> has_key (pv_unconfirmed ps) k"
  "same_marks (stop_memory ks ps) ps"
  by (simp_all add: stop_memory_def same_marks_def)

lemma quiet_obs:
  "pv_pending (useProvider stored ps) = pv_pending ps" "pv_unconfirmed (useProvider stored ps) = pv_unconfirmed ps"
  "same_marks (useProvider stored ps) ps"
  "pv_pending (noteOnline now ps) = pv_pending ps" "pv_unconfirmed (noteOnline now ps) = pv_unconfirmed ps"
  "same_marks (noteOnline now ps) ps"
  "pv_pending (snd (providerReady now st ps)) = pv_pending ps" "pv_unconfirmed (snd (providerReady now st ps)) = pv_unconfirmed ps"
  "same_marks (snd (providerReady now st ps)) ps"
  by (simp_all add: useProvider_def noteOnline_def providerReady_def providerReadyNow_def noteReadiness_def Let_def
      same_marks_def split: option.splits)

lemma marks_obs:
  "pv_pending (setMarks ns ks on ps) = pv_pending ps" "pv_unconfirmed (setMarks ns ks on ps) = pv_unconfirmed ps"
  "pv_written (setMarks ns ks on ps) = pv_written ps"
  "pv_written ps \<Longrightarrow> pv_refile (setMarks RefileNS ks True ps) = pv_refile ps \<union> set ks"
  "pv_written ps \<Longrightarrow> pv_refile (setMarks RefileNS ks False ps) = pv_refile ps - set ks"
  "pv_written ps \<Longrightarrow> pv_announced (setMarks AnnouncedNS ks True ps) = pv_announced ps \<union> set ks"
  "pv_announced (setMarks RefileNS ks on ps) = pv_announced ps" "pv_refile (setMarks AnnouncedNS ks on ps) = pv_refile ps"
  "k \<notin> set ks \<Longrightarrow> k \<in> pv_refile (setMarks ns ks on ps) \<longleftrightarrow> k \<in> pv_refile ps"
  "k \<notin> set ks \<Longrightarrow> k \<in> pv_announced (setMarks ns ks on ps) \<longleftrightarrow> k \<in> pv_announced ps"
  by (auto simp: setMarks_def split: mark.splits)

lemma finish_obs:
  assumes "flush_finish t fresh forced track ps = (gone, ps')"
  shows "has_key (pv_pending ps') k \<longleftrightarrow> has_key (pv_pending ps) k \<and> k \<notin> set (fresh @ forced)"
    "has_key (pv_unconfirmed ps') k \<longleftrightarrow> has_key (pv_unconfirmed ps) k \<or> k \<in> set track \<and> has_key (pv_pending ps) k"
    "k \<in> set gone \<Longrightarrow> \<not> has_key (pv_pending ps) k \<and> \<not> has_key (pv_unconfirmed ps) k" "set gone \<subseteq> set track"
    "same_marks ps' ps"
proof -
  obtain ps1 where p: "settle_track t track ps = (gone, ps1)"
    "ps' = ps1\<lparr>pv_pending := filter (\<lambda>(k, _). k \<notin> set (fresh @ forced)) (pv_pending ps1)\<rparr>"
    using assms by (auto simp: flush_finish_def split: prod.splits)
  note S = settle_track_spec[OF p(1)]
  show "has_key (pv_pending ps') k \<longleftrightarrow> has_key (pv_pending ps) k \<and> k \<notin> set (fresh @ forced)"
    using S p(2) by auto
  show "has_key (pv_unconfirmed ps') k \<longleftrightarrow> has_key (pv_unconfirmed ps) k \<or> k \<in> set track \<and> has_key (pv_pending ps) k"
    using S p(2) by simp
  show "k \<in> set gone \<Longrightarrow> \<not> has_key (pv_pending ps) k \<and> \<not> has_key (pv_unconfirmed ps) k" using S by blast
  show "same_marks ps' ps" using S p(2) by (simp add: same_marks_def)
  have "settle_track t tr q = (g, q') \<Longrightarrow> set g \<subseteq> set tr" for tr q g q'
    by (induction tr arbitrary: q g q') (auto split: if_splits prod.splits, blast+)
  then show "set gone \<subseteq> set track" using p(1) by blast
qed

lemma read_obs:
  assumes "confirm_read now st snap ps = (settled, ps')"
  shows "has_key (pv_unconfirmed ps') k \<Longrightarrow> has_key (pv_unconfirmed ps) k"
    "has_key (pv_pending ps') k \<Longrightarrow> has_key (pv_pending ps) k \<or> has_key (pv_unconfirmed ps) k"
    "has_key (pv_pending ps) k \<Longrightarrow> has_key (pv_pending ps') k"
    "has_key (pv_unconfirmed ps) k \<Longrightarrow> has_key (pv_unconfirmed ps') k \<or> k \<in> set settled \<or> has_key (pv_pending ps') k"
    "same_marks ps' ps"
proof -
  consider "settled = []" "pv_pending ps' = pv_pending ps" "pv_unconfirmed ps' = pv_unconfirmed ps" "same_marks ps' ps"
    | r where "confirm_settle r snap (noteReadiness now (case st of Some x \<Rightarrow> prov_online x | None \<Rightarrow> False) ps) = (settled, ps')"
    using assms by (auto simp: confirm_read_def Let_def noteReadiness_def same_marks_def split: option.splits if_splits)
  then show "has_key (pv_unconfirmed ps') k \<Longrightarrow> has_key (pv_unconfirmed ps) k"
    "has_key (pv_pending ps') k \<Longrightarrow> has_key (pv_pending ps) k \<or> has_key (pv_unconfirmed ps) k"
    "has_key (pv_pending ps) k \<Longrightarrow> has_key (pv_pending ps') k"
    "has_key (pv_unconfirmed ps) k \<Longrightarrow> has_key (pv_unconfirmed ps') k \<or> k \<in> set settled \<or> has_key (pv_pending ps') k"
    "same_marks ps' ps"
    by (cases; auto simp: noteReadiness_def same_marks_def dest!: confirm_settle_spec)+
qed

lemma flush_ok_mono:
  "flush_ok k s f \<Longrightarrow> (k \<in> sy_offered s \<Longrightarrow> k \<in> sy_offered s') \<Longrightarrow> (k \<in> sy_settled s \<Longrightarrow> k \<in> sy_settled s') \<Longrightarrow>
   (k \<in> pv_refile (sy_st s) \<Longrightarrow> k \<in> pv_refile (sy_st s') \<or> k \<in> sy_settled s') \<Longrightarrow> flush_ok k s' f"
  unfolding flush_ok_def by blast

text \<open>A step that keeps a key's marks and settled state, and only adds to what it was offered.\<close>

lemma key_ok_quiet:
  assumes "key_ok k s" "same_marks (sy_st s') (sy_st s)" "sy_settled s' = sy_settled s" "sy_flushes s' = sy_flushes s"
    "sy_confirms s' = sy_confirms s" "k \<in> sy_filed s' \<longrightarrow> k \<in> sy_filed s"
    "has_key (pv_unconfirmed (sy_st s')) k = has_key (pv_unconfirmed (sy_st s)) k"
    "k \<in> sy_offered s' \<longleftrightarrow> k \<in> sy_offered s \<or> new" "has_key (pv_pending (sy_st s')) k \<longleftrightarrow> has_key (pv_pending (sy_st s)) k \<or> new"
  shows "key_ok k s'"
proof -
  have "flush_ok k s f \<Longrightarrow> flush_ok k s' f" for f
    by (erule flush_ok_mono) (use assms in \<open>auto simp: same_marks_def\<close>)
  then show ?thesis using assms unfolding key_ok_def same_marks_def by simp blast
qed

text \<open>A step of one flush: the others keep what they had.\<close>

lemma key_ok_flush:
  assumes "key_ok k s" "sy_flushes s = a @ f # b" "sy_flushes s' = a @ new @ b" "\<forall>g \<in> set new. flush_ok k s' g"
    "sy_settled s' = sy_settled s" "sy_offered s' = sy_offered s" "sy_confirms s' = sy_confirms s"
    "k \<in> pv_refile (sy_st s) \<longrightarrow> k \<in> pv_refile (sy_st s') \<or> k \<in> sy_settled s"
    "k \<in> pv_announced (sy_st s') \<longrightarrow> k \<in> pv_announced (sy_st s)"
    "k \<in> sy_filed s' \<longrightarrow> k \<in> pv_refile (sy_st s') \<or> k \<in> sy_settled s"
    "k \<in> sy_offered s \<longrightarrow> has_key (pv_pending (sy_st s')) k \<or> has_key (pv_unconfirmed (sy_st s')) k \<or> k \<in> sy_settled s"
    "has_key (pv_pending (sy_st s')) k \<or> has_key (pv_unconfirmed (sy_st s')) k \<longrightarrow> k \<in> sy_offered s"
    "has_key (pv_unconfirmed (sy_st s')) k \<longrightarrow> k \<in> pv_refile (sy_st s') \<or> k \<in> sy_settled s"
  shows "key_ok k s'"
proof -
  have mono: "flush_ok k s g \<Longrightarrow> flush_ok k s' g" for g
    by (erule flush_ok_mono) (use assms(5,6,8) in simp_all)
  have "\<forall>g \<in> set (sy_flushes s). flush_ok k s g" using assms(1) unfolding key_ok_def by blast
  then have "\<forall>g \<in> set a \<union> set b. flush_ok k s' g" unfolding assms(2) using mono by simp
  then have fl: "\<forall>g \<in> set (sy_flushes s'). flush_ok k s' g" unfolding assms(3) set_append using assms(4) by blast
  have "k \<in> pv_announced (sy_st s) \<longrightarrow> k \<in> sy_settled s"
    "\<forall>c \<in> set (sy_confirms s). k \<in> set (cf_settled c) \<longrightarrow> k \<in> sy_settled s"
    using assms(1) unfolding key_ok_def by blast+
  then show ?thesis unfolding key_ok_def assms(5-7) using fl assms(9-13) by (intro conjI) blast+
qed

lemma key_ok_pick: "key_ok k s \<Longrightarrow> sy_flushes s = a @ f # b \<Longrightarrow> flush_ok k s f"
  by (simp add: key_ok_def)

lemma prov_step_inv:
  assumes I: "prov_inv s" and st: "prov_step s s'"
  shows "prov_inv s'"
proof -
  have W: "pv_written (sy_st s)" and K: "\<And>k. k \<notin> sy_stopped s \<Longrightarrow> key_ok k s" using I by (auto simp: prov_inv_def)
  have D: "prov_inv s'" if "pv_written (sy_st s')" "sy_stopped s \<subseteq> sy_stopped s'"
    "\<And>k. k \<notin> sy_stopped s' \<Longrightarrow> key_ok k s \<Longrightarrow> key_ok k s'"
    unfolding prov_inv_def using that(1)
  proof (intro conjI allI impI)
    fix k assume "k \<notin> sy_stopped s'"
    then show "key_ok k s'" using that(2) by (intro that(3) K) auto
  qed
  have M: "same_marks a b \<Longrightarrow> pv_written a = pv_written b" for a b :: "'a provideState" by (simp add: same_marks_def)
  from st show ?thesis
  proof cases
    case (pr_offer ks)
    show ?thesis
    proof (rule D)
      fix k assume n: "k \<notin> sy_stopped s'" and k: "key_ok k s"
      show "key_ok k s'"
        by (rule key_ok_quiet[OF k, where new = "k \<in> set ks"]) (use n W in \<open>auto simp: pr_offer start_obs\<close>)
    qed (use W M[OF start_obs(3)] in \<open>simp_all add: pr_offer\<close>)
  next
    case (pr_restore found)
    show ?thesis
    proof (rule D)
      fix k assume n: "k \<notin> sy_stopped s'" and k: "key_ok k s"
      show "key_ok k s'"
        by (rule key_ok_quiet[OF k, where new = "k \<in> set found"]) (use n W in \<open>auto simp: pr_restore restore_obs\<close>)
    qed (use W M[OF restore_obs(3)] in \<open>simp_all add: pr_restore\<close>)
  next
    case (pr_again stale)
    show ?thesis
    proof (rule D)
      fix k assume n: "k \<notin> sy_stopped s'" and k: "key_ok k s"
      have "k \<notin> set stale" using n pr_again by auto
      note * = again_obs(1)[OF this]
      show "key_ok k s'"
        by (rule key_ok_quiet[OF k, where new = False]) (use n pr_again in \<open>auto simp: again_obs(2,3) *\<close>)
    qed (use W M[OF again_obs(3)] in \<open>simp_all add: pr_again\<close>)
  next
    case (pr_prune stale st')
    show ?thesis
    proof (rule D)
      fix k assume n: "k \<notin> sy_stopped s'" and k: "key_ok k s"
      show "key_ok k s'"
        by (rule key_ok_quiet[OF k, where new = False]) (use n pr_prune in \<open>auto simp: prune_obs[OF pr_prune(2)]\<close>)
    qed (use W M[OF prune_obs(3)[OF pr_prune(2)]] in \<open>simp_all add: pr_prune\<close>)
  next
    case (pr_stop ks)
    show ?thesis
    proof (rule D)
      fix k assume n: "k \<notin> sy_stopped s'" and k: "key_ok k s"
      show "key_ok k s'"
        by (rule key_ok_quiet[OF k, where new = False]) (use n pr_stop in \<open>auto simp: stop_obs\<close>)
    qed (use W M[OF stop_obs(3)] in \<open>simp_all add: pr_stop\<close>)
  next
    case (pr_clear ks ns)
    show ?thesis
    proof (rule D)
      fix k assume "k \<notin> sy_stopped s'" "key_ok k s"
      moreover from this have "k \<notin> set ks" using pr_clear by auto
      then have e: "k \<in> pv_refile (sy_st s') \<longleftrightarrow> k \<in> pv_refile (sy_st s)" "k \<in> pv_announced (sy_st s') \<longleftrightarrow> k \<in> pv_announced (sy_st s)"
        by (simp_all add: pr_clear marks_obs)
      have "flush_ok k s f \<Longrightarrow> flush_ok k s' f" for f by (erule flush_ok_mono) (use e in \<open>auto simp: pr_clear\<close>)
      ultimately show "key_ok k s'" unfolding key_ok_def e by (simp add: pr_clear marks_obs)
    qed (use W in \<open>simp_all add: pr_clear marks_obs\<close>)
  next
    case (pr_unfile ks)
    show ?thesis
    proof (rule D)
      fix k assume n: "k \<notin> sy_stopped s'" and k: "key_ok k s"
      show "key_ok k s'"
        by (rule key_ok_quiet[OF k, where new = "False"]) (use n W in \<open>auto simp: pr_unfile same_marks_def\<close>)
    qed (use W in \<open>simp_all add: pr_unfile\<close>)
  next
    case (pr_use stored)
    show ?thesis
    proof (rule D)
      fix k assume n: "k \<notin> sy_stopped s'" and k: "key_ok k s"
      show "key_ok k s'"
        by (rule key_ok_quiet[OF k, where new = "False"]) (use n W in \<open>auto simp: pr_use quiet_obs\<close>)
    qed (use W M[OF quiet_obs(3)] in \<open>simp_all add: pr_use\<close>)
  next
    case (pr_online now)
    show ?thesis
    proof (rule D)
      fix k assume n: "k \<notin> sy_stopped s'" and k: "key_ok k s"
      show "key_ok k s'"
        by (rule key_ok_quiet[OF k, where new = "False"]) (use n W in \<open>auto simp: pr_online quiet_obs\<close>)
    qed (use W M[OF quiet_obs(6)] in \<open>simp_all add: pr_online\<close>)
  next
    case (pr_ready now st)
    show ?thesis
    proof (rule D)
      fix k assume n: "k \<notin> sy_stopped s'" and k: "key_ok k s"
      show "key_ok k s'"
        by (rule key_ok_quiet[OF k, where new = "False"]) (use n W in \<open>auto simp: pr_ready quiet_obs\<close>)
    qed (use W M[OF quiet_obs(9)] in \<open>simp_all add: pr_ready\<close>)
  next
    case pr_seeded
    show ?thesis
    proof (rule D)
      fix k assume n: "k \<notin> sy_stopped s'" and k: "key_ok k s"
      show "key_ok k s'"
        by (rule key_ok_quiet[OF k, where new = "False"]) (use n W in \<open>auto simp: pr_seeded same_marks_def\<close>)
    qed (use W in \<open>simp_all add: pr_seeded\<close>)
  next
    case pr_offline
    show ?thesis
    proof (rule D)
      fix k assume n: "k \<notin> sy_stopped s'" and k: "key_ok k s"
      show "key_ok k s'"
        by (rule key_ok_quiet[OF k, where new = "False"]) (use n W in \<open>auto simp: pr_offline noteOffline_def same_marks_def\<close>)
    qed (use W in \<open>simp_all add: pr_offline noteOffline_def\<close>)
  next
    case pr_close
    show ?thesis
    proof (rule D)
      fix k assume n: "k \<notin> sy_stopped s'" and k: "key_ok k s"
      show "key_ok k s'"
        by (rule key_ok_quiet[OF k, where new = "False"]) (use n W in \<open>auto simp: pr_close dropProvider_def same_marks_def\<close>)
    qed (use W in \<open>simp_all add: pr_close dropProvider_def\<close>)
  next
    case (pr_flush fresh forced now st)
    show ?thesis
    proof (rule D)
      fix k assume "k \<notin> sy_stopped s'" and k: "key_ok k s"
      have "k \<in> set fresh \<or> k \<in> set forced \<Longrightarrow> k \<in> sy_offered s"
        using snapshot_keys[OF pr_flush(2)] k by (auto simp: key_ok_def)
      then show "key_ok k s'" using k by (auto simp: pr_flush key_ok_def flush_ok_def)
    qed (use W in \<open>simp_all add: pr_flush\<close>)
  next
    case (pr_track a f b)
    show ?thesis
    proof (rule D)
      fix k assume "k \<notin> sy_stopped s'" and k: "key_ok k s"
      have f: "flush_ok k s f" using key_ok_pick[OF k pr_track(2)] .
      show "key_ok k s'"
        by (rule key_ok_flush[OF k pr_track(2), of _ "[f\<lparr>fl_pc := Fl_mark, fl_track := flush_track (fl_fresh f) (fl_forced f) (sy_st s)\<rparr>]"])
          (use k f pr_track(3) in \<open>auto simp: pr_track(1) key_ok_def flush_ok_def flush_track_def is_announced_def\<close>)
    qed (use W in \<open>simp_all add: pr_track\<close>)
  next
    case (pr_mark a f b now)
    show ?thesis
    proof (rule D)
      fix k assume "k \<notin> sy_stopped s'" and k: "key_ok k s"
      have f: "flush_ok k s f" using key_ok_pick[OF k pr_mark(2)] .
      show "key_ok k s'"
        by (rule key_ok_flush[OF k pr_mark(2), of _ "[f\<lparr>fl_pc := Fl_fresh, fl_at := now\<rparr>]"])
          (use k f pr_mark(3) W in \<open>auto simp: pr_mark(1) key_ok_def flush_ok_def marks_obs\<close>)
    qed (use W in \<open>simp_all add: pr_mark marks_obs\<close>)
  next
    case (pr_fresh a f b)
    show ?thesis
    proof (rule D)
      fix k assume "k \<notin> sy_stopped s'" and k: "key_ok k s"
      have f: "flush_ok k s f" using key_ok_pick[OF k pr_fresh(2)] .
      show "key_ok k s'"
        by (rule key_ok_flush[OF k pr_fresh(2), of _ "[f\<lparr>fl_pc := Fl_forced\<rparr>]"])
          (use k f pr_fresh(3) in \<open>auto simp: pr_fresh(1) key_ok_def flush_ok_def\<close>)
    qed (use W in \<open>simp_all add: pr_fresh\<close>)
  next
    case (pr_forced a f b)
    show ?thesis
    proof (rule D)
      fix k assume "k \<notin> sy_stopped s'" and k: "key_ok k s"
      have f: "flush_ok k s f" using key_ok_pick[OF k pr_forced(2)] .
      show "key_ok k s'"
        by (rule key_ok_flush[OF k pr_forced(2), of _ "[f\<lparr>fl_pc := Fl_finish\<rparr>]"])
          (use k f pr_forced(3) in \<open>auto simp: pr_forced(1) key_ok_def flush_ok_def\<close>)
    qed (use W in \<open>simp_all add: pr_forced\<close>)
  next
    case (pr_failed a f b ks)
    show ?thesis
    proof (rule D)
      fix k assume "k \<notin> sy_stopped s'" and k: "key_ok k s"
      have f: "flush_ok k s f" using key_ok_pick[OF k pr_failed(2)] .
      have "k \<in> ks \<Longrightarrow> k \<in> pv_refile (sy_st s) \<or> k \<in> sy_settled s"
        using f pr_failed(3,4) unfolding flush_ok_def by auto
      note * = this
      show "key_ok k s'"
        by (rule key_ok_flush[OF k pr_failed(2), of _ "[]"]) (use * k in \<open>auto simp: pr_failed(1) key_ok_def\<close>)
    qed (use W in \<open>simp_all add: pr_failed\<close>)
  next
    case (pr_finish a f b gone st')
    note F = finish_obs[OF pr_finish(4)]
    show ?thesis
    proof (rule D)
      fix k assume "k \<notin> sy_stopped s'" and k: "key_ok k s"
      have f: "flush_ok k s f" using key_ok_pick[OF k pr_finish(2)] .
      have m: "pv_refile st' = pv_refile (sy_st s)" "pv_announced st' = pv_announced (sy_st s)" using F(5) by (auto simp: same_marks_def)
      have g: "k \<in> set gone \<Longrightarrow> k \<in> sy_settled s" using F(3,4) f k unfolding flush_ok_def key_ok_def by blast
      have t: "k \<in> set (fl_fresh f @ fl_forced f) \<Longrightarrow> k \<in> set (fl_track f) \<or> k \<in> sy_settled s"
        "k \<in> set (fl_track f) \<Longrightarrow> k \<in> sy_offered s \<and> (k \<in> pv_refile (sy_st s) \<or> k \<in> sy_settled s)"
        using f pr_finish(3) unfolding flush_ok_def by auto
      have "flush_ok k s' (f\<lparr>fl_pc := Fl_unmark, fl_gone := gone\<rparr>)"
        using f g pr_finish(3) unfolding flush_ok_def by (simp add: pr_finish(1) m)
      note * = this
      show "key_ok k s'"
        by (rule key_ok_flush[OF k pr_finish(2), of _ "[f\<lparr>fl_pc := Fl_unmark, fl_gone := gone\<rparr>]"])
          (use * k t in \<open>auto simp: pr_finish(1) F(1,2) m key_ok_def\<close>)
    qed (use W M[OF F(5)] in \<open>simp_all add: pr_finish(1)\<close>)
  next
    case (pr_unmark a f b)
    show ?thesis
    proof (rule D)
      fix k assume "k \<notin> sy_stopped s'" and k: "key_ok k s"
      have f: "flush_ok k s f" using key_ok_pick[OF k pr_unmark(2)] .
      then have "k \<in> set (fl_gone f) \<Longrightarrow> k \<in> sy_settled s" by (simp add: flush_ok_def)
      note * = this
      show "key_ok k s'"
        by (rule key_ok_flush[OF k pr_unmark(2), of _ "[]"]) (use * k W in \<open>auto simp: pr_unmark(1) key_ok_def marks_obs\<close>)
    qed (use W in \<open>simp_all add: pr_unmark marks_obs\<close>)
  next
    case pr_confirm
    show ?thesis by (rule D) (use W in \<open>auto simp: pr_confirm key_ok_def flush_ok_def\<close>)
  next
    case (pr_read a c b now st settled st')
    note R = read_obs[OF pr_read(4)]
    show ?thesis
    proof (rule D)
      fix k assume "k \<notin> sy_stopped s'" and k: "key_ok k s"
      have m: "pv_refile st' = pv_refile (sy_st s)" "pv_announced st' = pv_announced (sy_st s)" using R(5) by (auto simp: same_marks_def)
      have "flush_ok k s f \<Longrightarrow> flush_ok k s' f" for f by (erule flush_ok_mono) (auto simp: pr_read(1) m)
      then show "key_ok k s'" using k R(1-4)[of k] pr_read(2) unfolding key_ok_def by (auto simp: pr_read(1) m)
    qed (use W M[OF R(5)] in \<open>simp_all add: pr_read(1)\<close>)
  next
    case (pr_announced a c b)
    show ?thesis
    proof (rule D)
      fix k assume "k \<notin> sy_stopped s'" and k: "key_ok k s"
      have "flush_ok k s f \<Longrightarrow> flush_ok k s' f" for f by (erule flush_ok_mono) (auto simp: pr_announced(1) marks_obs)
      then show "key_ok k s'" using k W pr_announced(2) unfolding key_ok_def by (auto simp: pr_announced(1) marks_obs)
    qed (use W in \<open>simp_all add: pr_announced(1) marks_obs\<close>)
  next
    case (pr_settled a c b)
    show ?thesis
    proof (rule D)
      fix k assume "k \<notin> sy_stopped s'" and k: "key_ok k s"
      have c: "k \<in> set (cf_settled c) \<Longrightarrow> k \<in> sy_settled s" using k pr_settled(2) by (simp add: key_ok_def)
      have "flush_ok k s f \<Longrightarrow> flush_ok k s' f" for f by (erule flush_ok_mono) (use c W in \<open>auto simp: pr_settled(1) marks_obs\<close>)
      then show "key_ok k s'" using k c W pr_settled(2) unfolding key_ok_def by (auto simp: pr_settled(1) marks_obs)
    qed (use W in \<open>simp_all add: pr_settled(1) marks_obs\<close>)
  next
    case pr_crash
    show ?thesis by (rule D) (use W in \<open>auto simp: pr_crash key_ok_def fresh_run_def\<close>)
  qed
qed

interpretation provide: step_invariant prov_init prov_step prov_inv
proof
  show "prov_init s \<Longrightarrow> prov_inv s" for s :: "'k prov_sys"
    by (simp add: prov_init_def prov_inv_def key_ok_def fresh_run_def)
  show "prov_inv s \<Longrightarrow> prov_step s s' \<Longrightarrow> prov_inv s'" for s s' :: "'k prov_sys" by (rule prov_step_inv)
qed

section \<open>Properties\<close>


lemma prov_example:
  defines "s0 \<equiv> \<lparr>sy_st = fresh_run {} {} True, sy_flushes = [], sy_confirms = [], sy_filed = {}, sy_offered = {},
     sy_settled = {}, sy_stopped = {}\<rparr> :: nat prov_sys"
  shows "reachable prov_init prov_step (s0\<lparr>sy_st := startProviding [3] (sy_st s0), sy_offered := sy_offered s0 \<union> set [3]\<rparr>)"
proof -
  have "reachable prov_init prov_step s0" by (rule reach_init) (simp add: prov_init_def s0_def)
  then show ?thesis by (rule reach_step) (rule pr_offer)
qed


text \<open>What is settled, exactly, when a snapshot names each key once.\<close>

lemma confirm_settle_exact:
  "distinct (map fst snap) \<Longrightarrow> confirm_settle kept snap ps = (settled, ps') \<Longrightarrow>
   (k \<in> set settled \<longleftrightarrow> has_key (pv_unconfirmed ps) k \<and> kept \<and> (\<exists>t. (k, t) \<in> set snap \<and> t > pv_lostBefore ps))
   \<and> ((\<exists>t. (k, t) \<in> set snap) \<and> has_key (pv_unconfirmed ps) k \<and> k \<notin> set settled \<longrightarrow>
        map_of (pv_pending ps') k = Some True)
   \<and> ((\<exists>t. (k, t) \<in> set snap) \<longrightarrow> \<not> has_key (pv_unconfirmed ps') k)
   \<and> ((\<nexists>t. (k, t) \<in> set snap) \<longrightarrow>
        map_of (pv_pending ps') k = map_of (pv_pending ps) k \<and> map_of (pv_unconfirmed ps') k = map_of (pv_unconfirmed ps) k)"
proof (induction kept snap ps arbitrary: settled ps' rule: confirm_settle.induct)
  case (2 kept h t r ps)
  let ?ps = "ps\<lparr>pv_unconfirmed := AList.delete h (pv_unconfirmed ps)\<rparr>"
  let ?pf = "?ps\<lparr>pv_pending := AList.update h True (pv_pending ?ps)\<rparr>"
  have d: "distinct (map fst r)" "\<nexists>u. (h, u) \<in> set r" using "2.prems"(1) by force+
  consider (stopped) "map_of (pv_unconfirmed ps) h = None"
    | (settle) "map_of (pv_unconfirmed ps) h \<noteq> None" "kept \<and> t > pv_lostBefore ?ps"
    | (again) "map_of (pv_unconfirmed ps) h \<noteq> None" "\<not> (kept \<and> t > pv_lostBefore ?ps)" by blast
  then show ?case
  proof cases
    case stopped
    have "confirm_settle kept r ps = (settled, ps')" using "2.prems"(2) stopped by simp
    from "2.IH"(1)[OF stopped d(1) this] show ?thesis
      using stopped d(2) by (cases "k = h") (auto simp: has_key_def)
  next
    case settle
    then obtain g where g: "confirm_settle kept r ?ps = (g, ps')" "settled = h # g"
      using "2.prems"(2) by (auto simp: Let_def split: prod.splits)
    from "2.IH"(2)[OF settle(1) refl settle(2) d(1) g(1)] show ?thesis
      using settle d(2) g(2) by (cases "k = h") (auto simp: has_key_def delete_conv')
  next
    case again
    then have g: "confirm_settle kept r ?pf = (settled, ps')" using "2.prems"(2) by (auto simp: Let_def)
    from "2.IH"(3)[OF again(1) refl again(2) d(1) g] show ?thesis
      using again d(2) by (cases "k = h") (auto simp: has_key_def delete_conv' update_conv')
  qed
qed simp

text \<open>A confirmation takes a handed-over key to be announced exactly when the provider's queues are
  drained and stand (it is not offline), and it did not come back from Offline at or after the
  moment the key was handed over; every other key of the reading goes back to be handed over again
  with force; while the queues stand undrained, or nothing can be read, all stay as they are.\<close>

theorem provide_confirm_exact:
  assumes "distinct (map fst (pv_unconfirmed ps))" "pv_provider ps" "pv_written ps"
    "map_of (pv_unconfirmed ps) k = Some t" "confirmUnconfirmed now (Some st) ps = ps'"
  shows "if st_closed st \<or> stats_kept st \<and> \<not> stats_drained st then
       pv_pending ps' = pv_pending ps \<and> pv_unconfirmed ps' = pv_unconfirmed ps \<and> pv_announced ps' = pv_announced ps
         \<and> pv_refile ps' = pv_refile ps
     else if stats_kept st \<and> stats_drained st \<and> t > pv_lostBefore ps then
       k \<in> pv_announced ps' \<and> k \<notin> pv_refile ps' \<and> \<not> has_key (pv_unconfirmed ps') k
     else map_of (pv_pending ps') k = Some True \<and> \<not> has_key (pv_unconfirmed ps') k
       \<and> (k \<in> pv_refile ps' \<longleftrightarrow> k \<in> pv_refile ps) \<and> (k \<in> pv_announced ps' \<longleftrightarrow> k \<in> pv_announced ps)"
proof -
  have kt: "(k, t) \<in> set (pv_unconfirmed ps)" "has_key (pv_unconfirmed ps) k" "pv_unconfirmed ps \<noteq> []"
    using assms(4) map_of_SomeD by (fastforce simp: has_key_def)+
  have uniq: "(k, u) \<in> set (pv_unconfirmed ps) \<longleftrightarrow> u = t" for u
    using assms(1,4) map_of_eq_Some_iff[of "pv_unconfirmed ps" k u] by auto
  show ?thesis
  proof (cases "st_closed st \<or> stats_kept st \<and> \<not> stats_drained st")
    case True
    let ?q = "if st_closed st then ps else noteReadiness now (prov_online st) ps"
    have "confirm_read now (Some st) (pv_unconfirmed ps) ps = ([], ?q)" using True by (auto simp: confirm_read_def Let_def)
    then have "ps' = ?q" using assms(2,5) kt(3) by (simp add: confirmUnconfirmed_def setMarks_def)
    then show ?thesis using True by (simp add: noteReadiness_def)
  next
    case False
    let ?ps = "noteReadiness now (prov_online st) ps"
    obtain settled ps1 where c: "confirm_settle (stats_kept st) (pv_unconfirmed ps) ?ps = (settled, ps1)" by fastforce
    have same: "pv_unconfirmed ?ps = pv_unconfirmed ps" "pv_lostBefore ?ps = pv_lostBefore ps"
      "pv_written ?ps = pv_written ps" "pv_refile ?ps = pv_refile ps" "pv_announced ?ps = pv_announced ps"
      by (simp_all add: noteReadiness_def)
    note E = confirm_settle_exact[OF assms(1) c, of k, unfolded same] and S = confirm_settle_spec[OF c, unfolded same]
    have ps': "ps' = setMarks RefileNS settled False (setMarks AnnouncedNS settled True ps1)"
      using assms(2,5) kt False c by (auto simp: confirmUnconfirmed_def confirm_read_def)
    have W: "pv_written ps1" using S assms(3) by simp
    have in_settled: "k \<in> set settled \<longleftrightarrow> stats_kept st \<and> t > pv_lostBefore ps" using E kt uniq by auto
    have gone: "\<not> has_key (pv_unconfirmed ps') k" using E kt(1) unfolding ps' marks_obs by blast
    show ?thesis
    proof (cases "k \<in> set settled")
      case True
      then have "k \<in> pv_announced ps' \<and> k \<notin> pv_refile ps'" unfolding ps' using W by (simp add: marks_obs)
      then show ?thesis using True in_settled gone False by auto
    next
      case other: False
      have "map_of (pv_pending ps') k = Some True" unfolding ps' marks_obs using E kt other by blast
      moreover have "k \<in> pv_refile ps' \<longleftrightarrow> k \<in> pv_refile ps" "k \<in> pv_announced ps' \<longleftrightarrow> k \<in> pv_announced ps"
        unfolding ps' using S other by (simp_all add: marks_obs)
      ultimately show ?thesis using gone False in_settled other by auto
    qed
  qed
qed

definition prov_stats_ex :: prov_stats where
  "prov_stats_ex = \<lparr>st_closed = False, st_connected = True, st_prefix = 7, st_pendingKeys = 0, st_pendingRegions = 0,
     st_ongoingKeys = 0, st_ongoingRegions = 0\<rparr>"

theorem provide_confirm_exact_witness:
  "3 \<in> pv_announced (confirmUnconfirmed 9 (Some prov_stats_ex)
     ((fresh_run {3 :: nat} {} True)\<lparr>pv_provider := True, pv_unconfirmed := [(3, 5)]\<rparr>))"
  using provide_confirm_exact[of "(fresh_run {3 :: nat} {} True)\<lparr>pv_provider := True, pv_unconfirmed := [(3, 5)]\<rparr>" 3 5 9 prov_stats_ex]
  by (simp add: fresh_run_def prov_stats_ex_def stats_kept_def stats_drained_def zeroTime_def)

text \<open>
  An offer made while a flush is under way loses its force: the flush has taken the key without
  force, and what it deletes when it ends is the key, whatever it was offered with since. The
  provider, which filed the key in an earlier run, ignored the call, and the next drained reading
  takes the key to be announced.
\<close>

lemma forced_offer_dropped:
  "let ps = (fresh_run {3} {} True)\<lparr>pv_provider := True, pv_pending := [(3 :: nat, False)]\<rparr>;
       (fresh, forced) = flush_snapshot ps;
       track = flush_track fresh forced ps;
       ps1 = restoreRefiles [3] (setMarks RefileNS track True ps);
       (gone, ps2) = flush_finish 5 fresh forced track ps1 in
     map_of (pv_pending ps1) 3 = Some True \<and> forced = [] \<and> fresh = [3] \<and> pv_pending ps2 = []
     \<and> 3 \<in> pv_announced (confirmUnconfirmed 9 (Some prov_stats_ex) ps2)"
  by (simp add: fresh_run_def flush_snapshot_def flush_track_def is_announced_def setMarks_def restoreRefiles_def
      offerProvides_def put_pending_def flush_finish_def confirmUnconfirmed_def confirm_read_def prov_stats_ex_def
      stats_kept_def stats_drained_def noteReadiness_def Let_def zeroTime_def image_iff)
    (rule exI[of _ False], simp)

end
