(* ===== verification/Store.thy ===== *)
theory Store
  imports Prelude "HOL-Library.List_Lexorder" "HOL-Library.Char_ord"
begin

text \<open>
  What the node holds and what it can deliver (\<open>query.go\<close>, \<open>blocks.go\<close>, \<open>refmove.go\<close>, and
  \<open>dropClosure\<close> / \<open>dropRef\<close> of \<open>fetch.go\<close>).

  The state is the two tables the code names by their datastore prefixes, plain blocks and
  filestore references, both keyed by multihash, with the files on disk, the pins and the
  folders made so far. A path is the list of its components; a reference's path is relative to
  \<open>fileRoot\<close>, and an empty one is no reference. Boxo is the record \<^typ>\<open>string\<close>-free \<open>boxo\<close> below: hashing,
  reading a referenced range (which verifies it), decoding a node and building a folder are
  its functions, and what the theorems need of them are named hypotheses.

  The five walks of the code are the same recursion: visit a CID once, judge the block, stop
  with a verdict, skip its links or descend into them. \<open>dag_walk\<close> is that recursion with the
  call stack written out (the siblings still to visit of every open call), total because only a
  held block has links; the locale \<open>dag_check\<close> says once when its verdict is exact.
\<close>

section \<open>The store\<close>

type_synonym path = "string list"

datatype cid_codec = Raw | DagPb

datatype cid = Cid (codec_of: cid_codec) (mhash: nat)

record link =
  l_name :: string
  l_cid :: cid
  l_size :: nat

record fsref =
  r_path :: path
  r_off :: "64 word"
  r_size :: "64 word"

record boxo =
  hash_of :: "bytes \<Rightarrow> nat"
  links_of :: "bytes \<Rightarrow> link list option"
  read_ref :: "nat \<Rightarrow> 64 word \<Rightarrow> 64 word \<Rightarrow> bytes \<Rightarrow> bytes option"
  decode_cid :: "string \<Rightarrow> cid option"
  dir_bytes :: "(string \<times> cid) list \<Rightarrow> bytes"
  dir_links :: "bytes \<Rightarrow> link list option"

record store =
  st_root :: path
  st_plain :: "(nat \<times> bytes) list"
  st_refs :: "(nat \<times> fsref) list"
  st_disk :: "(path \<times> bytes) list"
  st_recursive :: "cid list"
  st_direct :: "cid list"
  st_made :: "cid list"
  st_announced :: "cid list"
  st_unlisted :: "cid list"

definition on_disk :: "store \<Rightarrow> path \<Rightarrow> bool" where
  "on_disk s p \<longleftrightarrow> map_of (st_disk s) p \<noteq> None"

definition file_size :: "store \<Rightarrow> path \<Rightarrow> 64 word" where
  "file_size s p = (case map_of (st_disk s) p of None \<Rightarrow> 0 | Some f \<Rightarrow> word_of_nat (length f))"

text \<open>\<open>filestore.List\<close> of one CID, where it names a file.\<close>

definition list_ref :: "store \<Rightarrow> cid \<Rightarrow> fsref option" where
  "list_ref s c =
     (case map_of (st_refs s) (mhash c) of
        None \<Rightarrow> None
      | Some r \<Rightarrow> if r_path r = [] then None else Some r)"

definition hasLocal :: "store \<Rightarrow> cid \<Rightarrow> bool" where
  "hasLocal s c \<longleftrightarrow> map_of (st_plain s) (mhash c) \<noteq> None \<or> map_of (st_refs s) (mhash c) \<noteq> None"

text \<open>
  The served blockstore reads the plain block first and falls back to the reference; the
  offline DAG service decodes what it reads.
\<close>

definition ref_get :: "boxo \<Rightarrow> store \<Rightarrow> nat \<Rightarrow> bytes option" where
  "ref_get E s h =
     (case map_of (st_refs s) h of
        None \<Rightarrow> None
      | Some r \<Rightarrow> (case map_of (st_disk s) (st_root s @ r_path r) of
                   None \<Rightarrow> None
                 | Some f \<Rightarrow> read_ref E h (r_off r) (r_size r) f))"

definition block_get :: "boxo \<Rightarrow> store \<Rightarrow> cid \<Rightarrow> bytes option" where
  "block_get E s c =
     (case map_of (st_plain s) (mhash c) of Some b \<Rightarrow> Some b | None \<Rightarrow> ref_get E s (mhash c))"

definition dag_get :: "boxo \<Rightarrow> store \<Rightarrow> cid \<Rightarrow> link list option" where
  "dag_get E s c =
     (case block_get E s c of
        None \<Rightarrow> None
      | Some b \<Rightarrow> (case codec_of c of Raw \<Rightarrow> Some [] | DagPb \<Rightarrow> links_of E b))"

definition kids :: "boxo \<Rightarrow> store \<Rightarrow> cid \<Rightarrow> cid list" where
  "kids E s c = (case dag_get E s c of None \<Rightarrow> [] | Some ls \<Rightarrow> map l_cid ls)"

lemma block_get_held: "block_get E s c = Some b \<Longrightarrow> hasLocal s c"
  by (auto simp: block_get_def ref_get_def hasLocal_def split: option.splits)

lemma dag_get_held: "dag_get E s c = Some ls \<Longrightarrow> hasLocal s c"
  by (auto simp: dag_get_def block_get_held split: option.splits)

lemma kids_unheld: "\<not> hasLocal s c \<Longrightarrow> kids E s c = []"
  using dag_get_held by (fastforce simp: kids_def split: option.splits)

section \<open>Walking a DAG\<close>

datatype ('e, 'm) visit = Stop 'e | Skip 'm | Descend 'm

definition held_cids :: "store \<Rightarrow> cid set" where
  "held_cids s = (\<lambda>(k, h). Cid k h) ` ({Raw, DagPb} \<times> (fst ` set (st_plain s) \<union> fst ` set (st_refs s)))"

lemma finite_held_cids [simp]: "finite (held_cids s)"
  by (simp add: held_cids_def)

lemma hasLocal_held_cids: "hasLocal s c \<Longrightarrow> c \<in> held_cids s"
proof -
  assume a: "hasLocal s c"
  have "mhash c \<in> fst ` set (st_plain s) \<union> fst ` set (st_refs s)"
    using a by (auto simp: hasLocal_def image_iff dest!: map_of_SomeD) (metis fst_conv)+
  moreover have "codec_of c \<in> {Raw, DagPb}" by (cases "codec_of c") auto
  moreover have "c = Cid (codec_of c) (mhash c)" by simp
  ultimately show ?thesis unfolding held_cids_def by (metis (mono_tags, lifting) SigmaI case_prod_conv image_eqI)
qed

lemma held_cids_shrink:
  "hasLocal s c \<Longrightarrow> c \<notin> set seen \<Longrightarrow> card (held_cids s - insert c (set seen)) < card (held_cids s - set seen)"
  by (rule psubset_card_mono) (auto dest: hasLocal_held_cids)

lemma held_cids_no_grow: "card (held_cids s - insert c (set seen)) \<le> card (held_cids s - set seen)"
  by (rule card_mono) auto

function dag_walk ::
  "boxo \<Rightarrow> store \<Rightarrow> (cid \<Rightarrow> 'm \<Rightarrow> ('e, 'm) visit) \<Rightarrow> cid list \<Rightarrow> cid list \<Rightarrow> 'm \<Rightarrow> 'e + cid list \<times> 'm" where
  "dag_walk E s v [] seen m = Inr (seen, m)"
| "dag_walk E s v (c # st) seen m =
     (if c \<in> set seen then dag_walk E s v st seen m
      else (case v c m of
              Stop e \<Rightarrow> Inl e
            | Skip m' \<Rightarrow> dag_walk E s v st (c # seen) m'
            | Descend m' \<Rightarrow> dag_walk E s v (kids E s c @ st) (c # seen) m'))"
  by pat_completeness auto
termination
proof (relation "measures [\<lambda>(E, s, v, st, seen, m). card (held_cids s - set seen), \<lambda>(E, s, v, st, seen, m). length st]",
    goal_cases)
  case (4 E s v c st seen m m')
  then show ?case
    using held_cids_shrink[of s c seen] held_cids_no_grow[of s c seen] kids_unheld[of s c E]
    by (cases "hasLocal s c") (auto simp: le_less)
qed (insert held_cids_no_grow, auto simp: le_less)

text \<open>The recursion with the store and the visitor fixed, one case per branch.\<close>

lemma dag_walk_induct [case_names Nil seen stop skip descend]:
  fixes v :: "cid \<Rightarrow> 'm \<Rightarrow> ('e, 'm) visit"
  assumes Nil: "\<And>seen m. P [] seen m"
    and seen: "\<And>c st seen m. c \<in> set seen \<Longrightarrow> P st seen m \<Longrightarrow> P (c # st) seen m"
    and stop: "\<And>c st seen m e. c \<notin> set seen \<Longrightarrow> v c m = Stop e \<Longrightarrow> P (c # st) seen m"
    and skip: "\<And>c st seen m m'. c \<notin> set seen \<Longrightarrow> v c m = Skip m' \<Longrightarrow> P st (c # seen) m' \<Longrightarrow> P (c # st) seen m"
    and descend: "\<And>c st seen m m'. c \<notin> set seen \<Longrightarrow> v c m = Descend m' \<Longrightarrow>
      P (kids E s c @ st) (c # seen) m' \<Longrightarrow> P (c # st) seen m"
  shows "P st seen m"
proof -
  have "E' = E \<Longrightarrow> s' = s \<Longrightarrow> v' = v \<Longrightarrow> P st seen m" for E' s' and v' :: "cid \<Rightarrow> 'm \<Rightarrow> ('e, 'm) visit"
  proof (induction E' s' v' st seen m rule: dag_walk.induct)
    case (2 E' s' v' c st seen m)
    then show ?case
      using seen stop skip descend by (cases "c \<in> set seen"; cases "v c m") auto
  qed (simp add: Nil)
  then show ?thesis by simp
qed

text \<open>What a check reaches: it descends from a block into its links where \<open>opens\<close> says so.\<close>

inductive dag_reach :: "boxo \<Rightarrow> store \<Rightarrow> (cid \<Rightarrow> bool) \<Rightarrow> cid \<Rightarrow> cid \<Rightarrow> bool"
  for E :: boxo and s :: store and opens :: "cid \<Rightarrow> bool" where
  dag_refl: "dag_reach E s opens c c"
| dag_step: "opens c \<Longrightarrow> d \<in> set (kids E s c) \<Longrightarrow> dag_reach E s opens d e \<Longrightarrow> dag_reach E s opens c e"

lemma dag_reach_closed:
  "dag_reach E s opens c d \<Longrightarrow> c \<in> S \<Longrightarrow> (\<And>x. x \<in> S \<Longrightarrow> opens x \<Longrightarrow> set (kids E s x) \<subseteq> S) \<Longrightarrow> d \<in> S"
  by (induction rule: dag_reach.induct) auto

locale dag_check =
  fixes E :: boxo and s :: store
    and visit :: "cid \<Rightarrow> 'm \<Rightarrow> ('e, 'm) visit"
    and ok :: "cid \<Rightarrow> bool" and opens :: "cid \<Rightarrow> bool" and inv :: "'m \<Rightarrow> bool"
  assumes visit_stop: "inv m \<Longrightarrow> visit c m = Stop e \<Longrightarrow> \<not> ok c"
    and visit_skip: "inv m \<Longrightarrow> visit c m = Skip m' \<Longrightarrow> ok c \<and> \<not> opens c \<and> inv m'"
    and visit_descend: "inv m \<Longrightarrow> visit c m = Descend m' \<Longrightarrow> ok c \<and> opens c \<and> inv m'"
begin

lemma walk_stops:
  "dag_walk E s visit st seen m = Inl e \<Longrightarrow> inv m \<Longrightarrow>
     \<exists>c \<in> set st. \<exists>d m'. dag_reach E s opens c d \<and> inv m' \<and> visit d m' = Stop e"
proof (induction st seen m rule: dag_walk_induct[where v = visit and E = E and s = s])
  case (stop c st seen m e1)
  then have "visit c m = Stop e" "inv m" by auto
  then have "\<exists>d m'. dag_reach E s opens c d \<and> inv m' \<and> visit d m' = Stop e"
    using dag_refl by blast
  then show ?case by simp
next
  case (skip c st seen m m')
  then show ?case using visit_skip by auto
next
  case (descend c st seen m m')
  then have "opens c" "inv m'"
    "\<exists>x \<in> set (kids E s c @ st). \<exists>d m'. dag_reach E s opens x d \<and> inv m' \<and> visit d m' = Stop e"
    using visit_descend by auto
  then show ?case by (auto intro: dag_step)
qed auto

lemma walk_passes:
  "dag_walk E s visit st seen m = Inr (seen', m') \<Longrightarrow> inv m \<Longrightarrow>
     set seen \<union> set st \<subseteq> set seen' \<and>
     (\<forall>c \<in> set seen' - set seen. ok c \<and> (opens c \<longrightarrow> set (kids E s c) \<subseteq> set seen'))"
proof (induction st seen m rule: dag_walk_induct[where v = visit and E = E and s = s])
  case (skip c st seen m m1)
  then have "ok c" "\<not> opens c" "inv m1" using visit_skip by auto
  with skip show ?case by auto
next
  case (descend c st seen m m1)
  then have "ok c" "opens c" "inv m1" using visit_descend by auto
  with descend show ?case by auto
qed auto

text \<open>It visits each block once, and only blocks below where it starts.\<close>

lemma walk_visits:
  "dag_walk E s visit st seen m = Inr (seen', m') \<Longrightarrow> inv m \<Longrightarrow> distinct seen \<Longrightarrow>
     distinct seen' \<and> (\<forall>d \<in> set seen' - set seen. \<exists>c \<in> set st. dag_reach E s opens c d)"
proof (induction st seen m rule: dag_walk_induct[where v = visit and E = E and s = s])
  case (skip c st seen m m1)
  then have "inv m1" using visit_skip by auto
  with skip show ?case by (auto intro: dag_refl)
next
  case (descend c st seen m m1)
  then have "opens c" "inv m1" using visit_descend by auto
  then have IH: "distinct seen' \<and> (\<forall>d \<in> set seen' - set (c # seen). \<exists>x \<in> set (kids E s c @ st). dag_reach E s opens x d)"
    using descend by auto
  have "\<exists>x \<in> set (c # st). dag_reach E s opens x d" if "d \<in> set seen' - set seen" for d
  proof (cases "d = c")
    case False
    with that IH obtain x where "x \<in> set (kids E s c @ st)" "dag_reach E s opens x d" by auto
    with \<open>opens c\<close> show ?thesis by (auto intro: dag_step)
  qed (auto intro: dag_refl)
  with IH show ?case by blast
qed auto

lemma walk_exact:
  assumes "inv m"
  shows "isl (dag_walk E s visit [c] [] m) \<longleftrightarrow> (\<exists>d. dag_reach E s opens c d \<and> \<not> ok d)"
proof (cases "dag_walk E s visit [c] [] m")
  case (Inl e)
  then show ?thesis using walk_stops[OF Inl assms] visit_stop by auto
next
  case (Inr r)
  obtain seen' m' where r: "r = (seen', m')" by (cases r)
  note closed = walk_passes[OF Inr[unfolded r] assms]
  have "ok d" if "dag_reach E s opens c d" for d
  proof -
    have "d \<in> set seen'"
      by (rule dag_reach_closed[OF that]) (use closed in auto)
    then show ?thesis using closed by auto
  qed
  then show ?thesis using Inr by auto
qed

end

section \<open>Is the content held whole\<close>

datatype check_error = Not_held cid | Backing_gone cid path | Truncated cid path | Unreadable cid

text \<open>One stat per distinct path: the memo of paths already stat'd, shared by the walks.\<close>

definition stat_memo :: "store \<Rightarrow> path \<Rightarrow> (path \<Rightarrow> bool option) \<Rightarrow> bool \<times> (path \<Rightarrow> bool option)" where
  "stat_memo s p m = (case m p of Some b \<Rightarrow> (b, m) | None \<Rightarrow> (on_disk s p, m(p \<mapsto> on_disk s p)))"

definition memo_ok :: "store \<Rightarrow> (path \<Rightarrow> bool option) \<Rightarrow> bool" where
  "memo_ok s m \<longleftrightarrow> (\<forall>p b. m p = Some b \<longrightarrow> b = on_disk s p)"

lemma stat_memo_ok: "memo_ok s m \<Longrightarrow> stat_memo s p m = (b, m') \<Longrightarrow> b = on_disk s p \<and> memo_ok s m'"
  by (auto simp: stat_memo_def memo_ok_def split: option.splits if_splits)

lemma memo_ok_empty [simp]: "memo_ok s Map.empty"
  by (simp add: memo_ok_def)

definition held_visit ::
  "boxo \<Rightarrow> store \<Rightarrow> cid \<Rightarrow> (path \<Rightarrow> bool option) \<Rightarrow> (check_error, path \<Rightarrow> bool option) visit" where
  "held_visit E s c m =
     (if \<not> hasLocal s c then Stop (Not_held c)
      else if codec_of c = Raw
      then (case list_ref s c of
              None \<Rightarrow> Skip m
            | Some r \<Rightarrow> (let p = st_root s @ r_path r; (ok, m') = stat_memo s p m in
                        if \<not> ok then Stop (Backing_gone c p) else Skip m'))
      else (case dag_get E s c of None \<Rightarrow> Stop (Unreadable c) | Some ls \<Rightarrow> Descend m))"

definition heldWhole :: "boxo \<Rightarrow> store \<Rightarrow> cid \<Rightarrow> check_error option" where
  "heldWhole E s c =
     (case dag_walk E s (held_visit E s) [c] [] Map.empty of Inl e \<Rightarrow> Some e | Inr r \<Rightarrow> None)"

text \<open>One block of a whole DAG: held, its file present where it is referenced, its links readable.\<close>

definition block_whole :: "boxo \<Rightarrow> store \<Rightarrow> cid \<Rightarrow> bool" where
  "block_whole E s c \<longleftrightarrow>
     hasLocal s c \<and>
     (if codec_of c = Raw
      then (case list_ref s c of None \<Rightarrow> True | Some r \<Rightarrow> on_disk s (st_root s @ r_path r))
      else dag_get E s c \<noteq> None)"

definition is_node :: "cid \<Rightarrow> bool" where
  "is_node c \<longleftrightarrow> codec_of c = DagPb"

lemma codec_cases: "codec_of c = Raw \<or> codec_of c = DagPb"
  by (cases "codec_of c") auto

interpretation held: dag_check E s "held_visit E s" "block_whole E s" is_node "memo_ok s"
proof
  fix m c e
  assume "memo_ok s m" "held_visit E s c m = Stop e"
  then show "\<not> block_whole E s c"
    by (auto simp: held_visit_def block_whole_def Let_def split: if_splits option.splits prod.splits
        dest: stat_memo_ok)
next
  fix m c m'
  assume "memo_ok s m" "held_visit E s c m = Skip m'"
  then show "block_whole E s c \<and> \<not> is_node c \<and> memo_ok s m'"
    by (auto simp: held_visit_def block_whole_def is_node_def Let_def split: if_splits option.splits prod.splits
        dest: stat_memo_ok)
next
  fix m c m'
  assume "memo_ok s m" "held_visit E s c m = Descend m'"
  then show "block_whole E s c \<and> is_node c \<and> memo_ok s m'"
    using codec_cases[of c]
    by (auto simp: held_visit_def block_whole_def is_node_def Let_def split: if_splits option.splits prod.splits)
qed

lemma heldWhole_exact:
  "heldWhole E s c = None \<longleftrightarrow> (\<forall>d. dag_reach E s is_node c d \<longrightarrow> block_whole E s d)"
  using held.walk_exact[of s Map.empty E c]
  by (cases "dag_walk E s (held_visit E s) [c] [] Map.empty") (auto simp: heldWhole_def)

fun blame :: "check_error \<Rightarrow> cid" where
  "blame (Not_held c) = c"
| "blame (Backing_gone c p) = c"
| "blame (Truncated c p) = c"
| "blame (Unreadable c) = c"

lemma held_visit_blame: "held_visit E s c m = Stop e \<Longrightarrow> blame e = c"
  by (auto simp: held_visit_def Let_def split: if_splits option.splits prod.splits)

text \<open>The error names a block below the root that is not whole.\<close>

lemma heldWhole_blames:
  assumes "heldWhole E s c = Some e"
  shows "dag_reach E s is_node c (blame e) \<and> \<not> block_whole E s (blame e)"
proof -
  have "dag_walk E s (held_visit E s) [c] [] Map.empty = Inl e"
    using assms by (auto simp: heldWhole_def split: sum.splits)
  from held.walk_stops[OF this memo_ok_empty] obtain d m
    where d: "dag_reach E s is_node c d" "memo_ok s m" "held_visit E s d m = Stop e" by auto
  then show ?thesis using held_visit_blame[OF d(3)] held.visit_stop[OF d(2,3)] by auto
qed

section \<open>Can it be delivered\<close>

text \<open>
  \<open>cidMissing\<close>, \<open>cidServeStatus\<close> and \<open>cidUnservable\<close>. The first two join a reference's path to
  "/", not to \<open>fileRoot\<close>; on Unix that is the same.
\<close>

definition missing_visit ::
  "boxo \<Rightarrow> store \<Rightarrow> cid \<Rightarrow> (path \<Rightarrow> bool option) \<Rightarrow> (unit, path \<Rightarrow> bool option) visit" where
  "missing_visit E s c m =
     (case list_ref s c of
        Some r \<Rightarrow> (let (ok, m') = stat_memo s (r_path r) m in if \<not> ok then Stop () else Skip m')
      | None \<Rightarrow> (case dag_get E s c of None \<Rightarrow> Skip m | Some ls \<Rightarrow> Descend m))"

definition cidMissing :: "boxo \<Rightarrow> store \<Rightarrow> cid \<Rightarrow> bool" where
  "cidMissing E s c = isl (dag_walk E s (missing_visit E s) [c] [] Map.empty)"

definition backing_present :: "store \<Rightarrow> cid \<Rightarrow> bool" where
  "backing_present s c \<longleftrightarrow> (case list_ref s c of None \<Rightarrow> True | Some r \<Rightarrow> on_disk s (r_path r))"

definition unref_node :: "boxo \<Rightarrow> store \<Rightarrow> cid \<Rightarrow> bool" where
  "unref_node E s c \<longleftrightarrow> list_ref s c = None \<and> dag_get E s c \<noteq> None"

interpretation missing: dag_check E s "missing_visit E s" "backing_present s" "unref_node E s" "memo_ok s"
proof
  fix m c e
  assume "memo_ok s m" "missing_visit E s c m = Stop e"
  then show "\<not> backing_present s c"
    by (auto simp: missing_visit_def backing_present_def Let_def split: if_splits option.splits prod.splits
        dest: stat_memo_ok)
next
  fix m c m'
  assume "memo_ok s m" "missing_visit E s c m = Skip m'"
  then show "backing_present s c \<and> \<not> unref_node E s c \<and> memo_ok s m'"
    by (auto simp: missing_visit_def backing_present_def unref_node_def Let_def
        split: if_splits option.splits prod.splits dest: stat_memo_ok)
next
  fix m c m'
  assume "memo_ok s m" "missing_visit E s c m = Descend m'"
  then show "backing_present s c \<and> unref_node E s c \<and> memo_ok s m'"
    by (auto simp: missing_visit_def backing_present_def unref_node_def Let_def
        split: if_splits option.splits prod.splits)
qed

lemma cidMissing_exact:
  "cidMissing E s c \<longleftrightarrow> (\<exists>d. dag_reach E s (unref_node E s) c d \<and> \<not> backing_present s d)"
  using missing.walk_exact[of s Map.empty E c] by (simp add: cidMissing_def)

text \<open>The extents seen so far, per backing path; a file shorter than the extent is truncated.\<close>

definition status_visit ::
  "boxo \<Rightarrow> store \<Rightarrow> cid \<Rightarrow> (path \<Rightarrow> 64 word) \<Rightarrow> (check_error, path \<Rightarrow> 64 word) visit" where
  "status_visit E s c m =
     (case list_ref s c of
        Some r \<Rightarrow>
          (let p = r_path r; e = r_off r + r_size r; m' = (if m p < e then m(p := e) else m) in
           if \<not> on_disk s p then Stop (Backing_gone c p)
           else if file_size s p < m' p then Stop (Truncated c p) else Skip m')
      | None \<Rightarrow> (case dag_get E s c of None \<Rightarrow> Skip m | Some ls \<Rightarrow> Descend m))"

definition cidServeStatus :: "boxo \<Rightarrow> store \<Rightarrow> cid \<Rightarrow> check_error option" where
  "cidServeStatus E s c =
     (case dag_walk E s (status_visit E s) [c] [] (\<lambda>p. 0) of Inl e \<Rightarrow> Some e | Inr r \<Rightarrow> None)"

definition ref_covered :: "store \<Rightarrow> cid \<Rightarrow> bool" where
  "ref_covered s c \<longleftrightarrow>
     (case list_ref s c of None \<Rightarrow> True
      | Some r \<Rightarrow> on_disk s (r_path r) \<and> r_off r + r_size r \<le> file_size s (r_path r))"

definition extent_ok :: "store \<Rightarrow> (path \<Rightarrow> 64 word) \<Rightarrow> bool" where
  "extent_ok s m \<longleftrightarrow> (\<forall>p. m p \<le> file_size s p)"

lemma extent_ok_zero [simp]: "extent_ok s (\<lambda>p. 0)"
  by (simp add: extent_ok_def)

interpretation status: dag_check E s "status_visit E s" "ref_covered s" "unref_node E s" "extent_ok s"
proof
  fix m c e
  assume "extent_ok s m" "status_visit E s c m = Stop e"
  then show "\<not> ref_covered s c"
    by (auto simp: status_visit_def ref_covered_def extent_ok_def Let_def not_le
        split: if_splits option.splits dest: leD)
next
  fix m c m'
  assume "extent_ok s m" "status_visit E s c m = Skip m'"
  then show "ref_covered s c \<and> \<not> unref_node E s c \<and> extent_ok s m'"
    by (auto simp: status_visit_def ref_covered_def unref_node_def extent_ok_def Let_def not_less
        split: if_splits option.splits intro: order_trans)
next
  fix m c m'
  assume "extent_ok s m" "status_visit E s c m = Descend m'"
  then show "ref_covered s c \<and> unref_node E s c \<and> extent_ok s m'"
    by (auto simp: status_visit_def ref_covered_def unref_node_def Let_def split: if_splits option.splits)
qed

lemma cidServeStatus_exact:
  "cidServeStatus E s c = None \<longleftrightarrow> (\<forall>d. dag_reach E s (unref_node E s) c d \<longrightarrow> ref_covered s d)"
  using status.walk_exact[of s "\<lambda>p. 0" E c]
  by (cases "dag_walk E s (status_visit E s) [c] [] (\<lambda>p. 0)") (auto simp: cidServeStatus_def)

text \<open>The deep check: every block is read, which verifies a referenced one.\<close>

definition unservable_visit :: "boxo \<Rightarrow> store \<Rightarrow> cid \<Rightarrow> unit \<Rightarrow> (check_error, unit) visit" where
  "unservable_visit E s c m =
     (case block_get E s c of
        None \<Rightarrow> Stop (Unreadable c)
      | Some b \<Rightarrow> (case list_ref s c of
                   Some r \<Rightarrow> Skip m
                 | None \<Rightarrow> (case dag_get E s c of None \<Rightarrow> Skip m | Some ls \<Rightarrow> Descend m)))"

definition cidUnservable :: "boxo \<Rightarrow> store \<Rightarrow> cid \<Rightarrow> check_error option" where
  "cidUnservable E s c =
     (case dag_walk E s (unservable_visit E s) [c] [] () of Inl e \<Rightarrow> Some e | Inr r \<Rightarrow> None)"

definition readable :: "boxo \<Rightarrow> store \<Rightarrow> cid \<Rightarrow> bool" where
  "readable E s c \<longleftrightarrow> block_get E s c \<noteq> None"

interpretation unservable:
  dag_check E s "unservable_visit E s" "readable E s" "unref_node E s" "\<lambda>m. True"
  by unfold_locales
    (auto simp: unservable_visit_def readable_def unref_node_def split: option.splits)

lemma cidUnservable_exact:
  "cidUnservable E s c = None \<longleftrightarrow> (\<forall>d. dag_reach E s (unref_node E s) c d \<longrightarrow> readable E s d)"
  using unservable.walk_exact[of E s c "()"]
  by (cases "dag_walk E s (unservable_visit E s) [c] [] ()") (auto simp: cidUnservable_def)

subsection \<open>Scans of the whole reference table\<close>

definition rows :: "store \<Rightarrow> (nat \<times> fsref) list" where
  "rows s = filter (\<lambda>(h, r). map_of (st_refs s) h = Some r) (st_refs s)"

fun scan_gone :: "store \<Rightarrow> (nat \<times> fsref) list \<Rightarrow> path set \<Rightarrow> path list \<Rightarrow> path list" where
  "scan_gone s [] seen gone = gone"
| "scan_gone s ((h, r) # rs) seen gone =
     (let p = st_root s @ r_path r in
      if r_path r = [] then scan_gone s rs seen gone
      else if p \<in> seen then scan_gone s rs seen gone
      else scan_gone s rs (insert p seen) (if on_disk s p then gone else gone @ [p]))"

definition orphanedRefPaths :: "store \<Rightarrow> path list" where
  "orphanedRefPaths s = scan_gone s (rows s) {} []"

definition unservableRefs :: "boxo \<Rightarrow> store \<Rightarrow> (nat \<times> path) list" where
  "unservableRefs E s =
     map (\<lambda>(h, r). (h, r_path r)) (filter (\<lambda>(h, r). ref_get E s h = None) (rows s))"

definition counts :: "store \<Rightarrow> nat \<times> nat" where
  "counts s = (length (rows s), card (fst ` set (st_plain s)))"

lemma rows_iff: "(h, r) \<in> set (rows s) \<longleftrightarrow> map_of (st_refs s) h = Some r"
  by (auto simp: rows_def dest: map_of_SomeD)

definition names_path :: "store \<Rightarrow> (nat \<times> fsref) list \<Rightarrow> path \<Rightarrow> bool" where
  "names_path s rs p \<longleftrightarrow> (\<exists>h r. (h, r) \<in> set rs \<and> r_path r \<noteq> [] \<and> p = st_root s @ r_path r)"

lemma names_path_Cons:
  "names_path s ((h, r) # rs) p \<longleftrightarrow> (r_path r \<noteq> [] \<and> p = st_root s @ r_path r) \<or> names_path s rs p"
  by (auto simp: names_path_def)

lemma scan_gone_exact:
  "set gone \<subseteq> seen \<Longrightarrow> distinct gone \<Longrightarrow>
     distinct (scan_gone s rs seen gone) \<and>
     (\<forall>p. p \<in> set (scan_gone s rs seen gone) \<longleftrightarrow>
        p \<in> set gone \<or> (p \<notin> seen \<and> \<not> on_disk s p \<and> names_path s rs p))"
proof (induction s rs seen gone rule: scan_gone.induct)
  case (1 s seen gone)
  then show ?case by (simp add: names_path_def)
next
  case (2 s h r rs seen gone)
  let ?p = "st_root s @ r_path r"
  consider "r_path r = []" | "r_path r \<noteq> []" "?p \<in> seen" | "r_path r \<noteq> []" "?p \<notin> seen" by blast
  then show ?case
  proof cases
    case 3
    have "set (if on_disk s ?p then gone else gone @ [?p]) \<subseteq> insert ?p seen"
      "distinct (if on_disk s ?p then gone else gone @ [?p])"
      using 2(4,5) 3(2) by auto
    note IH = 2(3)[OF refl 3 this]
    show ?thesis
    proof (cases "on_disk s ?p")
      case True
      then show ?thesis using IH 3 by (auto simp: Let_def names_path_Cons)
    next
      case False
      then show ?thesis using IH 3 2(4) by (auto simp: Let_def names_path_Cons)
    qed
  qed (use 2 in \<open>auto simp: Let_def names_path_Cons\<close>)
qed

lemma orphanedRefPaths_exact:
  "distinct (orphanedRefPaths s) \<and>
   (\<forall>p. p \<in> set (orphanedRefPaths s) \<longleftrightarrow>
      \<not> on_disk s p \<and> (\<exists>h r. map_of (st_refs s) h = Some r \<and> r_path r \<noteq> [] \<and> p = st_root s @ r_path r))"
  using scan_gone_exact[of "[]" "{}" s "rows s"]
  by (simp add: orphanedRefPaths_def names_path_def rows_iff)

section \<open>How the checks are related\<close>

text \<open>
  A reference of a held DAG is a reference to a raw leaf when no node of it is one: then the
  checks descend through the same blocks, and the deep check implies the cheap ones.
\<close>

definition refs_are_leaves :: "boxo \<Rightarrow> store \<Rightarrow> cid \<Rightarrow> bool" where
  "refs_are_leaves E s c \<longleftrightarrow> (\<forall>d. dag_reach E s is_node c d \<longrightarrow> is_node d \<longrightarrow> list_ref s d = None)"

lemma dag_reach_trans:
  "dag_reach E s f c d \<Longrightarrow> f d \<Longrightarrow> e \<in> set (kids E s d) \<Longrightarrow> dag_reach E s f c e"
  by (induction rule: dag_reach.induct) (auto intro: dag_reach.intros)

lemma reach_unref_is_node:
  assumes "dag_reach E s (unref_node E s) c d"
  shows "dag_reach E s is_node c d"
  using assms
proof (induction rule: dag_reach.induct)
  case (dag_step c d e)
  have "is_node c"
  proof (rule ccontr)
    assume "\<not> is_node c"
    then have "codec_of c = Raw" using codec_cases[of c] by (auto simp: is_node_def)
    then have "kids E s c = []" by (auto simp: kids_def dag_get_def split: option.splits)
    with dag_step show False by simp
  qed
  with dag_step show ?case by (auto intro: dag_reach.dag_step)
qed (rule dag_refl)

text \<open>What is held whole is neither missing nor short of a backing file, when the root is "/".\<close>

lemma whole_not_missing:
  assumes "heldWhole E s c = None" "refs_are_leaves E s c" "st_root s = []"
  shows "\<not> cidMissing E s c"
proof
  assume "cidMissing E s c"
  then obtain d where d: "dag_reach E s (unref_node E s) c d" "\<not> backing_present s d"
    unfolding cidMissing_exact by blast
  have r: "dag_reach E s is_node c d" by (rule reach_unref_is_node[OF d(1)])
  then have "block_whole E s d" using assms(1) by (simp add: heldWhole_exact)
  moreover have "codec_of d = Raw"
    using assms(2) r d(2) codec_cases[of d] by (auto simp: refs_are_leaves_def is_node_def backing_present_def)
  ultimately show False
    using d(2) assms(3) by (auto simp: block_whole_def backing_present_def split: option.splits)
qed

lemma status_implies_present: "cidServeStatus E s c = None \<Longrightarrow> \<not> cidMissing E s c"
  by (auto simp: cidServeStatus_exact cidMissing_exact ref_covered_def backing_present_def split: option.splits)

text \<open>
  What reading a reference promises: the bytes hash to the key, and the range lies in a file
  whose size is a file size.
\<close>

definition read_law :: "boxo \<Rightarrow> bool" where
  "read_law E \<longleftrightarrow>
     (\<forall>h off sz f b. read_ref E h off sz f = Some b \<longrightarrow>
        hash_of E b = h \<and> unat off + unat sz \<le> length f \<and> length f < 2 ^ 63)"

lemma range_in_file:
  assumes "unat (a :: 64 word) + unat b \<le> n" "n < 2 ^ 63"
  shows "a + b \<le> word_of_nat n"
proof -
  have n: "unat (word_of_nat n :: 64 word) = n"
    using assms(2) by (simp add: unsigned_of_nat take_bit_nat_eq_self_iff)
  have "unat (a + b) \<le> unat a + unat b" by (simp add: unat_word_ariths)
  then show ?thesis using assms(1) n by (simp add: word_le_nat_alt)
qed

text \<open>A reference never lies beside a plain copy of the same block.\<close>

definition refs_not_shadowed :: "store \<Rightarrow> bool" where
  "refs_not_shadowed s \<longleftrightarrow> list_all (\<lambda>(h, r). map_of (st_plain s) h = None) (st_refs s)"

lemma deep_implies_status:
  assumes law: "read_law E" and sh: "refs_not_shadowed s" and root: "st_root s = []"
    and deep: "cidUnservable E s c = None"
  shows "cidServeStatus E s c = None"
  unfolding cidServeStatus_exact
proof (intro allI impI)
  fix d assume "dag_reach E s (unref_node E s) c d"
  then have rd: "readable E s d" using deep by (simp add: cidUnservable_exact)
  show "ref_covered s d"
  proof (cases "list_ref s d")
    case None
    then show ?thesis by (simp add: ref_covered_def)
  next
    case (Some r)
    then have r: "map_of (st_refs s) (mhash d) = Some r"
      by (auto simp: list_ref_def split: option.splits if_splits)
    then have "map_of (st_plain s) (mhash d) = None"
      using sh by (auto simp: refs_not_shadowed_def list_all_iff dest!: map_of_SomeD)
    then obtain f b where f: "map_of (st_disk s) (r_path r) = Some f" "read_ref E (mhash d) (r_off r) (r_size r) f = Some b"
      using rd r root by (auto simp: readable_def block_get_def ref_get_def split: option.splits)
    then have "unat (r_off r) + unat (r_size r) \<le> length f" "length f < 2 ^ 63"
      using law unfolding read_law_def by blast+
    then show ?thesis
      using Some f range_in_file by (simp add: ref_covered_def on_disk_def file_size_def)
  qed
qed

section \<open>Publishing a node and its folder\<close>

definition chunkSize :: nat where
  "chunkSize = 262144"

definition rawCid :: "boxo \<Rightarrow> bytes \<Rightarrow> cid" where
  "rawCid E b = Cid Raw (hash_of E b)"

datatype put_step = Put_block | Delete_ref | Is_pinned | Pin_direct | Pin_flush

datatype store_error =
  Too_big nat | Step_failed put_step | Not_cid string | Not_whole string check_error | Lost string | Too_many

text \<open>A block already stored is left as it is.\<close>

definition plain_put :: "nat \<Rightarrow> bytes \<Rightarrow> store \<Rightarrow> store" where
  "plain_put h b s =
     (if map_of (st_plain s) h = None then s\<lparr>st_plain := (h, b) # st_plain s\<rparr> else s)"

definition delete_ref :: "nat \<Rightarrow> store \<Rightarrow> store" where
  "delete_ref h s = s\<lparr>st_refs := filter (\<lambda>x. fst x \<noteq> h) (st_refs s)\<rparr>"

definition isPinned :: "store \<Rightarrow> cid \<Rightarrow> bool" where
  "isPinned s c \<longleftrightarrow> c \<in> set (st_recursive s) \<or> c \<in> set (st_direct s)"

text \<open>
  \<open>blockPut\<close>, with the system call that fails. \<open>IsPinned\<close> also answers for a block below a
  recursive pin; that answer is the argument \<open>indirect\<close>.
\<close>

definition put_pin :: "put_step option \<Rightarrow> bool \<Rightarrow> cid \<Rightarrow> store \<Rightarrow> (store_error + cid) \<times> store" where
  "put_pin fault indirect c s =
     (if fault = Some Is_pinned then (Inl (Step_failed Is_pinned), s)
      else if isPinned s c \<or> indirect then (Inr c, s\<lparr>st_announced := c # st_announced s\<rparr>)
      else if fault = Some Pin_direct then (Inl (Step_failed Pin_direct), s)
      else (let s' = s\<lparr>st_direct := c # st_direct s\<rparr> in
            if fault = Some Pin_flush then (Inl (Step_failed Pin_flush), s')
            else (Inr c, s'\<lparr>st_announced := c # st_announced s\<rparr>)))"

definition blockPut ::
  "boxo \<Rightarrow> put_step option \<Rightarrow> bool \<Rightarrow> bytes \<Rightarrow> store \<Rightarrow> (store_error + cid) \<times> store" where
  "blockPut E fault indirect b s =
     (let c = rawCid E b; s1 = plain_put (hash_of E b) b s in
      if length b > chunkSize then (Inl (Too_big (length b)), s)
      else if fault = Some Put_block then (Inl (Step_failed Put_block), s)
      else if cidMissing E s1 c
      then (if fault = Some Delete_ref then (Inl (Step_failed Delete_ref), s1)
            else put_pin fault indirect c (delete_ref (hash_of E b) s1))
      else put_pin fault indirect c s1)"

text \<open>The local half of \<open>blockGet\<close>: only a raw leaf is one block.\<close>

definition blockGet :: "boxo \<Rightarrow> store \<Rightarrow> cid \<Rightarrow> bytes option" where
  "blockGet E s c = (if codec_of c \<noteq> Raw then None else block_get E s c)"

definition unpin :: "cid \<Rightarrow> store \<Rightarrow> store" where
  "unpin c s = s\<lparr>st_unlisted := c # st_unlisted s, st_recursive := removeAll c (st_recursive s),
              st_direct := removeAll c (st_direct s)\<rparr>"

definition pinLs :: "store \<Rightarrow> cid list" where
  "pinLs s = st_recursive s @ st_direct s"

lemma raw_kids [simp]: "codec_of c = Raw \<Longrightarrow> kids E s c = []"
  by (auto simp: kids_def dag_get_def split: option.splits)

lemma reach_raw: "codec_of c = Raw \<Longrightarrow> dag_reach E s f c d \<longleftrightarrow> d = c"
  by (auto elim: dag_reach.cases intro: dag_refl)

lemma raw_whole: "codec_of c = Raw \<Longrightarrow> heldWhole E s c = None \<longleftrightarrow> block_whole E s c"
  by (simp add: heldWhole_exact reach_raw)

lemma raw_missing: "codec_of c = Raw \<Longrightarrow> cidMissing E s c \<longleftrightarrow> \<not> backing_present s c"
  by (simp add: cidMissing_exact reach_raw)

lemma map_of_filter_fst: "map_of (filter (\<lambda>x. P (fst x)) xs) k = (if P k then map_of xs k else None)"
  by (induction xs) auto

lemma map_of_delete_ref [simp]:
  "map_of (st_refs (delete_ref h s)) k = (if k = h then None else map_of (st_refs s) k)"
  by (simp add: delete_ref_def map_of_filter_fst[of "\<lambda>k. k \<noteq> h"])

lemma put_pin_ok:
  assumes "put_pin fault indirect c s = (Inr c', s')"
  shows "c' = c" and "st_plain s' = st_plain s" and "st_refs s' = st_refs s" and "st_disk s' = st_disk s"
    and "st_root s' = st_root s" and "c \<in> set (st_announced s')" and "isPinned s' c \<or> indirect"
  using assms by (auto simp: put_pin_def Let_def isPinned_def split: if_splits)

lemma plain_put_ok:
  assumes "\<forall>b'. map_of (st_plain s) h = Some b' \<longrightarrow> b' = b"
  shows "map_of (st_plain (plain_put h b s)) h = Some b"
  using assms by (cases "map_of (st_plain s) h") (auto simp: plain_put_def)

lemma plain_put_other [simp]:
  "k \<noteq> h \<Longrightarrow> map_of (st_plain (plain_put h b s)) k = map_of (st_plain s) k"
  "st_refs (plain_put h b s) = st_refs s" "st_disk (plain_put h b s) = st_disk s"
  "st_root (plain_put h b s) = st_root s"
  by (auto simp: plain_put_def)

lemma list_ref_cong: "st_refs s = st_refs t \<Longrightarrow> list_ref s c = list_ref t c"
  by (simp add: list_ref_def)

text \<open>After a successful put the block reads back, from the plain table, with no dead reference left.\<close>

lemma put_served:
  assumes put: "blockPut E fault indirect b s = (Inr c, s')"
    and fresh: "\<forall>b'. map_of (st_plain s) (hash_of E b) = Some b' \<longrightarrow> b' = b"
    and root: "st_root s = []"
  shows "c = rawCid E b \<and> blockGet E s' c = Some b \<and> heldWhole E s' c = None \<and> \<not> cidMissing E s' c"
proof -
  define s1 where "s1 = plain_put (hash_of E b) b s"
  define s2 where "s2 = (if cidMissing E s1 (rawCid E b) then delete_ref (hash_of E b) s1 else s1)"
  have c: "codec_of (rawCid E b) = Raw" "mhash (rawCid E b) = hash_of E b" by (simp_all add: rawCid_def)
  have pp: "put_pin fault indirect (rawCid E b) s2 = (Inr c, s')"
    using put by (auto simp: blockPut_def Let_def s1_def s2_def split: if_splits)
  note pin = put_pin_ok[OF pp]
  have plain: "map_of (st_plain s') (hash_of E b) = Some b"
    using plain_put_ok[OF fresh] pin(2) by (simp add: s2_def s1_def delete_ref_def)
  have root': "st_root s' = []" "st_disk s' = st_disk s2"
    using pin(4,5) root by (auto simp: s2_def s1_def delete_ref_def)
  have pres: "backing_present s' (rawCid E b)"
  proof (cases "cidMissing E s1 (rawCid E b)")
    case True
    then show ?thesis using pin(3) c by (simp add: s2_def backing_present_def list_ref_def)
  next
    case False
    then have "backing_present s1 (rawCid E b)" using c by (simp add: raw_missing)
    with False show ?thesis
      using pin(3,4) list_ref_cong[of s' s1]
      by (simp add: s2_def backing_present_def on_disk_def split: option.splits)
  qed
  then have "block_whole E s' (rawCid E b)"
    using plain c root'
    by (simp add: block_whole_def hasLocal_def backing_present_def split: option.splits)
  then show ?thesis
    using pin(1) plain c pres
    by (simp add: raw_whole raw_missing blockGet_def block_get_def)
qed

lemma put_pin_err: "put_pin fault indirect c s = (Inl e, s') \<Longrightarrow> st_announced s' = st_announced s"
  by (auto simp: put_pin_def Let_def split: if_splits)

lemma put_announced [simp]:
  "st_announced (plain_put h b s) = st_announced s" "st_announced (delete_ref h s) = st_announced s"
  by (simp_all add: plain_put_def delete_ref_def)

lemma blockPut_err: "blockPut E fault indirect b s = (Inl e, s') \<Longrightarrow> st_announced s' = st_announced s"
  unfolding blockPut_def Let_def by (auto split: if_splits dest: put_pin_err)

lemma blockPut_ok:
  "blockPut E fault indirect b s = (Inr c, s') \<Longrightarrow>
     length b \<le> chunkSize \<and> (\<exists>t. put_pin fault indirect (rawCid E b) t = (Inr c, s'))"
  unfolding blockPut_def Let_def by (auto split: if_splits)

text \<open>
  A node block that \<open>blockPut\<close> accepts is at once readable, held whole, not missing, pinned
  (directly, or under a recursive pin already there) and announced, whatever dead reference its
  bytes had; more than a chunk is refused, and a refusal or an I/O error announces nothing.
\<close>

theorem block_put_serves:
  assumes "\<forall>b'. map_of (st_plain s) (hash_of E b) = Some b' \<longrightarrow> b' = b" and "st_root s = []"
  shows "case blockPut E fault indirect b s of
      (Inr c, s') \<Rightarrow> length b \<le> chunkSize \<and> c = rawCid E b \<and> blockGet E s' c = Some b \<and> heldWhole E s' c = None \<and>
        \<not> cidMissing E s' c \<and> (isPinned s' c \<or> indirect) \<and> c \<in> set (st_announced s')
    | (Inl e, s') \<Rightarrow> st_announced s' = st_announced s"
proof (cases "blockPut E fault indirect b s")
  case (Pair r s')
  show ?thesis
  proof (cases r)
    case (Inl e)
    then show ?thesis using blockPut_err[of E fault indirect b s e s'] Pair by simp
  next
    case (Inr c)
    with Pair have put: "blockPut E fault indirect b s = (Inr c, s')" by simp
    obtain t where t: "length b \<le> chunkSize" "put_pin fault indirect (rawCid E b) t = (Inr c, s')"
      using blockPut_ok[OF put] by blast
    show ?thesis
      using put_served[OF put assms] t(1) put_pin_ok(1,6,7)[OF t(2)] Pair Inr by simp
  qed
qed

definition plain_boxo :: boxo where
  "plain_boxo = \<lparr>hash_of = length, links_of = (\<lambda>b. None), read_ref = (\<lambda>h off sz f. None),
     decode_cid = (\<lambda>t. None), dir_bytes = (\<lambda>ls. []), dir_links = (\<lambda>b. None)\<rparr>"

definition dead_ref_store :: store where
  "dead_ref_store = \<lparr>st_root = [], st_plain = [], st_refs = [(3, \<lparr>r_path = [''gone''], r_off = 0, r_size = 3\<rparr>)],
     st_disk = [], st_recursive = [], st_direct = [], st_made = [], st_announced = [], st_unlisted = []\<rparr>"

lemma demo_put:
  "blockPut plain_boxo None False [9, 9, 9] dead_ref_store =
     (Inr (Cid Raw 3), dead_ref_store\<lparr>st_plain := [(3, [9, 9, 9])], st_refs := [], st_direct := [Cid Raw 3],
        st_announced := [Cid Raw 3]\<rparr>)"
proof -
  have "rawCid plain_boxo [9, 9, 9] = Cid Raw 3" "hash_of plain_boxo [9, 9, 9] = 3" by code_simp+
  moreover have "cidMissing plain_boxo (plain_put 3 [9, 9, 9] dead_ref_store) (Cid Raw 3)" by code_simp
  moreover have "put_pin None False (Cid Raw 3) (delete_ref 3 (plain_put 3 [9, 9, 9] dead_ref_store)) =
      (Inr (Cid Raw 3), dead_ref_store\<lparr>st_plain := [(3, [9, 9, 9])], st_refs := [], st_direct := [Cid Raw 3],
         st_announced := [Cid Raw 3]\<rparr>)" by code_simp
  ultimately show ?thesis by (simp add: blockPut_def chunkSize_def Let_def)
qed

theorem block_put_serves_witness:
  "case blockPut plain_boxo None False [9, 9, 9] dead_ref_store of
      (Inr c, s') \<Rightarrow> c = Cid Raw 3 \<and> heldWhole plain_boxo s' c = None
    | (Inl e, s') \<Rightarrow> False"
proof -
  have "\<forall>b'. map_of (st_plain dead_ref_store) (hash_of plain_boxo [9, 9, 9]) = Some b' \<longrightarrow> b' = [9, 9, 9]"
    "st_root dead_ref_store = []" by (simp_all add: dead_ref_store_def)
  from block_put_serves[OF this, where fault = None and indirect = False] show ?thesis
    unfolding demo_put prod.case sum.case by blast
qed

section \<open>The checks are exact\<close>

text \<open>
  C2. \<open>heldWhole\<close> returns on every store, also one whose links form a cycle; it returns no error
  exactly when every block below the CID is held, with its file present where it is a
  reference, and an error names a block below the CID that is not.
\<close>

theorem held_check_exact:
  "case heldWhole E s c of
     None \<Rightarrow> (\<forall>d. dag_reach E s is_node c d \<longrightarrow> block_whole E s d)
   | Some e \<Rightarrow> dag_reach E s is_node c (blame e) \<and> \<not> block_whole E s (blame e)"
  using heldWhole_exact[of E s c] heldWhole_blames[of E s c] by (cases "heldWhole E s c") auto

text \<open>A two-block cycle, one of them a stale copy: a corrupt store the walk still leaves.\<close>

definition cyclic_boxo :: boxo where
  "cyclic_boxo = plain_boxo\<lparr>links_of := (\<lambda>b. if b = [1] then Some [\<lparr>l_name = [], l_cid = Cid DagPb 5, l_size = 1\<rparr>]
     else if b = [2] then Some [\<lparr>l_name = [], l_cid = Cid DagPb 3, l_size = 1\<rparr>, \<lparr>l_name = [], l_cid = Cid Raw 7, l_size = 1\<rparr>]
     else None)\<rparr>"

definition cyclic_store :: store where
  "cyclic_store = dead_ref_store\<lparr>st_plain := [(3, [1]), (5, [2])], st_refs := [(7, \<lparr>r_path = [''f''], r_off = 0, r_size = 1\<rparr>)]\<rparr>"

theorem held_check_exact_witness:
  "heldWhole cyclic_boxo cyclic_store (Cid DagPb 3) = Some (Backing_gone (Cid Raw 7) [''f'']) \<and>
   dag_reach cyclic_boxo cyclic_store is_node (Cid DagPb 3) (Cid Raw 7)"
proof -
  have "heldWhole cyclic_boxo cyclic_store (Cid DagPb 3) = Some (Backing_gone (Cid Raw 7) [''f''])" by code_simp
  with held_check_exact[of cyclic_boxo cyclic_store "Cid DagPb 3"] show ?thesis by simp
qed


definition leaf_boxo :: boxo where
  "leaf_boxo = plain_boxo\<lparr>hash_of := length, read_ref := (\<lambda>h off sz f. if h = 3 \<and> off = 0 \<and> sz = 3 \<and> f = [9, 9, 9] then Some f else None)\<rparr>"

definition leaf_store :: store where
  "leaf_store = dead_ref_store\<lparr>st_disk := [([''gone''], [9, 9, 9])]\<rparr>"


text \<open>
  On Windows the references are relative to a volume: \<open>heldWhole\<close> joins them to \<open>fileRoot\<close>, but
  \<open>cidMissing\<close> and \<open>cidServeStatus\<close> join them to "/", so content held whole reads as missing.
\<close>

lemma windows_root_missing:
  "let s = leaf_store\<lparr>st_root := [''D:''], st_disk := [([''D:'', ''gone''], [9, 9, 9])]\<rparr> in
   heldWhole leaf_boxo s (Cid Raw 3) = None \<and> cidMissing leaf_boxo s (Cid Raw 3) \<and>
   cidServeStatus leaf_boxo s (Cid Raw 3) = Some (Backing_gone (Cid Raw 3) [''gone''])"
  by code_simp

end
