(* ===== verification/Publish.thy ===== *)
theory Publish
  imports Store "HOL-Library.AList"
begin

text \<open>
  Package folders (\<open>makeDir\<close>, \<open>makeWholeDir\<close> and \<open>dirEntries\<close> of \<open>blocks.go\<close>): a UnixFS folder over
  content the node already holds. The pin of the folder is recorded without a walk, so each
  entry is checked whole first; a folder this node made itself is taken as whole. The encoding
  of a folder is boxo's (\<open>dir_bytes\<close>), one block: a folder past the HAMT threshold is left out.
\<close>

section \<open>Building a folder\<close>

datatype dir_step = Add_node | Pin_node | Flush_pins

text \<open>\<open>dserv.Add\<close> goes through the filestore, which stores nothing it already has.\<close>

definition fs_put :: "nat \<Rightarrow> bytes \<Rightarrow> store \<Rightarrow> store" where
  "fs_put h b s = (if hasLocal s (Cid Raw h) then s else s\<lparr>st_plain := (h, b) # st_plain s\<rparr>)"

definition entry_whole :: "boxo \<Rightarrow> store \<Rightarrow> cid \<Rightarrow> check_error option" where
  "entry_whole E s c = (if c \<in> set (st_made s) then None else heldWhole E s c)"

definition add_gap ::
  "string \<Rightarrow> store_error + (string \<times> cid) list \<times> string list \<Rightarrow> store_error + (string \<times> cid) list \<times> string list" where
  "add_gap n r = map_sum id (\<lambda>(links, gaps). (links, n # gaps)) r"

definition add_child ::
  "string \<Rightarrow> cid \<Rightarrow> store_error + (string \<times> cid) list \<times> string list \<Rightarrow> store_error + (string \<times> cid) list \<times> string list" where
  "add_child n c r = map_sum id (\<lambda>(links, gaps). ((n, c) # links, gaps)) r"

fun link_entries ::
  "boxo \<Rightarrow> store \<Rightarrow> bool \<Rightarrow> (string \<times> string) list \<Rightarrow> store_error + (string \<times> cid) list \<times> string list" where
  "link_entries E s leaveOut [] = Inr ([], [])"
| "link_entries E s leaveOut ((n, t) # es) =
     (case decode_cid E t of
        None \<Rightarrow> if leaveOut then add_gap n (link_entries E s leaveOut es) else Inl (Not_cid n)
      | Some c \<Rightarrow>
          (case entry_whole E s c of
             Some e \<Rightarrow> if leaveOut then add_gap n (link_entries E s leaveOut es) else Inl (Not_whole n e)
           | None \<Rightarrow> (case dag_get E s c of
                       None \<Rightarrow> Inl (Lost n)
                     | Some ls \<Rightarrow> add_child n c (link_entries E s leaveOut es))))"

definition keep_dir ::
  "dir_step option \<Rightarrow> cid \<Rightarrow> string list \<Rightarrow> store \<Rightarrow> (dir_step + cid option \<times> string list) \<times> store" where
  "keep_dir fault c gaps s =
     (let s2 = s\<lparr>st_recursive := c # st_recursive s\<rparr> in
      if fault = Some Pin_node then (Inl Pin_node, s)
      else if fault = Some Flush_pins then (Inl Flush_pins, s2)
      else (Inr (Some c, gaps), s2\<lparr>st_made := c # st_made s2, st_announced := c # st_announced s2\<rparr>))"

definition folder_of :: "boxo \<Rightarrow> (string \<times> cid) list \<Rightarrow> cid" where
  "folder_of E links = Cid DagPb (hash_of E (dir_bytes E links))"

definition makeWholeDir ::
  "boxo \<Rightarrow> dir_step option \<Rightarrow> bool \<Rightarrow> (string \<times> string) list \<Rightarrow> store \<Rightarrow>
     ((store_error + dir_step) + cid option \<times> string list) \<times> store" where
  "makeWholeDir E fault leaveOut entries s =
     (case link_entries E s leaveOut (sort_key fst entries) of
        Inl e \<Rightarrow> (Inl (Inl e), s)
      | Inr (links, gaps) \<Rightarrow>
          if leaveOut \<and> gaps \<noteq> [] \<and> length gaps = length entries then (Inr (None, gaps), s)
          else if fault = Some Add_node then (Inl (Inr Add_node), s)
          else (let b = dir_bytes E links;
                    (r, s') = keep_dir fault (folder_of E links) gaps (fs_put (hash_of E b) b s)
                in (map_sum Inr id r, s')))"

definition makeDir ::
  "boxo \<Rightarrow> dir_step option \<Rightarrow> (string \<times> string) list \<Rightarrow> store \<Rightarrow> (store_error + dir_step) + cid \<times> store" where
  "makeDir E fault entries s =
     (case makeWholeDir E fault False entries s of
        (Inl e, s') \<Rightarrow> Inl e
      | (Inr (Some c, gaps), s') \<Rightarrow> Inr (c, s')
      | (Inr (None, gaps), s') \<Rightarrow> Inl (Inl Too_many))"

text \<open>Listing a folder, bounded because a friend's folder is untrusted; a repeated name is one entry.\<close>

definition maxDirEntries :: nat where
  "maxDirEntries = 100000"

fun list_links :: "nat \<Rightarrow> link list \<Rightarrow> (string \<times> cid) list \<Rightarrow> store_error + (string \<times> cid) list" where
  "list_links bound [] out = Inr out"
| "list_links bound (l # ls) out =
     (if bound \<le> length out then Inl Too_many
      else list_links bound ls (AList.update (l_name l) (l_cid l) out))"

definition dirEntries :: "boxo \<Rightarrow> store \<Rightarrow> cid \<Rightarrow> store_error + (string \<times> cid) list" where
  "dirEntries E s c =
     (case block_get E s c of
        None \<Rightarrow> Inl (Lost [])
      | Some b \<Rightarrow> (case dir_links E b of
                   None \<Rightarrow> Inl (Lost [])
                 | Some ls \<Rightarrow> list_links maxDirEntries ls []))"

section \<open>Adding a block keeps what is whole whole\<close>

lemma fs_put_fields [simp]:
  "st_refs (fs_put h b s) = st_refs s" "st_disk (fs_put h b s) = st_disk s" "st_root (fs_put h b s) = st_root s"
  "st_made (fs_put h b s) = st_made s"
  by (simp_all add: fs_put_def)

lemma fs_put_held: "hasLocal s c \<Longrightarrow> block_get E (fs_put h b s) c = block_get E s c \<and> hasLocal (fs_put h b s) c"
  by (auto simp: fs_put_def hasLocal_def block_get_def ref_get_def cong: option.case_cong)

lemma fs_put_block_whole: "block_whole E s c \<Longrightarrow> block_whole E (fs_put h b s) c"
  using fs_put_held[of s c E h b]
  by (auto simp: block_whole_def list_ref_def on_disk_def dag_get_def split: option.splits if_splits)

lemma fs_put_kids: "hasLocal s c \<Longrightarrow> kids E (fs_put h b s) c = kids E s c"
  using fs_put_held[of s c E h b] by (simp add: kids_def dag_get_def)

lemma fs_put_whole:
  assumes "heldWhole E s c = None"
  shows "heldWhole E (fs_put h b s) c = None"
  unfolding heldWhole_exact
proof (intro allI impI)
  fix d assume "dag_reach E (fs_put h b s) is_node c d"
  moreover have "set (kids E (fs_put h b s) x) \<subseteq> {y. dag_reach E s is_node c y}"
    if "dag_reach E s is_node c x" "is_node x" for x
  proof -
    have "hasLocal s x" using assms that by (simp add: heldWhole_exact block_whole_def)
    then show ?thesis using that by (auto simp: fs_put_kids intro: dag_reach_trans)
  qed
  ultimately have "dag_reach E s is_node c d"
    using dag_reach_closed[of E "fs_put h b s" is_node c d "{y. dag_reach E s is_node c y}"] dag_refl
    by auto
  then show "block_whole E (fs_put h b s) d"
    using assms by (simp add: heldWhole_exact fs_put_block_whole)
qed

text \<open>Fields no check reads.\<close>

lemma dag_reach_cong:
  assumes "dag_reach E s f c d" "\<And>x. kids E t x = kids E s x"
  shows "dag_reach E t f c d"
  using assms(1) by (induction rule: dag_reach.induct) (auto simp: assms(2) intro: dag_reach.intros)

definition same_content :: "store \<Rightarrow> store \<Rightarrow> bool" where
  "same_content s t \<longleftrightarrow>
     st_plain s = st_plain t \<and> st_refs s = st_refs t \<and> st_disk s = st_disk t \<and> st_root s = st_root t"

lemma same_content_get: "same_content s t \<Longrightarrow> block_get E s = block_get E t"
  by (rule ext) (auto simp: same_content_def block_get_def ref_get_def cong: option.case_cong)

lemma same_content_whole:
  assumes "same_content s t"
  shows "heldWhole E s c = None \<longleftrightarrow> heldWhole E t c = None"
proof -
  have k: "kids E s x = kids E t x" for x
    using same_content_get[OF assms] by (simp add: kids_def dag_get_def)
  have "block_whole E s x = block_whole E t x" for x
    using assms same_content_get[OF assms]
    by (simp add: block_whole_def hasLocal_def list_ref_def on_disk_def dag_get_def same_content_def
        cong: option.case_cong)
  moreover have "dag_reach E s is_node c d = dag_reach E t is_node c d" for d
    using dag_reach_cong[of E s is_node c d t] dag_reach_cong[of E t is_node c d s] k by auto
  ultimately show ?thesis by (simp add: heldWhole_exact)
qed

section \<open>What a folder links\<close>

text \<open>Every folder this node made is still whole: the invariant behind skipping its walk.\<close>

definition made_sound :: "boxo \<Rightarrow> store \<Rightarrow> bool" where
  "made_sound E s \<longleftrightarrow> list_all (\<lambda>c. heldWhole E s c = None) (st_made s)"

lemma entry_whole_sound: "made_sound E s \<Longrightarrow> entry_whole E s c = None \<longleftrightarrow> heldWhole E s c = None"
  by (auto simp: made_sound_def entry_whole_def list_all_iff)

definition good_entry :: "boxo \<Rightarrow> store \<Rightarrow> string \<Rightarrow> cid option" where
  "good_entry E s t =
     (case decode_cid E t of None \<Rightarrow> None | Some c \<Rightarrow> if heldWhole E s c = None then Some c else None)"

lemma link_entries_exact:
  assumes "made_sound E s" "link_entries E s leaveOut es = Inr (links, gaps)"
  shows "links = map (\<lambda>(n, t). (n, the (good_entry E s t))) (filter (\<lambda>(n, t). good_entry E s t \<noteq> None) es) \<and>
         gaps = map fst (filter (\<lambda>(n, t). good_entry E s t = None) es) \<and> (leaveOut \<or> gaps = [])"
  using assms(2)
proof (induction es arbitrary: links gaps)
  case (Cons x es)
  obtain n t where x: "x = (n, t)" by (cases x)
  show ?case
  proof (cases "decode_cid E t")
    case None
    then show ?thesis using Cons
      by (cases "link_entries E s leaveOut es") (auto simp: x add_gap_def good_entry_def split: if_splits)
  next
    case (Some c)
    show ?thesis
    proof (cases "heldWhole E s c")
      case None
      then have "entry_whole E s c = None" using entry_whole_sound[OF assms(1)] by simp
      then show ?thesis using Cons Some None
        by (cases "link_entries E s leaveOut es")
          (auto simp: x add_child_def good_entry_def split: option.splits)
    next
      case (Some e)
      then obtain e' where "entry_whole E s c = Some e'"
        using entry_whole_sound[OF assms(1), of c] by (cases "entry_whole E s c") auto
      then show ?thesis using Cons Some \<open>decode_cid E t = Some c\<close>
        by (cases "link_entries E s leaveOut es") (auto simp: x add_gap_def good_entry_def split: if_splits)
    qed
  qed
qed simp

lemma link_entries_whole:
  assumes "made_sound E s" "link_entries E s leaveOut es = Inr (links, gaps)" "(n, c) \<in> set links"
  shows "heldWhole E s c = None"
proof -
  have "(n, c) \<in> (\<lambda>(n, t). (n, the (good_entry E s t))) ` {(n, t) \<in> set es. good_entry E s t \<noteq> None}"
    using link_entries_exact[OF assms(1,2)] assms(3) by auto
  then show ?thesis by (auto simp: good_entry_def split: option.splits if_splits)
qed

text \<open>A node whose links are all whole, and which can be read, is whole.\<close>

lemma node_whole:
  assumes "block_whole E s c" "\<And>d. d \<in> set (kids E s c) \<Longrightarrow> heldWhole E s d = None"
  shows "heldWhole E s c = None"
  unfolding heldWhole_exact
proof (intro allI impI)
  fix d assume "dag_reach E s is_node c d"
  then show "block_whole E s d"
    using assms by cases (auto simp: heldWhole_exact)
qed

lemma fs_put_get_new:
  assumes "hasLocal s (Cid Raw (mhash c)) \<longrightarrow> block_get E s c = Some b"
  shows "block_get E (fs_put (mhash c) b s) c = Some b"
  using assms by (auto simp: fs_put_def block_get_def)

lemma keep_dir_ok:
  assumes "keep_dir fault c gaps s = (Inr r, s')"
  shows "r = (Some c, gaps)" and "same_content s' s" and "c \<in> set (st_recursive s')" and "c \<in> set (st_announced s')"
    and "st_made s' = c # st_made s"
  using assms by (auto simp: keep_dir_def Let_def same_content_def split: if_splits)

lemma makeWholeDir_cases:
  assumes "makeWholeDir E fault leaveOut entries s = (Inr (Some c, gaps), s')"
  obtains links where "link_entries E s leaveOut (sort_key fst entries) = Inr (links, gaps)"
    "c = folder_of E links"
    "keep_dir fault c gaps (fs_put (mhash c) (dir_bytes E links) s) = (Inr (Some c, gaps), s')"
proof -
  obtain links g where l: "link_entries E s leaveOut (sort_key fst entries) = Inr (links, g)"
    using assms by (auto simp: makeWholeDir_def split: sum.splits)
  obtain r t where k: "keep_dir fault (folder_of E links) g
      (fs_put (hash_of E (dir_bytes E links)) (dir_bytes E links) s) = (r, t)" by fastforce
  have "map_sum Inr id r = (Inr (Some c, gaps) :: (store_error + dir_step) + _)" "t = s'"
    using assms l k by (auto simp: makeWholeDir_def Let_def split: if_splits)
  then have r: "r = Inr (Some c, gaps)" by (cases r) auto
  then have "c = folder_of E links" "g = gaps" using keep_dir_ok(1)[OF k[unfolded r]] by auto
  then show ?thesis using l k r \<open>t = s'\<close> by (intro that[of links]) (auto simp: folder_of_def)
qed

text \<open>
  The block of the new folder is what reads back for it: nothing else is stored under its hash,
  and decoding it gives its entries.
\<close>

definition folder_reads :: "boxo \<Rightarrow> store \<Rightarrow> (string \<times> cid) list \<Rightarrow> bool" where
  "folder_reads E s links \<longleftrightarrow>
     (hasLocal s (folder_of E links) \<longrightarrow> block_get E s (folder_of E links) = Some (dir_bytes E links)) \<and>
     (case links_of E (dir_bytes E links) of None \<Rightarrow> False | Some ls \<Rightarrow> map l_cid ls = map snd links)"

lemma folder_whole:
  assumes sound: "made_sound E s"
    and links: "link_entries E s leaveOut es = Inr (links, gaps)"
    and reads: "folder_reads E s links"
  shows "heldWhole E (fs_put (hash_of E (dir_bytes E links)) (dir_bytes E links) s) (folder_of E links) = None"
proof -
  let ?c = "folder_of E links" and ?b = "dir_bytes E links"
  let ?s = "fs_put (hash_of E ?b) ?b s"
  have h: "mhash ?c = hash_of E ?b" "codec_of ?c = DagPb" by (simp_all add: folder_of_def)
  have "hasLocal s (Cid Raw (mhash ?c)) \<longrightarrow> block_get E s ?c = Some ?b"
    using reads by (simp add: folder_reads_def hasLocal_def)
  then have g: "block_get E ?s ?c = Some ?b" using fs_put_get_new[of s ?c E ?b] h by simp
  obtain ls where ls: "links_of E ?b = Some ls" "map l_cid ls = map snd links"
    using reads by (auto simp: folder_reads_def split: option.splits)
  have d: "dag_get E ?s ?c = Some ls" using g h ls by (simp add: dag_get_def)
  have "block_whole E ?s ?c" using h d dag_get_held[OF d] by (simp add: block_whole_def)
  moreover have "heldWhole E ?s x = None" if "x \<in> set (kids E ?s ?c)" for x
  proof -
    have "x \<in> set (map snd links)" using that d ls by (simp add: kids_def)
    then obtain n where "(n, x) \<in> set links" by auto
    then show ?thesis using link_entries_whole[OF sound links] fs_put_whole by blast
  qed
  ultimately show ?thesis by (rule node_whole)
qed

lemma made_sound_step:
  assumes "made_sound E s" "heldWhole E (fs_put h b s) c = None" "same_content t (fs_put h b s)"
    "st_made t = c # st_made s"
  shows "made_sound E t"
  using assms fs_put_whole same_content_whole[OF assms(3)]
  by (auto simp: made_sound_def list_all_iff)


text \<open>A node block and a folder over it, and a store that holds the block.\<close>

definition demo_boxo :: boxo where
  "demo_boxo = \<lparr>hash_of = length,
     links_of = (\<lambda>b. if b = [7, 7] then Some [\<lparr>l_name = ''a'', l_cid = Cid Raw 1, l_size = 1\<rparr>]
       else if b = [8, 8, 8] then Some [\<lparr>l_name = ''p'', l_cid = Cid DagPb 2, l_size = 3\<rparr>] else None),
     read_ref = (\<lambda>h off sz f. if length f = h then Some f else None),
     decode_cid = (\<lambda>t. if t = ''x'' then Some (Cid Raw 1) else if t = ''y'' then Some (Cid DagPb 2) else None),
     dir_bytes = (\<lambda>ls. if map fst ls = [''p''] then [8, 8, 8] else [7, 7]), dir_links = (\<lambda>b. None)\<rparr>"

definition demo_store :: store where
  "demo_store = \<lparr>st_root = [], st_plain = [], st_refs = [(1, \<lparr>r_path = [''f''], r_off = 0, r_size = 1\<rparr>)],
     st_disk = [([''f''], [9])], st_recursive = [], st_direct = [], st_made = [], st_announced = [],
     st_unlisted = []\<rparr>"

lemmas demo_simps = demo_boxo_def demo_store_def hasLocal_def list_ref_def block_get_def ref_get_def dag_get_def
  kids_def on_disk_def stat_memo_def held_visit_def heldWhole_def

lemma demo_dir:
  "makeWholeDir demo_boxo None True [(''b'', ''z''), (''a'', ''x'')] demo_store =
     (Inr (Some (Cid DagPb 2), [''b'']),
      demo_store\<lparr>st_plain := [(2, [7, 7])], st_recursive := [Cid DagPb 2], st_made := [Cid DagPb 2],
        st_announced := [Cid DagPb 2]\<rparr>)"
  by code_simp


text \<open>
  A folder is remembered as whole for the life of the process: when a file below it has gone
  since, a new folder over it is made, pinned and announced, though its content is not held.
\<close>

lemma stale_made_dir:
  "let s = demo_store\<lparr>st_plain := [(2, [7, 7])], st_disk := [], st_made := [Cid DagPb 2]\<rparr> in
   heldWhole demo_boxo s (Cid DagPb 2) \<noteq> None \<and>
   (case makeDir demo_boxo None [(''p'', ''y'')] s of
      Inl e \<Rightarrow> False | Inr (c, s') \<Rightarrow> c = Cid DagPb 3 \<and> c \<in> set (st_announced s') \<and> heldWhole demo_boxo s' c \<noteq> None)"
  by code_simp

end
