(* ===== verification/RefMove.thy ===== *)
theory RefMove
  imports Publish
begin

text \<open>
  References that move with their files (\<open>refmove.go\<close>) and references that are dropped
  (\<open>dropClosure\<close>, \<open>dropRef\<close> of \<open>fetch.go\<close>). Paths are cleaned and absolute; the length the code
  compares is that of the path's text.
\<close>

section \<open>Moving references\<close>

record refMove =
  mv_from :: path
  mv_to :: path

definition path_len :: "path \<Rightarrow> nat" where
  "path_len p = (if p = [] then 1 else sum_list (map (\<lambda>c. length c + 1) p))"

text \<open>\<open>filepath.Rel\<close> where it stays under the folder: the rest of the path, empty for the file itself.\<close>

definition rel_under :: "path \<Rightarrow> path \<Rightarrow> path option" where
  "rel_under d p = (if take (length d) p = d then Some (drop (length d) p) else None)"

fun pick_move :: "refMove list \<Rightarrow> path \<Rightarrow> (refMove \<times> path) option \<Rightarrow> (refMove \<times> path) option" where
  "pick_move [] p best = best"
| "pick_move (m # ms) p best =
     (case rel_under (mv_from m) p of
        None \<Rightarrow> pick_move ms p best
      | Some rel \<Rightarrow>
          (case best of
             None \<Rightarrow> pick_move ms p (Some (m, rel))
           | Some (b, brel) \<Rightarrow>
               if path_len (mv_from m) > path_len (mv_from b) then pick_move ms p (Some (m, rel))
               else pick_move ms p best))"

definition new_path :: "store \<Rightarrow> refMove list \<Rightarrow> fsref \<Rightarrow> path option" where
  "new_path s moves r =
     (if r_path r = [] then None
      else map_option (\<lambda>(m, rel). mv_to m @ rel) (pick_move moves (st_root s @ r_path r) None))"

text \<open>The rows to write: same leaf, same offset, same size, the full path they now have.\<close>

definition moved_rows :: "store \<Rightarrow> refMove list \<Rightarrow> (nat \<times> path \<times> fsref) list" where
  "moved_rows s moves = concat (map (\<lambda>(h, r). case new_path s moves r of None \<Rightarrow> [] | Some p \<Rightarrow> [(h, p, r)]) (rows s))"

text \<open>\<open>PutMany\<close>: one commit, refused whole when a path is outside the root.\<close>

definition put_rows :: "path \<Rightarrow> (nat \<times> path \<times> fsref) list \<Rightarrow> (nat \<times> fsref) list option" where
  "put_rows root xs =
     (if list_all (\<lambda>(h, p, r). rel_under root p \<noteq> None) xs
      then Some (map (\<lambda>(h, p, r). (h, r\<lparr>r_path := the (rel_under root p)\<rparr>)) xs) else None)"

definition moveRefs :: "bool \<Rightarrow> refMove list \<Rightarrow> store \<Rightarrow> nat option \<times> store" where
  "moveRefs commit_ok moves s =
     (let xs = moved_rows s moves in
      if xs = [] then (Some 0, s)
      else case put_rows (st_root s) xs of
             Some ys \<Rightarrow> if commit_ok then (Some (length ys), s\<lparr>st_refs := ys @ st_refs s\<rparr>) else (None, s)
           | None \<Rightarrow> (None, s))"

lemma rel_under_iff: "rel_under d p = Some rel \<longleftrightarrow> p = d @ rel"
  by (auto simp: rel_under_def append_eq_conv_conj) (metis append_take_drop_id)

text \<open>The move that wins is one that holds the file, and no other that holds it is longer.\<close>

definition holds_best :: "refMove list \<Rightarrow> path \<Rightarrow> (refMove \<times> path) option \<Rightarrow> bool" where
  "holds_best moves p r \<longleftrightarrow>
     (case r of
        None \<Rightarrow> list_all (\<lambda>m. rel_under (mv_from m) p = None) moves
      | Some (m, rel) \<Rightarrow> m \<in> set moves \<and> p = mv_from m @ rel \<and>
          list_all (\<lambda>k. rel_under (mv_from k) p = None \<or> path_len (mv_from k) \<le> path_len (mv_from m)) moves)"

lemma pick_move_best: "holds_best prev p best \<Longrightarrow> holds_best (prev @ ms) p (pick_move ms p best)"
proof (induction ms p best arbitrary: prev rule: pick_move.induct)
  case (2 m ms p best)
  have step: "holds_best (prev @ m # ms) p (pick_move ms p b)" if "holds_best (prev @ [m]) p b"
    "\<And>prev. holds_best prev p b \<Longrightarrow> holds_best (prev @ ms) p (pick_move ms p b)" for b
    using that(2)[OF that(1)] by simp
  show ?case
  proof (cases "rel_under (mv_from m) p")
    case None
    then have "holds_best (prev @ [m]) p best"
      using 2(5) by (auto simp: holds_best_def split: option.splits)
    then show ?thesis using None step[OF _ 2(1)[OF None]] by simp
  next
    case (Some rel)
    then have p: "p = mv_from m @ rel" by (simp add: rel_under_iff)
    show ?thesis
    proof (cases best)
      case None
      then have "holds_best (prev @ [m]) p (Some (m, rel))"
        using 2(5) p by (auto simp: holds_best_def list_all_iff)
      then show ?thesis using Some None step[OF _ 2(2)[OF Some None]] by simp
    next
      case b: (Some x)
      obtain k krel where x: "x = (k, krel)" by (cases x)
      show ?thesis
      proof (cases "path_len (mv_from m) > path_len (mv_from k)")
        case True
        then have "holds_best (prev @ [m]) p (Some (m, rel))"
          using 2(5) p b x by (auto simp: holds_best_def list_all_iff)
        then show ?thesis using Some b x True step[OF _ 2(3)[OF Some b x[symmetric] True]] by simp
      next
        case False
        then have "holds_best (prev @ [m]) p best"
          using 2(5) b x by (auto simp: holds_best_def list_all_iff)
        then show ?thesis using Some b x False step[OF _ 2(4)[OF Some b x[symmetric] False]] by simp
      qed
    qed
  qed
qed simp

lemma pick_move_exact: "holds_best moves p (pick_move moves p None)"
  using pick_move_best[of "[]" p None moves] by (simp add: holds_best_def)

text \<open>What a reference becomes.\<close>

definition repath :: "store \<Rightarrow> refMove list \<Rightarrow> fsref \<Rightarrow> fsref option" where
  "repath s moves r = map_option (\<lambda>p. r\<lparr>r_path := the (rel_under (st_root s) p)\<rparr>) (new_path s moves r)"

lemma map_of_rewritten:
  assumes "\<And>h r. (h, r) \<in> set xs \<Longrightarrow> m h = Some r"
  shows "map_of (concat (map (\<lambda>(h, r). case f r of None \<Rightarrow> [] | Some y \<Rightarrow> [(h, y)]) xs)) h =
    (if h \<in> fst ` set xs then f (the (m h)) else None)"
  using assms
proof (induction xs)
  case (Cons x xs)
  obtain k r where x: "x = (k, r)" by (cases x)
  have k: "m k = Some r" using Cons.prems[of k r] by (simp add: x)
  have IH: "map_of (concat (map (\<lambda>(h, r). case f r of None \<Rightarrow> [] | Some y \<Rightarrow> [(h, y)]) xs)) h =
    (if h \<in> fst ` set xs then f (the (m h)) else None)"
    using Cons by simp
  show ?case
    by (cases "f r") (auto simp: x k IH)
qed simp

lemma put_rows_moved:
  assumes "put_rows (st_root s) (moved_rows s moves) = Some ys"
  shows "ys = concat (map (\<lambda>(h, r). case repath s moves r of None \<Rightarrow> [] | Some r' \<Rightarrow> [(h, r')]) (rows s))"
proof -
  have "ys = map (\<lambda>(h, p, r). (h, r\<lparr>r_path := the (rel_under (st_root s) p)\<rparr>)) (moved_rows s moves)"
    using assms by (simp add: put_rows_def split: if_splits)
  also have "\<dots> = concat (map (\<lambda>(h, r). case repath s moves r of None \<Rightarrow> [] | Some r' \<Rightarrow> [(h, r')]) (rows s))"
    unfolding moved_rows_def repath_def map_concat map_map
    by (rule arg_cong[where f = concat]) (auto split: option.splits)
  finally show ?thesis .
qed

lemma rows_keys: "h \<in> fst ` set (rows s) \<longleftrightarrow> map_of (st_refs s) h \<noteq> None"
proof -
  have "h \<in> fst ` set (rows s) \<longleftrightarrow> (\<exists>r. (h, r) \<in> set (rows s))" by force
  then show ?thesis by (simp add: rows_iff)
qed

lemma moveRefs_cases:
  assumes "moveRefs commit_ok moves s = (Some n, s')"
  shows "moved_rows s moves = [] \<and> s' = s \<and> n = 0 \<or>
    (\<exists>ys. put_rows (st_root s) (moved_rows s moves) = Some ys \<and> s' = s\<lparr>st_refs := ys @ st_refs s\<rparr> \<and> n = length ys)"
proof (cases "moved_rows s moves = []")
  case True
  then show ?thesis using assms by (simp add: moveRefs_def)
next
  case False
  then show ?thesis using assms
    by (cases "put_rows (st_root s) (moved_rows s moves)"; cases commit_ok) (simp_all add: moveRefs_def)
qed

lemma moveRefs_table:
  assumes "moveRefs commit_ok moves s = (Some n, s')"
  shows "map_of (st_refs s') h =
      map_option (\<lambda>r. case repath s moves r of None \<Rightarrow> r | Some r' \<Rightarrow> r') (map_of (st_refs s) h)"
    and "s' = s\<lparr>st_refs := st_refs s'\<rparr>"
    and "n = length (moved_rows s moves)"
    and "list_all (\<lambda>(h, p, r). rel_under (st_root s) p \<noteq> None) (moved_rows s moves)"
proof -
  consider "moved_rows s moves = []" "s' = s" "n = 0"
    | ys where "put_rows (st_root s) (moved_rows s moves) = Some ys" "s' = s\<lparr>st_refs := ys @ st_refs s\<rparr>" "n = length ys"
    using moveRefs_cases[OF assms] by blast
  then have "map_of (st_refs s') h =
      map_option (\<lambda>r. case repath s moves r of None \<Rightarrow> r | Some r' \<Rightarrow> r') (map_of (st_refs s) h) \<and>
      s' = s\<lparr>st_refs := st_refs s'\<rparr> \<and> n = length (moved_rows s moves) \<and>
      list_all (\<lambda>(h, p, r). rel_under (st_root s) p \<noteq> None) (moved_rows s moves)"
  proof cases
    case 1
    have "new_path s moves r = None" if "map_of (st_refs s) h = Some r" for r
      using 1(1) that by (auto simp: moved_rows_def rows_iff[symmetric] split: option.splits)
    then show ?thesis using 1 by (cases "map_of (st_refs s) h") (auto simp: repath_def)
  next
    case (2 ys)
    have "map_of ys h = (if h \<in> fst ` set (rows s) then repath s moves (the (map_of (st_refs s) h)) else None)"
      unfolding put_rows_moved[OF 2(1)] by (rule map_of_rewritten) (simp add: rows_iff)
    moreover note rows_keys[of h s]
    ultimately have "map_of (ys @ st_refs s) h =
      map_option (\<lambda>r. case repath s moves r of None \<Rightarrow> r | Some r' \<Rightarrow> r') (map_of (st_refs s) h)"
      by (cases "map_of (st_refs s) h") (auto simp: map_add_def split: option.splits)
    moreover have "length ys = length (moved_rows s moves)"
      "list_all (\<lambda>(h, p, r). rel_under (st_root s) p \<noteq> None) (moved_rows s moves)"
      using 2(1) by (auto simp: put_rows_def split: if_splits)
    ultimately show ?thesis using 2(2,3) by simp
  qed
  then show "map_of (st_refs s') h =
      map_option (\<lambda>r. case repath s moves r of None \<Rightarrow> r | Some r' \<Rightarrow> r') (map_of (st_refs s) h)"
    and "s' = s\<lparr>st_refs := st_refs s'\<rparr>" and "n = length (moved_rows s moves)"
    and "list_all (\<lambda>(h, p, r). rel_under (st_root s) p \<noteq> None) (moved_rows s moves)" by blast+
qed

text \<open>The files moved the same way: each referenced file is now where its reference will say.\<close>

definition files_moved :: "store \<Rightarrow> refMove list \<Rightarrow> (path \<times> bytes) list \<Rightarrow> bool" where
  "files_moved s moves disk \<longleftrightarrow>
     list_all (\<lambda>(h, r). map_of disk (case new_path s moves r of None \<Rightarrow> st_root s @ r_path r | Some p \<Rightarrow> p) =
        map_of (st_disk s) (st_root s @ r_path r)) (rows s)"

lemma files_moved_at:
  assumes "files_moved s moves disk" "map_of (st_refs s) h = Some r"
  shows "map_of disk (case new_path s moves r of None \<Rightarrow> st_root s @ r_path r | Some p \<Rightarrow> p) =
    map_of (st_disk s) (st_root s @ r_path r)"
  using bspec[OF assms(1)[unfolded files_moved_def list_all_iff], of "(h, r)"] assms(2) by (simp add: rows_iff)

lemma moved_path:
  assumes mv: "moveRefs commit_ok moves s = (Some n, s')" and files: "files_moved s moves disk"
    and r: "map_of (st_refs s) h = Some r" and r': "map_of (st_refs s') h = Some r'"
  shows "r_off r' = r_off r \<and> r_size r' = r_size r \<and>
    map_of disk (st_root s @ r_path r') = map_of (st_disk s) (st_root s @ r_path r)"
proof (cases "new_path s moves r")
  case None
  then have "r' = r" using moveRefs_table(1)[OF mv, of h] r r' by (simp add: repath_def)
  then show ?thesis using files_moved_at[OF files r] None by simp
next
  case (Some p)
  have "(h, p, r) \<in> set (moved_rows s moves)"
    using r Some by (force simp: moved_rows_def rows_iff)
  then obtain rel where "rel_under (st_root s) p = Some rel"
    using moveRefs_table(4)[OF mv] by (auto simp: list_all_iff)
  moreover from this have "p = st_root s @ rel" by (simp add: rel_under_iff)
  moreover have "r' = r\<lparr>r_path := the (rel_under (st_root s) p)\<rparr>"
    using moveRefs_table(1)[OF mv, of h] r r' Some by (simp add: repath_def)
  ultimately show ?thesis using files_moved_at[OF files r] Some by simp
qed

text \<open>So every block reads back as before, and what was whole is whole.\<close>

lemma moved_get:
  assumes mv: "moveRefs commit_ok moves s = (Some n, s')" and files: "files_moved s moves disk"
  shows "block_get E (s'\<lparr>st_disk := disk\<rparr>) c = block_get E s c"
proof -
  have s': "s' = s\<lparr>st_refs := st_refs s'\<rparr>" by (rule moveRefs_table(2)[OF mv])
  have f: "st_plain s' = st_plain s" "st_root s' = st_root s" by (subst s', simp)+
  have "ref_get E (s'\<lparr>st_disk := disk\<rparr>) h = ref_get E s h" for h
  proof (cases "map_of (st_refs s) h")
    case None
    then show ?thesis using moveRefs_table(1)[OF mv, of h] by (simp add: ref_get_def)
  next
    case (Some r)
    then obtain r' where r': "map_of (st_refs s') h = Some r'"
      using moveRefs_table(1)[OF mv, of h] by simp
    show ?thesis using moved_path[OF mv files Some r'] Some r' f by (simp add: ref_get_def cong: option.case_cong)
  qed
  then show ?thesis using f by (simp add: block_get_def cong: option.case_cong)
qed

lemma moved_whole:
  assumes mv: "moveRefs commit_ok moves s = (Some n, s')" and files: "files_moved s moves disk"
    and kept: "list_all (\<lambda>(h, r). case repath s moves r of None \<Rightarrow> True | Some r' \<Rightarrow> r_path r' \<noteq> []) (rows s)"
  shows "block_whole E (s'\<lparr>st_disk := disk\<rparr>) c = block_whole E s c"
proof -
  let ?t = "s'\<lparr>st_disk := disk\<rparr>"
  have s': "s' = s\<lparr>st_refs := st_refs s'\<rparr>" by (rule moveRefs_table(2)[OF mv])
  have f: "st_plain s' = st_plain s" "st_root s' = st_root s" by (subst s', simp)+
  have held: "hasLocal ?t c = hasLocal s c"
    using moveRefs_table(1)[OF mv, of "mhash c"] f by (simp add: hasLocal_def)
  have dag: "dag_get E ?t c = dag_get E s c" by (simp add: dag_get_def moved_get[OF mv files])
  have "(case list_ref ?t c of None \<Rightarrow> True | Some r \<Rightarrow> on_disk ?t (st_root ?t @ r_path r)) =
        (case list_ref s c of None \<Rightarrow> True | Some r \<Rightarrow> on_disk s (st_root s @ r_path r))"
  proof (cases "map_of (st_refs s) (mhash c)")
    case None
    then show ?thesis using moveRefs_table(1)[OF mv, of "mhash c"] by (simp add: list_ref_def)
  next
    case (Some r)
    then obtain r' where r': "map_of (st_refs s') (mhash c) = Some r'"
      and eq: "r' = (case repath s moves r of None \<Rightarrow> r | Some r' \<Rightarrow> r')"
      using moveRefs_table(1)[OF mv, of "mhash c"] by simp
    have "r_path r' = [] \<longleftrightarrow> r_path r = []"
    proof (cases "repath s moves r")
      case None
      then show ?thesis by (simp add: eq)
    next
      case r2: (Some r2)
      then have "r_path r \<noteq> []" by (auto simp: repath_def new_path_def split: if_splits)
      moreover have "r_path r2 \<noteq> []"
        using bspec[OF kept[unfolded list_all_iff], of "(mhash c, r)"] Some r2 by (simp add: rows_iff)
      ultimately show ?thesis by (simp add: eq r2)
    qed
    then show ?thesis
      using moved_path[OF mv files Some r'] Some r' f by (simp add: list_ref_def on_disk_def)
  qed
  then show ?thesis using held dag by (simp add: block_whole_def)
qed

text \<open>
  C15. When \<open>moveRefs\<close> succeeds, each reference that some move's folder holds names the file's path under
  the target of the longest such folder, with the same leaf, offset and size, the others are as
  they were, and the answer counts the moved ones; a failure changes nothing. When the files moved
  the same way, every block of the store reads back as before and what was held whole still is.
\<close>

theorem move_refs_follow_files:
  assumes "files_moved s moves disk"
    and "list_all (\<lambda>(h, r). case repath s moves r of None \<Rightarrow> True | Some r' \<Rightarrow> r_path r' \<noteq> []) (rows s)"
  shows "case moveRefs commit_ok moves s of
      (None, s') \<Rightarrow> s' = s
    | (Some n, s') \<Rightarrow> n = length (moved_rows s moves) \<and>
        (\<forall>h. map_of (st_refs s') h = map_option (\<lambda>r. case repath s moves r of None \<Rightarrow> r | Some r' \<Rightarrow> r') (map_of (st_refs s) h)) \<and>
        (\<forall>p. holds_best moves p (pick_move moves p None)) \<and>
        (\<forall>c. block_get E (s'\<lparr>st_disk := disk\<rparr>) c = block_get E s c) \<and>
        (\<forall>c. heldWhole E (s'\<lparr>st_disk := disk\<rparr>) c = None \<longleftrightarrow> heldWhole E s c = None)"
proof (cases "moveRefs commit_ok moves s")
  case (Pair r s')
  show ?thesis
  proof (cases r)
    case None
    then show ?thesis using Pair by (auto simp: moveRefs_def Let_def split: if_splits option.splits)
  next
    case (Some n)
    let ?t = "s'\<lparr>st_disk := disk\<rparr>"
    have mv: "moveRefs commit_ok moves s = (Some n, s')" using Pair Some by simp
    have k: "kids E ?t x = kids E s x" for x by (simp add: kids_def dag_get_def moved_get[OF mv assms(1)])
    have "heldWhole E ?t c = None \<longleftrightarrow> heldWhole E s c = None" for c
      unfolding heldWhole_exact moved_whole[OF mv assms]
      using dag_reach_cong[of E ?t is_node c _ s] dag_reach_cong[of E s is_node c _ ?t] k by auto
    then show ?thesis
      using Pair Some moveRefs_table(1,3)[OF mv] moved_get[OF mv assms(1)] pick_move_exact by simp
  qed
qed

definition shelf_store :: store where
  "shelf_store = dead_ref_store\<lparr>st_refs := [(3, \<lparr>r_path = [''cat'', ''p'', ''f''], r_off = 0, r_size = 3\<rparr>)],
     st_disk := [([''cat'', ''p'', ''f''], [9, 9, 9])]\<rparr>"

definition shelf_moves :: "refMove list" where
  "shelf_moves = [\<lparr>mv_from = [''cat''], mv_to = [''lib'']\<rparr>, \<lparr>mv_from = [''cat'', ''p''], mv_to = [''new'']\<rparr>]"

theorem move_refs_follow_files_witness:
  "case moveRefs True shelf_moves shelf_store of
     (None, s') \<Rightarrow> False
   | (Some n, s') \<Rightarrow> n = 1 \<and> map (r_path \<circ> snd) (rows s') = [[''new'', ''f'']] \<and>
       block_get leaf_boxo (s'\<lparr>st_disk := [([''new'', ''f''], [9, 9, 9])]\<rparr>) (Cid Raw 3) = Some [9, 9, 9]"
proof -
  have mv: "moveRefs True shelf_moves shelf_store =
      (Some 1, shelf_store\<lparr>st_refs := [(3, \<lparr>r_path = [''new'', ''f''], r_off = 0, r_size = 3\<rparr>),
        (3, \<lparr>r_path = [''cat'', ''p'', ''f''], r_off = 0, r_size = 3\<rparr>)]\<rparr>)" by code_simp
  have "files_moved shelf_store shelf_moves [([''new'', ''f''], [9, 9, 9])]" by code_simp
  moreover have "list_all (\<lambda>(h, r). case repath shelf_store shelf_moves r of None \<Rightarrow> True | Some r' \<Rightarrow> r_path r' \<noteq> [])
      (rows shelf_store)" by code_simp
  moreover have "block_get leaf_boxo shelf_store (Cid Raw 3) = Some [9, 9, 9]" by code_simp
  moreover have "map (r_path \<circ> snd) (rows (shelf_store\<lparr>st_refs := [(3, \<lparr>r_path = [''new'', ''f''], r_off = 0, r_size = 3\<rparr>),
        (3, \<lparr>r_path = [''cat'', ''p'', ''f''], r_off = 0, r_size = 3\<rparr>)]\<rparr>)) = [[''new'', ''f'']]" by code_simp
  moreover note exact = move_refs_follow_files[OF calculation(1,2), where commit_ok = True and E = leaf_boxo,
      unfolded mv prod.case option.case]
  moreover have "block_get leaf_boxo (shelf_store\<lparr>st_refs := [(3, \<lparr>r_path = [''new'', ''f''], r_off = 0, r_size = 3\<rparr>),
        (3, \<lparr>r_path = [''cat'', ''p'', ''f''], r_off = 0, r_size = 3\<rparr>)], st_disk := [([''new'', ''f''], [9, 9, 9])]\<rparr>)
      (Cid Raw 3) = block_get leaf_boxo shelf_store (Cid Raw 3)"
    using exact by blast
  ultimately show ?thesis unfolding mv prod.case option.case by (intro conjI) (simp_all only: refl)
qed

section \<open>Dropping references\<close>

text \<open>Every block reachable through what can be read here, absent ones included.\<close>

definition closure_visit :: "boxo \<Rightarrow> store \<Rightarrow> cid \<Rightarrow> unit \<Rightarrow> (unit, unit) visit" where
  "closure_visit E s c m = (case dag_get E s c of None \<Rightarrow> Skip m | Some ls \<Rightarrow> Descend m)"

definition opened :: "boxo \<Rightarrow> store \<Rightarrow> cid \<Rightarrow> bool" where
  "opened E s c \<longleftrightarrow> dag_get E s c \<noteq> None"

definition closure_cids :: "boxo \<Rightarrow> store \<Rightarrow> cid \<Rightarrow> cid list" where
  "closure_cids E s c = (case dag_walk E s (closure_visit E s) [c] [] () of Inl e \<Rightarrow> [] | Inr (seen, m) \<Rightarrow> seen)"

interpretation drop_walk: dag_check E s "closure_visit E s" "\<lambda>c. True" "opened E s" "\<lambda>m. True"
  by unfold_locales (auto simp: closure_visit_def opened_def split: option.splits)

lemma closure_exact: "distinct (closure_cids E s c) \<and> (\<forall>d. d \<in> set (closure_cids E s c) \<longleftrightarrow> dag_reach E s (opened E s) c d)"
proof (cases "dag_walk E s (closure_visit E s) [c] [] ()")
  case (Inl e)
  then show ?thesis using drop_walk.walk_stops[of E s "[c]" "[]" "()" e] by (auto simp: closure_visit_def split: option.splits)
next
  case (Inr r)
  obtain seen m where r: "r = (seen, m)" by (cases r)
  note w = Inr[unfolded r]
  have cl: "c \<in> set seen" "\<And>x. x \<in> set seen \<Longrightarrow> opened E s x \<Longrightarrow> set (kids E s x) \<subseteq> set seen"
    using drop_walk.walk_passes[OF w] by auto
  have "d \<in> set seen" if "dag_reach E s (opened E s) c d" for d
    by (rule dag_reach_closed[OF that]) (use cl in auto)
  moreover have "closure_cids E s c = seen" by (simp only: closure_cids_def Inr r sum.case prod.case)
  ultimately show ?thesis using drop_walk.walk_visits[OF w] by auto
qed

definition dropClosure :: "boxo \<Rightarrow> cid \<Rightarrow> store \<Rightarrow> store" where
  "dropClosure E c s =
     (let hs = map mhash (closure_cids E s c) in s\<lparr>st_plain := filter (\<lambda>x. fst x \<notin> set hs) (st_plain s)\<rparr>)"

definition dropRef :: "boxo \<Rightarrow> cid \<Rightarrow> store \<Rightarrow> store" where
  "dropRef E c s =
     (let hs = map mhash (closure_cids E s c) in
      unpin c (s\<lparr>st_plain := filter (\<lambda>x. fst x \<notin> set hs) (st_plain s),
                 st_refs := filter (\<lambda>x. fst x \<notin> set hs) (st_refs s)\<rparr>))"

lemma map_of_keep: "map_of (filter (\<lambda>x. fst x \<notin> A) xs) k = (if k \<in> A then None else map_of xs k)"
  by (simp add: map_of_filter_fst[of "\<lambda>k. k \<notin> A"])

text \<open>
  C36. After \<open>dropRef\<close> no block of the DAG is held, in either table, and its root is unpinned and no longer
  listed for announcing, so that adding the file again records every leaf anew; a block outside
  the DAG is held and reads as before.
\<close>

theorem drop_ref_clears:
  "(\<forall>d. dag_reach E s (opened E s) c d \<longrightarrow> \<not> hasLocal (dropRef E c s) d) \<and>
   \<not> isPinned (dropRef E c s) c \<and> c \<in> set (st_unlisted (dropRef E c s)) \<and>
   (\<forall>x. (\<forall>d. dag_reach E s (opened E s) c d \<longrightarrow> mhash d \<noteq> mhash x) \<longrightarrow>
      hasLocal (dropRef E c s) x = hasLocal s x \<and> block_get E (dropRef E c s) x = block_get E s x)"
proof -
  let ?t = "dropRef E c s" and ?hs = "mhash ` set (closure_cids E s c)"
  have tab: "map_of (st_plain ?t) k = (if k \<in> ?hs then None else map_of (st_plain s) k)"
    "map_of (st_refs ?t) k = (if k \<in> ?hs then None else map_of (st_refs s) k)" for k
    by (simp_all add: dropRef_def unpin_def map_of_keep)
  have hs: "k \<in> ?hs \<longleftrightarrow> (\<exists>d. dag_reach E s (opened E s) c d \<and> mhash d = k)" for k
    using closure_exact[of E s c] by auto
  have "\<not> isPinned ?t c" "c \<in> set (st_unlisted ?t)" by (simp_all add: isPinned_def dropRef_def unpin_def)
  moreover have "\<not> hasLocal ?t d" if "dag_reach E s (opened E s) c d" for d
    using that hs[of "mhash d"] by (auto simp: hasLocal_def tab)
  moreover have "hasLocal ?t x = hasLocal s x \<and> block_get E ?t x = block_get E s x"
    if "\<forall>d. dag_reach E s (opened E s) c d \<longrightarrow> mhash d \<noteq> mhash x" for x
  proof -
    have "mhash x \<notin> ?hs" using that hs by blast
    moreover have "st_disk ?t = st_disk s" "st_root ?t = st_root s" by (simp_all add: dropRef_def unpin_def)
    ultimately show ?thesis by (simp add: hasLocal_def block_get_def ref_get_def tab cong: option.case_cong)
  qed
  ultimately show ?thesis by blast
qed

theorem drop_ref_clears_witness:
  "\<not> hasLocal (dropRef leaf_boxo (Cid Raw 3) leaf_store) (Cid Raw 3)"
  using drop_ref_clears[of leaf_boxo leaf_store "Cid Raw 3"] dag_refl by blast

text \<open>
  A chunk two files share has one reference. Dropping one of the files, as the code does to re-point
  it or on the user's word, takes the chunk from the other, which stays pinned but cannot be served;
  dropping a cancelled download's cached blocks does the same to a pinned block it shares.
\<close>

lemma drop_breaks_sharer:
  "let s = cyclic_store\<lparr>st_disk := [([''f''], [9])], st_recursive := [Cid Raw 7, Cid DagPb 5]\<rparr>;
       t = dropRef cyclic_boxo (Cid DagPb 5) s
   in heldWhole cyclic_boxo s (Cid Raw 7) = None \<and> isPinned t (Cid Raw 7) \<and>
      heldWhole cyclic_boxo t (Cid Raw 7) = Some (Not_held (Cid Raw 7))"
  by code_simp

lemma drop_cached_breaks_pin:
  "let s = cyclic_store\<lparr>st_plain := [(5, [2]), (7, [4])], st_refs := [], st_direct := [Cid Raw 7]\<rparr>;
       t = dropClosure cyclic_boxo (Cid DagPb 5) s
   in heldWhole cyclic_boxo s (Cid Raw 7) = None \<and> isPinned t (Cid Raw 7) \<and>
      heldWhole cyclic_boxo t (Cid Raw 7) = Some (Not_held (Cid Raw 7))"
  by code_simp

end
