(* ===== verification/AddFile.thy ===== *)
theory AddFile
  imports RefMove
begin

text \<open>
  Seeding by reference (\<open>add.go\<close>): the importer cuts a file into leaves and spine nodes, the filestore
  keeps a reference for each leaf and a plain block for each node, skipping what it already has;
  content whose old backing file is gone is dropped and built again. A folder is built from its
  entries; a Meta folder is the view of a tree that keeps only its JSON manifests.
\<close>

section \<open>A file\<close>

text \<open>What boxo's importer makes of a file: its root, its leaves with their ranges, its nodes.\<close>

record import =
  im_root :: cid
  im_leaves :: "(nat \<times> 64 word \<times> 64 word) list"
  im_nodes :: "(nat \<times> bytes) list"

definition ref_put :: "path \<Rightarrow> nat \<times> 64 word \<times> 64 word \<Rightarrow> store \<Rightarrow> store" where
  "ref_put p l s =
     (case l of (h, off, sz) \<Rightarrow>
        if hasLocal s (Cid Raw h) then s
        else s\<lparr>st_refs := (h, \<lparr>r_path = p, r_off = off, r_size = sz\<rparr>) # st_refs s\<rparr>)"

definition buildFileNode :: "path \<Rightarrow> import \<Rightarrow> store \<Rightarrow> store" where
  "buildFileNode p im s = fold (\<lambda>(h, b). fs_put h b) (im_nodes im) (fold (ref_put p) (im_leaves im) s)"

datatype add_step = Open_file | Build_first | Build_again | Pin_root | Flush_root

text \<open>
  \<open>addNoCopy\<close> of a regular file that is at \<open>p\<close>; \<open>computeCid\<close> is the root of the same import, with
  no store at all.
\<close>

definition addNoCopy ::
  "boxo \<Rightarrow> (bytes \<Rightarrow> import) \<Rightarrow> add_step option \<Rightarrow> path \<Rightarrow> store \<Rightarrow> (add_step + cid) \<times> store" where
  "addNoCopy E imp fault p s =
     (case map_of (st_disk s) (st_root s @ p) of
        None \<Rightarrow> (Inl Open_file, s)
      | Some f \<Rightarrow>
          if fault = Some Open_file then (Inl Open_file, s)
          else if fault = Some Build_first then (Inl Build_first, s)
          else
            (let im = imp f; c = im_root im; s1 = buildFileNode p im s in
             if cidMissing E s1 c \<and> fault = Some Build_again then (Inl Build_again, dropRef E c s1)
             else
               (let s2 = (if cidMissing E s1 c then buildFileNode p im (dropRef E c s1) else s1);
                    s3 = s2\<lparr>st_recursive := c # st_recursive s2\<rparr> in
                if fault = Some Pin_root then (Inl Pin_root, s2)
                else if fault = Some Flush_root then (Inl Flush_root, s3)
                else (Inr c, s3\<lparr>st_announced := c # st_announced s3\<rparr>))))"

definition computeCid :: "(bytes \<Rightarrow> import) \<Rightarrow> bytes option \<Rightarrow> cid option" where
  "computeCid imp f = map_option (\<lambda>b. im_root (imp b)) f"

text \<open>
  What the importer promises: every node decodes, and its links and the root are leaves or nodes
  of the import; leaf and node hashes differ.
\<close>

definition in_import :: "import \<Rightarrow> cid \<Rightarrow> bool" where
  "in_import im c \<longleftrightarrow>
     (case c of Cid Raw h \<Rightarrow> h \<in> fst ` set (im_leaves im) | Cid DagPb h \<Rightarrow> h \<in> fst ` set (im_nodes im))"

definition import_ok :: "boxo \<Rightarrow> import \<Rightarrow> bool" where
  "import_ok E im \<longleftrightarrow>
     in_import im (im_root im) \<and>
     list_all (\<lambda>(h, b). case links_of E b of None \<Rightarrow> False | Some ls \<Rightarrow> list_all (\<lambda>l. in_import im (l_cid l)) ls) (im_nodes im) \<and>
     distinct (map fst (im_nodes im)) \<and>
     list_all (\<lambda>(h, b). h \<notin> fst ` set (im_leaves im)) (im_nodes im)"

text \<open>A node's hash is the hash of nothing else the node holds: what is held under it is the node.\<close>

definition nodes_clean :: "import \<Rightarrow> store \<Rightarrow> bool" where
  "nodes_clean im s \<longleftrightarrow>
     list_all (\<lambda>(h, b). map_of (st_refs s) h = None \<and> (map_of (st_plain s) h = None \<or> map_of (st_plain s) h = Some b)) (im_nodes im)"

section \<open>What a build leaves\<close>

lemma ref_put_other:
  "st_plain (ref_put p l s) = st_plain s" "st_disk (ref_put p l s) = st_disk s" "st_root (ref_put p l s) = st_root s"
  "st_recursive (ref_put p l s) = st_recursive s"
  by (auto simp: ref_put_def split: prod.splits)

lemma fold_ref_put_other:
  "st_plain (fold (ref_put p) ls s) = st_plain s \<and> st_disk (fold (ref_put p) ls s) = st_disk s \<and>
   st_root (fold (ref_put p) ls s) = st_root s"
  by (induction ls arbitrary: s) (auto simp: ref_put_other)

lemma ref_put_refs:
  "map_of (st_refs (ref_put p (h, off, sz) s)) k =
     (if k = h \<and> \<not> hasLocal s (Cid Raw h) then Some \<lparr>r_path = p, r_off = off, r_size = sz\<rparr> else map_of (st_refs s) k)"
  by (auto simp: ref_put_def)

text \<open>After the leaves: each is held; a reference is an old one, or names the new file.\<close>

lemma fold_ref_put_refs:
  "(map_of (st_refs s) k = Some r \<longrightarrow> map_of (st_refs (fold (ref_put p) ls s)) k = Some r) \<and>
   (map_of (st_refs (fold (ref_put p) ls s)) k = Some r \<longrightarrow>
      map_of (st_refs s) k = Some r \<or> (k \<in> fst ` set ls \<and> r_path r = p \<and> map_of (st_refs s) k = None)) \<and>
   (k \<in> fst ` set ls \<longrightarrow> hasLocal (fold (ref_put p) ls s) (Cid Raw k))"
proof (induction ls arbitrary: s)
  case (Cons l ls)
  obtain h off sz where l: "l = (h, off, sz)" by (cases l)
  note IH = Cons.IH[of "ref_put p l s"]
  have held: "hasLocal (ref_put p l s) (Cid Raw h)"
    by (cases "hasLocal s (Cid Raw h)") (auto simp: l ref_put_def hasLocal_def)
  have mono: "hasLocal t (Cid Raw h) \<Longrightarrow> hasLocal (fold (ref_put p) ls t) (Cid Raw h)" for t
  proof (induction ls arbitrary: t)
    case (Cons a as)
    have "hasLocal (ref_put p a t) (Cid Raw h)"
      using Cons.prems by (cases a) (auto simp: ref_put_def hasLocal_def)
    then show ?case using Cons.IH by simp
  qed simp
  have "map_of (st_refs s) k = Some r \<longrightarrow> map_of (st_refs (ref_put p l s)) k = Some r"
    by (auto simp: l ref_put_refs hasLocal_def)
  moreover have "map_of (st_refs (ref_put p l s)) k = Some r \<longrightarrow>
      map_of (st_refs s) k = Some r \<or> (k = h \<and> r_path r = p \<and> map_of (st_refs s) k = None)"
    by (auto simp: l ref_put_refs hasLocal_def)
  moreover have "map_of (st_refs (ref_put p l s)) k = None \<longrightarrow> map_of (st_refs s) k = None"
    by (auto simp: l ref_put_refs split: if_splits)
  ultimately show ?case using IH mono[OF held] by (auto simp: l)
qed simp

lemma fold_fs_put:
  assumes "distinct (map fst ns)"
    "\<And>h b. (h, b) \<in> set ns \<Longrightarrow> map_of (st_refs s) h = None \<and> (map_of (st_plain s) h = None \<or> map_of (st_plain s) h = Some b)"
  shows "st_refs (fold (\<lambda>(h, b). fs_put h b) ns s) = st_refs s \<and> st_disk (fold (\<lambda>(h, b). fs_put h b) ns s) = st_disk s \<and>
     st_root (fold (\<lambda>(h, b). fs_put h b) ns s) = st_root s \<and>
     (\<forall>(h, b) \<in> set ns. map_of (st_plain (fold (\<lambda>(h, b). fs_put h b) ns s)) h = Some b) \<and>
     (\<forall>k. k \<notin> fst ` set ns \<longrightarrow> map_of (st_plain (fold (\<lambda>(h, b). fs_put h b) ns s)) k = map_of (st_plain s) k)"
  using assms
proof (induction ns arbitrary: s)
  case (Cons x ns)
  obtain h b where x: "x = (h, b)" by (cases x)
  have h: "map_of (st_refs s) h = None" "map_of (st_plain s) h = None \<or> map_of (st_plain s) h = Some b"
    using Cons.prems(2)[of h b] by (simp_all add: x)
  have plain: "map_of (st_plain (fs_put h b s)) k = (if k = h then Some b else map_of (st_plain s) k)" for k
    using h by (auto simp: fs_put_def hasLocal_def)
  have "h \<notin> fst ` set ns" using Cons.prems(1) by (simp add: x)
  then have ne: "(k, y) \<in> set ns \<Longrightarrow> k \<noteq> h" for k y by force
  have prem: "map_of (st_refs (fs_put h b s)) k = None \<and>
      (map_of (st_plain (fs_put h b s)) k = None \<or> map_of (st_plain (fs_put h b s)) k = Some y)" if "(k, y) \<in> set ns" for k y
    using Cons.prems(2)[of k y] that ne[OF that] by (simp add: plain)
  have "distinct (map fst ns)" using Cons.prems(1) by simp
  note IH = Cons.IH[OF this prem]
  show ?case
    using IH plain \<open>h \<notin> fst ` set ns\<close> by (auto simp: x)
qed simp

text \<open>A built store: every leaf of the import held, every node stored plain as it is.\<close>

definition built :: "import \<Rightarrow> store \<Rightarrow> bool" where
  "built im s \<longleftrightarrow>
     (\<forall>h \<in> fst ` set (im_leaves im). hasLocal s (Cid Raw h)) \<and>
     (\<forall>(h, b) \<in> set (im_nodes im). map_of (st_plain s) h = Some b \<and> map_of (st_refs s) h = None)"

lemma build_spec:
  assumes ok: "import_ok E im" and clean: "nodes_clean im s"
  shows "built im (buildFileNode p im s)"
    and "st_disk (buildFileNode p im s) = st_disk s" and "st_root (buildFileNode p im s) = st_root s"
    and "map_of (st_refs (buildFileNode p im s)) k = Some r \<Longrightarrow>
           map_of (st_refs s) k = Some r \<or> (k \<in> fst ` set (im_leaves im) \<and> r_path r = p \<and> map_of (st_refs s) k = None)"
proof -
  let ?s = "fold (ref_put p) (im_leaves im) s"
  let ?t = "buildFileNode p im s"
  have t: "?t = fold (\<lambda>(h, b). fs_put h b) (im_nodes im) ?s" by (simp add: buildFileNode_def)
  have d: "distinct (map fst (im_nodes im))" using ok by (simp add: import_ok_def)
  have nl: "h \<notin> fst ` set (im_leaves im)" if "(h, b) \<in> set (im_nodes im)" for h b
    using ok that by (auto simp: import_ok_def list_all_iff)
  have refs: "map_of (st_refs ?s) h = None" if hb: "(h, b) \<in> set (im_nodes im)" for h b
  proof (cases "map_of (st_refs ?s) h")
    case (Some r)
    then show ?thesis
      using fold_ref_put_refs[of s h r p "im_leaves im"] nl[OF hb] clean hb
      by (auto simp: nodes_clean_def list_all_iff)
  qed
  have prem: "map_of (st_refs ?s) h = None \<and> (map_of (st_plain ?s) h = None \<or> map_of (st_plain ?s) h = Some b)"
    if hb: "(h, b) \<in> set (im_nodes im)" for h b
    using refs[OF hb] clean hb fold_ref_put_other[of p "im_leaves im" s] by (auto simp: nodes_clean_def list_all_iff)
  note f = fold_fs_put[OF d prem]
  show "st_disk ?t = st_disk s" "st_root ?t = st_root s"
    using f fold_ref_put_other[of p "im_leaves im" s] by (simp_all add: t)
  show "map_of (st_refs s) k = Some r \<or> (k \<in> fst ` set (im_leaves im) \<and> r_path r = p \<and> map_of (st_refs s) k = None)"
    if "map_of (st_refs ?t) k = Some r"
    using that f fold_ref_put_refs[of s k r p "im_leaves im"] by (simp add: t)
  have leaf: "hasLocal ?t (Cid Raw h)" if h: "h \<in> fst ` set (im_leaves im)" for h
  proof -
    have "hasLocal ?s (Cid Raw h)" using fold_ref_put_refs[of s h _ p "im_leaves im"] h by blast
    moreover have "h \<notin> fst ` set (im_nodes im)" using nl h by force
    ultimately show ?thesis using f by (simp add: t hasLocal_def)
  qed
  show "built im ?t" unfolding built_def
  proof (intro conjI ballI)
    fix x assume x: "x \<in> set (im_nodes im)"
    obtain h b where hb: "x = (h, b)" by (cases x)
    show "case x of (h, b) \<Rightarrow> map_of (st_plain ?t) h = Some b \<and> map_of (st_refs ?t) h = None"
      using f refs[of h b] x by (auto simp: t hb)
  qed (rule leaf)
qed

lemma built_node:
  assumes ok: "import_ok E im" and b: "built im s" and n: "is_node c" "in_import im c"
  obtains ls where "dag_get E s c = Some ls" "\<forall>d \<in> set (kids E s c). in_import im d" "list_ref s c = None" "hasLocal s c"
proof -
  obtain h where c: "c = Cid DagPb h" using n(1) by (cases c) (auto simp: is_node_def)
  then obtain y where y: "(h, y) \<in> set (im_nodes im)" using n(2) by (auto simp: in_import_def)
  then have p: "map_of (st_plain s) h = Some y" "map_of (st_refs s) h = None" using b by (auto simp: built_def)
  obtain ls where ls: "links_of E y = Some ls" "list_all (\<lambda>l. in_import im (l_cid l)) ls"
    using ok y by (auto simp: import_ok_def list_all_iff split: option.splits)
  have g: "dag_get E s c = Some ls" using p ls by (simp add: c dag_get_def block_get_def)
  have "kids E s c = map l_cid ls" by (simp add: kids_def g)
  then have "\<forall>d \<in> set (kids E s c). in_import im d" using ls(2) by (simp add: list_all_iff)
  moreover have "list_ref s c = None" "hasLocal s c" using p by (simp_all add: c list_ref_def hasLocal_def)
  ultimately show ?thesis by (rule that[OF g])
qed

lemma built_reach:
  assumes ok: "import_ok E im" and b: "built im s" and "dag_reach E s is_node c d" "in_import im c"
  shows "in_import im d \<and> dag_reach E s (unref_node E s) c d"
  using assms(3,4)
proof (induction rule: dag_reach.induct)
  case (dag_step c d e)
  obtain ls where "dag_get E s c = Some ls" "\<forall>d \<in> set (kids E s c). in_import im d" "list_ref s c = None"
    using built_node[OF ok b dag_step(1,5)] by blast
  with dag_step show ?case by (auto simp: unref_node_def intro: dag_reach.dag_step)
qed (simp add: dag_refl)

text \<open>What is built and has its files is held whole.\<close>

lemma built_whole:
  assumes ok: "import_ok E im" and b: "built im s" and root: "st_root s = []"
    and files: "\<And>d. dag_reach E s is_node (im_root im) d \<Longrightarrow> backing_present s d"
  shows "heldWhole E s (im_root im) = None"
  unfolding heldWhole_exact
proof (intro allI impI)
  fix d assume d: "dag_reach E s is_node (im_root im) d"
  have im: "in_import im d" using built_reach[OF ok b d] ok by (simp add: import_ok_def)
  show "block_whole E s d"
  proof (cases "is_node d")
    case True
    obtain ls where "dag_get E s d = Some ls" "hasLocal s d" by (rule built_node[OF ok b True im])
    then show ?thesis using True by (simp add: block_whole_def is_node_def)
  next
    case False
    then obtain h where "d = Cid Raw h" by (cases d; cases "codec_of d") (auto simp: is_node_def)
    then show ?thesis using im b files[OF d] root
      by (auto simp: block_whole_def built_def in_import_def backing_present_def split: option.splits)
  qed
qed

lemma nodes_clean_iff:
  "nodes_clean im s \<longleftrightarrow> (\<forall>h b. (h, b) \<in> set (im_nodes im) \<longrightarrow>
     map_of (st_refs s) h = None \<and> (map_of (st_plain s) h = None \<or> map_of (st_plain s) h = Some b))"
  by (auto simp: nodes_clean_def list_all_iff)

lemma nodes_clean_drop: "nodes_clean im s \<Longrightarrow> nodes_clean im (dropRef E c s)"
  unfolding nodes_clean_iff by (simp add: dropRef_def unpin_def map_of_keep)

lemma built_nodeD: "built im s \<Longrightarrow> (h, b) \<in> set (im_nodes im) \<Longrightarrow> map_of (st_plain s) h = Some b \<and> map_of (st_refs s) h = None"
  by (auto simp: built_def)

lemma built_clean: "built im s \<Longrightarrow> nodes_clean im s"
  unfolding nodes_clean_iff using built_nodeD by blast

lemma built_kids:
  assumes "built im s" "built im t" "is_node c" "in_import im c"
  shows "dag_get E s c = dag_get E t c"
proof -
  obtain h where c: "c = Cid DagPb h" using assms(3) by (cases c) (auto simp: is_node_def)
  then obtain y where "(h, y) \<in> set (im_nodes im)" using assms(4) by (auto simp: in_import_def)
  then show ?thesis using built_nodeD[OF assms(1)] built_nodeD[OF assms(2)] by (simp add: c dag_get_def block_get_def)
qed

lemma built_reach_both:
  assumes ok: "import_ok E im" and s: "built im s" and t: "built im t"
    and r: "dag_reach E t is_node c d" and c: "in_import im c"
  shows "dag_reach E s (opened E s) c d"
  using r c
proof (induction rule: dag_reach.induct)
  case (dag_step c d e)
  have eq: "dag_get E s c = dag_get E t c" by (rule built_kids[OF s t dag_step(1,5)])
  obtain ls where ls: "dag_get E t c = Some ls" "\<forall>d \<in> set (kids E t c). in_import im d"
    using built_node[OF ok t dag_step(1,5)] by blast
  have "opened E s c" "d \<in> set (kids E s c)"
    using ls(1) dag_step(2) eq by (simp_all add: opened_def kids_def)
  moreover have "dag_reach E s (opened E s) d e" using dag_step ls(2) by blast
  ultimately show ?case by (rule dag_reach.dag_step)
qed (rule dag_refl)

text \<open>Rebuilt after a drop, every reference below the root names the new file.\<close>

lemma rebuilt_files:
  assumes ok: "import_ok E im" and s: "built im s" and root: "st_root s = []" and p: "on_disk s p"
    and d: "dag_reach E (buildFileNode p im (dropRef E (im_root im) s)) is_node (im_root im) d"
  shows "backing_present (buildFileNode p im (dropRef E (im_root im) s)) d"
proof -
  let ?u = "dropRef E (im_root im) s" and ?t = "buildFileNode p im (dropRef E (im_root im) s)"
  have clean: "nodes_clean im ?u" by (rule nodes_clean_drop[OF built_clean[OF s]])
  note b = build_spec[OF ok clean, of p]
  have "in_import im (im_root im)" using ok by (simp add: import_ok_def)
  then have "dag_reach E s (opened E s) (im_root im) d" by (rule built_reach_both[OF ok s b(1) d])
  then have "mhash d \<in> mhash ` set (closure_cids E s (im_root im))" using closure_exact[of E s "im_root im"] by auto
  then have "map_of (st_refs ?u) (mhash d) = None" by (simp add: dropRef_def unpin_def map_of_keep)
  then have "r_path r = p" if "map_of (st_refs ?t) (mhash d) = Some r" for r using b(4)[OF that] by simp
  moreover have "on_disk ?t p" using p b(2) by (simp add: on_disk_def dropRef_def unpin_def)
  ultimately show ?thesis by (auto simp: backing_present_def list_ref_def split: option.splits if_splits)
qed

lemma build_disk: "st_disk (buildFileNode p im s) = st_disk s"
proof -
  have "st_disk (fold (\<lambda>(h, b). fs_put h b) ns t) = st_disk t" for ns t
    by (induction ns arbitrary: t) auto
  then show ?thesis using fold_ref_put_other[of p "im_leaves im" s] by (simp add: buildFileNode_def)
qed

lemma addNoCopy_returns:
  assumes "map_of (st_disk s) p = Some f" "st_root s = []"
  shows "\<exists>t. addNoCopy E imp None p s = (Inr (im_root (imp f)), t) \<and> st_disk t = st_disk s"
  using assms by (simp add: addNoCopy_def Let_def build_disk dropRef_def unpin_def)

lemma missing_iff: "\<not> cidMissing E s c \<Longrightarrow> dag_reach E s (unref_node E s) c d \<Longrightarrow> backing_present s d"
  by (auto simp: cidMissing_exact)

lemma add_file_held_facts:
  assumes "addNoCopy E imp fault p s = (Inr c, s')" and "map_of (st_disk s) p = Some f"
    and "import_ok E (imp f)" and "nodes_clean (imp f) s" and "st_root s = []"
  shows "computeCid imp (Some f) = Some c \<and> heldWhole E s' c = None \<and> c \<in> set (st_recursive s') \<and>
    c \<in> set (st_announced s')"
proof -
  let ?im = "imp f" and ?s1 = "buildFileNode p (imp f) s"
  let ?t = "buildFileNode p (imp f) (dropRef E (im_root (imp f)) ?s1)"
  define s2 where "s2 = (if cidMissing E ?s1 (im_root ?im) then ?t else ?s1)"
  have c: "c = im_root ?im"
    and s': "s' = s2\<lparr>st_recursive := c # st_recursive s2, st_announced := c # st_announced s2\<rparr>"
    using assms(1,2,5) by (auto simp: addNoCopy_def Let_def s2_def split: if_splits)
  note b1 = build_spec[OF assms(3,4), of p]
  have od: "on_disk ?s1 p" using assms(2) b1(2) by (simp add: on_disk_def)
  have r1: "st_root ?s1 = []" using b1(3) assms(5) by simp
  have "heldWhole E s2 (im_root ?im) = None"
  proof (cases "cidMissing E ?s1 (im_root ?im)")
    case True
    have clean: "nodes_clean ?im (dropRef E (im_root ?im) ?s1)" by (rule nodes_clean_drop[OF built_clean[OF b1(1)]])
    note b2 = build_spec[OF assms(3) clean, of p]
    have "st_root ?t = []" using b2(3) r1 by (simp add: dropRef_def unpin_def)
    then have "heldWhole E ?t (im_root ?im) = None"
      by (rule built_whole[OF assms(3) b2(1)]) (rule rebuilt_files[OF assms(3) b1(1) r1 od])
    then show ?thesis by (simp add: s2_def True)
  next
    case False
    have "in_import ?im (im_root ?im)" using assms(3) by (simp add: import_ok_def)
    then have "heldWhole E ?s1 (im_root ?im) = None"
      using built_whole[OF assms(3) b1(1) r1] built_reach[OF assms(3) b1(1)] missing_iff[OF False] by blast
    then show ?thesis by (simp add: s2_def False)
  qed
  moreover have "same_content s' s2" by (simp add: s' same_content_def)
  ultimately show ?thesis using same_content_whole[of s' s2 E c] by (simp add: c s' computeCid_def)
qed

text \<open>
  C13. A file that \<open>addNoCopy\<close> adds is held whole, pinned and announced, under the CID \<open>computeCid\<close> gives
  the same bytes: also when its leaves were references to a path since moved or deleted, which
  are dropped and recorded anew on the file added.
\<close>

theorem add_file_held:
  assumes "addNoCopy E imp fault p s = (Inr c, s')" and "map_of (st_disk s) p = Some f"
    and "import_ok E (imp f)" and "nodes_clean (imp f) s" and "st_root s = []"
  shows "computeCid imp (Some f) = Some c \<and> heldWhole E s' c = None \<and> c \<in> set (st_recursive s') \<and>
    c \<in> set (st_announced s')"
  by (rule add_file_held_facts[OF assms])

definition leaf_import :: "bytes \<Rightarrow> import" where
  "leaf_import f = \<lparr>im_root = Cid Raw (length f), im_leaves = [(length f, 0, word_of_nat (length f))], im_nodes = []\<rparr>"

text \<open>The same three bytes were seeded from a file that is gone.\<close>

definition moved_store :: store where
  "moved_store = dead_ref_store\<lparr>st_disk := [([''f''], [9, 9, 9])]\<rparr>"

theorem add_file_held_witness:
  "case addNoCopy leaf_boxo leaf_import None [''f''] moved_store of
     (Inl e, s') \<Rightarrow> False
   | (Inr c, s') \<Rightarrow> heldWhole leaf_boxo s' c = None \<and> map (r_path \<circ> snd) (rows s') = [[''f'']]"
proof -
  obtain c s' where a: "addNoCopy leaf_boxo leaf_import None [''f''] moved_store = (Inr c, s')"
    and r: "map (r_path \<circ> snd) (rows s') = [[''f'']]"
  proof
    show "addNoCopy leaf_boxo leaf_import None [''f''] moved_store =
      (Inr (Cid Raw 3), moved_store\<lparr>st_refs := [(3, \<lparr>r_path = [''f''], r_off = 0, r_size = 3\<rparr>)],
         st_recursive := [Cid Raw 3], st_announced := [Cid Raw 3], st_unlisted := [Cid Raw 3]\<rparr>)" by code_simp
    show "map (r_path \<circ> snd) (rows (moved_store\<lparr>st_refs := [(3, \<lparr>r_path = [''f''], r_off = 0, r_size = 3\<rparr>)],
         st_recursive := [Cid Raw 3], st_announced := [Cid Raw 3], st_unlisted := [Cid Raw 3]\<rparr>)) = [[''f'']]" by code_simp
  qed
  have "map_of (st_disk moved_store) [''f''] = Some [9, 9, 9]" by code_simp
  moreover have "import_ok leaf_boxo (leaf_import [9, 9, 9])" by code_simp
  moreover have "nodes_clean (leaf_import [9, 9, 9]) moved_store" by code_simp
  moreover have "st_root moved_store = []" by code_simp
  ultimately show ?thesis using add_file_held[OF a] a r by simp
qed

section \<open>A folder, and its Meta view\<close>

datatype ftree = File bytes | Dir "(string \<times> ftree) list" | Special

text \<open>
  \<open>buildDirNode\<close>: every file by its import, every folder by its entries in the order \<open>os.ReadDir\<close>
  gives (sorted); what is neither is skipped, which is \<open>None\<close> here.
\<close>

function (sequential) buildDirNode :: "boxo \<Rightarrow> (bytes \<Rightarrow> import) \<Rightarrow> ftree \<Rightarrow> cid option" where
  "buildDirNode E imp (File b) = Some (im_root (imp b))"
| "buildDirNode E imp Special = None"
| "buildDirNode E imp (Dir es) =
     Some (folder_of E (concat (map (\<lambda>(n, t). case buildDirNode E imp t of None \<Rightarrow> [] | Some c \<Rightarrow> [(n, c)]) es)))"
  by pat_completeness auto
termination
proof (relation "measure (\<lambda>(E, imp, t). size t)", goal_cases)
  case (2 E imp es x n t)
  then have "(n, t) \<in> set es" by simp
  then have "size t < Suc (size_list (size_prod (\<lambda>x. 0) size) es)"
    by (induction es) auto
  then show ?case by simp
qed simp

definition json_name :: "string \<Rightarrow> bool" where
  "json_name n \<longleftrightarrow> 5 \<le> length n \<and> drop (length n - 5) n = ''.json''"

definition runtime_dir :: "string \<Rightarrow> bool" where
  "runtime_dir n \<longleftrightarrow> n = ''DEFPREFIX'' \<or> n = ''USERDATA''"

text \<open>\<open>buildMetaDirNode\<close>: only JSON manifests, no runtime folders, and no folder left empty.\<close>

function (sequential) buildMetaDirNode :: "boxo \<Rightarrow> (bytes \<Rightarrow> import) \<Rightarrow> (string \<times> ftree) list \<Rightarrow> cid option" where
  "buildMetaDirNode E imp es =
     (let children = concat (map (\<lambda>(n, t).
            case t of
              Dir sub \<Rightarrow> if runtime_dir n then []
                         else (case buildMetaDirNode E imp sub of None \<Rightarrow> [] | Some c \<Rightarrow> [(n, c)])
            | File b \<Rightarrow> if json_name n then [(n, im_root (imp b))] else []
            | Special \<Rightarrow> []) es)
      in if children = [] then None else Some (folder_of E children))"
  by pat_completeness auto
termination
proof (relation "measure (\<lambda>(E, imp, es). size_list (size_prod (\<lambda>x. 0) size) es)", goal_cases)
  case (2 E imp es x n t sub)
  then have "(n, Dir sub) \<in> set es" by simp
  then have "size (Dir sub) \<le> size_list (size_prod (\<lambda>x. 0) size) es"
    by (induction es) auto
  then show ?case by simp
qed simp

text \<open>The JSON-only mirror of a tree that a staging folder would hold.\<close>

function (sequential) json_mirror :: "(string \<times> ftree) list \<Rightarrow> (string \<times> ftree) list" where
  "json_mirror es = concat (map (\<lambda>(n, t).
       case t of
         Dir sub \<Rightarrow> if runtime_dir n \<or> json_mirror sub = [] then [] else [(n, Dir (json_mirror sub))]
       | File b \<Rightarrow> if json_name n then [(n, File b)] else []
       | Special \<Rightarrow> []) es)"
  by pat_completeness auto
termination
proof (relation "measure (\<lambda>es. size_list (size_prod (\<lambda>x. 0) size) es)", goal_cases)
  case (2 es x n t sub)
  then have "(n, Dir sub) \<in> set es" by simp
  then have "size (Dir sub) \<le> size_list (size_prod (\<lambda>x. 0) size) es"
    by (induction es) auto
  then show ?case by simp
next
  case (3 es x n t sub)
  then have "(n, Dir sub) \<in> set es" by simp
  then have "size (Dir sub) \<le> size_list (size_prod (\<lambda>x. 0) size) es"
    by (induction es) auto
  then show ?case by simp
qed simp

declare buildMetaDirNode.simps [simp del] json_mirror.simps [simp del]

definition meta_entry :: "boxo \<Rightarrow> (bytes \<Rightarrow> import) \<Rightarrow> string \<times> ftree \<Rightarrow> (string \<times> cid) list" where
  "meta_entry E imp x = (case x of (n, t) \<Rightarrow>
     (case t of
        Dir sub \<Rightarrow> if runtime_dir n then [] else (case buildMetaDirNode E imp sub of None \<Rightarrow> [] | Some c \<Rightarrow> [(n, c)])
      | File b \<Rightarrow> if json_name n then [(n, im_root (imp b))] else []
      | Special \<Rightarrow> []))"

definition mirror_entry :: "string \<times> ftree \<Rightarrow> (string \<times> ftree) list" where
  "mirror_entry x = (case x of (n, t) \<Rightarrow>
     (case t of
        Dir sub \<Rightarrow> if runtime_dir n \<or> json_mirror sub = [] then [] else [(n, Dir (json_mirror sub))]
      | File b \<Rightarrow> if json_name n then [(n, File b)] else []
      | Special \<Rightarrow> []))"

definition dir_entry :: "boxo \<Rightarrow> (bytes \<Rightarrow> import) \<Rightarrow> string \<times> ftree \<Rightarrow> (string \<times> cid) list" where
  "dir_entry E imp x = (case x of (n, t) \<Rightarrow> (case buildDirNode E imp t of None \<Rightarrow> [] | Some c \<Rightarrow> [(n, c)]))"

lemma meta_unfold:
  "buildMetaDirNode E imp es =
     (let children = concat (map (meta_entry E imp) es) in if children = [] then None else Some (folder_of E children))"
  unfolding meta_entry_def[abs_def] by (rule buildMetaDirNode.simps)

lemma mirror_unfold: "json_mirror es = concat (map mirror_entry es)"
  unfolding mirror_entry_def[abs_def] by (rule json_mirror.simps)

lemma dir_unfold: "buildDirNode E imp (Dir es) = Some (folder_of E (concat (map (dir_entry E imp) es)))"
  unfolding dir_entry_def[abs_def] by (rule buildDirNode.simps(3))

lemma concat_map_concat: "concat (map h (concat (map g xs))) = concat (map (\<lambda>x. concat (map h (g x))) xs)"
  by (induction xs) auto

text \<open>
  The Meta CID of a package tree, built in place, is the CID of the folder a JSON-only mirror of it
  would have: manifests only, the runtime folders skipped, and no folder that holds none.
\<close>

theorem meta_is_mirror:
  "buildMetaDirNode E imp es =
     (if json_mirror es = [] then None else buildDirNode E imp (Dir (json_mirror es)))"
proof (induction es rule: json_mirror.induct)
  case (1 es)
  have entry: "meta_entry E imp x = concat (map (dir_entry E imp) (mirror_entry x)) \<and>
      (mirror_entry x = [] \<longleftrightarrow> meta_entry E imp x = [])" if "x \<in> set es" for x
  proof -
    obtain n t where x: "x = (n, t)" by (cases x)
    show ?thesis
    proof (cases t)
      case (Dir sub)
      have "buildMetaDirNode E imp sub =
          (if json_mirror sub = [] then None else buildDirNode E imp (Dir (json_mirror sub)))"
        using 1(1)[OF that x[symmetric] Dir] .
      then show ?thesis by (simp add: x Dir meta_entry_def mirror_entry_def dir_entry_def del: buildDirNode.simps(3)) (simp add: dir_unfold del: buildDirNode.simps(3))
    qed (simp_all add: x meta_entry_def mirror_entry_def dir_entry_def)
  qed
  have "concat (map (meta_entry E imp) es) = concat (map (dir_entry E imp) (json_mirror es))"
    unfolding mirror_unfold concat_map_concat
    by (rule arg_cong[where f = concat], rule map_cong[OF refl]) (use entry in blast)
  moreover have "concat (map (meta_entry E imp) es) = [] \<longleftrightarrow> json_mirror es = []"
    unfolding mirror_unfold using entry by simp
  ultimately show ?case by (simp add: meta_unfold[of E imp es] dir_unfold Let_def del: buildDirNode.simps(3))
qed

end
