(* ===== verification/AddTree.thy ===== *)
theory AddTree
  imports AddFile
begin

text \<open>
  A folder added by reference (\<open>addDirNoCopy\<close> and \<open>addMetaNoCopy\<close> of \<open>add.go\<close>): the puts of a tree into the store,
  in the order the code makes them, and the pin and announcement of its root. The CIDs are those of \<open>AddFile\<close>.
\<close>

section \<open>The puts of a tree\<close>

datatype put = Put_leaf path "nat \<times> 64 word \<times> 64 word" | Put_node nat bytes

primrec do_put :: "put \<Rightarrow> store \<Rightarrow> store" where
  "do_put (Put_leaf p l) s = ref_put p l s"
| "do_put (Put_node h b) s = fs_put h b s"

definition file_puts :: "path \<Rightarrow> import \<Rightarrow> put list" where
  "file_puts p im = map (Put_leaf p) (im_leaves im) @ map (\<lambda>(h, b). Put_node h b) (im_nodes im)"

lemma file_puts_build: "fold do_put (file_puts p im) s = buildFileNode p im s"
proof -
  have "fold do_put (map (Put_leaf p) ls) t = fold (ref_put p) ls t" for ls t by (induction ls arbitrary: t) auto
  moreover have "fold do_put (map (\<lambda>(h, b). Put_node h b) ns) t = fold (\<lambda>(h, b). fs_put h b) ns t" for ns t
    by (induction ns arbitrary: t) auto
  ultimately show ?thesis by (simp add: file_puts_def buildFileNode_def)
qed

text \<open>The links of a folder: its entries that are files or folders.\<close>

definition dir_children :: "boxo \<Rightarrow> (bytes \<Rightarrow> import) \<Rightarrow> (string \<times> ftree) list \<Rightarrow> (string \<times> cid) list" where
  "dir_children E imp es = concat (map (\<lambda>(n, t). case buildDirNode E imp t of None \<Rightarrow> [] | Some c \<Rightarrow> [(n, c)]) es)"

definition folder_put :: "boxo \<Rightarrow> (string \<times> cid) list \<Rightarrow> put" where
  "folder_put E links = Put_node (hash_of E (dir_bytes E links)) (dir_bytes E links)"

fun dir_puts :: "boxo \<Rightarrow> (bytes \<Rightarrow> import) \<Rightarrow> path \<Rightarrow> ftree \<Rightarrow> put list" where
  "dir_puts E imp p (File b) = file_puts p (imp b)"
| "dir_puts E imp p Special = []"
| "dir_puts E imp p (Dir es) =
     concat (map (\<lambda>(n, t). dir_puts E imp (p @ [n]) t) es) @ [folder_put E (dir_children E imp es)]"

text \<open>\<open>buildMetaDirNode\<close> puts what it puts for the mirror of the tree: see \<open>meta_is_mirror\<close>.\<close>

definition meta_children :: "boxo \<Rightarrow> (bytes \<Rightarrow> import) \<Rightarrow> (string \<times> ftree) list \<Rightarrow> (string \<times> cid) list" where
  "meta_children E imp es = concat (map (meta_entry E imp) es)"

function meta_puts :: "boxo \<Rightarrow> (bytes \<Rightarrow> import) \<Rightarrow> path \<Rightarrow> (string \<times> ftree) list \<Rightarrow> put list" where
  "meta_puts E imp p es =
     concat (map (\<lambda>(n, t).
       case t of
         Dir sub \<Rightarrow> if runtime_dir n then [] else meta_puts E imp (p @ [n]) sub
       | File b \<Rightarrow> if json_name n then file_puts (p @ [n]) (imp b) else []
       | Special \<Rightarrow> []) es) @
     (if meta_children E imp es = [] then [] else [folder_put E (meta_children E imp es)])"
  by pat_completeness auto
termination
proof (relation "measure (\<lambda>(E, imp, p, es). size_list (size_prod (\<lambda>x. 0) size) es)", goal_cases)
  case (2 E imp p es x n t sub)
  then have "(n, Dir sub) \<in> set es" by simp
  then have "size (Dir sub) \<le> size_list (size_prod (\<lambda>x. 0) size) es"
    by (induction es) auto
  then show ?case by simp
qed simp

declare meta_puts.simps [simp del]

section \<open>Adding\<close>

text \<open>
  A step fails, or none does; a build fails after so many of its puts. \<open>again\<close>: whether a root whose files are gone
  is dropped and built once more.
\<close>

datatype tree_fault = Build_fails nat | Build_again_fails nat | Pin_fails | Flush_fails

datatype tree_error = Build_error | Pin_error | Flush_error | No_manifests

definition pin_tree :: "tree_fault option \<Rightarrow> cid \<Rightarrow> store \<Rightarrow> (tree_error + cid) \<times> store" where
  "pin_tree fault c s =
     (let s3 = s\<lparr>st_recursive := c # st_recursive s\<rparr> in
      if fault = Some Pin_fails then (Inl Pin_error, s)
      else if fault = Some Flush_fails then (Inl Flush_error, s3)
      else (Inr c, s3\<lparr>st_announced := c # st_announced s3\<rparr>))"

definition addDirNoCopy ::
  "boxo \<Rightarrow> (bytes \<Rightarrow> import) \<Rightarrow> tree_fault option \<Rightarrow> path \<Rightarrow> (string \<times> ftree) list \<Rightarrow> store \<Rightarrow> (tree_error + cid) \<times> store" where
  "addDirNoCopy E imp fault p es s =
     (let puts = dir_puts E imp p (Dir es) in
      case fault of
        Some (Build_fails k) \<Rightarrow> (Inl Build_error, fold do_put (take k puts) s)
      | _ \<Rightarrow> pin_tree fault (folder_of E (dir_children E imp es)) (fold do_put puts s))"

definition addMetaNoCopy ::
  "boxo \<Rightarrow> (bytes \<Rightarrow> import) \<Rightarrow> tree_fault option \<Rightarrow> path \<Rightarrow> (string \<times> ftree) list \<Rightarrow> store \<Rightarrow> (tree_error + cid) \<times> store" where
  "addMetaNoCopy E imp fault p es s =
     (let puts = meta_puts E imp p es; s1 = fold do_put puts s in
      case fault of
        Some (Build_fails k) \<Rightarrow> (Inl Build_error, fold do_put (take k puts) s)
      | _ \<Rightarrow>
          (case buildMetaDirNode E imp es of
             None \<Rightarrow> (Inl No_manifests, s1)
           | Some c \<Rightarrow>
               if cidMissing E s1 c
               then (let s2 = dropRef E c s1 in
                     case fault of
                       Some (Build_again_fails k) \<Rightarrow> (Inl Build_error, fold do_put (take k puts) s2)
                     | _ \<Rightarrow> pin_tree fault c (fold do_put puts s2))
               else pin_tree fault c s1))"

section \<open>What the encoders promise\<close>

text \<open>Each file's import is one, and each folder's block decodes to its entries.\<close>

fun tree_ok :: "boxo \<Rightarrow> (bytes \<Rightarrow> import) \<Rightarrow> ftree \<Rightarrow> bool" where
  "tree_ok E imp (File b) = import_ok E (imp b)"
| "tree_ok E imp Special = True"
| "tree_ok E imp (Dir es) =
     (list_all (\<lambda>(n, t). tree_ok E imp t) es \<and>
      (case links_of E (dir_bytes E (dir_children E imp es)) of
         None \<Rightarrow> False | Some ls \<Rightarrow> map l_cid ls = map snd (dir_children E imp es)))"

text \<open>No two different blocks of the tree have one hash.\<close>

definition leaf_puts :: "put list \<Rightarrow> (nat \<times> 64 word \<times> 64 word) list" where
  "leaf_puts ps = concat (map (\<lambda>x. case x of Put_leaf p l \<Rightarrow> [l] | Put_node h b \<Rightarrow> []) ps)"

definition node_puts :: "put list \<Rightarrow> (nat \<times> bytes) list" where
  "node_puts ps = concat (map (\<lambda>x. case x of Put_leaf p l \<Rightarrow> [] | Put_node h b \<Rightarrow> [(h, b)]) ps)"

definition hashes_apart :: "put list \<Rightarrow> bool" where
  "hashes_apart ps \<longleftrightarrow> distinct (map fst (remdups (node_puts ps))) \<and>
     list_all (\<lambda>(h, b). h \<notin> fst ` set (leaf_puts ps)) (node_puts ps)"

definition tree_import :: "cid \<Rightarrow> put list \<Rightarrow> import" where
  "tree_import c ps = \<lparr>im_root = c, im_leaves = leaf_puts ps, im_nodes = remdups (node_puts ps)\<rparr>"

lemma puts_simps [simp]:
  "leaf_puts [] = []" "node_puts [] = []" "leaf_puts (ps @ qs) = leaf_puts ps @ leaf_puts qs"
  "node_puts (ps @ qs) = node_puts ps @ node_puts qs" "leaf_puts (Put_leaf p l # ps) = l # leaf_puts ps"
  "leaf_puts (Put_node h b # ps) = leaf_puts ps" "node_puts (Put_leaf p l # ps) = node_puts ps"
  "node_puts (Put_node h b # ps) = (h, b) # node_puts ps"
  by (simp_all add: leaf_puts_def node_puts_def)

lemma set_puts:
  "l \<in> set (leaf_puts ps) \<longleftrightarrow> (\<exists>p. Put_leaf p l \<in> set ps)" "(h, b) \<in> set (node_puts ps) \<longleftrightarrow> Put_node h b \<in> set ps"
proof (induction ps)
  case (Cons x ps)
  { case 1 show ?case using Cons(1) by (cases x) (simp, blast, simp) }
  { case 2 show ?case using Cons(2) by (cases x) simp_all }
qed simp_all

section \<open>The store after the puts\<close>

definition puts_clean :: "put list \<Rightarrow> store \<Rightarrow> bool" where
  "puts_clean ps s \<longleftrightarrow>
     (\<forall>h b. Put_node h b \<in> set ps \<longrightarrow> map_of (st_refs s) h = None \<and> (map_of (st_plain s) h = None \<or> map_of (st_plain s) h = Some b))"

lemma puts_clean_nodes: "puts_clean ps s \<longleftrightarrow> nodes_clean (tree_import c ps) s"
  by (simp add: puts_clean_def nodes_clean_iff tree_import_def set_puts)

lemma apartD:
  assumes "hashes_apart ps"
  shows "Put_node h b \<in> set ps \<Longrightarrow> Put_node h b' \<in> set ps \<Longrightarrow> b = b'"
    and "Put_node h b \<in> set ps \<Longrightarrow> Put_leaf p (h, x) \<notin> set ps"
proof -
  show "b = b'" if "Put_node h b \<in> set ps" "Put_node h b' \<in> set ps"
    using assms that by (metis eq_key_imp_eq_value hashes_apart_def set_puts(2) set_remdups)
  show "Put_leaf p (h, x) \<notin> set ps" if "Put_node h b \<in> set ps"
  proof
    assume "Put_leaf p (h, x) \<in> set ps"
    then have "(h, x) \<in> set (leaf_puts ps)" by (auto simp: set_puts)
    then show False using assms that by (force simp: hashes_apart_def list_all_iff set_puts(2)[symmetric])
  qed
qed

lemma do_put_fields [simp]: "st_disk (do_put x s) = st_disk s" "st_root (do_put x s) = st_root s"
  by (cases x; simp add: ref_put_other)+

lemma fold_put_fields [simp]: "st_disk (fold do_put ps s) = st_disk s" "st_root (fold do_put ps s) = st_root s"
  by (induction ps arbitrary: s) simp_all

lemma do_put_mono: "hasLocal s c \<Longrightarrow> hasLocal (do_put x s) c"
  by (cases x) (auto simp: ref_put_def fs_put_def hasLocal_def split: prod.splits if_splits)

lemma fold_put_mono: "hasLocal s c \<Longrightarrow> hasLocal (fold do_put ps s) c"
  by (induction ps arbitrary: s) (simp_all add: do_put_mono)

lemma do_put_refs:
  "map_of (st_refs (do_put x s)) k = Some r \<Longrightarrow>
   map_of (st_refs s) k = Some r \<or> map_of (st_refs s) k = None \<and> (\<exists>off sz. x = Put_leaf (r_path r) (k, off, sz))"
  by (cases x) (auto simp: ref_put_def fs_put_def hasLocal_def split: if_splits)

text \<open>A reference is an old one, or names the file of a leaf of the tree.\<close>

lemma fold_put_refs:
  "map_of (st_refs (fold do_put ps s)) k = Some r \<Longrightarrow>
   map_of (st_refs s) k = Some r \<or> map_of (st_refs s) k = None \<and> (\<exists>off sz. Put_leaf (r_path r) (k, off, sz) \<in> set ps)"
proof (induction ps arbitrary: s)
  case (Cons x ps)
  have "map_of (st_refs (do_put x s)) k = None \<Longrightarrow> map_of (st_refs s) k = None"
    by (cases x) (auto simp: ref_put_def fs_put_def split: if_splits)
  then show ?case using Cons.IH[of "do_put x s"] Cons.prems do_put_refs[of x s k r] by auto
qed simp

lemma do_put_clean:
  assumes "hashes_apart (x # ps)" "puts_clean (x # ps) s"
  shows "puts_clean (x # ps) (do_put x s)"
proof (cases x)
  case (Put_leaf p l)
  obtain h y where l: "l = (h, y)" by (cases l)
  have "k \<noteq> h" if "Put_node k b \<in> set (x # ps)" for k b
    using apartD(2)[OF assms(1) that, of p y] by (auto simp: Put_leaf l)
  then show ?thesis
    using assms(2) by (auto simp: Put_leaf l puts_clean_def ref_put_def split: prod.splits)
next
  case (Put_node h b)
  then show ?thesis
    using assms(2) apartD(1)[OF assms(1), of h b] by (auto simp: puts_clean_def fs_put_def hasLocal_def)
qed

lemma do_put_held:
  "hasLocal (do_put (Put_leaf p (h, y)) s) (Cid Raw h)" "puts_clean [Put_node h b] s \<Longrightarrow> map_of (st_plain (do_put (Put_node h b) s)) h = Some b"
  by (auto simp: ref_put_def fs_put_def hasLocal_def puts_clean_def split: prod.splits)

text \<open>What is stored plain stays what it is.\<close>

lemma fold_put_plain: "map_of (st_plain s) h = Some b \<Longrightarrow> map_of (st_plain (fold do_put ps s)) h = Some b"
proof (induction ps arbitrary: s)
  case (Cons x ps)
  have "map_of (st_plain (do_put x s)) h = Some b"
    using Cons.prems by (cases x) (auto simp: ref_put_other fs_put_def hasLocal_def)
  then show ?case using Cons.IH by simp
qed simp

lemma fold_put_clean:
  assumes "hashes_apart qs" "puts_clean qs s" "set ps \<subseteq> set qs"
  shows "puts_clean qs (fold do_put ps s)"
  using assms(2,3)
proof (induction ps arbitrary: s)
  case (Cons x ps)
  have "set (x # qs) = set qs" using Cons.prems(2) by auto
  moreover have "hashes_apart (x # qs)"
    using assms(1) Cons.prems(2) apartD[OF assms(1)]
    by (cases x) (auto simp: hashes_apart_def list_all_iff set_puts insert_absorb)
  ultimately have "puts_clean qs (do_put x s)"
    using do_put_clean[of x qs s] Cons.prems(1) by (simp add: puts_clean_def)
  then show ?case using Cons.IH Cons.prems(2) by simp
qed simp

lemma puts_built:
  assumes "hashes_apart ps" "puts_clean ps s"
  shows "built (tree_import c ps) (fold do_put ps s)"
proof -
  let ?t = "fold do_put ps s"
  have at: "\<exists>qs rs. ps = qs @ x # rs" if "x \<in> set ps" for x using that by (metis split_list)
  have leaf: "hasLocal ?t (Cid Raw h)" if l: "Put_leaf p (h, y) \<in> set ps" for p h y
  proof -
    obtain qs rs where "ps = qs @ Put_leaf p (h, y) # rs" using at[OF l] by blast
    then have "?t = fold do_put rs (do_put (Put_leaf p (h, y)) (fold do_put qs s))" by simp
    then show ?thesis using fold_put_mono[OF do_put_held(1)] by metis
  qed
  have node: "map_of (st_plain ?t) h = Some b" if n: "Put_node h b \<in> set ps" for h b
  proof -
    obtain qs rs where ps: "ps = qs @ Put_node h b # rs" using at[OF n] by blast
    have "puts_clean ps (fold do_put qs s)" by (rule fold_put_clean[OF assms]) (auto simp: ps)
    then have "puts_clean [Put_node h b] (fold do_put qs s)" using n by (simp add: puts_clean_def)
    from fold_put_plain[OF do_put_held(2)[OF this]] show ?thesis by (simp add: ps)
  qed
  have "puts_clean ps ?t" by (rule fold_put_clean[OF assms subset_refl])
  then have refs: "Put_node h b \<in> set ps \<Longrightarrow> map_of (st_refs ?t) h = None" for h b unfolding puts_clean_def by blast
  show ?thesis
    using leaf node refs unfolding built_def tree_import_def by (auto simp: set_puts)
qed

section \<open>A tree is an import\<close>

definition covers :: "put list \<Rightarrow> cid \<Rightarrow> bool" where
  "covers ps c \<longleftrightarrow>
     (case codec_of c of Raw \<Rightarrow> mhash c \<in> fst ` set (leaf_puts ps) | DagPb \<Rightarrow> mhash c \<in> fst ` set (node_puts ps))"

lemma covers_iff: "covers ps (Cid DagPb h) \<longleftrightarrow> (\<exists>b. Put_node h b \<in> set ps)"
  by (simp add: covers_def image_iff Bex_def set_puts)

lemma in_import_iff:
  "in_import im d \<longleftrightarrow> (case codec_of d of Raw \<Rightarrow> mhash d \<in> fst ` set (im_leaves im) | DagPb \<Rightarrow> mhash d \<in> fst ` set (im_nodes im))"
  by (simp add: in_import_def split: cid.split cid_codec.split)

lemma in_tree: "in_import (tree_import c ps) d \<longleftrightarrow> covers ps d"
  by (simp add: in_import_iff covers_def tree_import_def split: cid_codec.split)

lemma covers_mono: "set ps \<subseteq> set qs \<Longrightarrow> covers ps c \<Longrightarrow> covers qs c"
proof -
  assume "set ps \<subseteq> set qs"
  then have "set (leaf_puts ps) \<subseteq> set (leaf_puts qs)" "set (node_puts ps) \<subseteq> set (node_puts qs)"
    by (auto simp: leaf_puts_def node_puts_def)
  then show "covers ps c \<Longrightarrow> covers qs c" by (auto simp: covers_def split: cid_codec.splits)
qed

definition node_links_in :: "boxo \<Rightarrow> put list \<Rightarrow> put list \<Rightarrow> bool" where
  "node_links_in E ps qs \<longleftrightarrow>
     (\<forall>h b. Put_node h b \<in> set ps \<longrightarrow> (\<exists>ls. links_of E b = Some ls \<and> (\<forall>l \<in> set ls. covers qs (l_cid l))))"

lemma node_links_mono: "set qs \<subseteq> set qs' \<Longrightarrow> node_links_in E ps qs \<Longrightarrow> node_links_in E ps qs'"
  unfolding node_links_in_def using covers_mono by blast

lemma file_puts_covers: "in_import im c \<longleftrightarrow> covers (file_puts p im) c"
proof -
  have "leaf_puts (map (Put_leaf p) ls) = ls" "node_puts (map (Put_leaf p) ls) = []" for ls by (induction ls) simp_all
  moreover have "leaf_puts (map (\<lambda>(h, b). Put_node h b) ns) = []" "node_puts (map (\<lambda>(h, b). Put_node h b) ns) = ns" for ns
    by (induction ns) auto
  ultimately show ?thesis by (simp add: in_import_iff covers_def file_puts_def split: cid_codec.split)
qed

lemma file_puts_ok:
  assumes "import_ok E im"
  shows "node_links_in E (file_puts p im) (file_puts p im)"
  unfolding node_links_in_def
proof (intro allI impI)
  fix h b assume "Put_node h b \<in> set (file_puts p im)"
  then have "(h, b) \<in> set (im_nodes im)" by (auto simp: file_puts_def)
  then show "\<exists>ls. links_of E b = Some ls \<and> (\<forall>l \<in> set ls. covers (file_puts p im) (l_cid l))"
    using assms unfolding file_puts_covers[symmetric] by (auto simp: import_ok_def list_all_iff split: option.splits)
qed

lemma children_of:
  "(n, c) \<in> set (dir_children E imp es) \<longleftrightarrow> (\<exists>t. (n, t) \<in> set es \<and> buildDirNode E imp t = Some c)"
  by (force simp: dir_children_def split: option.splits)

lemma dir_puts_closed:
  "tree_ok E imp t \<Longrightarrow> node_links_in E (dir_puts E imp p t) (dir_puts E imp p t) \<and>
   (\<forall>c. buildDirNode E imp t = Some c \<longrightarrow> covers (dir_puts E imp p t) c)"
proof (induction E imp p t rule: dir_puts.induct)
  case (1 E imp p b)
  then show ?case using file_puts_ok[of E "imp b" p] by (auto simp: file_puts_covers[symmetric] import_ok_def)
next
  case (2 E imp p)
  then show ?case by (simp add: node_links_in_def)
next
  case (3 E imp p es)
  let ?ps = "dir_puts E imp p (Dir es)"
  have sub: "set (dir_puts E imp (p @ [n]) t) \<subseteq> set ?ps" if "(n, t) \<in> set es" for n t using that by auto
  have ok: "tree_ok E imp t" if "(n, t) \<in> set es" for n t using 3(2) that by (auto simp: list_all_iff)
  have IH: "node_links_in E (dir_puts E imp (p @ [n]) t) ?ps" "buildDirNode E imp t = Some c \<Longrightarrow> covers ?ps c"
    if "(n, t) \<in> set es" for n t c
    using 3(1)[OF that refl ok[OF that]] node_links_mono[OF sub[OF that]] covers_mono[OF sub[OF that]] by blast+
  obtain ls where ls: "links_of E (dir_bytes E (dir_children E imp es)) = Some ls" "map l_cid ls = map snd (dir_children E imp es)"
    using 3(2) by (auto split: option.splits)
  have kids: "covers ?ps (l_cid l)" if "l \<in> set ls" for l
  proof -
    have "l_cid l \<in> snd ` set (dir_children E imp es)" using that ls(2) by (metis image_eqI image_set)
    then show ?thesis using IH(2) by (auto simp: children_of)
  qed
  have "node_links_in E ?ps ?ps"
    unfolding node_links_in_def
  proof (intro allI impI)
    fix h b assume "Put_node h b \<in> set ?ps"
    then consider (entry) n t where "(n, t) \<in> set es" "Put_node h b \<in> set (dir_puts E imp (p @ [n]) t)"
      | (folder) "b = dir_bytes E (dir_children E imp es)" by (auto simp: folder_put_def)
    then show "\<exists>ls. links_of E b = Some ls \<and> (\<forall>l \<in> set ls. covers ?ps (l_cid l))"
    proof cases
      case entry
      then show ?thesis using IH(1) unfolding node_links_in_def by blast
    next
      case folder
      then show ?thesis using ls(1) kids by blast
    qed
  qed
  moreover have "covers ?ps (folder_of E (dir_children E imp es))"
    by (auto simp: folder_of_def covers_iff folder_put_def)
  ultimately show ?case by (simp add: dir_children_def)
qed

lemma tree_import_ok:
  assumes "tree_ok E imp (Dir es)" "hashes_apart (dir_puts E imp p (Dir es))"
  shows "import_ok E (tree_import (folder_of E (dir_children E imp es)) (dir_puts E imp p (Dir es)))"
proof -
  let ?ps = "dir_puts E imp p (Dir es)" and ?c = "folder_of E (dir_children E imp es)"
  have c: "node_links_in E ?ps ?ps" "covers ?ps ?c"
    using dir_puts_closed[OF assms(1), of p] by (simp_all add: dir_children_def)
  then have "list_all (\<lambda>(h, b). case links_of E b of None \<Rightarrow> False | Some ls \<Rightarrow> list_all (\<lambda>l. covers ?ps (l_cid l)) ls) (node_puts ?ps)"
    unfolding list_all_iff
  proof (intro ballI)
    fix x assume x: "x \<in> set (node_puts ?ps)"
    obtain h b where hb: "x = (h, b)" by (cases x)
    have "Put_node h b \<in> set ?ps" using x unfolding hb set_puts .
    then obtain ls where "links_of E b = Some ls" "\<forall>l \<in> set ls. covers ?ps (l_cid l)"
      using c(1) unfolding node_links_in_def by blast
    then show "case x of (h, b) \<Rightarrow> (case links_of E b of None \<Rightarrow> False | Some ls \<Rightarrow> \<forall>l \<in> set ls. covers ?ps (l_cid l))"
      by (simp add: hb)
  qed
  then show ?thesis
    using c(2) assms(2) unfolding import_ok_def in_tree
    by (simp add: tree_import_def hashes_apart_def list_all_iff)
qed

section \<open>A tree added is held\<close>

fun tree_on_disk :: "store \<Rightarrow> path \<Rightarrow> ftree \<Rightarrow> bool" where
  "tree_on_disk s p (File b) \<longleftrightarrow> map_of (st_disk s) p = Some b"
| "tree_on_disk s p Special \<longleftrightarrow> True"
| "tree_on_disk s p (Dir es) \<longleftrightarrow> list_all (\<lambda>(n, t). tree_on_disk s (p @ [n]) t) es"

lemma leaves_on_disk: "tree_on_disk s p t \<Longrightarrow> Put_leaf q l \<in> set (dir_puts E imp p t) \<Longrightarrow> on_disk s q"
  by (induction E imp p t rule: dir_puts.induct)
    (auto simp: file_puts_def on_disk_def folder_put_def list_all_iff)

lemma tree_rebuilt:
  assumes ok: "import_ok E (tree_import c ps)" and apart: "hashes_apart ps" and s: "built (tree_import c ps) s"
    and files: "\<And>q l. Put_leaf q l \<in> set ps \<Longrightarrow> on_disk s q"
    and d: "dag_reach E (fold do_put ps (dropRef E c s)) is_node c d"
  shows "backing_present (fold do_put ps (dropRef E c s)) d"
proof -
  let ?u = "dropRef E c s" and ?t = "fold do_put ps (dropRef E c s)"
  have "puts_clean ps ?u" using nodes_clean_drop[OF built_clean[OF s]] by (simp add: puts_clean_nodes[of ps _ c])
  then have t: "built (tree_import c ps) ?t" by (rule puts_built[OF apart])
  have "in_import (tree_import c ps) c" using ok by (simp add: import_ok_def tree_import_def)
  then have "dag_reach E s (opened E s) c d" by (rule built_reach_both[OF ok s t d])
  then have "mhash d \<in> mhash ` set (closure_cids E s c)" using closure_exact[of E s c] by auto
  then have "map_of (st_refs ?u) (mhash d) = None" by (simp add: dropRef_def unpin_def map_of_keep)
  then have "on_disk s (r_path r)" if "map_of (st_refs ?t) (mhash d) = Some r" for r
    using fold_put_refs[OF that] files by auto
  then show ?thesis
    by (auto simp: backing_present_def list_ref_def on_disk_def dropRef_def unpin_def split: option.splits if_splits)
qed

lemma pin_tree_ok:
  "pin_tree fault c s = (Inr d, s') \<Longrightarrow> d = c \<and> c \<in> set (st_recursive s') \<and> c \<in> set (st_announced s') \<and> same_content s' s"
  by (auto simp: pin_tree_def Let_def same_content_def split: if_splits)

lemma puts_whole:
  assumes "import_ok E (tree_import c ps)" "hashes_apart ps" "puts_clean ps s" "st_root s = []"
    and "\<And>d. dag_reach E (fold do_put ps s) is_node c d \<Longrightarrow> backing_present (fold do_put ps s) d"
  shows "heldWhole E (fold do_put ps s) c = None"
  using built_whole[OF assms(1) puts_built[OF assms(2,3)]] assms(4,5) by (simp add: tree_import_def)

text \<open>The Meta puts are those of the mirror.\<close>

lemma meta_children_mirror: "meta_children E imp es = dir_children E imp (json_mirror es)"
proof -
  have "meta_entry E imp x = concat (map (dir_entry E imp) (mirror_entry x))" for x
    by (cases x; cases "snd x")
      (auto simp: meta_entry_def mirror_entry_def dir_entry_def meta_is_mirror[of E imp] simp del: buildDirNode.simps(3))
  then have "map (meta_entry E imp) es = map (\<lambda>x. concat (map (dir_entry E imp) (mirror_entry x))) es"
    by (intro map_cong refl)
  then have "meta_children E imp es = concat (map (dir_entry E imp) (json_mirror es))"
    unfolding meta_children_def mirror_unfold concat_map_concat by (rule arg_cong)
  then show ?thesis unfolding dir_children_def dir_entry_def[abs_def] .
qed

lemma meta_puts_mirror:
  "meta_puts E imp p es = (if json_mirror es = [] then [] else dir_puts E imp p (Dir (json_mirror es)))"
proof (induction E imp p es rule: meta_puts.induct)
  case (1 E imp p es)
  let ?f = "\<lambda>(n, t). case t of Dir sub \<Rightarrow> if runtime_dir n then [] else meta_puts E imp (p @ [n]) sub
       | File b \<Rightarrow> if json_name n then file_puts (p @ [n]) (imp b) else [] | Special \<Rightarrow> []"
  let ?g = "\<lambda>(n, t). dir_puts E imp (p @ [n]) t"
  have entry: "?f x = concat (map ?g (mirror_entry x))" if "x \<in> set es" for x
  proof -
    obtain n t where x: "x = (n, t)" by (cases x)
    show ?thesis
    proof (cases t)
      case (Dir sub)
      have "\<not> runtime_dir n \<Longrightarrow> meta_puts E imp (p @ [n]) sub =
          (if json_mirror sub = [] then [] else dir_puts E imp (p @ [n]) (Dir (json_mirror sub)))"
        using 1[OF that x[symmetric] Dir] .
      then show ?thesis by (simp add: x Dir mirror_entry_def del: dir_puts.simps(3))
    qed (simp_all add: x mirror_entry_def)
  qed
  have puts: "concat (map ?f es) = concat (map ?g (json_mirror es))"
    unfolding mirror_unfold concat_map_concat
    by (rule arg_cong[where f = concat], rule map_cong[OF refl]) (rule entry)
  have "mirror_entry x = [] \<or> dir_children E imp (mirror_entry x) \<noteq> []" for x
    by (cases x; cases "snd x") (auto simp: mirror_entry_def dir_children_def)
  then have "(\<forall>x \<in> set es. dir_children E imp (mirror_entry x) = []) \<longleftrightarrow> (\<forall>x \<in> set es. mirror_entry x = [])"
    by (auto simp: dir_children_def)
  then have "dir_children E imp (json_mirror es) = [] \<longleftrightarrow> json_mirror es = []"
    by (simp add: mirror_unfold dir_children_def)
  with puts show ?case by (subst meta_puts.simps) (simp add: meta_children_mirror)
qed

lemma mirror_on_disk: "tree_on_disk s p (Dir es) \<Longrightarrow> tree_on_disk s p (Dir (json_mirror es))"
proof (induction es arbitrary: p rule: json_mirror.induct)
  case (1 es)
  have "tree_on_disk s (p @ [n]) t" if "(n, t) \<in> set (mirror_entry x)" "x \<in> set es" for n t x
  proof -
    obtain m u where x: "x = (m, u)" by (cases x)
    show ?thesis
    proof (cases u)
      case (Dir sub)
      have "case x of (n, t) \<Rightarrow> tree_on_disk s (p @ [n]) t" using 1(3) that(2) unfolding tree_on_disk.simps(3) list_all_iff by (rule bspec)
      then have "tree_on_disk s (p @ [m]) (Dir sub)" by (simp add: x Dir del: tree_on_disk.simps(3))
      then have "\<not> runtime_dir m \<Longrightarrow> tree_on_disk s (p @ [m]) (Dir (json_mirror sub))"
        using 1(1)[OF that(2) x[symmetric] Dir] by blast
      then show ?thesis using that(1) by (auto simp: x Dir mirror_entry_def simp del: tree_on_disk.simps(3) split: if_splits)
    qed (use 1(3) that in \<open>auto simp: x mirror_entry_def list_all_iff split: if_splits\<close>)
  qed
  then show ?case by (auto simp: mirror_unfold[of es] list_all_iff)
qed

section \<open>Properties\<close>

text \<open>
  C14. A package tree published by reference is held whole, pinned and announced, under the CID of the folder its
  JSON-only mirror has: also when its manifests were referenced at paths that are gone, whose references are dropped
  and recorded anew in the tree. No tree without a manifest is published.
\<close>

theorem add_meta_held:
  assumes "addMetaNoCopy E imp fault p es s = (Inr c, s')" "st_root s = []" "tree_on_disk s p (Dir es)"
    "tree_ok E imp (Dir (json_mirror es))" "hashes_apart (meta_puts E imp p es)" "puts_clean (meta_puts E imp p es) s"
  shows "buildDirNode E imp (Dir (json_mirror es)) = Some c \<and> json_mirror es \<noteq> [] \<and> heldWhole E s' c = None \<and>
    c \<in> set (st_recursive s') \<and> c \<in> set (st_announced s')"
proof -
  let ?ps = "meta_puts E imp p es"
  let ?s1 = "fold do_put ?ps s"
  let ?s2 = "if cidMissing E ?s1 c then fold do_put ?ps (dropRef E c ?s1) else ?s1"
  have c: "buildMetaDirNode E imp es = Some c" and s': "pin_tree fault c ?s2 = (Inr c, s')"
    using assms(1) by (auto simp: addMetaNoCopy_def Let_def dest: pin_tree_ok split: option.splits tree_fault.splits if_splits)
  then have ne: "json_mirror es \<noteq> []" and built: "buildDirNode E imp (Dir (json_mirror es)) = Some c"
    by (auto simp: meta_is_mirror[of E imp es] split: if_splits)
  have ps: "?ps = dir_puts E imp p (Dir (json_mirror es))" using ne by (simp add: meta_puts_mirror)
  have "c = folder_of E (dir_children E imp (json_mirror es))" using built by (simp add: dir_children_def)
  then have ok: "import_ok E (tree_import c ?ps)" using tree_import_ok[OF assms(4), of p] assms(5) unfolding ps by simp
  note b1 = puts_built[OF assms(5,6), of c]
  have files: "on_disk ?s1 q" if "Put_leaf q l \<in> set ?ps" for q l
    using leaves_on_disk[OF mirror_on_disk[OF assms(3)] that[unfolded ps]] by (simp add: on_disk_def)
  have "heldWhole E ?s2 c = None"
  proof (cases "cidMissing E ?s1 c")
    case True
    have clean: "puts_clean ?ps (dropRef E c ?s1)" using nodes_clean_drop[OF built_clean[OF b1]] by (simp add: puts_clean_nodes[of _ _ c])
    have "st_root (dropRef E c ?s1) = []" using assms(2) by (simp add: dropRef_def unpin_def)
    from puts_whole[OF ok assms(5) clean this tree_rebuilt[OF ok assms(5) b1 files]] True show ?thesis by simp
  next
    case False
    have "in_import (tree_import c ?ps) c" using ok by (simp add: import_ok_def tree_import_def)
    then have "backing_present ?s1 d" if "dag_reach E ?s1 is_node c d" for d
      using built_reach[OF ok b1 that] missing_iff[OF False] by blast
    from puts_whole[OF ok assms(5,6,2) this] False show ?thesis by simp
  qed
  then show ?thesis using pin_tree_ok[OF s'] same_content_whole[of s' ?s2 E c] built ne by simp
qed

text \<open>The manifest was published before from a folder that is gone.\<close>

definition gone_store :: store where
  "gone_store = \<lparr>st_root = [], st_plain = [], st_refs = [(1, \<lparr>r_path = [''gone''], r_off = 0, r_size = 1\<rparr>)],
     st_disk = [([''d'', ''a.json''], [9]), ([''d'', ''b.txt''], [1, 1])], st_recursive = [], st_direct = [], st_made = [],
     st_announced = [], st_unlisted = []\<rparr>"

definition gone_tree :: "(string \<times> ftree) list" where
  "gone_tree = [(''a.json'', File [9]), (''b.txt'', File [1, 1])]"

theorem add_meta_held_witness:
  "case addMetaNoCopy demo_boxo leaf_import None [''d''] gone_tree gone_store of
     (Inl e, s') \<Rightarrow> False
   | (Inr c, s') \<Rightarrow> c = Cid DagPb 2 \<and> heldWhole demo_boxo s' c = None \<and> map (r_path \<circ> snd) (rows s') = [[''d'', ''a.json'']]"
proof -
  obtain s' where a: "addMetaNoCopy demo_boxo leaf_import None [''d''] gone_tree gone_store = (Inr (Cid DagPb 2), s')"
    and r: "map (r_path \<circ> snd) (rows s') = [[''d'', ''a.json'']]"
  proof
    let ?s = "gone_store\<lparr>st_plain := [(2, [7, 7])], st_refs := [(1, \<lparr>r_path = [''d'', ''a.json''], r_off = 0, r_size = 1\<rparr>)],
      st_recursive := [Cid DagPb 2], st_announced := [Cid DagPb 2], st_unlisted := [Cid DagPb 2]\<rparr>"
    show "addMetaNoCopy demo_boxo leaf_import None [''d''] gone_tree gone_store = (Inr (Cid DagPb 2), ?s)" by code_simp
    show "map (r_path \<circ> snd) (rows ?s) = [[''d'', ''a.json'']]" by code_simp
  qed
  have "st_root gone_store = []" "tree_on_disk gone_store [''d''] (Dir gone_tree)" by code_simp+
  moreover have "tree_ok demo_boxo leaf_import (Dir (json_mirror gone_tree))" by code_simp
  moreover have "hashes_apart (meta_puts demo_boxo leaf_import [''d''] gone_tree)" by code_simp
  moreover have "nodes_clean (tree_import (Cid DagPb 2) (meta_puts demo_boxo leaf_import [''d''] gone_tree)) gone_store" by code_simp
  ultimately show ?thesis using add_meta_held[OF a] a r by (simp add: puts_clean_nodes[of _ _ "Cid DagPb 2"])
qed

text \<open>
  \<open>addDirNoCopy\<close> does not drop and rebuild: what it publishes is whole when no file of the tree was referenced before
  at a path that is gone.
\<close>

theorem add_dir_held:
  assumes "addDirNoCopy E imp fault p es s = (Inr c, s')" "st_root s = []" "tree_on_disk s p (Dir es)"
    "tree_ok E imp (Dir es)" "hashes_apart (dir_puts E imp p (Dir es))" "puts_clean (dir_puts E imp p (Dir es)) s"
    and old: "\<And>h r. map_of (st_refs s) h = Some r \<Longrightarrow> on_disk s (r_path r)"
  shows "buildDirNode E imp (Dir es) = Some c \<and> heldWhole E s' c = None \<and> c \<in> set (st_recursive s') \<and> c \<in> set (st_announced s')"
proof -
  let ?ps = "dir_puts E imp p (Dir es)"
  let ?s1 = "fold do_put ?ps s"
  have s': "pin_tree fault c ?s1 = (Inr c, s')" and c: "c = folder_of E (dir_children E imp es)"
    using assms(1) by (auto simp: addDirNoCopy_def Let_def simp del: dir_puts.simps dest: pin_tree_ok split: option.splits tree_fault.splits)
  have ok: "import_ok E (tree_import c ?ps)" unfolding c by (rule tree_import_ok[OF assms(4,5)])
  have "on_disk ?s1 (r_path r)" if "map_of (st_refs ?s1) k = Some r" for k r
  proof -
    have "on_disk s (r_path r)" using fold_put_refs[OF that] old leaves_on_disk[OF assms(3)] by blast
    then show ?thesis by (simp add: on_disk_def)
  qed
  then have "backing_present ?s1 d" for d by (auto simp: backing_present_def list_ref_def split: option.splits if_splits)
  from puts_whole[OF ok assms(5,6,2) this] show ?thesis
    using pin_tree_ok[OF s'] same_content_whole[of s' ?s1 E c] c by (simp add: dir_children_def)
qed

lemma stale_folder_published:
  "case addDirNoCopy demo_boxo leaf_import None [''d''] [(''a.json'', File [9])] gone_store of
     (Inl e, s') \<Rightarrow> False
   | (Inr c, s') \<Rightarrow> heldWhole demo_boxo s' c = Some (Backing_gone (Cid Raw 1) [''gone'']) \<and> block_get demo_boxo s' (Cid Raw 1) = None"
  by code_simp

text \<open>A step that fails announces nothing, and pins nothing unless it is the flush of the pin.\<close>

lemma pin_tree_error:
  "pin_tree fault c s = (Inl e, s') \<Longrightarrow>
   st_announced s' = st_announced s \<and> (st_recursive s' = st_recursive s \<or> fault = Some Flush_fails)"
  by (auto simp: pin_tree_def Let_def split: if_splits)

end
