(* ===== verification/WriteThrough.thy ===== *)
theory WriteThrough
  imports Resume Gateway Store
begin

text \<open>
  \<open>writeThrough\<close> (\<open>fetch.go\<close>): a file's leaves are listed from its dag-pb spine, received in any
  order, written in place into the preallocated \<open>dest.tmp\<close>, and marked in the bitmap that a
  background flusher persists. The file is modelled byte by byte, twice: as the process sees it
  and as the disk holds it, so that a crash may lose any write since the last \<open>fsync\<close>.
\<close>

section \<open>The leaves of a file\<close>

datatype spine_error = Not_raw_leaves | Get_failed cid

type_synonym leaf = "cid \<times> nat"

text \<open>
  The spine of a file: the links of each intermediate node that can be got. The recursion of the
  code, with the links still to follow of every open call on one list; \<open>seenN\<close> skips an
  intermediate node met before.
\<close>

type_synonym spine = "(cid \<times> link list) list"

function spine_leaves :: "spine \<Rightarrow> link list \<Rightarrow> cid list \<Rightarrow> spine_error + leaf list" where
  "spine_leaves D [] seenN = Inr []"
| "spine_leaves D (l # ls) seenN =
     (if codec_of (l_cid l) = Raw
      then map_sum id (\<lambda>xs. (l_cid l, l_size l) # xs) (spine_leaves D ls seenN)
      else if l_cid l \<in> set seenN then spine_leaves D ls seenN
      else (case map_of D (l_cid l) of
              None \<Rightarrow> Inl (Get_failed (l_cid l))
            | Some ks \<Rightarrow> if ks = [] then Inl Not_raw_leaves
                         else spine_leaves D (ks @ ls) (l_cid l # seenN)))"
  by pat_completeness auto
termination
proof (relation "measures [\<lambda>(D, ls, seenN). card (fst ` set D - set seenN), \<lambda>(D, ls, seenN). length ls]", goal_cases)
  case (4 D l ls seenN ks)
  then have "l_cid l \<in> fst ` set D" by (auto dest: map_of_SomeD intro: rev_image_eqI)
  then have "card (fst ` set D - insert (l_cid l) (set seenN)) < card (fst ` set D - set seenN)"
    using 4 by (intro psubset_card_mono) auto
  then show ?case by simp
qed auto

text \<open>The root: one raw leaf is the whole file; a node with no links is no file of raw leaves.\<close>

definition file_leaves :: "spine \<Rightarrow> cid \<Rightarrow> link list \<Rightarrow> nat \<Rightarrow> spine_error + leaf list" where
  "file_leaves D root links rawsize =
     (if codec_of root = Raw then Inr [(root, rawsize)]
      else if links = [] then Inl Not_raw_leaves
      else spine_leaves D links [])"

text \<open>The file the DAG stands for: its leaves in order, each intermediate node unfolded wherever it is linked.\<close>

inductive unfolds :: "spine \<Rightarrow> link list \<Rightarrow> leaf list \<Rightarrow> cid list \<Rightarrow> bool" for D :: spine where
  unfolds_Nil: "unfolds D [] [] []"
| unfolds_leaf: "codec_of (l_cid l) = Raw \<Longrightarrow> unfolds D ls xs ns \<Longrightarrow> unfolds D (l # ls) ((l_cid l, l_size l) # xs) ns"
| unfolds_node: "codec_of (l_cid l) = DagPb \<Longrightarrow> map_of D (l_cid l) = Some ks \<Longrightarrow> ks \<noteq> [] \<Longrightarrow>
    unfolds D ks xs ns \<Longrightarrow> unfolds D ls ys ms \<Longrightarrow> unfolds D (l # ls) (xs @ ys) (l_cid l # ns @ ms)"

lemma spine_continues:
  "unfolds D ls xs ns \<Longrightarrow> distinct ns \<Longrightarrow> set ns \<inter> set seenN = {} \<Longrightarrow>
     spine_leaves D (ls @ rest) seenN = map_sum id (\<lambda>ys. xs @ ys) (spine_leaves D rest (rev ns @ seenN))"
proof (induction arbitrary: seenN rest rule: unfolds.induct)
  case unfolds_Nil
  then show ?case by (cases "spine_leaves D rest seenN") auto
next
  case (unfolds_leaf l ls xs ns)
  then show ?case by (cases "spine_leaves D rest (rev ns @ seenN)") auto
next
  case (unfolds_node l ks xs ns ls ys ms)
  have nd: "codec_of (l_cid l) \<noteq> Raw" "l_cid l \<notin> set seenN" using unfolds_node by auto
  have "spine_leaves D ((l # ls) @ rest) seenN = spine_leaves D (ks @ ls @ rest) (l_cid l # seenN)"
    using nd unfolds_node(2,3) by simp
  also have "\<dots> = map_sum id (\<lambda>zs. xs @ zs) (spine_leaves D (ls @ rest) (rev ns @ l_cid l # seenN))"
    by (rule unfolds_node.IH(1)) (use unfolds_node.prems in auto)
  also have "spine_leaves D (ls @ rest) (rev ns @ l_cid l # seenN) =
      map_sum id (\<lambda>zs. ys @ zs) (spine_leaves D rest (rev ms @ rev ns @ l_cid l # seenN))"
    by (rule unfolds_node.IH(2)) (use unfolds_node.prems in auto)
  finally show ?case by (simp add: map_sum.compositionality comp_def map_sum.comp id_def)
qed

text \<open>The leaves listed are the file's, in order, when no intermediate node occurs twice.\<close>

lemma spine_exact: "unfolds D ls xs ns \<Longrightarrow> distinct ns \<Longrightarrow> spine_leaves D ls [] = Inr xs"
  using spine_continues[of D ls xs ns "[]" "[]"] by simp

text \<open>
  A file that repeats an intermediate node (a run of equal chunks longer than one node's 174
  links) is listed short: the second occurrence contributes no leaf, so the file written is
  truncated and the offsets of all that follows are wrong.
\<close>

definition repeating_spine :: spine where
  "repeating_spine = [(Cid DagPb 5, [\<lparr>l_name = [], l_cid = Cid Raw 3, l_size = 3\<rparr>])]"

definition repeating_links :: "link list" where
  "repeating_links = [\<lparr>l_name = [], l_cid = Cid DagPb 5, l_size = 3\<rparr>, \<lparr>l_name = [], l_cid = Cid DagPb 5, l_size = 3\<rparr>,
     \<lparr>l_name = [], l_cid = Cid Raw 4, l_size = 4\<rparr>]"

lemma repeated_node_truncates:
  "unfolds repeating_spine repeating_links [(Cid Raw 3, 3), (Cid Raw 3, 3), (Cid Raw 4, 4)] [Cid DagPb 5, Cid DagPb 5] \<and>
   file_leaves repeating_spine (Cid DagPb 9) repeating_links 0 = Inr [(Cid Raw 3, 3), (Cid Raw 4, 4)]"
proof
  let ?k = "\<lparr>l_name = [], l_cid = Cid Raw 3, l_size = 3\<rparr> :: link"
  have k: "unfolds repeating_spine [?k] [(Cid Raw 3, 3)] []"
    using unfolds_leaf[of ?k, OF _ unfolds_Nil, of repeating_spine] by simp
  have m: "map_of repeating_spine (Cid DagPb 5) = Some [?k]" by (simp add: repeating_spine_def)
  let ?n = "\<lparr>l_name = [], l_cid = Cid DagPb 5, l_size = 3\<rparr> :: link"
  let ?r = "\<lparr>l_name = [], l_cid = Cid Raw 4, l_size = 4\<rparr> :: link"
  have r: "unfolds repeating_spine [?r] [(Cid Raw 4, 4)] []"
    using unfolds_leaf[of ?r, OF _ unfolds_Nil, of repeating_spine] by simp
  have n: "unfolds repeating_spine [?n, ?r] [(Cid Raw 3, 3), (Cid Raw 4, 4)] [Cid DagPb 5]"
    using unfolds_node[of ?n repeating_spine "[?k]", OF _ _ _ k r] m by simp
  show "unfolds repeating_spine repeating_links [(Cid Raw 3, 3), (Cid Raw 3, 3), (Cid Raw 4, 4)] [Cid DagPb 5, Cid DagPb 5]"
    using unfolds_node[of ?n repeating_spine "[?k]", OF _ _ _ k n] m by (simp add: repeating_links_def)
  show "file_leaves repeating_spine (Cid DagPb 9) repeating_links 0 = Inr [(Cid Raw 3, 3), (Cid Raw 4, 4)]"
    by code_simp
qed

section \<open>The file\<close>

definition leaf_off :: "leaf list \<Rightarrow> nat \<Rightarrow> nat" where
  "leaf_off leaves i = sum_list (map snd (take i leaves))"

definition idxOf :: "leaf list \<Rightarrow> cid \<Rightarrow> nat list" where
  "idxOf leaves c = filter (\<lambda>i. fst (leaves ! i) = c) [0..<length leaves]"

definition offsets :: "leaf list \<Rightarrow> cid \<Rightarrow> nat list" where
  "offsets leaves c = map (leaf_off leaves) (idxOf leaves c)"

definition uniq :: "leaf list \<Rightarrow> cid list" where
  "uniq leaves = rev (remdups (rev (map fst leaves)))"

text \<open>The leaves not yet durable, each once.\<close>

definition needed :: "leaf list \<Rightarrow> partBits \<Rightarrow> cid list" where
  "needed leaves p = filter (\<lambda>c. list_ex (\<lambda>i. pb_get p i \<noteq> Some True) (idxOf leaves c)) (uniq leaves)"

definition write_at :: "bytes \<Rightarrow> nat \<Rightarrow> bytes \<Rightarrow> bytes" where
  "write_at f q d = take q (f @ replicate (q - length f) 0) @ d @ drop (q + length d) f"

definition leaf_there :: "leaf list \<Rightarrow> (cid \<Rightarrow> bytes) \<Rightarrow> bytes \<Rightarrow> nat \<Rightarrow> bool" where
  "leaf_there leaves content f i \<longleftrightarrow>
     take (snd (leaves ! i)) (drop (leaf_off leaves i) f) = content (fst (leaves ! i))"

text \<open>The links state the true sizes of the leaves (a raw leaf's link size is its length).\<close>

definition honest :: "leaf list \<Rightarrow> (cid \<Rightarrow> bytes) \<Rightarrow> bool" where
  "honest leaves content \<longleftrightarrow> list_all (\<lambda>(c, n). length (content c) = n) leaves"

definition file_bytes :: "leaf list \<Rightarrow> (cid \<Rightarrow> bytes) \<Rightarrow> bytes" where
  "file_bytes leaves content = concat (map (\<lambda>x. content (fst x)) leaves)"

definition file_len :: "leaf list \<Rightarrow> nat" where
  "file_len leaves = sum_list (map snd leaves)"

lemma set_uniq [simp]: "set (uniq leaves) = fst ` set leaves"
  by (simp add: uniq_def)

lemma distinct_uniq [simp]: "distinct (uniq leaves)"
  by (simp add: uniq_def)

lemma idxOf_iff: "i \<in> set (idxOf leaves c) \<longleftrightarrow> i < length leaves \<and> fst (leaves ! i) = c"
  by (auto simp: idxOf_def)

lemma needed_iff:
  "c \<in> set (needed leaves p) \<longleftrightarrow> (\<exists>i < length leaves. fst (leaves ! i) = c \<and> pb_get p i \<noteq> Some True)"
  by (auto simp: needed_def list_ex_iff idxOf_iff)

lemma leaf_off_Suc: "i < length leaves \<Longrightarrow> leaf_off leaves (Suc i) = leaf_off leaves i + snd (leaves ! i)"
  by (simp add: leaf_off_def take_Suc_conv_app_nth)

lemma leaf_off_mono: "i \<le> j \<Longrightarrow> leaf_off leaves i \<le> leaf_off leaves j"
proof -
  assume "i \<le> j"
  then have "take j leaves = take i leaves @ take (j - i) (drop i leaves)"
    by (metis le_add_diff_inverse take_add)
  then show ?thesis by (simp add: leaf_off_def)
qed

lemma leaf_off_end: "i < length leaves \<Longrightarrow> leaf_off leaves i + snd (leaves ! i) \<le> file_len leaves"
  using leaf_off_mono[of "Suc i" "length leaves" leaves] by (simp add: leaf_off_Suc) (simp add: leaf_off_def file_len_def)

lemma leaves_apart:
  assumes "i < length leaves" "j < length leaves" "i \<noteq> j"
  shows "leaf_off leaves i + snd (leaves ! i) \<le> leaf_off leaves j \<or>
    leaf_off leaves j + snd (leaves ! j) \<le> leaf_off leaves i"
proof (cases "i < j")
  case True
  then show ?thesis using leaf_off_mono[of "Suc i" j leaves] assms(1) by (simp add: leaf_off_Suc)
next
  case False
  then show ?thesis using leaf_off_mono[of "Suc j" i leaves] assms(2,3) by (simp add: leaf_off_Suc)
qed

lemma length_write_at: "q + length d \<le> length f \<Longrightarrow> length (write_at f q d) = length f"
  by (simp add: write_at_def)

lemma nth_write_at:
  assumes "q + length d \<le> length f" "k < length f"
  shows "write_at f q d ! k = (if q \<le> k \<and> k < q + length d then d ! (k - q) else f ! k)"
  using assms by (auto simp: write_at_def nth_append)

lemma leaf_there_nth:
  assumes "honest leaves content" "length f = file_len leaves" "i < length leaves"
  shows "leaf_there leaves content f i \<longleftrightarrow>
    (\<forall>k < snd (leaves ! i). f ! (leaf_off leaves i + k) = content (fst (leaves ! i)) ! k)"
proof -
  have "length (content (fst (leaves ! i))) = snd (leaves ! i)"
    using assms(1,3) by (auto simp: honest_def list_all_length split: prod.splits)
  moreover have "length (take (snd (leaves ! i)) (drop (leaf_off leaves i) f)) = snd (leaves ! i)"
    using leaf_off_end[OF assms(3)] assms(2) by simp
  moreover have "leaf_off leaves i \<le> length f" using leaf_off_end[OF assms(3)] assms(2) by simp
  ultimately show ?thesis by (simp add: leaf_there_def list_eq_iff_nth_eq)
qed

lemma honest_len: "honest leaves content \<Longrightarrow> i < length leaves \<Longrightarrow> length (content (fst (leaves ! i))) = snd (leaves ! i)"
  by (auto simp: honest_def list_all_length split: prod.splits)

text \<open>Writing one leaf puts it there and moves no other.\<close>

lemma write_leaf:
  assumes h: "honest leaves content" and len: "length f = file_len leaves" and j: "j < length leaves"
    and g: "g = write_at f (leaf_off leaves j) (content (fst (leaves ! j)))"
  shows "length g = file_len leaves" and "leaf_there leaves content g j"
    and "i < length leaves \<Longrightarrow> leaf_there leaves content f i \<Longrightarrow> leaf_there leaves content g i"
proof -
  have bound: "leaf_off leaves j + length (content (fst (leaves ! j))) \<le> length f"
    using leaf_off_end[OF j] honest_len[OF h j] len by simp
  show len': "length g = file_len leaves" using length_write_at[OF bound] g len by simp
  note nth = nth_write_at[OF bound]
  show "leaf_there leaves content g j"
    unfolding leaf_there_nth[OF h len' j]
    using nth bound honest_len[OF h j] by (auto simp: g)
  show "leaf_there leaves content g i" if "i < length leaves" "leaf_there leaves content f i"
  proof (cases "i = j")
    case True
    then show ?thesis using \<open>leaf_there leaves content g j\<close> by simp
  next
    case False
    have "g ! (leaf_off leaves i + k) = f ! (leaf_off leaves i + k)" if "k < snd (leaves ! i)" for k
      using leaves_apart[OF \<open>i < length leaves\<close> j False] nth[of "leaf_off leaves i + k"] that
        leaf_off_end[OF \<open>i < length leaves\<close>] len honest_len[OF h j] by (auto simp: g)
    then show ?thesis using that by (simp add: leaf_there_nth[OF h len'] leaf_there_nth[OF h len])
  qed
qed

lemma file_complete:
  assumes "honest leaves content" "length f = file_len leaves" "\<forall>i < length leaves. leaf_there leaves content f i"
  shows "f = file_bytes leaves content"
proof -
  have "take (leaf_off leaves i) f = concat (map (\<lambda>x. content (fst x)) (take i leaves))" if "i \<le> length leaves" for i
    using that
  proof (induction i)
    case 0
    then show ?case by (simp add: leaf_off_def)
  next
    case (Suc i)
    then have "i < length leaves" by simp
    then have "take (leaf_off leaves (Suc i)) f =
        take (leaf_off leaves i) f @ take (snd (leaves ! i)) (drop (leaf_off leaves i) f)"
      by (simp add: leaf_off_Suc take_add)
    also have "\<dots> = concat (map (\<lambda>x. content (fst x)) (take i leaves)) @ content (fst (leaves ! i))"
      using Suc assms(3) by (simp add: leaf_there_def)
    finally show ?case using \<open>i < length leaves\<close> by (simp add: take_Suc_conv_app_nth)
  qed
  from this[of "length leaves"] show ?thesis
    using assms(2) by (simp add: file_bytes_def leaf_off_def file_len_def)
qed

section \<open>Receiving, flushing, crashing\<close>

datatype flusher = Idle | Snapped partBits | Synced partBits

record wt =
  w_cache :: bytes
  w_disk :: bytes
  w_bits :: partBits
  w_saved :: "partBits option"
  w_flush :: flusher

text \<open>
  A block that arrived: its bytes at every offset, then every index marked; a failing write stops
  before the marks. \<open>None\<close> is the panic of an index outside the bitmap.
\<close>

definition put_leaves :: "leaf list \<Rightarrow> (cid \<Rightarrow> bytes) \<Rightarrow> nat list \<Rightarrow> bytes \<Rightarrow> bytes" where
  "put_leaves leaves content is f =
     foldl (\<lambda>g i. write_at g (leaf_off leaves i) (content (fst (leaves ! i)))) f is"

definition receive :: "leaf list \<Rightarrow> (cid \<Rightarrow> bytes) \<Rightarrow> cid \<Rightarrow> nat option \<Rightarrow> wt \<Rightarrow> wt option" where
  "receive leaves content c fault s =
     (case fault of
        Some k \<Rightarrow> Some (s\<lparr>w_cache := put_leaves leaves content (take k (idxOf leaves c)) (w_cache s)\<rparr>)
      | None \<Rightarrow>
          (case pb_set_all (w_bits s) (idxOf leaves c) of
             None \<Rightarrow> None
           | Some p \<Rightarrow> Some (s\<lparr>w_cache := put_leaves leaves content (idxOf leaves c) (w_cache s), w_bits := p\<rparr>)))"

text \<open>A leaf found in the blockstore after the gateway resume.\<close>

definition fill_leaf :: "leaf list \<Rightarrow> (cid \<Rightarrow> bytes) \<Rightarrow> nat \<Rightarrow> wt \<Rightarrow> wt option" where
  "fill_leaf leaves content i s =
     (if pb_get (w_bits s) i = Some True then Some s
      else case pb_set (w_bits s) i of
             None \<Rightarrow> None
           | Some p \<Rightarrow> Some (s\<lparr>w_cache := put_leaves leaves content [i] (w_cache s), w_bits := p\<rparr>))"

text \<open>\<open>doSync\<close> in its three moves: the snapshot under the lock, the \<open>fsync\<close>, the sidecar.\<close>

definition sync_snap :: "wt \<Rightarrow> wt" where
  "sync_snap s = s\<lparr>w_flush := Snapped (w_bits s)\<rparr>"

definition sync_file :: "partBits \<Rightarrow> wt \<Rightarrow> wt" where
  "sync_file p s = s\<lparr>w_disk := w_cache s, w_flush := Synced p\<rparr>"

definition sync_part :: "bool \<Rightarrow> partBits \<Rightarrow> wt \<Rightarrow> wt" where
  "sync_part saved_ok p s = s\<lparr>w_saved := (if saved_ok then Some p else w_saved s), w_flush := Idle\<rparr>"

text \<open>Opening the partial: resumed from the sidecar when there is one, else preallocated and empty.\<close>

definition open_partial :: "bytes \<Rightarrow> 64 word \<Rightarrow> leaf list \<Rightarrow> bool \<Rightarrow> wt \<Rightarrow> wt" where
  "open_partial root tot leaves saved_ok s =
     (case w_saved s of
        Some p \<Rightarrow> s\<lparr>w_cache := w_disk s, w_bits := p, w_flush := Idle\<rparr>
      | None \<Rightarrow>
          (let p = newPartBits root tot (length leaves); f = replicate (file_len leaves) 0
           in \<lparr>w_cache = f, w_disk = f, w_bits = p, w_saved = (if saved_ok then Some p else None), w_flush = Idle\<rparr>))"

definition mixed :: "bytes \<Rightarrow> bytes \<Rightarrow> bytes \<Rightarrow> bool" where
  "mixed d c g \<longleftrightarrow> length g = length d \<and> (\<forall>k < length g. g ! k = d ! k \<or> g ! k = c ! k)"

inductive wt_step :: "bytes \<Rightarrow> 64 word \<Rightarrow> leaf list \<Rightarrow> (cid \<Rightarrow> bytes) \<Rightarrow> wt \<Rightarrow> wt \<Rightarrow> bool"
  for root :: bytes and tot :: "64 word" and leaves :: "leaf list" and content :: "cid \<Rightarrow> bytes" where
  wt_recv: "receive leaves content c fault s = Some t \<Longrightarrow> wt_step root tot leaves content s t"
| wt_fill: "i < length leaves \<Longrightarrow> fill_leaf leaves content i s = Some t \<Longrightarrow> wt_step root tot leaves content s t"
| wt_snap: "w_flush s = Idle \<Longrightarrow> wt_step root tot leaves content s (sync_snap s)"
| wt_sync: "w_flush s = Snapped p \<Longrightarrow> wt_step root tot leaves content s (sync_file p s)"
| wt_save: "w_flush s = Synced p \<Longrightarrow> wt_step root tot leaves content s (sync_part ok p s)"
| wt_writeback: "mixed (w_disk s) (w_cache s) g \<Longrightarrow> wt_step root tot leaves content s (s\<lparr>w_disk := g\<rparr>)"
| wt_crash: "wt_step root tot leaves content s (open_partial root tot leaves ok s)"

definition wt_init :: "bytes \<Rightarrow> 64 word \<Rightarrow> leaf list \<Rightarrow> wt \<Rightarrow> bool" where
  "wt_init root tot leaves s \<longleftrightarrow> (\<exists>ok t. w_saved t = None \<and> s = open_partial root tot leaves ok t)"

text \<open>A bitmap of this file whose marked leaves satisfy \<open>P\<close>.\<close>

definition marks :: "leaf list \<Rightarrow> (nat \<Rightarrow> bool) \<Rightarrow> partBits \<Rightarrow> bool" where
  "marks leaves P p \<longleftrightarrow> pb_ok p \<and> pb_count p = length leaves \<and> (\<forall>i \<in> leaves_done p. P i)"

definition durable :: "leaf list \<Rightarrow> (cid \<Rightarrow> bytes) \<Rightarrow> wt \<Rightarrow> nat \<Rightarrow> bool" where
  "durable leaves content s i \<longleftrightarrow> leaf_there leaves content (w_disk s) i \<and> leaf_there leaves content (w_cache s) i"

lemma durable_fields [simp]:
  "durable leaves content (s\<lparr>w_flush := x\<rparr>) = durable leaves content s"
  "durable leaves content (s\<lparr>w_saved := y\<rparr>) = durable leaves content s"
  "durable leaves content (s\<lparr>w_bits := b\<rparr>) = durable leaves content s"
  by (simp_all add: durable_def fun_eq_iff)

definition wt_inv :: "leaf list \<Rightarrow> (cid \<Rightarrow> bytes) \<Rightarrow> wt \<Rightarrow> bool" where
  "wt_inv leaves content s \<longleftrightarrow>
     length (w_cache s) = file_len leaves \<and> length (w_disk s) = file_len leaves \<and>
     marks leaves (leaf_there leaves content (w_cache s)) (w_bits s) \<and>
     (case w_saved s of None \<Rightarrow> True | Some p \<Rightarrow> marks leaves (durable leaves content s) p) \<and>
     (case w_flush s of Idle \<Rightarrow> True
      | Snapped p \<Rightarrow> marks leaves (leaf_there leaves content (w_cache s)) p
      | Synced p \<Rightarrow> marks leaves (durable leaves content s) p)"

lemma marks_mono: "marks leaves P p \<Longrightarrow> (\<And>i. i < length leaves \<Longrightarrow> P i \<Longrightarrow> Q i) \<Longrightarrow> marks leaves Q p"
  using leaves_done_below[of p] by (auto simp: marks_def)

lemma marks_new [simp]: "marks leaves P (newPartBits root tot (length leaves))"
  using pb_ok_new[of root tot "length leaves"] by (simp add: marks_def newPartBits_def)

lemma put_leaves_spec:
  assumes h: "honest leaves content"
  shows "length f = file_len leaves \<Longrightarrow> set is \<subseteq> {..<length leaves} \<Longrightarrow>
     length (put_leaves leaves content is f) = file_len leaves \<and>
     (\<forall>i \<in> set is. leaf_there leaves content (put_leaves leaves content is f) i) \<and>
     (\<forall>i < length leaves. leaf_there leaves content f i \<longrightarrow> leaf_there leaves content (put_leaves leaves content is f) i)"
proof (induction "is" arbitrary: f)
  case (Cons j js)
  let ?g = "write_at f (leaf_off leaves j) (content (fst (leaves ! j)))"
  have j: "j < length leaves" using Cons.prems by simp
  note w = write_leaf[OF h Cons.prems(1) j refl]
  have IH: "length (put_leaves leaves content js ?g) = file_len leaves \<and>
     (\<forall>i \<in> set js. leaf_there leaves content (put_leaves leaves content js ?g) i) \<and>
     (\<forall>i < length leaves. leaf_there leaves content ?g i \<longrightarrow> leaf_there leaves content (put_leaves leaves content js ?g) i)"
    by (rule Cons.IH) (use w(1) Cons.prems in auto)
  have "put_leaves leaves content (j # js) f = put_leaves leaves content js ?g" by (simp add: put_leaves_def)
  then show ?case using IH w(2,3) j by auto
qed (simp add: put_leaves_def)

lemma mixed_there:
  assumes h: "honest leaves content" and len: "length d = file_len leaves" "length c = file_len leaves"
    and g: "mixed d c g" and i: "i < length leaves"
    and there: "leaf_there leaves content d i" "leaf_there leaves content c i"
  shows "leaf_there leaves content g i"
proof -
  have lg: "length g = file_len leaves" using g len by (simp add: mixed_def)
  have "g ! (leaf_off leaves i + k) = content (fst (leaves ! i)) ! k" if k: "k < snd (leaves ! i)" for k
  proof -
    have "leaf_off leaves i + k < length g" using leaf_off_end[OF i] k lg by simp
    then have "g ! (leaf_off leaves i + k) = d ! (leaf_off leaves i + k) \<or>
        g ! (leaf_off leaves i + k) = c ! (leaf_off leaves i + k)" using g by (simp add: mixed_def)
    then show ?thesis using there k by (auto simp: leaf_there_nth[OF h _ i] len)
  qed
  then show ?thesis by (simp add: leaf_there_nth[OF h lg i])
qed

lemma marks_set_all:
  assumes "marks leaves P p" "set is \<subseteq> {..<length leaves}" "pb_set_all p is = Some q"
    "\<And>i. i < length leaves \<Longrightarrow> P i \<Longrightarrow> Q i" "\<And>i. i \<in> set is \<Longrightarrow> Q i"
  shows "marks leaves Q q"
proof -
  obtain q' where q: "pb_set_all p is = Some q'" "pb_ok q'" "leaves_done q' = leaves_done p \<union> set is"
    "pb_count q' = pb_count p"
    using pb_set_all_spec[of p "is"] assms(1,2) by (auto simp: marks_def)
  then have "q' = q" using assms(3) by simp
  moreover have "marks leaves Q p" by (rule marks_mono[OF assms(1,4)])
  ultimately show ?thesis using q assms(5) by (auto simp: marks_def)
qed

lemma wt_inv_change:
  assumes inv: "wt_inv leaves content s"
    and len: "length (w_cache t) = file_len leaves" "length (w_disk t) = file_len leaves"
    and bits: "marks leaves (leaf_there leaves content (w_cache t)) (w_bits t)"
    and same: "w_saved t = w_saved s" "w_flush t = w_flush s"
    and cache: "\<And>i. i < length leaves \<Longrightarrow> leaf_there leaves content (w_cache s) i \<Longrightarrow> leaf_there leaves content (w_cache t) i"
    and dur: "\<And>i. i < length leaves \<Longrightarrow> durable leaves content s i \<Longrightarrow> durable leaves content t i"
  shows "wt_inv leaves content t"
proof -
  have mono: "marks leaves (leaf_there leaves content (w_cache s)) p \<Longrightarrow> marks leaves (leaf_there leaves content (w_cache t)) p"
    "marks leaves (durable leaves content s) p \<Longrightarrow> marks leaves (durable leaves content t) p" for p
    by (erule marks_mono, erule (1) cache, erule marks_mono, erule (1) dur)
  have "case w_saved t of None \<Rightarrow> True | Some p \<Rightarrow> marks leaves (durable leaves content t) p"
    using inv mono(2) by (simp add: wt_inv_def same split: option.splits)
  moreover have "case w_flush t of Idle \<Rightarrow> True
      | Snapped p \<Rightarrow> marks leaves (leaf_there leaves content (w_cache t)) p
      | Synced p \<Rightarrow> marks leaves (durable leaves content t) p"
    using inv mono by (simp add: wt_inv_def same split: flusher.splits)
  ultimately show ?thesis using len bits by (simp add: wt_inv_def)
qed

text \<open>Writing leaves in place keeps every claim about the disk and every claim of the bitmaps.\<close>

lemma wt_inv_write:
  assumes h: "honest leaves content" and inv: "wt_inv leaves content s"
    and "is": "set is \<subseteq> {..<length leaves}"
    and bits: "marks leaves (leaf_there leaves content (put_leaves leaves content is (w_cache s))) p"
  shows "wt_inv leaves content (s\<lparr>w_cache := put_leaves leaves content is (w_cache s), w_bits := p\<rparr>)"
proof -
  have len: "length (w_cache s) = file_len leaves" using inv by (simp add: wt_inv_def)
  note put = put_leaves_spec[OF h len "is"]
  let ?t = "s\<lparr>w_cache := put_leaves leaves content is (w_cache s), w_bits := p\<rparr>"
  have "durable leaves content ?t i" if "i < length leaves" "durable leaves content s i" for i
    using put that by (simp add: durable_def)
  moreover have "leaf_there leaves content (w_cache ?t) i" if "i < length leaves" "leaf_there leaves content (w_cache s) i" for i
    using put that by simp
  moreover have "length (w_disk s) = file_len leaves" using inv by (simp add: wt_inv_def)
  ultimately show ?thesis
    using wt_inv_change[OF inv, of ?t] put bits by simp
qed

lemma wt_inv_open: "wt_inv leaves content s \<or> w_saved s = None \<Longrightarrow> wt_inv leaves content (open_partial root tot leaves ok s)"
  by (auto simp: open_partial_def wt_inv_def Let_def durable_def intro: marks_mono split: option.splits)

lemma wt_inv_step:
  assumes h: "honest leaves content" and step: "wt_step root tot leaves content s t" and inv: "wt_inv leaves content s"
  shows "wt_inv leaves content t"
  using step
proof cases
  case (wt_recv c fault)
  have ix: "set (idxOf leaves c) \<subseteq> {..<length leaves}" by (auto simp: idxOf_iff)
  have len: "length (w_cache s) = file_len leaves" and b: "marks leaves (leaf_there leaves content (w_cache s)) (w_bits s)"
    using inv by (simp_all add: wt_inv_def)
  show ?thesis
  proof (cases fault)
    case None
    then obtain p where p: "pb_set_all (w_bits s) (idxOf leaves c) = Some p"
      and t: "t = s\<lparr>w_cache := put_leaves leaves content (idxOf leaves c) (w_cache s), w_bits := p\<rparr>"
      using wt_recv by (auto simp: receive_def split: option.splits)
    have "marks leaves (leaf_there leaves content (put_leaves leaves content (idxOf leaves c) (w_cache s))) p"
      by (rule marks_set_all[OF b ix p]) (use put_leaves_spec[OF h len ix] in auto)
    then show ?thesis unfolding t by (rule wt_inv_write[OF h inv ix])
  next
    case (Some k)
    have ixk: "set (take k (idxOf leaves c)) \<subseteq> {..<length leaves}" using ix set_take_subset by fast
    have "marks leaves (leaf_there leaves content (put_leaves leaves content (take k (idxOf leaves c)) (w_cache s))) (w_bits s)"
      using put_leaves_spec[OF h len ixk] by (intro marks_mono[OF b]) auto
    from wt_inv_write[OF h inv ixk this] show ?thesis using wt_recv Some by (simp add: receive_def)
  qed
next
  case (wt_fill i)
  have len: "length (w_cache s) = file_len leaves" and b: "marks leaves (leaf_there leaves content (w_cache s)) (w_bits s)"
    using inv by (simp_all add: wt_inv_def)
  have ix: "set [i] \<subseteq> {..<length leaves}" using wt_fill by simp
  show ?thesis
  proof (cases "pb_get (w_bits s) i = Some True")
    case True
    then show ?thesis using wt_fill inv by (simp add: fill_leaf_def)
  next
    case False
    then obtain p where p: "pb_set_all (w_bits s) [i] = Some p"
      and t: "t = s\<lparr>w_cache := put_leaves leaves content [i] (w_cache s), w_bits := p\<rparr>"
      using wt_fill by (auto simp: fill_leaf_def split: option.splits)
    have "marks leaves (leaf_there leaves content (put_leaves leaves content [i] (w_cache s))) p"
      by (rule marks_set_all[OF b ix p]) (use put_leaves_spec[OF h len ix] in auto)
    then show ?thesis unfolding t by (rule wt_inv_write[OF h inv ix])
  qed
next
  case wt_snap
  then show ?thesis using inv by (simp add: wt_inv_def sync_snap_def durable_def split: option.splits)
next
  case (wt_sync p)
  have d: "durable leaves content (sync_file p s) i \<longleftrightarrow> leaf_there leaves content (w_cache s) i" for i
    by (simp add: durable_def sync_file_def)
  have "case w_saved s of None \<Rightarrow> True | Some p' \<Rightarrow> marks leaves (durable leaves content (sync_file p s)) p'"
    using inv marks_mono[of leaves "durable leaves content s" _ "durable leaves content (sync_file p s)"] d
    by (simp add: wt_inv_def durable_def split: option.splits)
  moreover have "marks leaves (durable leaves content (sync_file p s)) p"
    using inv wt_sync(2) marks_mono[of leaves "leaf_there leaves content (w_cache s)" p "durable leaves content (sync_file p s)"] d
    by (simp add: wt_inv_def)
  ultimately show ?thesis using inv wt_sync(1) by (simp add: wt_inv_def) (simp add: sync_file_def)
next
  case (wt_save p ok)
  then show ?thesis using inv by (simp add: wt_inv_def sync_part_def split: option.splits)
next
  case (wt_writeback g)
  have len: "length (w_disk s) = file_len leaves" "length (w_cache s) = file_len leaves" using inv by (simp_all add: wt_inv_def)
  have "durable leaves content s i \<Longrightarrow> durable leaves content t i" if "i < length leaves" for i
    using mixed_there[OF h len wt_writeback(2) that] wt_writeback(1) by (simp add: durable_def)
  moreover have "length g = length (w_disk s)" using wt_writeback(2) by (simp add: mixed_def)
  ultimately show ?thesis
    using wt_inv_change[OF inv, of t] wt_writeback(1) len inv by (simp add: wt_inv_def)
next
  case (wt_crash ok)
  then show ?thesis using inv wt_inv_open by blast
qed

interpretation wt_run: step_invariant "wt_init root tot leaves" "wt_step root tot leaves content"
  "\<lambda>s. honest leaves content \<longrightarrow> wt_inv leaves content s"
proof
  fix s
  assume "wt_init root tot leaves s"
  then show "honest leaves content \<longrightarrow> wt_inv leaves content s" using wt_inv_open by (auto simp: wt_init_def)
next
  fix s t
  assume "honest leaves content \<longrightarrow> wt_inv leaves content s" "wt_step root tot leaves content s t"
  then show "honest leaves content \<longrightarrow> wt_inv leaves content t" using wt_inv_step by blast
qed

lemma wt_reachable_inv:
  "reachable (wt_init root tot leaves) (wt_step root tot leaves content) s \<Longrightarrow> honest leaves content \<Longrightarrow> wt_inv leaves content s"
  using wt_run.reachable_inv by blast

lemma allSet_file:
  assumes h: "honest leaves content" and inv: "wt_inv leaves content s" and all: "allSet (w_bits s)"
  shows "w_cache s = file_bytes leaves content"
proof (rule file_complete[OF h])
  have m: "marks leaves (leaf_there leaves content (w_cache s)) (w_bits s)" using inv by (simp add: wt_inv_def)
  then show "\<forall>i < length leaves. leaf_there leaves content (w_cache s) i"
    using allSet_iff[of "w_bits s"] all by (simp add: marks_def)
qed (use inv in \<open>simp add: wt_inv_def\<close>)


definition demo_leaves :: "leaf list" where
  "demo_leaves = [(Cid Raw 3, 3), (Cid Raw 5, 1), (Cid Raw 3, 3)]"

definition demo_content :: "cid \<Rightarrow> bytes" where
  "demo_content c = (if c = Cid Raw 3 then [7, 8, 9] else [4])"

definition demo_open :: wt where
  "demo_open = open_partial [1] 7 demo_leaves True
     \<lparr>w_cache = [], w_disk = [], w_bits = newPartBits [1] 7 3, w_saved = None, w_flush = Idle\<rparr>"

lemma demo_reachable: "reachable (wt_init [1] 7 demo_leaves) (wt_step [1] 7 demo_leaves demo_content) demo_open"
  by (rule reach_init) (unfold wt_init_def demo_open_def, rule exI[of _ True],
    rule exI[of _ "\<lparr>w_cache = [], w_disk = [], w_bits = newPartBits [1] 7 3, w_saved = None, w_flush = Idle\<rparr>"], simp)

lemma demo_honest: "honest demo_leaves demo_content"
  by code_simp

definition demo_got :: wt where
  "demo_got = the (receive demo_leaves demo_content (Cid Raw 5) None
     (the (receive demo_leaves demo_content (Cid Raw 3) None demo_open)))"


text \<open>
  The result of a failed \<open>fsync\<close> is ignored, and the sidecar is written all the same: it then
  marks leaves whose bytes the disk does not hold.
\<close>

definition sync_file_failed :: "partBits \<Rightarrow> wt \<Rightarrow> wt" where
  "sync_file_failed p s = s\<lparr>w_flush := Synced p\<rparr>"

lemma failed_fsync_marks_lost:
  "let s = sync_part True (w_bits demo_got) (sync_file_failed (w_bits demo_got) (sync_snap demo_got));
       t = open_partial [1] 7 demo_leaves True s
   in allSet (w_bits t) \<and> w_cache t = [0, 0, 0, 0, 0, 0, 0]"
  by code_simp

section \<open>A resumed transfer completes\<close>

fun receive_all :: "leaf list \<Rightarrow> (cid \<Rightarrow> bytes) \<Rightarrow> cid list \<Rightarrow> wt \<Rightarrow> wt option" where
  "receive_all leaves content [] s = Some s"
| "receive_all leaves content (c # cs) s =
     (case receive leaves content c None s of None \<Rightarrow> None | Some t \<Rightarrow> receive_all leaves content cs t)"

lemma receive_marks:
  assumes "marks leaves P (w_bits s)"
  obtains t where "receive leaves content c None s = Some t" "pb_ok (w_bits t)" "pb_count (w_bits t) = length leaves"
    "leaves_done (w_bits t) = leaves_done (w_bits s) \<union> set (idxOf leaves c)"
proof -
  have "set (idxOf leaves c) \<subseteq> {..<pb_count (w_bits s)}" using assms by (auto simp: marks_def idxOf_iff)
  then obtain q where "pb_set_all (w_bits s) (idxOf leaves c) = Some q" "pb_ok q" "pb_count q = pb_count (w_bits s)"
    "leaves_done q = leaves_done (w_bits s) \<union> set (idxOf leaves c)"
    using pb_set_all_spec[of "w_bits s" "idxOf leaves c"] assms by (auto simp: marks_def)
  then show ?thesis using that assms by (simp add: receive_def marks_def)
qed

lemma receive_all_marks:
  "marks leaves (\<lambda>i. True) (w_bits s) \<Longrightarrow>
   \<exists>t. receive_all leaves content cs s = Some t \<and> marks leaves (\<lambda>i. True) (w_bits t) \<and>
       leaves_done (w_bits t) = leaves_done (w_bits s) \<union> \<Union> ((\<lambda>c. set (idxOf leaves c)) ` set cs) \<and>
       (wt_step root tot leaves content)\<^sup>*\<^sup>* s t"
proof (induction cs arbitrary: s)
  case (Cons c cs)
  obtain u where u: "receive leaves content c None s = Some u" "pb_ok (w_bits u)" "pb_count (w_bits u) = length leaves"
    "leaves_done (w_bits u) = leaves_done (w_bits s) \<union> set (idxOf leaves c)"
    using Cons.prems by (rule receive_marks)
  then have "marks leaves (\<lambda>i. True) (w_bits u)" by (simp add: marks_def)
  from Cons.IH[OF this] obtain t where t: "receive_all leaves content cs u = Some t" "marks leaves (\<lambda>i. True) (w_bits t)"
    "leaves_done (w_bits t) = leaves_done (w_bits u) \<union> \<Union> ((\<lambda>c. set (idxOf leaves c)) ` set cs)"
    "(wt_step root tot leaves content)\<^sup>*\<^sup>* u t" by blast
  have "wt_step root tot leaves content s u" by (rule wt_recv[OF u(1)])
  then have "(wt_step root tot leaves content)\<^sup>*\<^sup>* s t" using t(4) by (rule converse_rtranclp_into_rtranclp)
  then show ?case using u t by auto
qed simp

lemma steps_reachable: "reachable init step s \<Longrightarrow> step\<^sup>*\<^sup>* s t \<Longrightarrow> reachable init step t"
  by (rotate_tac 1, induction rule: rtranclp_induct) (auto intro: reach_step)



end
