(* ===== verification/LeafResume.thy ===== *)
theory LeafResume
  imports WriteThrough
begin

text \<open>
  The second transport for leaves (\<open>writeThrough\<close>, \<open>fetch.go\<close>): a session that stalled with leaves
  missing asks the gateways for the runs of missing leaves, then writes every leaf that has
  reached the blockstore. It joins the bitmap of \<open>Resume\<close>, the ranges of \<open>Gateway\<close> and the file of
  \<open>WriteThrough\<close>. What a served range puts into the blockstore is the gateways' doing: the
  argument \<open>has\<close>, the leaves held once the given ranges have been imported.
\<close>

definition leaf_range :: "leaf list \<Rightarrow> nat \<Rightarrow> byteRange" where
  "leaf_range leaves i =
     \<lparr>br_from = int (leaf_off leaves i), br_to = int (leaf_off leaves i) + int (snd (leaves ! i)) - 1\<rparr>"

definition missing_ranges :: "leaf list \<Rightarrow> partBits \<Rightarrow> byteRange list" where
  "missing_ranges leaves p = map (leaf_range leaves) (filter (\<lambda>i. pb_get p i \<noteq> Some True) [0..<length leaves])"

text \<open>The ranges are asked for in order, up to the first that fails.\<close>

definition served :: "(byteRange \<Rightarrow> bool) \<Rightarrow> byteRange list \<Rightarrow> byteRange list" where
  "served ok rs = takeWhile ok rs"

datatype fill_out = Filled wt | Write_failed wt | Index_panic

fun fill_all :: "leaf list \<Rightarrow> (cid \<Rightarrow> bytes) \<Rightarrow> (cid \<Rightarrow> bool) \<Rightarrow> nat option \<Rightarrow> nat list \<Rightarrow> wt \<Rightarrow> fill_out" where
  "fill_all leaves content has fault [] s = Filled s"
| "fill_all leaves content has fault (i # is) s =
     (if pb_get (w_bits s) i = Some True \<or> \<not> has (fst (leaves ! i)) then fill_all leaves content has fault is s
      else if fault = Some i then Write_failed s
      else case fill_leaf leaves content i s of
             None \<Rightarrow> Index_panic
           | Some t \<Rightarrow> fill_all leaves content has fault is t)"

definition gateway_resume ::
  "leaf list \<Rightarrow> (cid \<Rightarrow> bytes) \<Rightarrow> bool \<Rightarrow> bool \<Rightarrow> (byteRange \<Rightarrow> bool) \<Rightarrow> (byteRange list \<Rightarrow> cid \<Rightarrow> bool) \<Rightarrow> bool \<Rightarrow>
   nat option \<Rightarrow> wt \<Rightarrow> fill_out" where
  "gateway_resume leaves content stalled online ok has cancelled fault s =
     (if allSet (w_bits s) \<or> \<not> stalled \<or> \<not> online \<or> cancelled then Filled s
      else fill_all leaves content (has (served ok (gatewayRanges (missing_ranges leaves (w_bits s))))) fault
             [0..<length leaves] s)"

lemma missing_spans:
  assumes "list_all (\<lambda>(c, n). 0 < n) leaves"
  shows "spans (-1) (missing_ranges leaves p)"
proof -
  have pos: "0 < snd (leaves ! i)" if "i < length leaves" for i
    using assms that by (cases "leaves ! i") (force simp: list_all_length)
  have apart: "br_from (leaf_range leaves j) - br_to (leaf_range leaves i) - 1 > -1"
    if "i < j" "j < length leaves" for i j
    using leaf_off_mono[of "Suc i" j leaves] that leaf_off_Suc[of i leaves] by (simp add: leaf_range_def)
  have "sorted_wrt (<) (filter (\<lambda>i. pb_get p i \<noteq> Some True) [0..<length leaves])"
    by (intro sorted_wrt_filter) (rule sorted_wrt_upt)
  then have "sorted_wrt (\<lambda>i j. br_from (leaf_range leaves j) - br_to (leaf_range leaves i) - 1 > -1)
      (filter (\<lambda>i. pb_get p i \<noteq> Some True) [0..<length leaves])"
    by (rule sorted_wrt_mono_rel[rotated]) (rule apart, auto)
  then have "sorted_wrt (\<lambda>a b. br_from b - br_to a - 1 > -1) (missing_ranges leaves p)"
    unfolding missing_ranges_def sorted_wrt_map .
  moreover have "br_from r \<le> br_to r" if "r \<in> set (missing_ranges leaves p)" for r
    using that pos by (auto simp: missing_ranges_def leaf_range_def Suc_leI)
  ultimately show ?thesis by (simp add: spans_def)
qed

lemma fill_all_marks:
  assumes "marks leaves (\<lambda>i. True) (w_bits s)" "set is \<subseteq> {..<length leaves}"
  obtains t where "fill_all leaves content has None is s = Filled t" "marks leaves (\<lambda>i. True) (w_bits t)"
    "leaves_done (w_bits t) = leaves_done (w_bits s) \<union> {i \<in> set is. has (fst (leaves ! i))}"
    "(wt_step root tot leaves content)\<^sup>*\<^sup>* s t"
  using assms
proof (induction "is" arbitrary: s thesis)
  case (Cons i "is")
  have i: "i < length leaves" using Cons.prems by simp
  show ?case
  proof (cases "pb_get (w_bits s) i = Some True \<or> \<not> has (fst (leaves ! i))")
    case True
    then have "i \<in> leaves_done (w_bits s) \<or> \<not> has (fst (leaves ! i))"
      using i Cons.prems(2) by (auto simp: leaves_done_def marks_def)
    then have same: "leaves_done (w_bits s) \<union> {j \<in> set (i # is). has (fst (leaves ! j))} =
        leaves_done (w_bits s) \<union> {j \<in> set is. has (fst (leaves ! j))}" by auto
    have "set is \<subseteq> {..<length leaves}" using Cons.prems by simp
    from Cons.IH[OF _ Cons.prems(2) this] obtain t where t: "fill_all leaves content has None is s = Filled t"
      "marks leaves (\<lambda>i. True) (w_bits t)"
      "leaves_done (w_bits t) = leaves_done (w_bits s) \<union> {j \<in> set is. has (fst (leaves ! j))}"
      "(wt_step root tot leaves content)\<^sup>*\<^sup>* s t" by blast
    show ?thesis by (rule Cons.prems(1)[of t]) (use t True same in auto)
  next
    case False
    have "set [i] \<subseteq> {..<pb_count (w_bits s)}" using i Cons.prems(2) by (simp add: marks_def)
    then obtain p where p: "pb_set_all (w_bits s) [i] = Some p" "pb_ok p" "leaves_done p = leaves_done (w_bits s) \<union> {i}"
      "pb_count p = pb_count (w_bits s)"
      using pb_set_all_spec[of "w_bits s" "[i]"] Cons.prems(2) by (auto simp: marks_def)
    define u where "u = s\<lparr>w_cache := put_leaves leaves content [i] (w_cache s), w_bits := p\<rparr>"
    have u: "fill_leaf leaves content i s = Some u"
      using False p(1) by (auto simp: fill_leaf_def u_def split: option.splits)
    have m: "marks leaves (\<lambda>i. True) (w_bits u)" using p Cons.prems(2) by (simp add: u_def marks_def)
    have st: "wt_step root tot leaves content s u" by (rule wt_fill[OF i u])
    have "set is \<subseteq> {..<length leaves}" using Cons.prems by simp
    from Cons.IH[OF _ m this] obtain t where t: "fill_all leaves content has None is u = Filled t"
      "marks leaves (\<lambda>i. True) (w_bits t)"
      "leaves_done (w_bits t) = leaves_done (w_bits u) \<union> {i \<in> set is. has (fst (leaves ! i))}"
      "(wt_step root tot leaves content)\<^sup>*\<^sup>* u t" by blast
    have "(wt_step root tot leaves content)\<^sup>*\<^sup>* s t" using st t(4) by (rule converse_rtranclp_into_rtranclp)
    then show ?thesis using Cons.prems(1)[of t] t p u False by (auto simp: u_def)
  qed
qed simp

text \<open>
  C11. The gateway resume of a stalled session asks for at most eight ranges, in which every missing
  leaf lies; whichever of them are served, no index panics, every leaf of a served range is
  marked and none of the marks held before is lost; and when all are served the file is complete,
  byte for byte. The hypothesis on \<open>has\<close> is the gateway's contract: an imported range brings
  its leaves.
\<close>

theorem gateway_resume_completes:
  assumes "reachable (wt_init root tot leaves) (wt_step root tot leaves content) s" and "honest leaves content"
    and "list_all (\<lambda>(c, n). 0 < n) leaves"
    and "\<And>rs i. i < length leaves \<Longrightarrow> covered rs (leaf_range leaves i) \<Longrightarrow> has rs (fst (leaves ! i))"
    and "\<not> allSet (w_bits s)"
  shows "let rs = gatewayRanges (missing_ranges leaves (w_bits s)); got = served ok rs in
    rs \<noteq> [] \<and> length rs \<le> 8 \<and>
    (case gateway_resume leaves content True True ok has False None s of
       Filled t \<Rightarrow>
         list_all (\<lambda>i. (pb_get (w_bits s) i = Some True \<or> covered got (leaf_range leaves i)) \<longrightarrow> pb_get (w_bits t) i = Some True)
           [0..<length leaves] \<and>
         (list_all ok rs \<longrightarrow> allSet (w_bits t) \<and> w_cache t = file_bytes leaves content)
     | Write_failed t \<Rightarrow> False
     | Index_panic \<Rightarrow> False)"
proof -
  define rs where "rs = gatewayRanges (missing_ranges leaves (w_bits s))"
  define got where "got = served ok rs"
  note spec = gatewayRanges_spec[OF missing_spans[OF assms(3), of "w_bits s"], folded rs_def]
  have inv: "wt_inv leaves content s" by (rule wt_reachable_inv[OF assms(1,2)])
  then have m: "marks leaves (\<lambda>i. True) (w_bits s)" by (auto simp: wt_inv_def marks_def)
  have "set [0..<length leaves] \<subseteq> {..<length leaves}" by auto
  with m obtain t where t: "fill_all leaves content (has got) None [0..<length leaves] s = Filled t"
    "marks leaves (\<lambda>i. True) (w_bits t)"
    "leaves_done (w_bits t) = leaves_done (w_bits s) \<union> {i \<in> set [0..<length leaves]. has got (fst (leaves ! i))}"
    "(wt_step root tot leaves content)\<^sup>*\<^sup>* s t"
    by (rule fill_all_marks)
  have res: "gateway_resume leaves content True True ok has False None s = Filled t"
    using t(1) assms(5) by (simp add: gateway_resume_def got_def rs_def)
  have kept: "pb_get (w_bits t) i = Some True"
    if "i < length leaves" "pb_get (w_bits s) i = Some True \<or> covered got (leaf_range leaves i)" for i
  proof -
    have "i \<in> leaves_done (w_bits t)"
      using that t(3) assms(4)[of i got] m by (auto simp: leaves_done_def marks_def)
    then show ?thesis by (simp add: leaves_done_def)
  qed
  have "missing_ranges leaves (w_bits s) \<noteq> []"
  proof
    assume e: "missing_ranges leaves (w_bits s) = []"
    have "leaves_done (w_bits s) = {..<pb_count (w_bits s)}"
      using e m by (auto simp: missing_ranges_def filter_empty_conv leaves_done_def marks_def)
    then show False using assms(5) m allSet_iff by (simp add: marks_def)
  qed
  moreover have "allSet (w_bits t) \<and> w_cache t = file_bytes leaves content" if all: "list_all ok rs"
  proof -
    have g: "got = rs" using all by (simp add: got_def served_def list_all_iff)
    have "pb_get (w_bits t) i = Some True" if i: "i < length leaves" for i
    proof (cases "pb_get (w_bits s) i = Some True")
      case False
      then have "leaf_range leaves i \<in> set (missing_ranges leaves (w_bits s))" using i by (simp add: missing_ranges_def)
      then show ?thesis using kept[OF i] spec(3) g by simp
    qed (use kept[OF i] in simp)
    then have "leaves_done (w_bits t) = {..<pb_count (w_bits t)}"
      using t(2) by (auto simp: leaves_done_def marks_def)
    then have "allSet (w_bits t)" using t(2) allSet_iff by (simp add: marks_def)
    moreover have "reachable (wt_init root tot leaves) (wt_step root tot leaves content) t"
      by (rule steps_reachable[OF assms(1) t(4)])
    ultimately show ?thesis using wt_reachable_inv[OF _ assms(2)] allSet_file[OF assms(2)] by blast
  qed
  ultimately show ?thesis
    using spec(2,5) kept res by (simp add: Let_def list_all_iff rs_def[symmetric] got_def[symmetric])
qed

theorem gateway_resume_completes_witness:
  "case gateway_resume demo_leaves demo_content True True (\<lambda>r. True) (\<lambda>rs c. True) False None demo_open of
     Filled t \<Rightarrow> w_cache t = [7, 8, 9, 4, 7, 8, 9] | Write_failed t \<Rightarrow> False | Index_panic \<Rightarrow> False"
proof -
  have "list_all (\<lambda>(c, n). 0 < n) demo_leaves" by code_simp
  moreover have "\<not> allSet (w_bits demo_open)" by code_simp
  ultimately have "let rs = gatewayRanges (missing_ranges demo_leaves (w_bits demo_open)) in
      case gateway_resume demo_leaves demo_content True True (\<lambda>r. True) (\<lambda>rs c. True) False None demo_open of
        Filled t \<Rightarrow> list_all (\<lambda>r. True) rs \<longrightarrow> w_cache t = file_bytes demo_leaves demo_content
      | Write_failed t \<Rightarrow> False | Index_panic \<Rightarrow> False"
    using gateway_resume_completes[OF demo_reachable demo_honest, of "\<lambda>rs c. True" "\<lambda>r. True"]
    by (simp add: Let_def split: fill_out.splits)
  moreover have "file_bytes demo_leaves demo_content = [7, 8, 9, 4, 7, 8, 9]" by code_simp
  ultimately show ?thesis by (simp add: Let_def list_all_iff split: fill_out.splits)
qed

end
