(* ===== verification/FetchFile.thy ===== *)
theory FetchFile
  imports AddFile WriteThrough
begin

text \<open>
  One attempt of a file fetch (\<open>fetchToPathOnce\<close> and the end of \<open>writeThrough\<close>, \<open>fetch.go\<close>): what is
  done with a file already at the destination, how the session's end is decided, and the
  finalize, whose last act removes the sidecar. A crash is modelled by the number of finalize
  steps that ran before it. The errors are the outcome classes the download queue acts on.
\<close>

section \<open>Errors and outcomes\<close>

datatype fetch_error =
  Local_fatal | Missing_files | Incomplete | Not_raw | Cancelled | Corrupt_reference | No_such_file | Transient

datatype outcome = Fetch_done | Fetch_retryable | Fetch_terminal

definition localFatal :: "fetch_error option \<Rightarrow> fetch_error option" where
  "localFatal e = map_option (\<lambda>x. Local_fatal) e"

definition isMissingFile :: "fetch_error option \<Rightarrow> bool" where
  "isMissingFile e \<longleftrightarrow> e = Some Corrupt_reference \<or> e = Some No_such_file"

text \<open>The cancel set and the expected sizes, both keyed by the CID's text.\<close>

definition requestCancel :: "string \<Rightarrow> string list \<Rightarrow> string list" where
  "requestCancel c s = List.insert c s"

definition clearCancel :: "string \<Rightarrow> string list \<Rightarrow> string list" where
  "clearCancel c s = removeAll c s"

definition isCancelled :: "string \<Rightarrow> string list \<Rightarrow> bool" where
  "isCancelled c s \<longleftrightarrow> c \<in> set s"

definition setExpectedSize :: "string \<Rightarrow> int \<Rightarrow> (string \<Rightarrow> int option) \<Rightarrow> string \<Rightarrow> int option" where
  "setExpectedSize c n m = (if n > 0 then m(c \<mapsto> n) else m(c := None))"

definition expectedSize :: "string \<Rightarrow> (string \<Rightarrow> int option) \<Rightarrow> int" where
  "expectedSize c m = (case m c of None \<Rightarrow> 0 | Some n \<Rightarrow> n)"

definition classifyFetchErr :: "string list \<Rightarrow> string \<Rightarrow> fetch_error option \<Rightarrow> outcome" where
  "classifyFetchErr cancels c e =
     (if e = None then Fetch_done
      else if e = Some Local_fatal then Fetch_terminal
      else if isCancelled c cancels then Fetch_terminal
      else Fetch_retryable)"

section \<open>The site of a fetch\<close>

record site =
  si_store :: store
  si_tmp :: "bytes option"
  si_part :: "partBits option"

definition dest_bytes :: "path \<Rightarrow> site \<Rightarrow> bytes option" where
  "dest_bytes dest s = map_of (st_disk (si_store s)) dest"

definition set_disk :: "(path \<times> bytes) list \<Rightarrow> site \<Rightarrow> site" where
  "set_disk d s = s\<lparr>si_store := (si_store s)\<lparr>st_disk := d\<rparr>\<rparr>"

definition remove_dest :: "path \<Rightarrow> site \<Rightarrow> site" where
  "remove_dest dest s = set_disk (filter (\<lambda>x. fst x \<noteq> dest) (st_disk (si_store s))) s"

definition remove_partial :: "site \<Rightarrow> site" where
  "remove_partial s = s\<lparr>si_tmp := None, si_part := None\<rparr>"

section \<open>Finalize\<close>

datatype fin_step = Fin_remove | Fin_rename | Fin_refs | Fin_drop_plain | Fin_pin | Fin_announce | Fin_unpart

definition leaf_refs :: "path \<Rightarrow> leaf list \<Rightarrow> (nat \<times> fsref) list" where
  "leaf_refs dest leaves =
     map (\<lambda>i. (mhash (fst (leaves ! i)),
        \<lparr>r_path = dest, r_off = word_of_nat (leaf_off leaves i), r_size = word_of_nat (snd (leaves ! i))\<rparr>)) (rev [0..<length leaves])"

fun fin_apply :: "path \<Rightarrow> cid \<Rightarrow> leaf list \<Rightarrow> fin_step \<Rightarrow> site \<Rightarrow> site" where
  "fin_apply dest root leaves Fin_remove s = remove_dest dest s"
| "fin_apply dest root leaves Fin_rename s =
     (case si_tmp s of
        None \<Rightarrow> s
      | Some f \<Rightarrow> (set_disk ((dest, f) # st_disk (si_store s)) s)\<lparr>si_tmp := None\<rparr>)"
| "fin_apply dest root leaves Fin_refs s =
     s\<lparr>si_store := (si_store s)\<lparr>st_refs := leaf_refs dest leaves @ st_refs (si_store s)\<rparr>\<rparr>"
| "fin_apply dest root leaves Fin_drop_plain s =
     s\<lparr>si_store := (si_store s)\<lparr>st_plain :=
        filter (\<lambda>x. fst x \<notin> mhash ` fst ` set leaves) (st_plain (si_store s))\<rparr>\<rparr>"
| "fin_apply dest root leaves Fin_pin s =
     s\<lparr>si_store := (si_store s)\<lparr>st_recursive := root # st_recursive (si_store s)\<rparr>\<rparr>"
| "fin_apply dest root leaves Fin_announce s =
     s\<lparr>si_store := (si_store s)\<lparr>st_announced := root # st_announced (si_store s)\<rparr>\<rparr>"
| "fin_apply dest root leaves Fin_unpart s = remove_partial s"

definition fin_steps :: "fin_step list" where
  "fin_steps = [Fin_remove, Fin_rename, Fin_refs, Fin_drop_plain, Fin_pin, Fin_announce, Fin_unpart]"

text \<open>The site after the first \<open>k\<close> steps: what a crash finds.\<close>

definition fin_prefix :: "path \<Rightarrow> cid \<Rightarrow> leaf list \<Rightarrow> nat \<Rightarrow> site \<Rightarrow> site" where
  "fin_prefix dest root leaves k s = foldl (\<lambda>t x. fin_apply dest root leaves x t) s (take k fin_steps)"

text \<open>
  The finalize with the step that reports an error. References refused because the bytes do not
  hash (a \<open>CorruptReferenceError\<close>) discard the output; a failure to drop the plain copies is
  ignored; everything else is final for this machine.
\<close>

datatype fin_fault = No_fin_fault | Fault_sync | Fault_rename | Fault_corrupt | Fault_refs | Fault_plain | Fault_pin

definition finalize :: "path \<Rightarrow> cid \<Rightarrow> leaf list \<Rightarrow> fin_fault \<Rightarrow> site \<Rightarrow> fetch_error option \<times> site" where
  "finalize dest root leaves fault s =
     (case fault of
        Fault_sync \<Rightarrow> (Some Local_fatal, s)
      | Fault_rename \<Rightarrow> (Some Local_fatal, fin_prefix dest root leaves 1 s)
      | Fault_corrupt \<Rightarrow> (Some Incomplete, remove_partial (remove_dest dest (fin_prefix dest root leaves 2 s)))
      | Fault_refs \<Rightarrow> (Some Local_fatal, fin_prefix dest root leaves 2 s)
      | Fault_plain \<Rightarrow> (None, fin_apply dest root leaves Fin_unpart (fin_apply dest root leaves Fin_announce
            (fin_apply dest root leaves Fin_pin (fin_prefix dest root leaves 3 s))))
      | Fault_pin \<Rightarrow> (Some Local_fatal, fin_prefix dest root leaves 4 s)
      | No_fin_fault \<Rightarrow> (None, fin_prefix dest root leaves 7 s))"

text \<open>
  How the session's end is decided, in the order of the code: a failed write, a cancel (looked at
  when the session ends, and again after the gateway resume), an incomplete file, and else the
  finalize.
\<close>

definition cut_session :: "bool \<Rightarrow> bool \<Rightarrow> site \<Rightarrow> (fetch_error \<times> site) option" where
  "cut_session write_failed cancelled s =
     (if write_failed then Some (Local_fatal, s)
      else if cancelled then Some (Cancelled, remove_partial s)
      else None)"

definition close_session ::
  "path \<Rightarrow> cid \<Rightarrow> leaf list \<Rightarrow> bool \<Rightarrow> bool \<Rightarrow> fin_fault \<Rightarrow> partBits \<Rightarrow> bytes \<Rightarrow> site \<Rightarrow> fetch_error option \<times> site" where
  "close_session dest root leaves write_failed cancelled fault bits fbytes s =
     (let kept = s\<lparr>si_tmp := Some fbytes, si_part := Some bits\<rparr> in
      case cut_session write_failed cancelled kept of
        Some (e, t) \<Rightarrow> (Some e, t)
      | None \<Rightarrow>
          if \<not> allSet bits then (Some Incomplete, kept)
          else finalize dest root leaves fault kept)"

section \<open>A file already at the destination\<close>

datatype dest_verdict = Dest_done | Dest_failed fetch_error | Dest_fetch

text \<open>
  \<open>fetchToPathOnce\<close>, up to the fetch itself: a finished file is done with; one whose finalize was
  interrupted, or whose CID is not held, is hashed, and adopted or discarded by what it is.
\<close>

definition check_dest ::
  "boxo \<Rightarrow> (bytes \<Rightarrow> import) \<Rightarrow> bool \<Rightarrow> add_step option \<Rightarrow> cid \<Rightarrow> path \<Rightarrow> site \<Rightarrow> dest_verdict \<times> site" where
  "check_dest E imp can_read fault c dest s =
     (case dest_bytes dest s of
        None \<Rightarrow> (Dest_fetch, s)
      | Some f \<Rightarrow>
          if si_part s = None \<and> hasLocal (si_store s) c then (Dest_done, s)
          else (case (if can_read then computeCid imp (Some f) else None) of
                  None \<Rightarrow> (Dest_fetch, remove_partial (remove_dest dest s))
                | Some got \<Rightarrow>
                    if got = c
                    then (case addNoCopy E imp fault dest (si_store s) of
                            (Inl e, st) \<Rightarrow> (Dest_failed Local_fatal, s\<lparr>si_store := st\<rparr>)
                          | (Inr c', st) \<Rightarrow> (Dest_done, remove_partial (s\<lparr>si_store := st\<rparr>)))
                    else (Dest_fetch, remove_partial (remove_dest dest s))))"

definition start_fetch ::
  "boxo \<Rightarrow> (bytes \<Rightarrow> import) \<Rightarrow> bool \<Rightarrow> add_step option \<Rightarrow> bool \<Rightarrow> cid option \<Rightarrow> path \<Rightarrow> site \<Rightarrow> dest_verdict \<times> site" where
  "start_fetch E imp can_read fault cancelled c dest s =
     (if cancelled then (Dest_failed Cancelled, s)
      else case c of
        None \<Rightarrow> (Dest_failed Local_fatal, s)
      | Some c' \<Rightarrow>
          (case check_dest E imp can_read fault c' dest s of
             (Dest_fetch, t) \<Rightarrow>
               if cidMissing E (si_store t) c' then (Dest_failed Missing_files, t) else (Dest_fetch, t)
           | r \<Rightarrow> r))"

text \<open>\<open>fetchToPath\<close> clears a stale reference so that the next attempt goes to the network.\<close>

definition fetchToPath_end :: "boxo \<Rightarrow> cid \<Rightarrow> fetch_error option \<times> site \<Rightarrow> fetch_error option \<times> site" where
  "fetchToPath_end E c r =
     (case r of (e, s) \<Rightarrow>
        (e, if e = Some Missing_files then s\<lparr>si_store := dropRef E c (si_store s)\<rparr> else s))"

section \<open>A crash in the finalize is repaired\<close>

text \<open>
  The site as the session leaves it: the whole file in \<open>dest.tmp\<close>, the sidecar beside it, no file at
  the destination, the nodes fetched for the spine stored, and the leaves those of the import.
\<close>

definition landed :: "boxo \<Rightarrow> import \<Rightarrow> path \<Rightarrow> leaf list \<Rightarrow> bytes \<Rightarrow> site \<Rightarrow> bool" where
  "landed E im dest leaves f s \<longleftrightarrow>
     import_ok E im \<and> st_root (si_store s) = [] \<and> dest_bytes dest s = None \<and> dest \<noteq> [] \<and>
     si_tmp s = Some f \<and> si_part s \<noteq> None \<and>
     list_all (\<lambda>x. codec_of (fst x) = Raw) leaves \<and>
     fst ` set (im_leaves im) = mhash ` fst ` set leaves \<and>
     list_all (\<lambda>(h, b). map_of (st_plain (si_store s)) h = Some b \<and> map_of (st_refs (si_store s)) h = None) (im_nodes im)"

lemma map_of_filter_neq: "map_of (filter (\<lambda>x. fst x \<noteq> d) xs) k = (if k = d then None else map_of xs k)"
  by (induction xs) auto

lemma fin_prefix_unfold:
  "fin_prefix dest root leaves 0 s = s"
  "fin_prefix dest root leaves 1 s = remove_dest dest s"
  "fin_prefix dest root leaves 2 s = fin_apply dest root leaves Fin_rename (fin_prefix dest root leaves 1 s)"
  "fin_prefix dest root leaves 3 s = fin_apply dest root leaves Fin_refs (fin_prefix dest root leaves 2 s)"
  "fin_prefix dest root leaves 4 s = fin_apply dest root leaves Fin_drop_plain (fin_prefix dest root leaves 3 s)"
  "fin_prefix dest root leaves 5 s = fin_apply dest root leaves Fin_pin (fin_prefix dest root leaves 4 s)"
  "fin_prefix dest root leaves 6 s = fin_apply dest root leaves Fin_announce (fin_prefix dest root leaves 5 s)"
  "fin_prefix dest root leaves 7 s = fin_apply dest root leaves Fin_unpart (fin_prefix dest root leaves 6 s)"
  by (simp_all add: fin_prefix_def fin_steps_def numeral_eq_Suc del: fin_apply.simps(2))

lemma leaf_refs_keys: "fst ` set (leaf_refs dest leaves) = mhash ` fst ` set leaves"
proof -
  have "fst ` set (leaf_refs dest leaves) = (\<lambda>i. mhash (fst (leaves ! i))) ` {..<length leaves}"
    by (auto simp: leaf_refs_def image_image)
  also have "\<dots> = mhash ` fst ` set leaves" by (force simp: in_set_conv_nth image_iff)
  finally show ?thesis .
qed

lemma leaf_refs_path: "(h, r) \<in> set (leaf_refs dest leaves) \<Longrightarrow> r_path r = dest"
  by (auto simp: leaf_refs_def)

text \<open>From the rename on: the file is at the destination, and the store is the old one with some of the leaf steps done.\<close>

definition finalizing :: "boxo \<Rightarrow> import \<Rightarrow> path \<Rightarrow> leaf list \<Rightarrow> bytes \<Rightarrow> site \<Rightarrow> bool" where
  "finalizing E im dest leaves f s \<longleftrightarrow>
     map_of (st_disk (si_store s)) dest = Some f \<and> st_root (si_store s) = [] \<and> nodes_clean im (si_store s) \<and>
     list_all (\<lambda>(h, b). map_of (st_plain (si_store s)) h = Some b) (im_nodes im)"

lemma renamed_site:
  assumes "si_tmp s = Some f"
  shows "fin_prefix dest root leaves 2 s =
    s\<lparr>si_store := (si_store s)\<lparr>st_disk := (dest, f) # filter (\<lambda>x. fst x \<noteq> dest) (st_disk (si_store s))\<rparr>, si_tmp := None\<rparr>"
  unfolding fin_prefix_unfold by (simp add: remove_dest_def set_disk_def assms)

lemma landed_renamed:
  assumes "landed E im dest leaves f s"
  shows "finalizing E im dest leaves f (fin_prefix dest root leaves 2 s)"
    and "si_part (fin_prefix dest root leaves 2 s) = si_part s"
proof -
  have "si_tmp s = Some f" using assms by (simp add: landed_def)
  note r = renamed_site[OF this, of dest root leaves]
  show "si_part (fin_prefix dest root leaves 2 s) = si_part s" by (simp add: r)
  have "map_of (st_plain (si_store s)) h = Some b \<and> map_of (st_refs (si_store s)) h = None"
    if "(h, b) \<in> set (im_nodes im)" for h b
    using assms that by (auto simp: landed_def list_all_iff)
  moreover have "st_root (si_store s) = []" using assms by (simp add: landed_def)
  ultimately show "finalizing E im dest leaves f (fin_prefix dest root leaves 2 s)"
    by (auto simp: r finalizing_def nodes_clean_iff list_all_iff)
qed

lemma import_nodes_no_leaf:
  "import_ok E im \<Longrightarrow> (h, b) \<in> set (im_nodes im) \<Longrightarrow> h \<notin> fst ` set (im_leaves im)"
  by (auto simp: import_ok_def list_all_iff)

lemma finalizing_refs:
  assumes "finalizing E im dest leaves f s" "import_ok E im" "fst ` set (im_leaves im) = mhash ` fst ` set leaves"
  shows "finalizing E im dest leaves f (fin_apply dest root leaves Fin_refs s)"
proof -
  have "map_of (leaf_refs dest leaves) h = None" if "(h, b) \<in> set (im_nodes im)" for h b
    using import_nodes_no_leaf[OF assms(2) that] assms(3) by (simp add: map_of_eq_None_iff leaf_refs_keys)
  then show ?thesis using assms(1) by (auto simp: finalizing_def nodes_clean_iff map_add_def split: option.splits)
qed

lemma finalizing_drop:
  assumes "finalizing E im dest leaves f s" "import_ok E im" "fst ` set (im_leaves im) = mhash ` fst ` set leaves"
  shows "finalizing E im dest leaves f (fin_apply dest root leaves Fin_drop_plain s)"
proof -
  have "h \<notin> mhash ` fst ` set leaves" if "(h, b) \<in> set (im_nodes im)" for h b
    using import_nodes_no_leaf[OF assms(2) that] assms(3) by simp
  then show ?thesis using assms(1) by (auto simp: finalizing_def nodes_clean_iff map_of_keep list_all_iff)
qed

lemma finalizing_marks:
  "finalizing E im dest leaves f s \<Longrightarrow> finalizing E im dest leaves f (fin_apply dest root leaves Fin_pin s)"
  "finalizing E im dest leaves f s \<Longrightarrow> finalizing E im dest leaves f (fin_apply dest root leaves Fin_announce s)"
  by (simp_all add: finalizing_def nodes_clean_def)

text \<open>The repair of an interrupted finalize.\<close>

lemma repair_done:
  assumes "finalizing E (imp f) dest leaves f s" "import_ok E (imp f)" "si_part s \<noteq> None" "im_root (imp f) = c"
  obtains t where "check_dest E imp True None c dest s = (Dest_done, t)" "si_part t = None"
    "heldWhole E (si_store t) c = None" "c \<in> set (st_recursive (si_store t))" "c \<in> set (st_announced (si_store t))"
    "dest_bytes dest t = Some f"
proof -
  have d: "map_of (st_disk (si_store s)) dest = Some f" "st_root (si_store s) = []" "nodes_clean (imp f) (si_store s)"
    using assms(1) by (simp_all add: finalizing_def)
  obtain st where st: "addNoCopy E imp None dest (si_store s) = (Inr c, st)" "st_disk st = st_disk (si_store s)"
    using addNoCopy_returns[of "si_store s" dest f E imp] d assms(4) by auto
  have got: "computeCid imp (Some f) = Some c" using assms(4) by (simp add: computeCid_def)
  have chk: "check_dest E imp True None c dest s = (Dest_done, remove_partial (s\<lparr>si_store := st\<rparr>))"
    using d(1) assms(3) got st(1) by (auto simp: check_dest_def dest_bytes_def)
  note held = add_file_held_facts[OF st(1) d(1) assms(2) d(3,2)]
  show ?thesis
    by (rule that[OF chk]) (use held st(2) d(1) in \<open>simp_all add: remove_partial_def dest_bytes_def\<close>)
qed

lemma finalizing_prefix:
  assumes l: "landed E im dest leaves f s" and k: "2 \<le> k" "k \<le> 6"
  shows "finalizing E im dest leaves f (fin_prefix dest root leaves k s)"
    and "si_part (fin_prefix dest root leaves k s) \<noteq> None"
proof -
  have ok: "import_ok E im" "fst ` set (im_leaves im) = mhash ` fst ` set leaves" "si_part s \<noteq> None"
    using l by (simp_all add: landed_def)
  note f2 = landed_renamed[OF l, of root]
  note f3 = finalizing_refs[OF f2(1) ok(1,2), of root]
  note f4 = finalizing_drop[OF f3 ok(1,2), of root]
  note f5 = finalizing_marks(1)[OF f4, of root]
  note f6 = finalizing_marks(2)[OF f5, of root]
  consider "k = 2" | "k = 3" | "k = 4" | "k = 5" | "k = 6" using k by linarith
  then show "finalizing E im dest leaves f (fin_prefix dest root leaves k s)"
    by cases (use f2 f3 f4 f5 f6 in \<open>simp_all only: fin_prefix_unfold\<close>)
  have p: "si_part (fin_prefix dest root leaves 2 s) \<noteq> None" using f2(2) ok(3) by simp
  from \<open>2 \<le> k\<close> consider "k = 2" | "k = 3" | "k = 4" | "k = 5" | "k = 6" using k by linarith
  then show "si_part (fin_prefix dest root leaves k s) \<noteq> None"
  proof cases
    case 1
    then show ?thesis using p by simp
  qed (use p in \<open>simp_all add: fin_prefix_unfold(4-7)\<close>)
qed

text \<open>The finished fetch: nothing left to do, and everything promised holds.\<close>

lemma leaf_ref_of:
  assumes "h \<in> mhash ` fst ` set leaves"
  obtains r where "map_of (leaf_refs dest leaves) h = Some r" "r_path r = dest"
proof -
  have "h \<in> fst ` set (leaf_refs dest leaves)" using assms by (simp add: leaf_refs_keys)
  then obtain r where r: "map_of (leaf_refs dest leaves) h = Some r"
    by (metis map_of_eq_None_iff not_None_eq)
  then show ?thesis using that leaf_refs_path map_of_SomeD by metis
qed

lemma finished_site:
  assumes l: "landed E im dest leaves f s" and root: "im_root im = root"
  shows "heldWhole E (si_store (fin_prefix dest root leaves 7 s)) root = None"
    and "root \<in> set (st_recursive (si_store (fin_prefix dest root leaves 7 s)))"
    and "root \<in> set (st_announced (si_store (fin_prefix dest root leaves 7 s)))"
    and "si_part (fin_prefix dest root leaves 7 s) = None"
    and "dest_bytes dest (fin_prefix dest root leaves 7 s) = Some f"
    and "hasLocal (si_store (fin_prefix dest root leaves 7 s)) root"
proof -
  let ?t = "fin_prefix dest root leaves 7 s"
  have ok: "import_ok E im" "fst ` set (im_leaves im) = mhash ` fst ` set leaves" "dest \<noteq> []"
    using l by (simp_all add: landed_def)
  have fin: "finalizing E im dest leaves f (fin_prefix dest root leaves 6 s)" by (rule finalizing_prefix[OF l]) auto
  have st: "si_store ?t = si_store (fin_prefix dest root leaves 6 s)" by (simp add: fin_prefix_unfold(8) remove_partial_def)
  show "si_part ?t = None" by (simp add: fin_prefix_unfold(8) remove_partial_def)
  show "dest_bytes dest ?t = Some f" using fin by (simp add: dest_bytes_def st finalizing_def)
  show "root \<in> set (st_recursive (si_store ?t))" "root \<in> set (st_announced (si_store ?t))"
    by (simp_all add: st fin_prefix_unfold(6,7))
  let ?r3 = "si_store (fin_prefix dest root leaves 2 s)"
  have refs: "st_refs (si_store ?t) = leaf_refs dest leaves @ st_refs ?r3"
    by (simp add: st fin_prefix_unfold(4-7))
  have leafref: "\<exists>r. map_of (st_refs (si_store ?t)) h = Some r \<and> r_path r = dest" if "h \<in> mhash ` fst ` set leaves" for h
  proof -
    note h = that
    obtain r where "map_of (leaf_refs dest leaves) h = Some r" "r_path r = dest" by (rule leaf_ref_of[OF h])
    then show ?thesis by (simp add: refs map_add_def)
  qed
  have built: "built im (si_store ?t)"
    unfolding built_def
  proof (intro conjI ballI)
    fix h assume "h \<in> fst ` set (im_leaves im)"
    then show "hasLocal (si_store ?t) (Cid Raw h)" using leafref ok(2) by (auto simp: hasLocal_def)
  next
    fix x assume "x \<in> set (im_nodes im)"
    then show "case x of (h, b) \<Rightarrow> map_of (st_plain (si_store ?t)) h = Some b \<and> map_of (st_refs (si_store ?t)) h = None"
      using fin by (auto simp: st finalizing_def nodes_clean_iff list_all_iff)
  qed
  have root_ok: "st_root (si_store ?t) = []" using fin by (simp add: st finalizing_def)
  have "backing_present (si_store ?t) d" if d: "dag_reach E (si_store ?t) is_node (im_root im) d" for d
  proof (cases "is_node d")
    case True
    have "in_import im d" using built_reach[OF ok(1) built d] ok(1) by (simp add: import_ok_def)
    then show ?thesis by (rule built_node[OF ok(1) built True]) (simp add: backing_present_def)
  next
    case False
    have "in_import im d" using built_reach[OF ok(1) built d] ok(1) by (simp add: import_ok_def)
    with False have "mhash d \<in> mhash ` fst ` set leaves"
      using ok(2) by (cases d; cases "codec_of d") (auto simp: is_node_def in_import_def)
    from leafref[OF this] show ?thesis
      using fin ok(3) by (auto simp: backing_present_def list_ref_def on_disk_def st finalizing_def)
  qed
  then show whole: "heldWhole E (si_store ?t) root = None"
    using built_whole[OF ok(1) built root_ok] root by simp
  then show "hasLocal (si_store ?t) root"
    by (simp add: heldWhole_exact block_whole_def dag_refl)
qed


definition fetched_site :: site where
  "fetched_site = \<lparr>si_store = dead_ref_store\<lparr>st_refs := []\<rparr>, si_tmp = Some [9, 9, 9], si_part = Some (newPartBits [1] 3 1)\<rparr>"


section \<open>What the error says\<close>

text \<open>
  C16. The end of a session and what its error tells the queue. No error: the file is at the destination,
  pinned, announced, no sidecar; it was complete. A cancel, or output whose bytes do not hash, discards the partial;
  an incomplete session keeps file and bitmap for the resume. A local error is terminal whatever the
  cancel set, an incomplete one is retried unless the user cancelled.
\<close>

theorem session_end_contract:
  assumes "close_session dest root leaves write_failed cancelled fault bits fbytes s = (e, t)"
    and "dest_bytes dest s = None"
  shows "(e = None \<longrightarrow> allSet bits \<and> \<not> cancelled \<and> dest_bytes dest t = Some fbytes \<and> root \<in> set (st_recursive (si_store t)) \<and>
      root \<in> set (st_announced (si_store t)) \<and> si_part t = None \<and> classifyFetchErr cs c e = Fetch_done) \<and>
    (e = Some Cancelled \<longrightarrow> si_tmp t = None \<and> si_part t = None \<and> si_store t = si_store s) \<and>
    (e = Some Incomplete \<longrightarrow> dest_bytes dest t = None \<and>
      (if allSet bits then si_tmp t = None \<and> si_part t = None else si_tmp t = Some fbytes \<and> si_part t = Some bits) \<and>
      classifyFetchErr cs c e = (if isCancelled c cs then Fetch_terminal else Fetch_retryable)) \<and>
    (e = Some Local_fatal \<longrightarrow> si_part t = Some bits \<and> classifyFetchErr cs c e = Fetch_terminal) \<and>
    e \<in> {None, Some Cancelled, Some Incomplete, Some Local_fatal}"
proof -
  define k where "k = s\<lparr>si_tmp := Some fbytes, si_part := Some bits\<rparr>"
  have kpart: "si_part k = Some bits" by (simp add: k_def)
  have r2: "fin_prefix dest root leaves 2 k = k\<lparr>si_store := (si_store k)\<lparr>st_disk := (dest, fbytes) #
      filter (\<lambda>x. fst x \<noteq> dest) (st_disk (si_store k))\<rparr>, si_tmp := None\<rparr>"
    by (rule renamed_site) (simp add: k_def)
  note unf = fin_prefix_unfold(4-8)[of dest root leaves k] r2
  consider (fail) "write_failed" "e = Some Local_fatal" "t = k"
    | (cancel) "cancelled" "e = Some Cancelled" "t = remove_partial k"
    | (part) "\<not> allSet bits" "e = Some Incomplete" "t = k"
    | (fin) "allSet bits" "\<not> cancelled" "finalize dest root leaves fault k = (e, t)"
    using assms(1) by (auto simp: close_session_def cut_session_def Let_def k_def[symmetric] split: if_splits)
  then show ?thesis
  proof cases
    case fail
    then show ?thesis by (simp add: classifyFetchErr_def k_def)
  next
    case cancel
    then show ?thesis by (simp add: k_def remove_partial_def)
  next
    case part
    then show ?thesis using assms(2) by (simp add: classifyFetchErr_def k_def dest_bytes_def)
  next
    case fin
    show ?thesis
    proof (cases fault)
      case No_fin_fault
      then have "e = None" "t = fin_prefix dest root leaves 7 k" using fin by (simp_all add: finalize_def)
      then show ?thesis using fin by (simp add: unf dest_bytes_def remove_partial_def classifyFetchErr_def)
    next
      case Fault_sync
      then have "e = Some Local_fatal" "t = k" using fin by (simp_all add: finalize_def)
      then show ?thesis using fin by (simp add: k_def classifyFetchErr_def)
    next
      case Fault_rename
      then have "e = Some Local_fatal" "t = remove_dest dest k"
        using fin by (simp_all add: finalize_def fin_prefix_unfold(2)[unfolded One_nat_def])
      then show ?thesis using fin by (simp add: remove_dest_def set_disk_def k_def classifyFetchErr_def)
    next
      case Fault_corrupt
      then have "e = Some Incomplete" "t = remove_partial (remove_dest dest (fin_prefix dest root leaves 2 k))"
        using fin by (simp_all add: finalize_def)
      then show ?thesis using fin
        by (simp add: r2 remove_partial_def remove_dest_def set_disk_def dest_bytes_def map_of_filter_neq classifyFetchErr_def)
    next
      case Fault_refs
      then have "e = Some Local_fatal" "t = fin_prefix dest root leaves 2 k" using fin by (simp_all add: finalize_def)
      then show ?thesis using fin by (simp add: r2 kpart classifyFetchErr_def)
    next
      case Fault_plain
      then have "e = None" "t = fin_apply dest root leaves Fin_unpart (fin_apply dest root leaves Fin_announce
            (fin_apply dest root leaves Fin_pin (fin_prefix dest root leaves 3 k)))" using fin by (simp_all add: finalize_def)
      then show ?thesis using fin by (simp add: unf dest_bytes_def remove_partial_def classifyFetchErr_def)
    next
      case Fault_pin
      then have "e = Some Local_fatal" "t = fin_prefix dest root leaves 4 k" using fin by (simp_all add: finalize_def)
      then show ?thesis using fin by (simp add: unf kpart classifyFetchErr_def)
    qed
  qed
qed

definition full_bits :: partBits where
  "full_bits = (newPartBits [1] 3 1)\<lparr>pb_nset := 1\<rparr>"

theorem session_end_contract_witness:
  "case close_session [''f''] (Cid Raw 3) [(Cid Raw 3, 3)] False False No_fin_fault
      full_bits [9, 9, 9] fetched_site of
     (e, t) \<Rightarrow> e = None \<and> dest_bytes [''f''] t = Some [9, 9, 9] \<and> si_part t = None"
proof -
  obtain e t where c: "close_session [''f''] (Cid Raw 3) [(Cid Raw 3, 3)] False False No_fin_fault
      full_bits [9, 9, 9] fetched_site = (e, t)" by fastforce
  have "fst (close_session [''f''] (Cid Raw 3) [(Cid Raw 3, 3)] False False No_fin_fault
      full_bits [9, 9, 9] fetched_site) = None" by code_simp
  then have "e = None" by (simp add: c)
  moreover have "dest_bytes [''f''] fetched_site = None" by code_simp
  ultimately show ?thesis using session_end_contract[OF c] by (simp add: c)
qed

section \<open>The fallback: read, write, add again\<close>

text \<open>
  A DAG that is not all raw leaves is read through and written to \<open>dest.tmp\<close>; each round the cancel
  is looked at first. Then the file is moved into place, the cached blocks of the CID are
  dropped, and the file is added by reference.
\<close>

datatype read_end = More | Eof | Read_error fetch_error

fun fallback_read :: "(bool \<times> bytes \<times> bool \<times> read_end) list \<Rightarrow> bytes \<Rightarrow> fetch_error + bytes" where
  "fallback_read [] out = Inl Transient"
| "fallback_read ((cancelled, b, write_ok, e) # rs) out =
     (if cancelled then Inl Cancelled
      else if b \<noteq> [] \<and> \<not> write_ok then Inl Local_fatal
      else case e of
             Eof \<Rightarrow> Inr (out @ b)
           | Read_error x \<Rightarrow> Inl (if isMissingFile (Some x) then Missing_files else x)
           | More \<Rightarrow> fallback_read rs (out @ b))"

definition fallback_landed :: "path \<Rightarrow> bytes \<Rightarrow> site \<Rightarrow> site" where
  "fallback_landed dest f s = set_disk ((dest, f) # filter (\<lambda>x. fst x \<noteq> dest) (st_disk (si_store s))) s"

definition fallback_finish ::
  "boxo \<Rightarrow> (bytes \<Rightarrow> import) \<Rightarrow> add_step option \<Rightarrow> cid \<Rightarrow> path \<Rightarrow> bytes \<Rightarrow> site \<Rightarrow> fetch_error option \<times> site" where
  "fallback_finish E imp fault c dest f s =
     (let t = fallback_landed dest f s; st = dropClosure E c (si_store t) in
      case addNoCopy E imp fault dest st of
        (Inl e, st') \<Rightarrow> (Some Local_fatal, t\<lparr>si_store := st'\<rparr>)
      | (Inr c', st') \<Rightarrow> (None, t\<lparr>si_store := st'\<rparr>))"

text \<open>What is written is what was read, in order, up to the end of the file.\<close>

lemma fallback_read_exact:
  "fallback_read rs out = Inr f \<Longrightarrow> \<exists>k < length rs. f = out @ concat (map (\<lambda>r. fst (snd r)) (take (Suc k) rs))"
proof (induction rs out rule: fallback_read.induct)
  case (2 cancelled b write_ok e rs out)
  show ?case
  proof (cases e)
    case More
    then have "fallback_read rs (out @ b) = Inr f" using 2(2) by (simp split: if_splits)
    then obtain k where "k < length rs" "f = (out @ b) @ concat (map (\<lambda>r. fst (snd r)) (take (Suc k) rs))"
      using 2(1) 2(2) More by (auto split: if_splits)
    then show ?thesis by (intro exI[of _ "Suc k"]) simp
  qed (use 2(2) in \<open>auto split: if_splits\<close>)
qed simp

text \<open>
  The add's CID is not compared with the one asked for. When they differ, which is when the
  fallback is taken (a DAG with leaves that are not raw), the content is kept under another CID
  than the one fetched; the next fetch of that one finds a file of "different" content, deletes
  it and downloads it again.
\<close>

lemma fallback_loses_cid:
  "let s = fetched_site\<lparr>si_store := (si_store fetched_site)\<lparr>st_plain := [(5, [2, 2, 2, 2, 2])]\<rparr>, si_tmp := None, si_part := None\<rparr>;
       (e, t) = fallback_finish leaf_boxo leaf_import None (Cid DagPb 5) [''f''] [9, 9, 9] s;
       (v, u) = check_dest leaf_boxo leaf_import True None (Cid DagPb 5) [''f''] t
   in e = None \<and> dest_bytes [''f''] t = Some [9, 9, 9] \<and> pinLs (si_store t) = [Cid Raw 3] \<and>
      v = Dest_fetch \<and> dest_bytes [''f''] u = None"
  by code_simp

text \<open>
  The fallback leaves no sidecar, so a crash between the rename and the add leaves a file that the
  next attempt takes for finished, the CID's blocks being still cached: it is never pinned.
\<close>

lemma fallback_crash_unpinned:
  "let s = fetched_site\<lparr>si_store := (si_store fetched_site)\<lparr>st_plain := [(5, [2, 2, 2, 2, 2])]\<rparr>, si_tmp := None, si_part := None\<rparr>;
       t = fallback_landed [''f''] [9, 9, 9] s;
       (v, u) = check_dest leaf_boxo leaf_import True None (Cid DagPb 5) [''f''] t
   in v = Dest_done \<and> pinLs (si_store u) = []"
  by code_simp

text \<open>
  A stale file at the destination is taken for the content whenever the CID is held at all, for
  instance seeded from another path.
\<close>

lemma stale_dest_accepted:
  "let s = fetched_site\<lparr>si_store := (si_store fetched_site)\<lparr>st_refs := [(3, \<lparr>r_path = [''other''], r_off = 0, r_size = 3\<rparr>)],
             st_disk := [([''other''], [9, 9, 9]), ([''f''], [1, 2])]\<rparr>, si_tmp := None, si_part := None\<rparr>;
       (v, t) = check_dest leaf_boxo leaf_import True None (Cid Raw 3) [''f''] s
   in v = Dest_done \<and> dest_bytes [''f''] t = Some [1, 2] \<and> computeCid leaf_import (Some [1, 2]) \<noteq> Some (Cid Raw 3)"
  by code_simp

end
