(* ===== verification/FetchControl.thy ===== *)
theory FetchControl
  imports Complex_Main FetchFile
begin

text \<open>
  What surrounds a fetch (\<open>fetch.go\<close>): the lock that keeps two fetches of one destination apart, the
  progress that never runs backwards, the budget the root fetch splits between libp2p and the
  gateways, and the folder fetch with its bounds. Time is in nanoseconds, percentages are
  rationals.
\<close>

section \<open>One fetch per destination\<close>

text \<open>
  \<open>lockDest\<close>: a guard per destination in use, counted under \<open>destGuardsMu\<close>, locked outside it. A
  caller keeps the pointer it got, so guards have identities.
\<close>

datatype gphase = Away | Waiting string nat | Holding string nat | Releasing string nat

record guards =
  g_map :: "string \<Rightarrow> nat option"
  g_refs :: "nat \<Rightarrow> int"
  g_next :: nat
  g_who :: "nat \<Rightarrow> gphase"

definition no_guards :: guards where
  "no_guards = \<lparr>g_map = Map.empty, g_refs = (\<lambda>g. 0), g_next = 0, g_who = (\<lambda>p. Away)\<rparr>"

fun on_guard :: "gphase \<Rightarrow> string \<Rightarrow> nat \<Rightarrow> bool" where
  "on_guard Away d g = False"
| "on_guard (Waiting e h) d g = (e = d \<and> h = g)"
| "on_guard (Holding e h) d g = (e = d \<and> h = g)"
| "on_guard (Releasing e h) d g = (e = d \<and> h = g)"

definition lock_enter :: "nat \<Rightarrow> string \<Rightarrow> guards \<Rightarrow> guards" where
  "lock_enter p d s =
     (case g_map s d of
        Some g \<Rightarrow> s\<lparr>g_refs := (g_refs s)(g := g_refs s g + 1), g_who := (g_who s)(p := Waiting d g)\<rparr>
      | None \<Rightarrow>
          (let g = g_next s in
           \<lparr>g_map = (g_map s)(d \<mapsto> g), g_refs = (g_refs s)(g := 1), g_next = g + 1, g_who = (g_who s)(p := Waiting d g)\<rparr>))"

definition lock_take :: "nat \<Rightarrow> string \<Rightarrow> nat \<Rightarrow> guards \<Rightarrow> guards" where
  "lock_take p d g s = s\<lparr>g_who := (g_who s)(p := Holding d g)\<rparr>"

definition lock_free :: "nat \<Rightarrow> string \<Rightarrow> nat \<Rightarrow> guards \<Rightarrow> guards" where
  "lock_free p d g s = s\<lparr>g_who := (g_who s)(p := Releasing d g)\<rparr>"

definition lock_leave :: "nat \<Rightarrow> string \<Rightarrow> nat \<Rightarrow> guards \<Rightarrow> guards" where
  "lock_leave p d g s =
     (let n = g_refs s g - 1 in
      s\<lparr>g_map := (if n = 0 then (g_map s)(d := None) else g_map s), g_refs := (g_refs s)(g := n),
        g_who := (g_who s)(p := Away)\<rparr>)"

inductive lock_step :: "guards \<Rightarrow> guards \<Rightarrow> bool" where
  "g_who s p = Away \<Longrightarrow> lock_step s (lock_enter p d s)"
| "g_who s p = Waiting d g \<Longrightarrow> (\<And>q e. g_who s q \<noteq> Holding e g) \<Longrightarrow> lock_step s (lock_take p d g s)"
| "g_who s p = Holding d g \<Longrightarrow> lock_step s (lock_free p d g s)"
| "g_who s p = Releasing d g \<Longrightarrow> lock_step s (lock_leave p d g s)"

definition users :: "guards \<Rightarrow> string \<Rightarrow> nat \<Rightarrow> nat set" where
  "users s d g = {p. on_guard (g_who s p) d g}"

definition one_holder :: "guards \<Rightarrow> bool" where
  "one_holder s \<longleftrightarrow> (\<forall>p q d e g. g_who s p = Holding d g \<longrightarrow> g_who s q = Holding e g \<longrightarrow> p = q)"

definition users_mapped :: "guards \<Rightarrow> bool" where
  "users_mapped s \<longleftrightarrow> (\<forall>p d g. on_guard (g_who s p) d g \<longrightarrow> g_map s d = Some g)"

definition refs_count :: "guards \<Rightarrow> bool" where
  "refs_count s \<longleftrightarrow> (\<forall>d g. g_map s d = Some g \<longrightarrow>
     g < g_next s \<and> finite (users s d g) \<and> users s d g \<noteq> {} \<and> g_refs s g = int (card (users s d g)))"

definition guards_apart :: "guards \<Rightarrow> bool" where
  "guards_apart s \<longleftrightarrow> (\<forall>d e g. g_map s d = Some g \<longrightarrow> g_map s e = Some g \<longrightarrow> d = e)"

definition lock_inv :: "guards \<Rightarrow> bool" where
  "lock_inv s \<longleftrightarrow> one_holder s \<and> users_mapped s \<and> refs_count s \<and> guards_apart s"

lemma lock_mapped: "lock_inv s \<Longrightarrow> on_guard (g_who s p) d g \<Longrightarrow> g_map s d = Some g"
  by (simp add: lock_inv_def users_mapped_def)

text \<open>A move from one phase to another on the same guard changes no count.\<close>

lemma users_move:
  assumes "\<And>e h. on_guard x e h = on_guard (g_who s p) e h"
  shows "users (s\<lparr>g_who := (g_who s)(p := x)\<rparr>) = users s"
  using assms by (intro ext) (auto simp: users_def)

lemma lock_inv_move:
  assumes inv: "lock_inv s" and same: "\<And>e h. on_guard x e h = on_guard (g_who s p) e h"
    and free: "\<And>q a b e. x = Holding a b \<Longrightarrow> g_who s q \<noteq> Holding e b"
  shows "lock_inv (s\<lparr>g_who := (g_who s)(p := x)\<rparr>)"
proof -
  let ?t = "s\<lparr>g_who := (g_who s)(p := x)\<rparr>"
  have "one_holder ?t"
    using inv free by (simp add: lock_inv_def one_holder_def) metis
  moreover have "users_mapped ?t"
    using inv same by (simp add: lock_inv_def users_mapped_def)
  moreover have "refs_count ?t" "guards_apart ?t"
    using inv users_move[OF same] by (simp_all add: lock_inv_def refs_count_def guards_apart_def)
  ultimately show ?thesis by (simp add: lock_inv_def)
qed

lemma not_user: "g_who s p = Away \<Longrightarrow> p \<notin> users s d g"
  by (simp add: users_def)

lemma lock_inv_enter:
  assumes inv: "lock_inv s" and p: "g_who s p = Away"
  shows "lock_inv (lock_enter p d s)"
proof (cases "g_map s d")
  case (Some g)
  let ?t = "lock_enter p d s"
  have who: "g_who ?t q = (if q = p then Waiting d g else g_who s q)" "g_map ?t = g_map s" "g_next ?t = g_next s"
      "g_refs ?t = (g_refs s)(g := g_refs s g + 1)" for q
    using Some by (simp_all add: lock_enter_def)
  have users: "users ?t e h = (if e = d \<and> h = g then insert p (users s e h) else users s e h)" for e h
    using p by (auto simp: users_def who)
  have "one_holder ?t" using inv by (auto simp: lock_inv_def one_holder_def who)
  moreover have "users_mapped ?t" using inv Some by (auto simp: lock_inv_def users_mapped_def who)
  moreover have "refs_count ?t"
  proof (unfold refs_count_def, intro allI impI)
    fix e h assume "g_map ?t e = Some h"
    then have e: "g_map s e = Some h" by (simp add: who)
    then have r: "h < g_next s \<and> finite (users s e h) \<and> users s e h \<noteq> {} \<and> g_refs s h = int (card (users s e h))"
      using inv by (simp add: lock_inv_def refs_count_def)
    have "h = g \<longleftrightarrow> e = d" using e Some inv by (auto simp: lock_inv_def guards_apart_def)
    then show "h < g_next ?t \<and> finite (users ?t e h) \<and> users ?t e h \<noteq> {} \<and> g_refs ?t h = int (card (users ?t e h))"
      using r not_user[OF p, of e h] by (auto simp: users who)
  qed
  moreover have "guards_apart ?t" using inv by (simp add: lock_inv_def guards_apart_def who)
  ultimately show ?thesis by (simp add: lock_inv_def)
next
  case None
  let ?t = "lock_enter p d s" and ?g = "g_next s"
  have who: "g_who ?t q = (if q = p then Waiting d ?g else g_who s q)" "g_map ?t = (g_map s)(d \<mapsto> ?g)" "g_next ?t = ?g + 1"
      "g_refs ?t = (g_refs s)(?g := 1)" for q
    using None by (simp_all add: lock_enter_def Let_def)
  have fresh: "g_map s e \<noteq> Some ?g" for e using inv by (auto simp: lock_inv_def refs_count_def)
  have mapped: "on_guard (g_who s q) e h \<Longrightarrow> g_map s e = Some h" for q e h
    using inv by (simp add: lock_inv_def users_mapped_def)
  have unused: "\<not> on_guard (g_who s q) e ?g" "\<not> on_guard (g_who s q) d h" for q e h
    using fresh mapped None by fastforce+
  have users: "users ?t e h = (if e = d \<and> h = ?g then {p} else users s e h)" for e h
    using p unused by (auto simp: users_def who)
  have "one_holder ?t" using inv by (auto simp: lock_inv_def one_holder_def who)
  moreover have "users_mapped ?t"
    using inv unused by (auto simp: lock_inv_def users_mapped_def who)
  moreover have "refs_count ?t"
  proof (unfold refs_count_def, intro allI impI)
    fix e h assume e: "g_map ?t e = Some h"
    show "h < g_next ?t \<and> finite (users ?t e h) \<and> users ?t e h \<noteq> {} \<and> g_refs ?t h = int (card (users ?t e h))"
    proof (cases "e = d")
      case True
      then show ?thesis using e by (simp add: who users)
    next
      case False
      then have "g_map s e = Some h" using e by (simp add: who)
      then have "h < g_next s \<and> finite (users s e h) \<and> users s e h \<noteq> {} \<and> g_refs s h = int (card (users s e h))"
        using inv by (simp add: lock_inv_def refs_count_def)
      then show ?thesis using False by (auto simp: users who)
    qed
  qed
  moreover have "guards_apart ?t"
  proof -
    show ?thesis using inv fresh by (auto simp: lock_inv_def guards_apart_def who)
  qed
  ultimately show ?thesis by (simp add: lock_inv_def)
qed

lemma lock_inv_leave:
  assumes inv: "lock_inv s" and p: "g_who s p = Releasing d g"
  shows "lock_inv (lock_leave p d g s)"
proof -
  let ?t = "lock_leave p d g s"
  have d: "g_map s d = Some g" using lock_mapped[OF inv, of p] p by simp
  then have r: "finite (users s d g)" "g_refs s g = int (card (users s d g))"
    using inv by (simp_all add: lock_inv_def refs_count_def)
  have pin: "p \<in> users s d g" using p by (simp add: users_def)
  define n where "n = g_refs s g - 1"
  have "card (users s d g) = Suc (card (users s d g - {p}))" by (rule card.remove[OF r(1) pin])
  then have n: "n = int (card (users s d g - {p}))" using r(2) by (simp add: n_def)
  have n0: "n = 0 \<longleftrightarrow> users s d g - {p} = {}" using n r(1) by simp
  have who: "g_who ?t q = (if q = p then Away else g_who s q)" "g_next ?t = g_next s"
    "g_map ?t = (if n = 0 then (g_map s)(d := None) else g_map s)" "g_refs ?t = (g_refs s)(g := n)" for q
    by (simp_all add: lock_leave_def Let_def n_def)
  have users: "users ?t e h = (if e = d \<and> h = g then users s e h - {p} else users s e h)" for e h
    using p by (auto simp: users_def who)
  have "one_holder ?t" using inv by (auto simp: lock_inv_def one_holder_def who)
  moreover have "users_mapped ?t"
  proof (unfold users_mapped_def, intro allI impI)
    fix q e h assume "on_guard (g_who ?t q) e h"
    then have q: "q \<noteq> p" "on_guard (g_who s q) e h" by (simp_all add: who split: if_splits)
    then have e: "g_map s e = Some h" using inv by (simp add: lock_inv_def users_mapped_def)
    have "n \<noteq> 0" if "e = d"
    proof -
      have "h = g" using that e d by simp
      then have "q \<in> users s d g - {p}" using q that by (simp add: users_def)
      then show ?thesis using n0 by blast
    qed
    then show "g_map ?t e = Some h" using e by (auto simp: who)
  qed
  moreover have "refs_count ?t"
  proof (unfold refs_count_def, intro allI impI)
    fix e h assume "g_map ?t e = Some h"
    then have e: "g_map s e = Some h" "e = d \<Longrightarrow> n \<noteq> 0" by (auto simp: who split: if_splits)
    have h: "h = g \<longleftrightarrow> e = d" using e d inv by (auto simp: lock_inv_def guards_apart_def)
    have s: "h < g_next s \<and> finite (users s e h) \<and> users s e h \<noteq> {} \<and> g_refs s h = int (card (users s e h))"
      using inv e by (simp add: lock_inv_def refs_count_def)
    show "h < g_next ?t \<and> finite (users ?t e h) \<and> users ?t e h \<noteq> {} \<and> g_refs ?t h = int (card (users ?t e h))"
    proof (cases "e = d")
      case True
      then show ?thesis using s h e(2) n n0 by (simp add: who users)
    next
      case False
      then show ?thesis using s h by (simp add: who users)
    qed
  qed
  moreover have "guards_apart ?t" using inv by (auto simp: lock_inv_def guards_apart_def who)
  ultimately show ?thesis by (simp add: lock_inv_def)
qed

lemma lock_inv_step: "lock_step s t \<Longrightarrow> lock_inv s \<Longrightarrow> lock_inv t"
proof (induction rule: lock_step.induct)
  case (1 s p d)
  then show ?case by (simp add: lock_inv_enter)
next
  case (2 s p d g)
  then show ?case unfolding lock_take_def by (intro lock_inv_move) auto
next
  case (3 s p d g)
  then show ?case unfolding lock_free_def by (intro lock_inv_move) auto
next
  case (4 s p d g)
  then show ?case by (simp add: lock_inv_leave)
qed

definition lock_init :: "guards \<Rightarrow> bool" where
  "lock_init s \<longleftrightarrow> s = no_guards"

lemma lock_inv_init: "lock_inv no_guards"
  by (simp add: lock_inv_def no_guards_def one_holder_def users_mapped_def refs_count_def guards_apart_def)

interpretation dest_lock: step_invariant lock_init lock_step lock_inv
  by unfold_locales (auto simp: lock_init_def lock_inv_init intro: lock_inv_step)

text \<open>
  C30. Of the fetches of one destination at most one is past \<open>lockDest\<close>, although guards are made and
  dropped as fetches come and go; and the table holds a guard exactly for the destinations some
  fetch is at, so it is empty when none is.
\<close>

theorem dest_lock_exclusive:
  assumes "reachable lock_init lock_step s"
  shows "(g_who s p = Holding d g \<and> g_who s q = Holding d h \<longrightarrow> p = q) \<and>
    (g_map s d \<noteq> None \<longleftrightarrow> (\<exists>p g. on_guard (g_who s p) d g))"
proof -
  have inv: "lock_inv s" by (rule dest_lock.reachable_inv[OF assms])
  have "p = q" if "g_who s p = Holding d g" "g_who s q = Holding d h"
  proof -
    have "g_map s d = Some g" "g_map s d = Some h"
      using lock_mapped[OF inv, of p d g] lock_mapped[OF inv, of q d h] that by simp_all
    then have "g = h" by simp
    moreover have "one_holder s" using inv by (simp add: lock_inv_def)
    ultimately show ?thesis using that unfolding one_holder_def by blast
  qed
  moreover have "\<exists>p. on_guard (g_who s p) d x" if "g_map s d = Some x" for x
    using inv that by (auto simp: lock_inv_def refs_count_def users_def)
  moreover have "g_map s d \<noteq> None" if "on_guard (g_who s r) d x" for r x using lock_mapped[OF inv that] by simp
  ultimately show ?thesis by blast
qed

theorem dest_lock_exclusive_witness:
  "g_map (lock_enter 5 ''d'' (lock_take 3 ''d'' 0 (lock_enter 3 ''d'' no_guards))) ''d'' \<noteq> None"
proof -
  let ?a = "lock_enter 3 ''d'' no_guards" and ?b = "lock_take 3 ''d'' 0 (lock_enter 3 ''d'' no_guards)"
  have a: "lock_step no_guards ?a" by (rule lock_step.intros(1)) (simp add: no_guards_def)
  have b: "lock_step ?a ?b"
    by (rule lock_step.intros(2)) (auto simp: lock_enter_def no_guards_def Let_def)
  have c: "lock_step ?b (lock_enter 5 ''d'' ?b)"
    by (rule lock_step.intros(1)) (simp add: lock_take_def lock_enter_def no_guards_def Let_def)
  have "reachable lock_init lock_step no_guards" by (rule reach_init) (simp add: lock_init_def)
  note step = reach_step[of lock_init lock_step]
  have r: "reachable lock_init lock_step (lock_enter 5 ''d'' ?b)"
    by (rule step[OF step[OF step[OF \<open>reachable lock_init lock_step no_guards\<close> a] b] c])
  have "on_guard (g_who (lock_enter 5 ''d'' ?b) 3) ''d'' 0"
    by (simp add: lock_take_def lock_enter_def no_guards_def Let_def)
  then show ?thesis using dest_lock_exclusive[OF r, of 3 "''d''" 0 5 0] by blast
qed

section \<open>Progress\<close>

text \<open>
  \<open>monotoneProgress\<close>: what the wrapped callback is told; \<open>progressWatch\<close>, the outer wrapper: the
  first report, and whether a later one exceeded it.
\<close>

fun monotoneProgress :: "rat \<Rightarrow> rat list \<Rightarrow> rat list" where
  "monotoneProgress hi [] = []"
| "monotoneProgress hi (x # xs) = (let y = (if x < hi then hi else x) in y # monotoneProgress y xs)"

fun progressWatch :: "rat \<times> bool \<Rightarrow> rat list \<Rightarrow> rat \<times> bool" where
  "progressWatch s [] = s"
| "progressWatch (first, moved) (x # xs) =
     progressWatch (if first < 0 then (x, moved) else (first, moved \<or> first < x)) xs"

lemma monotone_bounds:
  "sorted (monotoneProgress hi xs) \<and> length (monotoneProgress hi xs) = length xs \<and>
   (\<forall>y \<in> set (monotoneProgress hi xs). hi \<le> y) \<and>
   (\<forall>i < length xs. xs ! i \<le> monotoneProgress hi xs ! i \<and> monotoneProgress hi xs ! i \<in> insert hi (set (take (Suc i) xs)))"
proof (induction hi xs rule: monotoneProgress.induct)
  case (2 hi x xs)
  let ?y = "if x < hi then hi else x"
  note IH = 2[OF refl]
  have y: "hi \<le> ?y" by simp
  have "\<forall>i < length (x # xs). (x # xs) ! i \<le> monotoneProgress hi (x # xs) ! i \<and>
      monotoneProgress hi (x # xs) ! i \<in> insert hi (set (take (Suc i) (x # xs)))"
  proof (intro allI impI)
    fix i assume i: "i < length (x # xs)"
    show "(x # xs) ! i \<le> monotoneProgress hi (x # xs) ! i \<and>
      monotoneProgress hi (x # xs) ! i \<in> insert hi (set (take (Suc i) (x # xs)))"
    proof (cases i)
      case 0
      then show ?thesis by (simp add: Let_def)
    next
      case (Suc j)
      then have "xs ! j \<le> monotoneProgress ?y xs ! j \<and> monotoneProgress ?y xs ! j \<in> insert ?y (set (take (Suc j) xs))"
        using IH i by simp
      then show ?thesis using Suc by (auto simp: Let_def split: if_splits)
    qed
  qed
  moreover have "sorted (monotoneProgress hi (x # xs))" using IH by (simp add: Let_def)
  moreover have "\<forall>z \<in> set (monotoneProgress hi (x # xs)). hi \<le> z"
    using IH y by (auto simp: Let_def intro: order_trans)
  moreover have "length (monotoneProgress hi (x # xs)) = length (x # xs)" using IH by (simp add: Let_def)
  ultimately show ?case by blast
qed simp

lemma progressWatch_first:
  "0 \<le> first \<Longrightarrow> progressWatch (first, moved) xs = (first, moved \<or> list_ex (\<lambda>x. first < x) xs)"
  by (induction xs arbitrary: moved) auto

text \<open>
  The bar one attempt shows never runs backwards: each report is at least the one it stands for, and
  is one the attempt made; and the attempt counts as moved exactly when a report exceeds its
  first, so what a resume starts with is no progress.
\<close>

theorem progress_monotone:
  assumes "0 \<le> x"
  shows "sorted (monotoneProgress (-1) (x # xs)) \<and> length (monotoneProgress (-1) (x # xs)) = Suc (length xs) \<and>
    list_all (\<lambda>i. (x # xs) ! i \<le> monotoneProgress (-1) (x # xs) ! i \<and>
       monotoneProgress (-1) (x # xs) ! i \<in> set (take (Suc i) (x # xs))) [0..<Suc (length xs)] \<and>
    progressWatch (-1, False) (x # xs) = (x, list_ex (\<lambda>y. x < y) xs)"
proof -
  have m: "monotoneProgress (-1) (x # xs) = x # monotoneProgress x xs" using assms by simp
  have "progressWatch (-1, False) (x # xs) = (x, list_ex (\<lambda>y. x < y) xs)"
    using progressWatch_first[OF assms, of False xs] by simp
  moreover have "(x # xs) ! i \<le> (x # monotoneProgress x xs) ! i \<and>
      (x # monotoneProgress x xs) ! i \<in> set (take (Suc i) (x # xs))" if "i < Suc (length xs)" for i
    using monotone_bounds[of x xs] that by (cases i) auto
  moreover have "sorted (x # monotoneProgress x xs)" using monotone_bounds[of x xs] by simp
  ultimately show ?thesis using monotone_bounds[of x xs] unfolding m by (simp add: list_all_iff del: upt_Suc)
qed

theorem progress_monotone_witness:
  "monotoneProgress (-1) [40, 99, 3, 50] = [40, 99, 99, 99] \<and> sorted (monotoneProgress (-1) [40, 99, 3, 50])"
  using progress_monotone[of 40 "[99, 3, 50]"] by simp

section \<open>The root fetch's budget\<close>

definition rootLibp2pTimeout :: nanos where
  "rootLibp2pTimeout = seconds 30"

definition rootNoPeersGrace :: nanos where
  "rootNoPeersGrace = seconds 5"

text \<open>A bounded caller's budget: what is left until its deadline.\<close>

definition libTimeout :: "nanos option \<Rightarrow> nanos" where
  "libTimeout left =
     (case left of
        None \<Rightarrow> rootLibp2pTimeout
      | Some r \<Rightarrow> if r div 2 < rootLibp2pTimeout then r div 2 else rootLibp2pTimeout)"

text \<open>The poller, every 250 ms: a cancel ends both phases, no peers for the grace ends the first.\<close>

datatype poll_act = Poll_on | Stop_libp2p | Stop_both

definition poll_root :: "nanos \<Rightarrow> bool \<Rightarrow> nat \<Rightarrow> nanos option \<Rightarrow> poll_act \<times> nanos option" where
  "poll_root now cancelled peers since =
     (if cancelled then (Stop_both, since)
      else if peers = 0
      then (case since of
              None \<Rightarrow> (Poll_on, Some now)
            | Some t \<Rightarrow> (if now - t \<ge> rootNoPeersGrace then Stop_libp2p else Poll_on, since))
      else (Poll_on, None))"

fun poll_run :: "(nanos \<times> nat) list \<Rightarrow> nanos option \<Rightarrow> poll_act" where
  "poll_run [] since = Poll_on"
| "poll_run ((now, peers) # ps) since =
     (case poll_root now False peers since of
        (Poll_on, since') \<Rightarrow> poll_run ps since'
      | (a, since') \<Rightarrow> a)"

definition getRoot ::
  "fetch_error + 'n \<Rightarrow> bool \<Rightarrow> fetch_error option \<Rightarrow> fetch_error + 'n \<Rightarrow> fetch_error + 'n" where
  "getRoot lib_res has_dht gw_err local_res =
     (case lib_res of
        Inr nd \<Rightarrow> Inr nd
      | Inl e \<Rightarrow>
          if isMissingFile (Some e) then Inl Missing_files
          else if \<not> has_dht then Inl e
          else if gw_err \<noteq> None then Inl e
          else local_res)"

lemma poll_run_peers: "list_all (\<lambda>(now, peers). peers > 0) ps \<Longrightarrow> poll_run ps None = Poll_on"
  by (induction ps) (auto simp: poll_root_def)


text \<open>A stretch of polls with no peer, at its end long enough.\<close>

definition dry_stretch :: "nanos \<Rightarrow> (nanos \<times> nat) list \<Rightarrow> bool" where
  "dry_stretch start us \<longleftrightarrow> us \<noteq> [] \<and> list_all (\<lambda>(now, peers). peers = 0) us \<and> fst (last us) - start \<ge> rootNoPeersGrace"

lemma poll_run_stops:
  "poll_run ps since = Stop_libp2p \<Longrightarrow>
     (\<exists>us vs. ps = us @ vs \<and> since \<noteq> None \<and> dry_stretch (the since) us) \<or>
     (\<exists>pre us vs. ps = pre @ us @ vs \<and> dry_stretch (fst (hd us)) us)"
proof (induction ps since rule: poll_run.induct)
  case (2 now peers ps since)
  show ?case
  proof (cases "peers = 0")
    case False
    then have "poll_run ps None = Stop_libp2p" using 2(2) by (simp add: poll_root_def)
    then obtain pre us vs where u: "ps = pre @ us @ vs" "dry_stretch (fst (hd us)) us"
      using 2(1) False by (auto simp: poll_root_def)
    from u(1) have "(now, peers) # ps = ((now, peers) # pre) @ us @ vs" by simp
    with u(2) show ?thesis by blast
  next
    case True
    show ?thesis
    proof (cases since)
      case None
      then have "poll_run ps (Some now) = Stop_libp2p" using 2(2) True by (simp add: poll_root_def)
      then consider us vs where "ps = us @ vs" "dry_stretch now us" |
          pre us vs where "ps = pre @ us @ vs" "dry_stretch (fst (hd us)) us"
        using 2(1) True None by (auto simp: poll_root_def)
      then show ?thesis
      proof cases
        case (1 us vs)
        then have "dry_stretch (fst (hd ((now, peers) # us))) ((now, peers) # us)"
          using True by (simp add: dry_stretch_def)
        moreover have "(now, peers) # ps = [] @ ((now, peers) # us) @ vs" using 1 by simp
        ultimately show ?thesis by blast
      next
        case (2 pre us vs)
        then have "(now, peers) # ps = ((now, peers) # pre) @ us @ vs" by simp
        with 2 show ?thesis by blast
      qed
    next
      case (Some t)
      show ?thesis
      proof (cases "now - t \<ge> rootNoPeersGrace")
        case long: True
        have "dry_stretch t [(now, peers)]" using long True by (simp add: dry_stretch_def)
        then show ?thesis using Some by (intro disjI1 exI[of _ "[(now, peers)]"] exI[of _ ps]) simp
      next
        case False
        then have "poll_run ps (Some t) = Stop_libp2p" using 2(2) True Some by (simp add: poll_root_def)
        then consider us vs where "ps = us @ vs" "dry_stretch t us" |
            pre us vs where "ps = pre @ us @ vs" "dry_stretch (fst (hd us)) us"
          using 2(1) True Some False by (auto simp: poll_root_def)
        then show ?thesis
        proof cases
          case (1 us vs)
          then have "dry_stretch t ((now, peers) # us)" using True by (auto simp: dry_stretch_def)
          then show ?thesis using 1 Some by (intro disjI1 exI[of _ "(now, peers) # us"] exI[of _ vs]) simp
        next
          case (2 pre us vs)
          then have "(now, peers) # ps = ((now, peers) # pre) @ us @ vs" by simp
          with 2 show ?thesis by blast
        qed
      qed
    qed
  qed
qed simp

text \<open>
  The libp2p attempt gets at most 30 s, and of a bounded caller at most half of what is left, so
  the gateways keep the other half; it is ended early only after a stretch of polls, as long as
  the grace, in which the node had no peer; and its error is what the caller sees unless a
  gateway delivered.
\<close>

theorem root_budget:
  "libTimeout left \<le> rootLibp2pTimeout \<and>
   (case left of None \<Rightarrow> True | Some r \<Rightarrow> 2 * libTimeout left \<le> r) \<and>
   (poll_run ps None = Stop_libp2p \<longrightarrow> (\<exists>pre us vs. ps = pre @ us @ vs \<and> dry_stretch (fst (hd us)) us)) \<and>
   (getRoot (Inl e) has_dht gw_err local_res \<noteq> Inl (if isMissingFile (Some e) then Missing_files else e) \<longrightarrow>
      has_dht \<and> gw_err = None)"
  using poll_run_stops[of ps None] by (auto simp: libTimeout_def getRoot_def split: option.splits)

theorem root_budget_witness:
  "\<exists>pre us vs. [(0, 3), (seconds 1, 0), (seconds 4, 0), (seconds 6, 0)] = pre @ us @ vs \<and> dry_stretch (fst (hd us)) us"
proof -
  have "poll_run [(0, 3), (seconds 1, 0), (seconds 4, 0), (seconds 6, 0)] None = Stop_libp2p"
    by (simp add: poll_root_def rootNoPeersGrace_def)
  then show ?thesis
    using root_budget[where ps = "[(0, 3), (seconds 1, 0), (seconds 4, 0), (seconds 6, 0)]"] by blast
qed

section \<open>A folder fetch\<close>

definition maxDirBytes :: int where
  "maxDirBytes = 2 ^ 30"

datatype entry_kind = Is_dir | Is_regular | Is_other

datatype folder_error = Walk_error | Not_plain string | Past_bound

text \<open>The walk of the landed tree: path, kind, size when \<open>Info\<close> gives it, and the walk's own error.\<close>

type_synonym walk_entry = "string \<times> entry_kind \<times> int option \<times> bool"

fun checkLandedFolder :: "walk_entry list \<Rightarrow> int \<Rightarrow> folder_error option" where
  "checkLandedFolder [] tot = None"
| "checkLandedFolder ((p, k, sz, err) # es) tot =
     (if err then Some Walk_error
      else if k = Is_other then Some (Not_plain p)
      else case sz of
             None \<Rightarrow> checkLandedFolder es tot
           | Some n \<Rightarrow>
               if k = Is_dir then checkLandedFolder es tot
               else if tot + n > maxDirBytes then Some Past_bound
               else checkLandedFolder es (tot + n))"

text \<open>\<open>dirSize\<close>: the files' sizes; what cannot be read counts nothing.\<close>

definition dirSize :: "walk_entry list \<Rightarrow> int" where
  "dirSize es = sum_list (map (\<lambda>(p, k, sz, err). if err \<or> k = Is_dir then 0 else (case sz of None \<Rightarrow> 0 | Some n \<Rightarrow> n)) es)"

text \<open>The poller: too much on disk, no growth for the stall timeout, else a report.\<close>

definition stallTimeout :: nanos where
  "stallTimeout = seconds 20"

datatype dir_act = Dir_on | Dir_oversize | Dir_stalled

definition dir_poll :: "nanos \<Rightarrow> int \<Rightarrow> int \<times> nanos \<Rightarrow> dir_act \<times> (int \<times> nanos)" where
  "dir_poll now sz st =
     (case st of (last_size, lastGrow) \<Rightarrow>
        if sz > maxDirBytes then (Dir_oversize, st)
        else if sz \<noteq> last_size then (Dir_on, (sz, now))
        else if now - lastGrow > stallTimeout then (Dir_stalled, st)
        else (Dir_on, st))"

record folder_site =
  fo_dest :: "walk_entry list option"
  fo_tmp :: "walk_entry list option"
  fo_pinned :: bool
  fo_announced :: bool

text \<open>
  One attempt once the root is got: the declared size, how the poller ended the stream, the error
  of the writing, what landed, and the faults of replacing the destination (\<open>leftover\<close> is what a
  removal that failed left of it).
\<close>

definition fetchDirOnce ::
  "int \<Rightarrow> dir_act \<Rightarrow> fetch_error option \<Rightarrow> walk_entry list \<Rightarrow> walk_entry list option option \<Rightarrow> bool \<Rightarrow> bool \<Rightarrow> folder_site \<Rightarrow>
   fetch_error option \<times> folder_site" where
  "fetchDirOnce declared ended werr tree leftover rename_ok pin_ok s =
     (let clean = s\<lparr>fo_tmp := None\<rparr> in
      if declared > maxDirBytes then (Some Local_fatal, clean)
      else (case werr of
              Some e \<Rightarrow> (Some (if ended = Dir_oversize then Local_fatal else if ended = Dir_stalled then Transient else e), clean)
            | None \<Rightarrow>
                (case checkLandedFolder tree 0 of
                   Some e \<Rightarrow> (if ended = Dir_oversize then Some Local_fatal
                              else if e = Walk_error then Some Transient else Some Local_fatal, clean)
                 | None \<Rightarrow>
                     case leftover of
                       Some rest \<Rightarrow> (Some Local_fatal, clean\<lparr>fo_dest := rest\<rparr>)
                     | None \<Rightarrow>
                     if \<not> rename_ok then (Some Local_fatal, clean\<lparr>fo_dest := None\<rparr>)
                     else (None, clean\<lparr>fo_dest := Some tree, fo_pinned := fo_pinned s \<or> pin_ok, fo_announced := True\<rparr>))))"

lemma checkLanded_plain:
  "checkLandedFolder es tot = None \<Longrightarrow> list_all (\<lambda>(p, k, sz, err). \<not> err \<and> k \<noteq> Is_other) es"
  by (induction es tot rule: checkLandedFolder.induct) (auto split: if_splits option.splits)

lemma checkLanded_bound:
  "checkLandedFolder es tot = None \<Longrightarrow> tot \<le> maxDirBytes \<Longrightarrow> tot + dirSize es \<le> maxDirBytes"
  by (induction es tot rule: checkLandedFolder.induct)
    (auto simp: dirSize_def split: if_splits option.splits)



end
