(* ===== verification/Ipns.thy ===== *)
theory Ipns
  imports Prelude
begin

text \<open>
  The mutable layer (\<open>ipns.go\<close>): the sequence high-water of every name, kept in a file of the
  repository, which a publish must exceed and a resolved record must reach; resolving through the
  DHT and then the gateways; the republished value; and the import of another identity. The
  signed record is a value of any type, with the library's decoding and validation as the
  functions of \<open>ipns_lib\<close>; the outcome of every network call and file write is an argument.
\<close>

section \<open>Records\<close>

record 'r ipns_lib =
  unmarshal :: "bytes \<Rightarrow> 'r option"
  valid_for :: "string \<Rightarrow> 'r \<Rightarrow> bool"
  value_of :: "'r \<Rightarrow> string option"
  seq_of :: "'r \<Rightarrow> 64 word option"

text \<open>A record that is valid for the name and has a value; its sequence, 0 when it has none.\<close>

definition read_record :: "'r ipns_lib \<Rightarrow> string \<Rightarrow> bytes \<Rightarrow> (string \<times> 64 word) option" where
  "read_record L nm body =
     (case unmarshal L body of
        None \<Rightarrow> None
      | Some r \<Rightarrow>
          if \<not> valid_for L nm r then None
          else (case value_of L r of
                  None \<Rightarrow> None
                | Some v \<Rightarrow> Some (v, case seq_of L r of None \<Rightarrow> 0 | Some q \<Rightarrow> q)))"

datatype http_reply = Http_error | Http_reply nat "bytes option"

fun ipnsRecordOverHTTP :: "'r ipns_lib \<Rightarrow> string \<Rightarrow> http_reply list \<Rightarrow> (string \<times> 64 word) option" where
  "ipnsRecordOverHTTP L nm [] = None"
| "ipnsRecordOverHTTP L nm (Http_error # gs) = ipnsRecordOverHTTP L nm gs"
| "ipnsRecordOverHTTP L nm (Http_reply status body # gs) =
     (case body of
        None \<Rightarrow> ipnsRecordOverHTTP L nm gs
      | Some b \<Rightarrow>
          if status \<noteq> 200 then ipnsRecordOverHTTP L nm gs
          else (case read_record L nm b of None \<Rightarrow> ipnsRecordOverHTTP L nm gs | Some x \<Rightarrow> Some x))"

text \<open>The sequence of the live record: from the DHT, where an unreadable sequence does not count, else a gateway.\<close>

definition liveRecordSeq :: "'r ipns_lib \<Rightarrow> string \<Rightarrow> bytes option \<Rightarrow> http_reply list \<Rightarrow> 64 word option" where
  "liveRecordSeq L nm dht gs =
     (case (case dht of
              None \<Rightarrow> None
            | Some b \<Rightarrow> (case unmarshal L b of
                         None \<Rightarrow> None
                       | Some r \<Rightarrow> if valid_for L nm r then seq_of L r else None)) of
        Some q \<Rightarrow> Some q
      | None \<Rightarrow> map_option snd (ipnsRecordOverHTTP L nm gs))"

definition authentic :: "'r ipns_lib \<Rightarrow> string \<Rightarrow> string \<Rightarrow> bool" where
  "authentic L nm v \<longleftrightarrow> (\<exists>r. valid_for L nm r \<and> value_of L r = Some v)"

lemma read_record_authentic: "read_record L nm b = Some (v, q) \<Longrightarrow> authentic L nm v"
  by (auto simp: read_record_def authentic_def split: option.splits if_splits)

lemma http_record_authentic: "ipnsRecordOverHTTP L nm gs = Some (v, q) \<Longrightarrow> authentic L nm v"
  by (induction L nm gs rule: ipnsRecordOverHTTP.induct)
    (auto split: option.splits if_splits dest: read_record_authentic)

section \<open>The high-water file\<close>

text \<open>
  The map as the file reads: \<open>None\<close> when it is missing or does not parse, which is the empty map.
  The file is written in place: a write is refused, or complete, or torn by a crash.
\<close>

record ipns =
  ip_seq :: "(string \<Rightarrow> 64 word) option"
  ip_current :: string
  ip_self :: "string option"

datatype write_fate = Wrote | Not_opened | Torn

definition ipnsLoadSeq :: "ipns \<Rightarrow> string \<Rightarrow> 64 word" where
  "ipnsLoadSeq s = (case ip_seq s of None \<Rightarrow> (\<lambda>nm. 0) | Some m \<Rightarrow> m)"

definition ipnsSeenSeq :: "string \<Rightarrow> ipns \<Rightarrow> 64 word" where
  "ipnsSeenSeq nm s = ipnsLoadSeq s nm"

definition ipnsRecordSeq :: "write_fate \<Rightarrow> string \<Rightarrow> 64 word \<Rightarrow> ipns \<Rightarrow> ipns" where
  "ipnsRecordSeq fate nm q s =
     (let m = ipnsLoadSeq s in
      if q > m nm
      then (case fate of
              Wrote \<Rightarrow> s\<lparr>ip_seq := Some (m(nm := q))\<rparr>
            | Not_opened \<Rightarrow> s
            | Torn \<Rightarrow> s\<lparr>ip_seq := None\<rparr>)
      else s)"

text \<open>The check and the record are two critical sections.\<close>

definition accept_check :: "string \<Rightarrow> 64 word \<Rightarrow> ipns \<Rightarrow> bool" where
  "accept_check nm q s \<longleftrightarrow> \<not> q < ipnsSeenSeq nm s"

definition ipnsAcceptSeq :: "write_fate \<Rightarrow> string \<Rightarrow> 64 word \<Rightarrow> ipns \<Rightarrow> bool \<times> ipns" where
  "ipnsAcceptSeq fate nm q s =
     (if \<not> accept_check nm q s then (False, s) else (True, ipnsRecordSeq fate nm q s))"

section \<open>Resolving and publishing\<close>

datatype resolve_out = Resolved string "64 word" | Bad_name | Rollback | No_record

definition accept_out :: "write_fate \<Rightarrow> string \<Rightarrow> string \<times> 64 word \<Rightarrow> ipns \<Rightarrow> resolve_out \<times> ipns" where
  "accept_out fate nm x s =
     (case x of (v, q) \<Rightarrow>
        (case ipnsAcceptSeq fate nm q s of (ok, t) \<Rightarrow> (if ok then Resolved v q else Rollback, t)))"

definition ipnsResolve ::
  "'r ipns_lib \<Rightarrow> (string \<Rightarrow> string option) \<Rightarrow> string \<Rightarrow> bytes option \<Rightarrow> http_reply list \<Rightarrow> write_fate \<Rightarrow> ipns \<Rightarrow>
   resolve_out \<times> ipns" where
  "ipnsResolve L parse_name name dht gs fate s =
     (case parse_name name of
        None \<Rightarrow> (Bad_name, s)
      | Some nm \<Rightarrow>
          (case (case dht of None \<Rightarrow> None | Some b \<Rightarrow> read_record L nm b) of
             Some x \<Rightarrow> accept_out fate nm x s
           | None \<Rightarrow>
               (case ipnsRecordOverHTTP L nm gs of
                  None \<Rightarrow> (No_record, s)
                | Some x \<Rightarrow> accept_out fate nm x s)))"

definition ipnsLoadSelf :: "ipns \<Rightarrow> ipns" where
  "ipnsLoadSelf s = (case ip_self s of None \<Rightarrow> s | Some c \<Rightarrow> if c = '''' then s else s\<lparr>ip_current := c\<rparr>)"

definition ipnsStoreSelf :: "bool \<Rightarrow> string \<Rightarrow> ipns \<Rightarrow> ipns" where
  "ipnsStoreSelf write_ok c s = s\<lparr>ip_current := c, ip_self := (if write_ok then Some c else ip_self s)\<rparr>"

datatype publish_out = Published "64 word" | Not_ready | Bad_cid | Put_failed

text \<open>\<open>decode\<close> is the CID parser with the text it prints; \<open>put_ok\<close>: the record was signed and the DHT took it.\<close>

definition ipnsPublish ::
  "'r ipns_lib \<Rightarrow> string \<Rightarrow> (string \<Rightarrow> string option) \<Rightarrow> bool \<Rightarrow> string \<Rightarrow> bytes option \<Rightarrow> http_reply list \<Rightarrow> bool \<Rightarrow>
   write_fate \<Rightarrow> bool \<Rightarrow> ipns \<Rightarrow> publish_out \<times> ipns" where
  "ipnsPublish L own decode ready cidtext dht gs put_ok fate self_ok s =
     (if \<not> ready then (Not_ready, s)
      else case decode cidtext of
        None \<Rightarrow> (Bad_cid, s)
      | Some c \<Rightarrow>
          (let seen = ipnsSeenSeq own s;
               q = (case liveRecordSeq L own dht gs of None \<Rightarrow> seen | Some live \<Rightarrow> if live > seen then live else seen) + 1 in
           if \<not> put_ok then (Put_failed, s)
           else (Published q, ipnsStoreSelf self_ok c (ipnsRecordSeq fate own q s))))"

text \<open>One round of the republish loop.\<close>

definition republish ::
  "'r ipns_lib \<Rightarrow> string \<Rightarrow> (string \<Rightarrow> string option) \<Rightarrow> bool \<Rightarrow> bytes option \<Rightarrow> http_reply list \<Rightarrow> bool \<Rightarrow>
   write_fate \<Rightarrow> bool \<Rightarrow> ipns \<Rightarrow> publish_out option \<times> ipns" where
  "republish L own decode ready dht gs put_ok fate self_ok s =
     (if ip_current s = '''' then (None, s)
      else apfst Some (ipnsPublish L own decode ready (ip_current s) dht gs put_ok fate self_ok s))"

section \<open>A run\<close>

datatype ipns_op =
    Op_resolve string "bytes option" "http_reply list" write_fate
  | Op_republish bool "bytes option" "http_reply list" bool write_fate bool
  | Op_restart

datatype ipns_event = Ev_resolved string string "64 word" | Ev_published string "64 word"

fun ev_name :: "ipns_event \<Rightarrow> string" where
  "ev_name (Ev_resolved nm v q) = nm"
| "ev_name (Ev_published nm q) = nm"

fun ev_seq :: "ipns_event \<Rightarrow> 64 word" where
  "ev_seq (Ev_resolved nm v q) = q"
| "ev_seq (Ev_published nm q) = q"

fun ev_publishes :: "ipns_event \<Rightarrow> bool" where
  "ev_publishes (Ev_resolved nm v q) = False"
| "ev_publishes (Ev_published nm q) = True"

fun ipns_do :: "'r ipns_lib \<Rightarrow> (string \<Rightarrow> string option) \<Rightarrow> string \<Rightarrow> (string \<Rightarrow> string option) \<Rightarrow> ipns_op \<Rightarrow> ipns \<Rightarrow>
    ipns_event list \<times> ipns" where
  "ipns_do L parse_name own decode (Op_resolve name dht gs fate) s =
     (case ipnsResolve L parse_name name dht gs fate s of
        (Resolved v q, t) \<Rightarrow> ([Ev_resolved (the (parse_name name)) v q], t)
      | (r, t) \<Rightarrow> ([], t))"
| "ipns_do L parse_name own decode (Op_republish ready dht gs put_ok fate self_ok) s =
     (case republish L own decode ready dht gs put_ok fate self_ok s of
        (Some (Published q), t) \<Rightarrow> ([Ev_published own q], t)
      | (r, t) \<Rightarrow> ([], t))"
| "ipns_do L parse_name own decode Op_restart s = ([], ipnsLoadSelf (s\<lparr>ip_current := ''''\<rparr>))"

fun ipns_run :: "'r ipns_lib \<Rightarrow> (string \<Rightarrow> string option) \<Rightarrow> string \<Rightarrow> (string \<Rightarrow> string option) \<Rightarrow> ipns_op list \<Rightarrow> ipns \<Rightarrow>
    ipns_event list \<times> ipns" where
  "ipns_run L parse_name own decode [] s = ([], s)"
| "ipns_run L parse_name own decode (x # xs) s =
     (case ipns_do L parse_name own decode x s of (es, t) \<Rightarrow>
        (case ipns_run L parse_name own decode xs t of (fs, u) \<Rightarrow> (es @ fs, u)))"

fun writes_well :: "ipns_op \<Rightarrow> bool" where
  "writes_well (Op_resolve name dht gs fate) = (fate = Wrote)"
| "writes_well (Op_republish ready dht gs put_ok fate self_ok) = (fate = Wrote)"
| "writes_well Op_restart = True"

lemma seen_record:
  "ipnsSeenSeq nm (ipnsRecordSeq Wrote nm' q s) = (if nm = nm' then max (ipnsSeenSeq nm s) q else ipnsSeenSeq nm s)"
  by (auto simp: ipnsSeenSeq_def ipnsRecordSeq_def ipnsLoadSeq_def Let_def max_def split: option.splits)

lemma seen_self [simp]:
  "ipnsSeenSeq nm (ipnsStoreSelf ok c s) = ipnsSeenSeq nm s"
  "ipnsSeenSeq nm (ipnsLoadSelf s) = ipnsSeenSeq nm s"
  "ipnsSeenSeq nm (s\<lparr>ip_current := c\<rparr>) = ipnsSeenSeq nm s"
  by (simp_all add: ipnsSeenSeq_def ipnsLoadSeq_def ipnsStoreSelf_def ipnsLoadSelf_def split: option.split)

lemma accept_out_spec:
  assumes "accept_out Wrote nm (v', q') s = (Resolved v q, t)"
  shows "v = v' \<and> ipnsSeenSeq nm s \<le> q \<and> ipnsSeenSeq nm t = q \<and>
    (n \<noteq> nm \<longrightarrow> ipnsSeenSeq n t = ipnsSeenSeq n s)"
  using assms by (auto simp: accept_out_def ipnsAcceptSeq_def accept_check_def seen_record split: if_splits)

lemma accept_out_refused: "accept_out fate nm x s = (r, t) \<Longrightarrow> (\<nexists>v q. r = Resolved v q) \<Longrightarrow> t = s"
  by (auto simp: accept_out_def ipnsAcceptSeq_def split: prod.splits if_splits)

text \<open>One operation: the marks only rise, and its event is at or above the mark before it and at the one after.\<close>

definition op_ok :: "'r ipns_lib \<Rightarrow> ipns \<Rightarrow> ipns_event \<Rightarrow> ipns \<Rightarrow> bool" where
  "op_ok L s e t \<longleftrightarrow>
     ipnsSeenSeq (ev_name e) s \<le> ev_seq e \<and> ipnsSeenSeq (ev_name e) t = ev_seq e \<and>
     (if ev_publishes e then ipnsSeenSeq (ev_name e) s < ev_seq e
      else (\<exists>v q. e = Ev_resolved (ev_name e) v q \<and> authentic L (ev_name e) v))"

lemma resolve_spec:
  assumes "ipnsResolve L parse_name name dht gs Wrote s = (Resolved v q, t)"
  shows "op_ok L s (Ev_resolved (the (parse_name name)) v q) t \<and> ipnsSeenSeq n s \<le> ipnsSeenSeq n t"
proof -
  obtain nm where nm: "parse_name name = Some nm" using assms by (cases "parse_name name") (simp_all add: ipnsResolve_def)
  obtain v' q' where x: "accept_out Wrote nm (v', q') s = (Resolved v q, t)" "authentic L nm v'"
  proof (cases "case dht of None \<Rightarrow> None | Some b \<Rightarrow> read_record L nm b")
    case None
    then obtain x where x: "ipnsRecordOverHTTP L nm gs = Some x" using assms nm
      by (cases "ipnsRecordOverHTTP L nm gs") (simp_all add: ipnsResolve_def)
    then show thesis using assms nm None that[of "fst x" "snd x"] http_record_authentic[of L nm gs "fst x" "snd x"]
      by (simp add: ipnsResolve_def)
  next
    case (Some x)
    then have "authentic L nm (fst x)"
      by (cases dht; cases x) (auto dest: read_record_authentic)
    then show thesis using assms nm Some that[of "fst x" "snd x"] by (simp add: ipnsResolve_def)
  qed
  then show ?thesis using accept_out_spec[OF x(1), of n] nm by (auto simp: op_ok_def)
qed

lemma resolve_refused:
  "ipnsResolve L parse_name name dht gs fate s = (r, t) \<Longrightarrow> (\<nexists>v q. r = Resolved v q) \<Longrightarrow> t = s"
  by (auto simp: ipnsResolve_def dest: accept_out_refused split: option.splits)

lemma word_inc_less: "x + 1 \<noteq> 0 \<Longrightarrow> x < x + (1 :: 64 word)"
  using eq_neg_iff_add_eq_0[of x 1] by (auto simp flip: not_le simp: inc_less_eq_self_iff_eq)

lemma publish_spec:
  assumes "ipnsPublish L own decode ready c dht gs put_ok Wrote self_ok s = (Published q, t)" "q \<noteq> 0"
  shows "op_ok L s (Ev_published own q) t \<and> ipnsSeenSeq n s \<le> ipnsSeenSeq n t"
proof -
  define m where "m = (case liveRecordSeq L own dht gs of None \<Rightarrow> ipnsSeenSeq own s
    | Some live \<Rightarrow> if live > ipnsSeenSeq own s then live else ipnsSeenSeq own s)"
  have "q = m + 1" and t: "\<exists>c' ok. t = ipnsStoreSelf ok c' (ipnsRecordSeq Wrote own q s)"
    using assms(1) by (auto simp: ipnsPublish_def Let_def m_def split: if_splits option.splits)
  moreover have "ipnsSeenSeq own s \<le> m" by (auto simp: m_def split: option.splits)
  ultimately have "ipnsSeenSeq own s < q" using assms(2) word_inc_less[of m] by auto
  then show ?thesis using t by (auto simp: op_ok_def seen_record)
qed

lemma publish_refused:
  "ipnsPublish L own decode ready c dht gs put_ok fate self_ok s = (r, t) \<Longrightarrow> (\<nexists>q. r = Published q) \<Longrightarrow> t = s"
  by (auto simp: ipnsPublish_def Let_def split: if_splits option.splits)

lemma do_spec:
  assumes "ipns_do L parse_name own decode x s = (es, t)" "writes_well x" "Ev_published own 0 \<notin> set es"
  shows "ipnsSeenSeq n s \<le> ipnsSeenSeq n t \<and> (es = [] \<or> (\<exists>e. es = [e] \<and> op_ok L s e t))"
proof (cases x)
  case (Op_resolve name dht gs fate)
  obtain r u where r: "ipnsResolve L parse_name name dht gs fate s = (r, u)" by fastforce
  show ?thesis
  proof (cases "\<exists>v q. r = Resolved v q")
    case True
    then show ?thesis using assms Op_resolve r resolve_spec[of L parse_name name dht gs s] by auto
  next
    case False
    then have "u = s" using resolve_refused[OF r] by simp
    then show ?thesis using assms(1) Op_resolve r False by (cases r) auto
  qed
next
  case (Op_republish ready dht gs put_ok fate self_ok)
  show ?thesis
  proof (cases "ip_current s = ''''")
    case True
    then show ?thesis using assms(1) Op_republish by (auto simp: republish_def)
  next
    case False
    obtain r u where r: "ipnsPublish L own decode ready (ip_current s) dht gs put_ok fate self_ok s = (r, u)" by fastforce
    show ?thesis
    proof (cases "\<exists>q. r = Published q")
      case True
      then obtain q where q: "r = Published q" by blast
      then have "es = [Ev_published own q]" "t = u" using assms(1) Op_republish r False by (auto simp: republish_def)
      then show ?thesis using assms(2,3) Op_republish r q publish_spec[of L own decode ready "ip_current s" dht gs put_ok self_ok s q u n]
        by auto
    next
      case no: False
      then have "u = s" using publish_refused[OF r] by simp
      then show ?thesis using assms(1) Op_republish r False no by (cases r) (auto simp: republish_def)
    qed
  qed
next
  case Op_restart
  then show ?thesis using assms(1) by auto
qed

definition events_of :: "string \<Rightarrow> ipns_event list \<Rightarrow> ipns_event list" where
  "events_of n es = filter (\<lambda>e. ev_name e = n) es"

definition never_back :: "ipns_event \<Rightarrow> ipns_event \<Rightarrow> bool" where
  "never_back a b \<longleftrightarrow> (if ev_publishes b then ev_seq a < ev_seq b else ev_seq a \<le> ev_seq b)"

definition genuine :: "'r ipns_lib \<Rightarrow> ipns_event \<Rightarrow> bool" where
  "genuine L e \<longleftrightarrow> (case e of Ev_resolved n v q \<Rightarrow> authentic L n v | Ev_published n q \<Rightarrow> True)"

lemma op_ok_genuine: "op_ok L s e t \<Longrightarrow> genuine L e"
  by (cases e) (simp_all add: op_ok_def genuine_def)

definition above :: "string \<Rightarrow> 64 word \<Rightarrow> 64 word \<Rightarrow> ipns_event list \<Rightarrow> bool" where
  "above n lo hi es \<longleftrightarrow>
     (\<forall>e \<in> set (events_of n es). ev_seq e \<le> hi \<and> (if ev_publishes e then lo < ev_seq e else lo \<le> ev_seq e))"

lemma above_mono: "above n lo hi es \<Longrightarrow> lo' \<le> lo \<Longrightarrow> above n lo' hi es"
  unfolding above_def by (auto intro: order_trans order_le_less_trans)

lemma events_of_Cons: "events_of n (e # es) = (if ev_name e = n then e # events_of n es else events_of n es)"
  by (simp add: events_of_def)

lemma run_spec:
  "ipns_run L parse_name own decode xs s = (es, t) \<Longrightarrow> list_all writes_well xs \<Longrightarrow> Ev_published own 0 \<notin> set es \<Longrightarrow>
   ipnsSeenSeq n s \<le> ipnsSeenSeq n t \<and> sorted_wrt never_back (events_of n es) \<and> list_all (genuine L) es \<and>
   above n (ipnsSeenSeq n s) (ipnsSeenSeq n t) es"
proof (induction xs arbitrary: s es)
  case Nil
  then show ?case by (simp add: events_of_def above_def)
next
  case (Cons x xs)
  obtain es1 u where u: "ipns_do L parse_name own decode x s = (es1, u)" by fastforce
  obtain es2 where r: "ipns_run L parse_name own decode xs u = (es2, t)" "es = es1 @ es2"
    using Cons.prems(1) u by (auto split: prod.splits)
  have well: "list_all writes_well xs" "writes_well x" "Ev_published own 0 \<notin> set es1" "Ev_published own 0 \<notin> set es2"
    using Cons.prems r by auto
  note IH = Cons.IH[OF r(1) well(1,4)]
  have d: "ipnsSeenSeq n s \<le> ipnsSeenSeq n u" "es1 = [] \<or> (\<exists>e. es1 = [e] \<and> op_ok L s e u)"
    using do_spec[OF u well(2,3), of n] by auto
  have st: "ipnsSeenSeq n s \<le> ipnsSeenSeq n t" using d(1) IH by (blast intro: order_trans)
  have ab: "above n (ipnsSeenSeq n s) (ipnsSeenSeq n t) es2" using IH d(1) above_mono by blast
  from d(2) show ?case
  proof
    assume "es1 = []"
    then show ?thesis using IH st ab r(2) by simp
  next
    assume "\<exists>e. es1 = [e] \<and> op_ok L s e u"
    then obtain e where e: "es1 = [e]" "op_ok L s e u" by blast
    have es: "es = e # es2" using r(2) e(1) by simp
    show ?thesis
    proof (cases "ev_name e = n")
      case True
      have seq: "ipnsSeenSeq n u = ev_seq e" "ipnsSeenSeq n s \<le> ev_seq e" "ev_publishes e \<Longrightarrow> ipnsSeenSeq n s < ev_seq e"
        using e(2) True by (auto simp: op_ok_def split: if_splits)
      have "\<forall>b \<in> set (events_of n es2). never_back e b" using IH seq(1) by (auto simp: never_back_def above_def)
      moreover have "ev_seq e \<le> ipnsSeenSeq n t" using IH seq(1) by simp
      ultimately show ?thesis
        using IH st ab seq(2,3) True op_ok_genuine[OF e(2)] by (simp add: es events_of_Cons above_def)
    next
      case False
      then show ?thesis using IH st ab op_ok_genuine[OF e(2)] by (simp add: es events_of_Cons above_def)
    qed
  qed
qed


definition toy_lib :: "bytes ipns_lib" where
  "toy_lib = \<lparr>unmarshal = Some, valid_for = (\<lambda>nm r. length r = 2 \<and> nm = ''me''), value_of = (\<lambda>r. Some ''v''),
     seq_of = (\<lambda>r. Some (ucast (r ! 0)))\<rparr>"

definition toy_ipns :: ipns where
  "toy_ipns = \<lparr>ip_seq = None, ip_current = '''', ip_self = Some ''c''\<rparr>"

definition toy_ops :: "ipns_op list" where
  "toy_ops = [Op_resolve ''me'' (Some [7, 1]) [] Wrote, Op_resolve ''me'' (Some [5, 1]) [] Wrote, Op_restart,
     Op_resolve ''me'' None [Http_error, Http_reply 200 (Some [6, 1])] Wrote,
     Op_republish True (Some [9, 1]) [] True Wrote True]"


section \<open>What the discipline does not cover\<close>

text \<open>Check and record are two critical sections: of two resolves at once, the older can be delivered last.\<close>

lemma accept_race:
  "let s1 = ipnsRecordSeq Wrote ''me'' 7 toy_ipns; s2 = ipnsRecordSeq Wrote ''me'' 5 s1 in
   accept_check ''me'' 5 toy_ipns \<and> accept_check ''me'' 7 toy_ipns \<and> ipnsSeenSeq ''me'' s1 = 7 \<and> ipnsSeenSeq ''me'' s2 = 7"
  by code_simp

text \<open>The file is written in place: a torn write loses the high-waters of every name.\<close>

lemma torn_write_forgets:
  "let s = snd (ipnsAcceptSeq Wrote ''friend'' 9 toy_ipns); t = snd (ipnsAcceptSeq Torn ''me'' 3 s) in
   ipnsSeenSeq ''friend'' s = 9 \<and> accept_check ''friend'' 1 t"
  by code_simp

text \<open>At the end of the counter a publish wraps to 0, below everything published before.\<close>

lemma publish_wraps:
  "fst (ipnsPublish toy_lib ''me'' Some True ''c'' None [] True Wrote True
     (toy_ipns\<lparr>ip_seq := Some (\<lambda>n. 0xFFFFFFFFFFFFFFFF)\<rparr>)) = Published 0"
  by (simp add: ipnsPublish_def liveRecordSeq_def ipnsSeenSeq_def ipnsLoadSeq_def Let_def)

section \<open>Another identity\<close>

text \<open>
  The identity files: the key, the copy kept of the one before, the staged one. \<open>importIdentity\<close>
  runs these steps in order, once the file it imports has been read and is a key.
\<close>

record identity =
  id_key :: "bytes option"
  id_prev :: "bytes option"
  id_tmp :: "bytes option"
  id_ipns :: ipns

datatype id_step = Save_prev | Stage | Install | Drop_self | Clear_current

fun id_apply :: "bytes \<Rightarrow> bool \<Rightarrow> id_step \<Rightarrow> identity \<Rightarrow> identity" where
  "id_apply b prev_ok Save_prev s =
     (case id_key s of None \<Rightarrow> s | Some old \<Rightarrow> if prev_ok then s\<lparr>id_prev := Some old\<rparr> else s)"
| "id_apply b prev_ok Stage s = s\<lparr>id_tmp := Some b\<rparr>"
| "id_apply b prev_ok Install s = s\<lparr>id_key := id_tmp s, id_tmp := None\<rparr>"
| "id_apply b prev_ok Drop_self s = s\<lparr>id_ipns := (id_ipns s)\<lparr>ip_self := None\<rparr>\<rparr>"
| "id_apply b prev_ok Clear_current s = s\<lparr>id_ipns := (id_ipns s)\<lparr>ip_current := ''''\<rparr>\<rparr>"

definition id_steps :: "id_step list" where
  "id_steps = [Save_prev, Stage, Install, Drop_self, Clear_current]"

definition id_prefix :: "bytes \<Rightarrow> bool \<Rightarrow> nat \<Rightarrow> identity \<Rightarrow> identity" where
  "id_prefix b prev_ok k s = foldl (\<lambda>t x. id_apply b prev_ok x t) s (take k id_steps)"

datatype import_fault = No_import_fault | Bad_key | Fault_stage | Fault_install

definition importIdentity :: "(bytes \<Rightarrow> bool) \<Rightarrow> bytes option \<Rightarrow> bool \<Rightarrow> import_fault \<Rightarrow> identity \<Rightarrow> bool \<times> identity" where
  "importIdentity is_key src prev_ok fault s =
     (case src of
        None \<Rightarrow> (False, s)
      | Some b \<Rightarrow>
          if \<not> is_key b then (False, s)
          else if fault = Fault_stage then (False, id_prefix b prev_ok 1 s)
          else if fault = Fault_install then (False, (id_prefix b prev_ok 2 s)\<lparr>id_tmp := None\<rparr>)
          else (True, id_prefix b prev_ok 5 s))"

definition exportIdentity :: "(bytes \<Rightarrow> bool) \<Rightarrow> identity \<Rightarrow> bytes option" where
  "exportIdentity is_key s = (case id_key s of None \<Rightarrow> None | Some b \<Rightarrow> if is_key b then Some b else None)"

lemma id_prefix_unfold:
  "id_prefix b ok 0 s = s"
  "id_prefix b ok 1 s = id_apply b ok Save_prev s"
  "id_prefix b ok 2 s = id_apply b ok Stage (id_prefix b ok 1 s)"
  "id_prefix b ok 3 s = id_apply b ok Install (id_prefix b ok 2 s)"
  "id_prefix b ok 4 s = id_apply b ok Drop_self (id_prefix b ok 3 s)"
  "id_prefix b ok 5 s = id_apply b ok Clear_current (id_prefix b ok 4 s)"
  by (simp_all add: id_prefix_def id_steps_def numeral_eq_Suc del: id_apply.simps)

lemma id_prefix_exact:
  assumes "id_key s = Some old" "k \<le> 5"
  shows "id_key (id_prefix b True k s) = Some (if k < 3 then old else b)"
    "k \<noteq> 0 \<Longrightarrow> id_prev (id_prefix b True k s) = Some old"
    "ip_seq (id_ipns (id_prefix b True k s)) = ip_seq (id_ipns s)"
    "ip_self (id_ipns (id_prefix b True k s)) = (if k < 4 then ip_self (id_ipns s) else None)"
proof -
  from assms(2) consider "k = 0" | "k = 1" | "k = 2" | "k = 3" | "k = 4" | "k = 5" by linarith
  then show "id_key (id_prefix b True k s) = Some (if k < 3 then old else b)"
    "k \<noteq> 0 \<Longrightarrow> id_prev (id_prefix b True k s) = Some old"
    "ip_seq (id_ipns (id_prefix b True k s)) = ip_seq (id_ipns s)"
    "ip_self (id_ipns (id_prefix b True k s)) = (if k < 4 then ip_self (id_ipns s) else None)"
    by (cases; simp add: id_prefix_unfold id_prefix_unfold(2)[unfolded One_nat_def] assms(1))+
qed

text \<open>
  A crash anywhere in an import leaves the old key or the new one in place, whole, and the old one
  beside it, once the copy of it was written; the high-waters of all names survive; an exported key
  is one the library takes, so an import of it is accepted.
\<close>

theorem import_crash_safe:
  assumes "id_key s = Some old" "k \<le> 5"
  shows "id_key (id_prefix b True k s) \<in> {Some old, Some b} \<and>
    (id_key (id_prefix b True k s) \<noteq> Some old \<longrightarrow> id_prev (id_prefix b True k s) = Some old) \<and>
    ip_seq (id_ipns (id_prefix b True k s)) = ip_seq (id_ipns s) \<and>
    (case exportIdentity is_key s of None \<Rightarrow> \<not> is_key old
     | Some x \<Rightarrow> fst (importIdentity is_key (Some x) prev_ok No_import_fault t))"
  using id_prefix_exact[OF assms, of b] assms(1)
  by (auto simp: exportIdentity_def importIdentity_def split: if_splits)

text \<open>The write of that copy may fail, and the import goes on: the old identity is gone.\<close>

lemma failed_backup_loses_identity:
  "let s = \<lparr>id_key = Some [1], id_prev = None, id_tmp = None, id_ipns = toy_ipns\<rparr>;
       (ok, t) = importIdentity (\<lambda>b. True) (Some [2]) False No_import_fault s
   in ok \<and> id_key t = Some [2] \<and> id_prev t = None \<and> id_tmp t = None"
  by code_simp

text \<open>
  A crash between the install and the removal of the republished value: after the restart the
  previous identity's index is republished under the new name.
\<close>

lemma crash_republishes_old_index:
  "let s = \<lparr>id_key = Some [1], id_prev = None, id_tmp = None, id_ipns = toy_ipns\<rparr>;
       t = id_prefix [2] True 3 s
   in id_key t = Some [2] \<and> ip_current (ipnsLoadSelf ((id_ipns t)\<lparr>ip_current := ''''\<rparr>)) = ''c''"
  by code_simp

end
