(* ===== verification/NodeLife.thy ===== *)
theory NodeLife
  imports NetQueue
begin

text \<open>
  The life of the datastore under its compactions (\<open>node.go\<close>): requests that coalesce, a run that
  first waits for the foreground of the network queue to be idle, and a close that bars new runs and
  waits for those in flight; and the retry of going online. A run is one goroutine; it clears
  \<open>compactBusy\<close> before it leaves the wait group, so a run that is leaving may overlap with a new one.
\<close>

section \<open>Compactions and the close\<close>

datatype comp_run = Starting | Awaiting nat | Compacting | Leaving

datatype close_phase = Node_open | Cancelled | Barred | Drained | Shut

record life =
  lf_ldb :: bool
  lf_busy :: bool
  lf_closed :: bool
  lf_wg :: int
  lf_runs :: "comp_run list"
  lf_ctx_done :: bool
  lf_db_open :: bool
  lf_close :: close_phase
  lf_q :: net_queue

definition scheduleCompaction :: "life \<Rightarrow> life" where
  "scheduleCompaction s =
     (if \<not> lf_ldb s \<or> lf_busy s \<or> lf_closed s then s
      else s\<lparr>lf_busy := True, lf_wg := lf_wg s + 1, lf_runs := lf_runs s @ [Starting]\<rparr>)"

text \<open>The moves of one run: read the idle channel, wait for it or for the end, compact, clear the flag, leave.\<close>

inductive run_step :: "life \<Rightarrow> life \<Rightarrow> bool" where
  run_reads: "lf_runs s = as @ Starting # bs \<Longrightarrow>
    run_step s (s\<lparr>lf_runs := as @ Awaiting (nq_idle_gen (lf_q s)) # bs\<rparr>)"
| run_idle: "lf_runs s = as @ Awaiting g # bs \<Longrightarrow> waitFgIdle_passes g (lf_q s) \<Longrightarrow>
    run_step s (s\<lparr>lf_runs := as @ Compacting # bs\<rparr>)"
| run_ctx: "lf_runs s = as @ Awaiting g # bs \<Longrightarrow> lf_ctx_done s \<Longrightarrow>
    run_step s (s\<lparr>lf_runs := as @ Leaving # bs, lf_busy := False\<rparr>)"
| run_done: "lf_runs s = as @ Compacting # bs \<Longrightarrow>
    run_step s (s\<lparr>lf_runs := as @ Leaving # bs, lf_busy := False\<rparr>)"
| run_leaves: "lf_runs s = as @ Leaving # bs \<Longrightarrow>
    run_step s (s\<lparr>lf_runs := as @ bs, lf_wg := lf_wg s - 1\<rparr>)"

definition close_cancel :: "life \<Rightarrow> life" where
  "close_cancel s = s\<lparr>lf_ctx_done := True, lf_close := Cancelled\<rparr>"

definition close_bar :: "life \<Rightarrow> life" where
  "close_bar s = s\<lparr>lf_closed := True, lf_close := Barred\<rparr>"

definition close_db :: "life \<Rightarrow> life" where
  "close_db s = s\<lparr>lf_db_open := False, lf_close := Shut\<rparr>"

inductive life_step :: "life \<Rightarrow> life \<Rightarrow> bool" where
  life_run: "run_step s t \<Longrightarrow> life_step s t"
| life_schedule: "life_step s (scheduleCompaction s)"
| life_queue: "life_step s (s\<lparr>lf_q := q\<rparr>)"
| life_cancel: "lf_close s = Node_open \<Longrightarrow> life_step s (close_cancel s)"
| life_bar: "lf_close s = Cancelled \<Longrightarrow> life_step s (close_bar s)"
| life_wait: "lf_close s = Barred \<Longrightarrow> lf_wg s = 0 \<Longrightarrow> life_step s (s\<lparr>lf_close := Drained\<rparr>)"
| life_shut: "lf_close s = Drained \<Longrightarrow> life_step s (close_db s)"

definition life_init :: "life \<Rightarrow> bool" where
  "life_init s \<longleftrightarrow> \<not> lf_busy s \<and> \<not> lf_closed s \<and> lf_wg s = 0 \<and> lf_runs s = [] \<and> \<not> lf_ctx_done s \<and>
     lf_db_open s \<and> lf_close s = Node_open"

definition live_runs :: "comp_run list \<Rightarrow> comp_run list" where
  "live_runs rs = filter (\<lambda>r. r \<noteq> Leaving) rs"

lemma live_runs_simps [simp]:
  "live_runs [] = []" "live_runs (r # rs) = (if r = Leaving then live_runs rs else r # live_runs rs)"
  "live_runs (as @ bs) = live_runs as @ live_runs bs"
  by (simp_all add: live_runs_def)

definition life_inv :: "life \<Rightarrow> bool" where
  "life_inv s \<longleftrightarrow>
     length (live_runs (lf_runs s)) = (if lf_busy s then 1 else 0) \<and>
     lf_wg s = int (length (lf_runs s)) \<and>
     (lf_closed s \<longleftrightarrow> lf_close s \<in> {Barred, Drained, Shut}) \<and>
     (lf_ctx_done s \<longleftrightarrow> lf_close s \<noteq> Node_open) \<and>
     (lf_close s \<in> {Drained, Shut} \<longrightarrow> lf_runs s = []) \<and>
     (lf_db_open s \<longleftrightarrow> lf_close s \<noteq> Shut)"

lemma life_inv_run:
  assumes "run_step s t" "life_inv s"
  shows "life_inv t"
  using assms by (cases rule: run_step.cases) (auto simp: life_inv_def split: if_splits)

lemma life_inv_schedule: "life_inv s \<Longrightarrow> life_inv (scheduleCompaction s)"
  by (auto simp: life_inv_def scheduleCompaction_def)

lemma life_inv_step:
  assumes "life_step s t" "life_inv s"
  shows "life_inv t"
  using assms(1)
proof cases
  case life_run
  then show ?thesis using assms(2) by (rule life_inv_run)
next
  case life_schedule
  then show ?thesis using life_inv_schedule[OF assms(2)] by simp
next
  case (life_queue q)
  then show ?thesis using assms(2) by (simp add: life_inv_def)
next
  case life_cancel
  then show ?thesis using assms(2) by (simp add: life_inv_def close_cancel_def)
next
  case life_bar
  then show ?thesis using assms(2) by (simp add: life_inv_def close_bar_def)
next
  case life_wait
  then have "lf_runs s = []" using assms(2) by (simp add: life_inv_def)
  then show ?thesis using life_wait assms(2) by (simp add: life_inv_def split: if_splits)
next
  case life_shut
  then have "lf_runs s = []" using assms(2) by (simp add: life_inv_def)
  then show ?thesis using life_shut assms(2) by (simp add: life_inv_def close_db_def split: if_splits)
qed

interpretation node_life: step_invariant life_init life_step life_inv
proof
  show "life_inv s" if "life_init s" for s using that by (simp add: life_init_def life_inv_def)
qed (rule life_inv_step)

text \<open>
  C20. At most one compaction runs at a time, and only while the datastore is open: once the close has
  waited, no run is left, none starts, and the datastore is closed under none.
\<close>

theorem compaction_never_after_close:
  assumes "reachable life_init life_step s"
  shows "length (filter (\<lambda>r. r = Compacting) (lf_runs s)) \<le> 1 \<and>
    (Compacting \<in> set (lf_runs s) \<longrightarrow> lf_db_open s) \<and>
    (lf_close s \<in> {Drained, Shut} \<longrightarrow> lf_runs s = []) \<and>
    (lf_close s \<in> {Barred, Drained, Shut} \<longrightarrow> scheduleCompaction s = s)"
proof -
  have inv: "life_inv s" by (rule node_life.reachable_inv[OF assms])
  have "length (filter (\<lambda>r. r = Compacting) rs) \<le> length (live_runs rs)" for rs
    by (induction rs) auto
  from this[of "lf_runs s"] have "length (filter (\<lambda>r. r = Compacting) (lf_runs s)) \<le> 1"
    using inv by (auto simp: life_inv_def split: if_splits)
  then show ?thesis using inv by (auto simp: life_inv_def scheduleCompaction_def)
qed

text \<open>The work left before the wait group is empty.\<close>

fun run_work :: "comp_run \<Rightarrow> nat" where
  "run_work Starting = 4" | "run_work (Awaiting g) = 3" | "run_work Compacting = 2" | "run_work Leaving = 1"

definition life_work :: "life \<Rightarrow> nat" where
  "life_work s = sum_list (map run_work (lf_runs s))"

lemma run_step_works: "run_step s t \<Longrightarrow> life_work t < life_work s"
  by (cases rule: run_step.cases) (auto simp: life_work_def)

lemma run_step_keeps: "run_step s t \<Longrightarrow> lf_close t = lf_close s \<and> lf_closed t = lf_closed s \<and> lf_ctx_done t = lf_ctx_done s"
  by (cases rule: run_step.cases) auto

lemma some_run_moves:
  assumes "lf_runs s \<noteq> []" "lf_ctx_done s"
  shows "\<exists>t. run_step s t"
proof -
  obtain r rs where r: "lf_runs s = [] @ r # rs" using assms(1) by (cases "lf_runs s") auto
  show ?thesis
  proof (cases r)
    case Starting
    then show ?thesis using run_reads[of s "[]" rs] r by blast
  next
    case (Awaiting g)
    then show ?thesis using run_ctx[of s "[]" g rs] r assms(2) by blast
  next
    case Compacting
    then show ?thesis using run_done[of s "[]" rs] r by blast
  next
    case Leaving
    then show ?thesis using run_leaves[of s "[]" rs] r by blast
  qed
qed

lemma drain_runs:
  "life_inv s \<Longrightarrow> lf_close s = Barred \<Longrightarrow> \<exists>t. life_step\<^sup>*\<^sup>* s t \<and> lf_close t = Barred \<and> lf_wg t = 0"
proof (induction "life_work s" arbitrary: s rule: less_induct)
  case less
  show ?case
  proof (cases "lf_runs s = []")
    case True
    then show ?thesis using less.prems by (intro exI[of _ s]) (simp add: life_inv_def)
  next
    case False
    have "lf_ctx_done s" using less.prems by (simp add: life_inv_def)
    then obtain t where t: "run_step s t" using some_run_moves[OF False] by blast
    have inv: "life_inv t" by (rule life_inv_run[OF t less.prems(1)])
    have "lf_close t = Barred" using run_step_keeps[OF t] less.prems(2) by simp
    from less.hyps[OF run_step_works[OF t] inv this]
    obtain u where "life_step\<^sup>*\<^sup>* t u" "lf_close u = Barred" "lf_wg u = 0" by blast
    then show ?thesis using life_run[OF t] by (meson converse_rtranclp_into_rtranclp)
  qed
qed

text \<open>
  C19. The close returns: once new runs are barred, whatever runs are in flight can always move, each move
  leaves less to do (the wait for idle ends with the context), no request adds a run, and the
  close reaches its end.
\<close>

theorem close_returns:
  assumes "reachable life_init life_step s" "lf_close s = Barred"
  shows "(if lf_runs s = [] then lf_wg s = 0 else (\<exists>t. run_step s t)) \<and>
    (\<forall>t. run_step s t \<longrightarrow> life_work t < life_work s) \<and> scheduleCompaction s = s \<and>
    (\<exists>t. life_step\<^sup>*\<^sup>* s t \<and> lf_close t = Shut)"
proof -
  have inv: "life_inv s" by (rule node_life.reachable_inv[OF assms(1)])
  obtain t where t: "life_step\<^sup>*\<^sup>* s t" "lf_close t = Barred" "lf_wg t = 0" using drain_runs[OF inv assms(2)] by blast
  let ?u = "t\<lparr>lf_close := Drained\<rparr>"
  have "life_step t ?u" by (rule life_wait[OF t(2,3)])
  moreover have "life_step ?u (close_db ?u)" by (rule life_shut) simp
  ultimately have "life_step\<^sup>*\<^sup>* s (close_db ?u)" using t(1) by (meson rtranclp.rtrancl_into_rtrancl)
  moreover have "lf_close (close_db ?u) = Shut" by (simp add: close_db_def)
  moreover have "lf_ctx_done s" using inv assms(2) by (simp add: life_inv_def)
  ultimately show ?thesis
    using some_run_moves[of s] run_step_works inv assms(2) by (auto simp: life_inv_def scheduleCompaction_def)
qed

definition fresh_life :: life where
  "fresh_life = \<lparr>lf_ldb = True, lf_busy = False, lf_closed = False, lf_wg = 0, lf_runs = [], lf_ctx_done = False, lf_db_open = True,
     lf_close = Node_open, lf_q = newNetQueue 4\<rparr>"

definition closing_life :: life where
  "closing_life = close_bar (close_cancel (scheduleCompaction fresh_life))"

lemma closing_reachable: "reachable life_init life_step closing_life"
proof -
  have "reachable life_init life_step fresh_life"
    by (rule reach_init) (simp add: life_init_def fresh_life_def)
  then have "reachable life_init life_step (scheduleCompaction fresh_life)"
    using life_schedule by (rule reach_step)
  then have "reachable life_init life_step (close_cancel (scheduleCompaction fresh_life))"
    by (rule reach_step) (rule life_cancel, simp add: scheduleCompaction_def fresh_life_def)
  then show ?thesis unfolding closing_life_def
    by (rule reach_step) (rule life_bar, simp add: close_cancel_def)
qed

theorem compaction_never_after_close_witness:
  "lf_runs closing_life = [Starting] \<and> scheduleCompaction closing_life = closing_life"
proof -
  have "lf_runs closing_life = [Starting]" "lf_close closing_life = Barred" by code_simp+
  then show ?thesis using compaction_never_after_close[OF closing_reachable] by simp
qed

theorem close_returns_witness: "\<exists>t. life_step\<^sup>*\<^sup>* closing_life t \<and> lf_close t = Shut"
proof -
  have "lf_close closing_life = Barred" by code_simp
  from close_returns[OF closing_reachable this] show ?thesis by blast
qed

text \<open>A run that passes the wait starts on an idle foreground, as long as the channel it read is the current one.\<close>

lemma compacts_when_idle:
  "run_step s t \<Longrightarrow> lf_runs s = [Awaiting g] \<Longrightarrow> lf_runs t = [Compacting] \<Longrightarrow> waitFgIdle_passes g (lf_q s)"
  by (erule run_step.cases) (auto simp: append_eq_Cons_conv Cons_eq_append_conv)

section \<open>Going online\<close>

text \<open>
  A retry round: the context ends the wait; another node has replaced this one; the attempt
  succeeds; a panic in it is an error like any other. The result lists the waits.
\<close>

datatype retry_round = Ctx_ended | Replaced | Attempt bool

datatype retry_end = Retry_over | Retry_online | Retry_going

definition next_delay :: "nanos \<Rightarrow> nanos" where
  "next_delay d = (if 2 * d > seconds 60 then seconds 60 else 2 * d)"

fun retryOnline :: "nanos \<Rightarrow> retry_round list \<Rightarrow> nanos list \<times> retry_end" where
  "retryOnline delay [] = ([], Retry_going)"
| "retryOnline delay (Ctx_ended # rs) = ([delay], Retry_over)"
| "retryOnline delay (Replaced # rs) = ([delay], Retry_over)"
| "retryOnline delay (Attempt ok # rs) =
     (if ok then ([delay], Retry_online) else apfst ((#) delay) (retryOnline (next_delay delay) rs))"

lemma retry_waits:
  "k < length (fst (retryOnline d rs)) \<Longrightarrow> 0 < d \<Longrightarrow> d \<le> seconds 60 \<Longrightarrow>
   fst (retryOnline d rs) ! k = min (seconds 60) (d * 2 ^ k)"
proof (induction d rs arbitrary: k rule: retryOnline.induct)
  case (4 delay ok rs)
  show ?case
  proof (cases k)
    case (Suc j)
    have "0 < next_delay delay" "next_delay delay \<le> seconds 60" using "4.prems" by (auto simp: next_delay_def)
    then have "fst (retryOnline (next_delay delay) rs) ! j = min (seconds 60) (next_delay delay * 2 ^ j)"
      using "4.IH" "4.prems"(1) Suc by (auto split: if_splits)
    moreover have "min (seconds 60) (next_delay delay * 2 ^ j) = min (seconds 60) (delay * 2 ^ Suc j)"
    proof (cases "2 * delay > seconds 60")
      case True
      have "(1::int) \<le> 2 ^ j" by simp
      then have "seconds 60 \<le> seconds 60 * 2 ^ j" "seconds 60 * 2 ^ j \<le> (2 * delay) * 2 ^ j"
        using True by (simp_all add: mult_right_mono del: mult_le_cancel_right)
      then have "seconds 60 \<le> (2 * delay) * 2 ^ j" by (rule order_trans)
      then have "seconds 60 \<le> delay * 2 ^ Suc j" by (simp add: mult.assoc mult.left_commute)
      moreover have "next_delay delay * 2 ^ j = seconds 60 * 2 ^ j" using True by (simp add: next_delay_def)
      ultimately show ?thesis using \<open>seconds 60 \<le> seconds 60 * 2 ^ j\<close> by (simp add: min_def)
    qed (simp add: next_delay_def algebra_simps)
    ultimately show ?thesis using "4.prems"(1) Suc by (auto split: if_splits)
  qed (use 4 in auto)
qed auto

lemma retry_online_iff:
  "snd (retryOnline d rs) = Retry_online \<longleftrightarrow>
   (\<exists>fails rest. rs = map Attempt fails @ Attempt True # rest \<and> list_all Not fails)"
proof (induction d rs rule: retryOnline.induct)
  case (4 delay ok rs)
  show ?case
  proof (cases ok)
    case True
    then show ?thesis by (auto intro!: exI[of _ "[]"] exI[of _ rs])
  next
    case False
    have "(\<exists>fails rest. Attempt False # rs = map Attempt fails @ Attempt True # rest \<and> list_all Not fails) \<longleftrightarrow>
        (\<exists>fails rest. rs = map Attempt fails @ Attempt True # rest \<and> list_all Not fails)" (is "?l = ?r")
    proof
      assume ?l
      then obtain fails rest where f: "Attempt False # rs = map Attempt fails @ Attempt True # rest" "list_all Not fails" by blast
      then show ?r by (cases fails) auto
    next
      assume ?r
      then obtain fails rest where "rs = map Attempt fails @ Attempt True # rest" "list_all Not fails" by blast
      then show ?l by (intro exI[of _ "False # fails"] exI[of _ rest]) simp
    qed
    then show ?thesis using 4 False by simp
  qed
qed (auto simp: Cons_eq_append_conv Cons_eq_map_conv)

end
