(* ===== verification/Resolver.thy ===== *)
theory Resolver
  imports Prelude "HOL-Library.AList"
begin

text \<open>
  The name resolver (\<open>doh.go\<close>, with the host blocks of \<open>bench.go\<close>): names answered without any
  lookup, the raced query over HTTPS, the cache with its two lifetimes, and the bounded fallback
  to the resolver of the operating system. Addresses are values of any type, with Go's parser and
  its IPv4 test as functions; what a network lookup gives is an argument. Host names are ASCII.
\<close>

section \<open>Names\<close>

definition lower :: "string \<Rightarrow> string" where
  "lower s = map (\<lambda>c. if 65 \<le> (of_char c :: nat) \<and> (of_char c :: nat) \<le> 90 then char_of (of_char c + 32 :: nat) else c) s"

definition has_suffix :: "string \<Rightarrow> string \<Rightarrow> bool" where
  "has_suffix s x \<longleftrightarrow> length x \<le> length s \<and> drop (length s - length x) s = x"

definition trim_suffix :: "string \<Rightarrow> string \<Rightarrow> string" where
  "trim_suffix s x = (if has_suffix s x then take (length s - length x) s else s)"

definition space :: "char \<Rightarrow> bool" where
  "space c \<longleftrightarrow> c \<in> {CHR '' '', CHR 0x09, CHR 0x0A, CHR 0x0B, CHR 0x0C, CHR 0x0D}"

definition trim_space :: "string \<Rightarrow> string" where
  "trim_space s = rev (dropWhile space (rev (dropWhile space s)))"

fun split_on :: "char \<Rightarrow> string \<Rightarrow> string list" where
  "split_on c [] = [[]]"
| "split_on c (x # xs) =
     (if x = c then [] # split_on c xs
      else case split_on c xs of [] \<Rightarrow> [[x]] | y # ys \<Rightarrow> (x # y) # ys)"

definition benchBlockedHosts :: "string \<Rightarrow> string list" where
  "benchBlockedHosts raw =
     filter (\<lambda>h. h \<noteq> '''') (map (\<lambda>h. trim_suffix (lower (trim_space h)) ''.'') (split_on CHR '','' raw))"

definition benchHostBlocked :: "string \<Rightarrow> string \<Rightarrow> bool" where
  "benchHostBlocked raw host =
     (let h = trim_suffix (lower host) ''.'' in
      list_ex (\<lambda>b. h = b \<or> has_suffix h (CHR ''.'' # b)) (benchBlockedHosts raw))"

text \<open>\<open>*.libp2p.direct\<close> carries its address in the first label.\<close>

definition direct_suffix :: string where
  "direct_suffix = ''.libp2p.direct''"

definition replace_char :: "char \<Rightarrow> char \<Rightarrow> string \<Rightarrow> string" where
  "replace_char a b s = map (\<lambda>c. if c = a then b else c) s"

definition libp2pDirectIP :: "(string \<Rightarrow> 'ip option) \<Rightarrow> ('ip \<Rightarrow> bool) \<Rightarrow> string \<Rightarrow> 'ip option" where
  "libp2pDirectIP parse_ip is4 host =
     (let trimmed = trim_suffix host ''.''; h = trim_suffix trimmed direct_suffix in
      if h = trimmed then None
      else (let label = takeWhile (\<lambda>c. c \<noteq> CHR ''.'') h in
            case parse_ip (replace_char CHR ''-'' CHR ''.'' label) of
              Some ip \<Rightarrow> if is4 ip then Some ip else parse_ip (replace_char CHR ''-'' CHR '':'' label)
            | None \<Rightarrow> parse_ip (replace_char CHR ''-'' CHR '':'' label)))"

lemma trim_suffix_append [simp]: "trim_suffix (s @ x) x = s"
  by (simp add: trim_suffix_def has_suffix_def)

lemma replace_back: "b \<notin> set s \<Longrightarrow> replace_char b a (replace_char a b s) = s"
  by (induction s) (auto simp: replace_char_def)

lemma replace_no: "a \<notin> set s \<Longrightarrow> replace_char b a (replace_char a b s) = replace_char b a s"
  by (induction s) (auto simp: replace_char_def)

lemma not_dot_end: "s \<noteq> [] \<Longrightarrow> last s \<noteq> CHR ''.'' \<Longrightarrow> trim_suffix s ''.'' = s"
  by (cases s rule: rev_cases) (auto simp: trim_suffix_def has_suffix_def)

text \<open>The name of an IPv4 peer resolves to its address, with or without the root's dot.\<close>

lemma direct_ipv4:
  assumes "parse_ip a = Some ip" "is4 ip" "CHR ''-'' \<notin> set a"
    and "host \<in> {replace_char CHR ''.'' CHR ''-'' a @ CHR ''.'' # peer @ direct_suffix,
       replace_char CHR ''.'' CHR ''-'' a @ CHR ''.'' # peer @ direct_suffix @ ''.''}"
  shows "libp2pDirectIP parse_ip is4 host = Some ip"
proof -
  let ?l = "replace_char CHR ''.'' CHR ''-'' a" and ?h = "replace_char CHR ''.'' CHR ''-'' a @ CHR ''.'' # peer"
  have "trim_suffix (?h @ direct_suffix) ''.'' = ?h @ direct_suffix"
    by (rule not_dot_end) (simp_all add: direct_suffix_def)
  moreover have "trim_suffix ((?h @ direct_suffix) @ ''.'') ''.'' = ?h @ direct_suffix" by (rule trim_suffix_append)
  ultimately have "trim_suffix host ''.'' = ?h @ direct_suffix" using assms(4) by auto
  moreover have "trim_suffix (?h @ direct_suffix) direct_suffix = ?h" by (rule trim_suffix_append)
  moreover have "?h \<noteq> ?h @ direct_suffix" by (simp add: direct_suffix_def)
  moreover have "takeWhile (\<lambda>c. c \<noteq> CHR ''.'') ?h = ?l"
    by (subst takeWhile_append2) (auto simp: replace_char_def)
  moreover have "replace_char CHR ''-'' CHR ''.'' ?l = a" by (rule replace_back[OF assms(3)])
  ultimately show ?thesis using assms(1,2) by (simp add: libp2pDirectIP_def Let_def)
qed

lemma direct_only_forge: "libp2pDirectIP parse_ip is4 host = Some ip \<Longrightarrow>
    has_suffix (trim_suffix host ''.'') direct_suffix"
  by (auto simp: libp2pDirectIP_def Let_def trim_suffix_def split: if_splits)

section \<open>The query and the cache\<close>

datatype look_err = Blocked | Net_err | Ctx_err

text \<open>\<open>queryOne\<close>: the URL can be made or not; the reply, if any, has a status and a body that decodes or not.\<close>

definition queryOne :: "bool \<Rightarrow> (int \<times> 'a list option) option \<Rightarrow> look_err + 'a list" where
  "queryOne url_ok resp =
     (if \<not> url_ok then Inl Net_err
      else case resp of
        None \<Rightarrow> Inl Net_err
      | Some (status, body) \<Rightarrow>
          if status \<noteq> 200 then Inl Net_err else (case body of None \<Rightarrow> Inl Net_err | Some a \<Rightarrow> Inr a))"

lemma query_one_good: "queryOne url_ok resp = Inr a \<longleftrightarrow> url_ok \<and> resp = Some (200, Some a)"
  by (auto simp: queryOne_def split: option.splits)

text \<open>The race: the replies in the order they arrive; the first good one, else the last error.\<close>

fun query :: "look_err + 'a list \<Rightarrow> (look_err + 'a list) list \<Rightarrow> look_err + 'a list" where
  "query lastErr [] = lastErr"
| "query lastErr (r # rs) = (case r of Inr ans \<Rightarrow> Inr ans | Inl e \<Rightarrow> query (Inl e) rs)"

lemma query_good: "(\<exists>ans. query (Inl e) rs = Inr ans) \<longleftrightarrow> (\<exists>ans. Inr ans \<in> set rs)"
  by (induction rs arbitrary: e) (auto split: sum.splits)

definition dohCacheOK :: nanos where "dohCacheOK = minutes 5"

definition dohCacheFail :: nanos where "dohCacheFail = seconds 30"

definition dohCacheMax :: nat where "dohCacheMax = 4096"

type_synonym 'v look_res = "'v list \<times> look_err option"

definition ttl_of :: "'v look_res \<Rightarrow> nanos" where
  "ttl_of r = (if snd r = None then dohCacheOK else dohCacheFail)"

type_synonym 'v doh_cache = "(string \<times> ('v look_res \<times> nanos)) list"

text \<open>\<open>cacheIP\<close> and \<open>cacheTXT\<close>: a full cache is emptied first.\<close>

definition cache_put :: "nanos \<Rightarrow> string \<Rightarrow> 'v look_res \<Rightarrow> 'v doh_cache \<Rightarrow> 'v doh_cache" where
  "cache_put now host r m =
     AList.update host (r, now + ttl_of r) (if length m \<ge> dohCacheMax then [] else m)"

definition cache_get :: "nanos \<Rightarrow> string \<Rightarrow> 'v doh_cache \<Rightarrow> 'v look_res option" where
  "cache_get now host m =
     (case map_of m host of None \<Rightarrow> None | Some (r, expiry) \<Rightarrow> if now < expiry then Some r else None)"

section \<open>One lookup\<close>

datatype 'v look_start = Answer "'v look_res" | Ask

definition lookup_start ::
  "(string \<Rightarrow> 'ip option) \<Rightarrow> ('ip \<Rightarrow> bool) \<Rightarrow> string \<Rightarrow> nanos \<Rightarrow> string \<Rightarrow> 'ip doh_cache \<Rightarrow> 'ip look_start" where
  "lookup_start parse_ip is4 raw now host m =
     (if benchHostBlocked raw host then Answer ([], Some Blocked)
      else case libp2pDirectIP parse_ip is4 host of
        Some ip \<Rightarrow> Answer ([ip], None)
      | None \<Rightarrow> (case cache_get now host m of Some r \<Rightarrow> Answer r | None \<Rightarrow> Ask))"

text \<open>The addresses among the answers to both questions.\<close>

definition doh_addrs :: "(string \<Rightarrow> 'ip option) \<Rightarrow> (look_err + string list) list \<Rightarrow> 'ip list" where
  "doh_addrs parse_ip qs =
     concat (map (\<lambda>q. case q of Inl e \<Rightarrow> [] | Inr ans \<Rightarrow> List.map_filter (\<lambda>a. parse_ip (trim_space a)) ans) qs)"

text \<open>How the fallback went: no slot before the context ended, or what the operating system said.\<close>

datatype 'v fallback = No_slot | Os_said "'v look_res"

definition lookup_end :: "nanos \<Rightarrow> string \<Rightarrow> 'v list \<Rightarrow> 'v fallback \<Rightarrow> 'v doh_cache \<Rightarrow> 'v look_res \<times> 'v doh_cache" where
  "lookup_end now host out fb m =
     (if out \<noteq> [] then ((out, None), cache_put now host (out, None) m)
      else case fb of
        No_slot \<Rightarrow> (([], Some Ctx_err), m)
      | Os_said r \<Rightarrow> (r, cache_put now host r m))"

definition LookupIPAddr ::
  "(string \<Rightarrow> 'ip option) \<Rightarrow> ('ip \<Rightarrow> bool) \<Rightarrow> string \<Rightarrow> nanos \<Rightarrow> nanos \<Rightarrow> string \<Rightarrow> (look_err + string list) list \<Rightarrow>
   'ip fallback \<Rightarrow> 'ip doh_cache \<Rightarrow> 'ip look_res \<times> 'ip doh_cache" where
  "LookupIPAddr parse_ip is4 raw t0 t1 host qs fb m =
     (case lookup_start parse_ip is4 raw t0 host m of
        Answer r \<Rightarrow> (r, m)
      | Ask \<Rightarrow> lookup_end t1 host (doh_addrs parse_ip qs) fb m)"

definition strip_quotes :: "string \<Rightarrow> string" where
  "strip_quotes s = rev (dropWhile (\<lambda>c. c = CHR 0x22) (rev (dropWhile (\<lambda>c. c = CHR 0x22) s)))"

definition LookupTXT ::
  "string \<Rightarrow> nanos \<Rightarrow> nanos \<Rightarrow> string \<Rightarrow> look_err + string list \<Rightarrow> string fallback \<Rightarrow> string doh_cache \<Rightarrow>
   string look_res \<times> string doh_cache" where
  "LookupTXT raw t0 t1 nm q fb m =
     (if benchHostBlocked raw nm then (([], Some Blocked), m)
      else case cache_get t0 nm m of
        Some r \<Rightarrow> (r, m)
      | None \<Rightarrow>
          (case q of
             Inr ans \<Rightarrow> (let r = (map (\<lambda>a. strip_quotes (trim_space a)) ans, None) in (r, cache_put t1 nm r m))
           | Inl e \<Rightarrow>
               (case fb of
                  No_slot \<Rightarrow> (([], Some Ctx_err), m)
                | Os_said r \<Rightarrow> (r, cache_put t1 nm r m))))"

text \<open>A blocked name reaches nothing: no query, no fallback, no cache.\<close>

lemma blocked_lookups:
  assumes "benchHostBlocked raw host"
  shows "LookupIPAddr parse_ip is4 raw t0 t1 host qs fb m = (([], Some Blocked), m)"
    and "LookupTXT raw t0 t1 host q fb' m' = (([], Some Blocked), m')"
  using assms by (simp_all add: LookupIPAddr_def lookup_start_def LookupTXT_def)

lemma blocked_subdomain:
  "benchHostBlocked ''bootstrap.libp2p.io, x.org.'' ''_dnsaddr.Bootstrap.libp2p.io.'' \<and>
   benchHostBlocked ''bootstrap.libp2p.io, x.org.'' ''X.ORG'' \<and> \<not> benchHostBlocked ''bootstrap.libp2p.io, x.org.'' ''ax.org''"
  by code_simp

text \<open>
  The context that ends while the operating system is asked leaves an error that is cached: for
  half a minute every other caller of the name is refused with it. (With the slot not taken yet
  nothing is cached.)
\<close>

lemma cancelled_lookup_poisons:
  "let (r, m) = LookupIPAddr (\<lambda>s. None) (\<lambda>ip :: nat. True) '''' 0 5 ''gw.example'' [Inl Ctx_err, Inl Ctx_err] (Os_said ([], Some Ctx_err)) [];
       (r', m') = LookupIPAddr (\<lambda>s. Some 7) (\<lambda>ip. True) '''' 10 10 ''gw.example'' [Inr [''1.2.3.4''], Inr []] No_slot m
   in r' = ([], Some Ctx_err)"
  by code_simp

section \<open>The transport\<close>

text \<open>
  The addresses a connection of an HTTPS client is tried to, in order, up to the first that answers.
  \<open>split\<close> is \<open>net.SplitHostPort\<close>, \<open>lookup\<close> the resolver on the host (the answer of this dial).
\<close>

datatype 'ip dial_at = As_given string | At_ip 'ip string

definition dial_plan ::
  "(string \<Rightarrow> (string \<times> string) option) \<Rightarrow> (string \<Rightarrow> 'ip option) \<Rightarrow> string \<Rightarrow> (string \<Rightarrow> 'ip look_res) \<Rightarrow>
   string \<Rightarrow> look_err + 'ip dial_at list" where
  "dial_plan split parse_ip raw lookup addr =
     (case split addr of
        None \<Rightarrow> Inr [As_given addr]
      | Some (host, port) \<Rightarrow>
          if parse_ip host \<noteq> None then Inr [As_given addr]
          else if benchHostBlocked raw host then Inl Blocked
          else (case lookup host of (ips, err) \<Rightarrow>
                  if err \<noteq> None \<or> ips = [] then Inr [As_given addr]
                  else Inr (map (\<lambda>ip. At_ip ip port) ips)))"

fun dial_all :: "('ip dial_at \<Rightarrow> 'conn option) \<Rightarrow> 'ip dial_at list \<Rightarrow> 'conn option" where
  "dial_all dial [] = None"
| "dial_all dial (a # as) = (case dial a of Some c \<Rightarrow> Some c | None \<Rightarrow> dial_all dial as)"

definition dial_context ::
  "(string \<Rightarrow> (string \<times> string) option) \<Rightarrow> (string \<Rightarrow> 'ip option) \<Rightarrow> string \<Rightarrow> (string \<Rightarrow> 'ip look_res) \<Rightarrow>
   ('ip dial_at \<Rightarrow> 'conn option) \<Rightarrow> string \<Rightarrow> 'conn option" where
  "dial_context split parse_ip raw lookup dial addr =
     (case dial_plan split parse_ip raw lookup addr of Inl e \<Rightarrow> None | Inr as \<Rightarrow> dial_all dial as)"

lemma dial_all_None: "dial_all dial as = None \<longleftrightarrow> list_all (\<lambda>a. dial a = None) as"
  by (induction as) (auto split: option.splits)

text \<open>
  A blocked name is dialled at no address, by no route; any other name is reached when one of its
  addresses answers, or when it is left to the operating system and that answers.
\<close>

lemma dial_blocked:
  "split addr = Some (host, port) \<Longrightarrow> parse_ip host = None \<Longrightarrow> benchHostBlocked raw host \<Longrightarrow>
   dial_context split parse_ip raw lookup dial addr = None"
  by (simp add: dial_context_def dial_plan_def)

lemma dial_reaches:
  assumes "split addr = Some (host, port)" "parse_ip host = None" "\<not> benchHostBlocked raw host"
  shows "dial_context split parse_ip raw lookup dial addr \<noteq> None \<longleftrightarrow>
    (if snd (lookup host) = None \<and> fst (lookup host) \<noteq> []
     then (\<exists>ip \<in> set (fst (lookup host)). dial (At_ip ip port) \<noteq> None)
     else dial (As_given addr) \<noteq> None)"
  using assms
  by (cases "lookup host")
    (auto simp: dial_context_def dial_plan_def dial_all_None list_all_iff simp del: not_None_eq split: option.splits)

section \<open>Lookups at once\<close>

datatype look_phase = Asking string | Wanting string | In_os string

record 'v doh =
  dh_cache :: "'v doh_cache"
  dh_clock :: nanos
  dh_running :: "look_phase list"
  dh_slots :: nat
  dh_stored :: "(string \<times> 'v look_res \<times> nanos) list"
  dh_served :: "(string \<times> 'v look_res \<times> nanos) list"

definition store_res :: "string \<Rightarrow> 'v look_res \<Rightarrow> 'v doh \<Rightarrow> 'v doh" where
  "store_res host r s =
     s\<lparr>dh_cache := cache_put (dh_clock s) host r (dh_cache s), dh_stored := (host, r, dh_clock s) # dh_stored s\<rparr>"

inductive doh_step :: "'v doh \<Rightarrow> 'v doh \<Rightarrow> bool" where
  doh_tick: "0 \<le> d \<Longrightarrow> doh_step s (s\<lparr>dh_clock := dh_clock s + d\<rparr>)"
| doh_hit: "cache_get (dh_clock s) host (dh_cache s) = Some r \<Longrightarrow>
    doh_step s (s\<lparr>dh_served := (host, r, dh_clock s) # dh_served s\<rparr>)"
| doh_miss: "cache_get (dh_clock s) host (dh_cache s) = None \<Longrightarrow>
    doh_step s (s\<lparr>dh_running := Asking host # dh_running s\<rparr>)"
| doh_found: "dh_running s = as @ Asking host # bs \<Longrightarrow> out \<noteq> [] \<Longrightarrow>
    doh_step s (store_res host (out, None) (s\<lparr>dh_running := as @ bs\<rparr>))"
| doh_empty: "dh_running s = as @ Asking host # bs \<Longrightarrow>
    doh_step s (s\<lparr>dh_running := as @ Wanting host # bs\<rparr>)"
| doh_slot: "dh_running s = as @ Wanting host # bs \<Longrightarrow> dh_slots s < 4 \<Longrightarrow>
    doh_step s (s\<lparr>dh_running := as @ In_os host # bs, dh_slots := dh_slots s + 1\<rparr>)"
| doh_gone: "dh_running s = as @ Wanting host # bs \<Longrightarrow> doh_step s (s\<lparr>dh_running := as @ bs\<rparr>)"
| doh_os: "dh_running s = as @ In_os host # bs \<Longrightarrow>
    doh_step s (store_res host r (s\<lparr>dh_running := as @ bs, dh_slots := dh_slots s - 1\<rparr>))"

definition doh_init :: "'v doh \<Rightarrow> bool" where
  "doh_init s \<longleftrightarrow> dh_cache s = [] \<and> dh_running s = [] \<and> dh_slots s = 0 \<and> dh_served s = []"

definition in_os :: "look_phase list \<Rightarrow> nat" where
  "in_os ps = length (filter (\<lambda>p. case p of In_os h \<Rightarrow> True | x \<Rightarrow> False) ps)"

lemma in_os_simps [simp]:
  "in_os [] = 0" "in_os (Asking h # ps) = in_os ps" "in_os (Wanting h # ps) = in_os ps"
  "in_os (In_os h # ps) = in_os ps + 1" "in_os (as @ bs) = in_os as + in_os bs"
  by (simp_all add: in_os_def)

definition stored_at :: "'v doh \<Rightarrow> string \<Rightarrow> 'v look_res \<Rightarrow> nanos \<Rightarrow> bool" where
  "stored_at s host r t \<longleftrightarrow> (host, r, t) \<in> set (dh_stored s) \<and> t \<le> dh_clock s"

definition doh_inv :: "'v doh \<Rightarrow> bool" where
  "doh_inv s \<longleftrightarrow>
     length (dh_cache s) \<le> dohCacheMax \<and> in_os (dh_running s) = dh_slots s \<and> dh_slots s \<le> 4 \<and>
     (\<forall>host r e. map_of (dh_cache s) host = Some (r, e) \<longrightarrow> stored_at s host r (e - ttl_of r)) \<and>
     (\<forall>(host, r, t) \<in> set (dh_served s). \<exists>t0. (host, r, t0) \<in> set (dh_stored s) \<and> t0 \<le> t \<and> t < t0 + ttl_of r)"

lemma map_of_cache_put:
  "map_of (cache_put now host r m) h =
     (if h = host then Some (r, now + ttl_of r) else if length m \<ge> dohCacheMax then None else map_of m h)"
  by (simp add: cache_put_def update_conv')

lemma length_cache_put: "length m \<le> dohCacheMax \<Longrightarrow> length (cache_put now host r m) \<le> dohCacheMax"
proof -
  have l: "length (AList.update k v xs) \<le> Suc (length xs)" for k and v :: "'b" and xs :: "(string \<times> 'b) list"
    by (induction xs) auto
  assume "length m \<le> dohCacheMax"
  then show ?thesis
    using l[of host "(r, now + ttl_of r)" "if length m \<ge> dohCacheMax then [] else m"]
    by (auto simp: cache_put_def dohCacheMax_def split: if_splits)
qed

lemma doh_inv_cached: "doh_inv s \<Longrightarrow> map_of (dh_cache s) h = Some (r, e) \<Longrightarrow> stored_at s h r (e - ttl_of r)"
  unfolding doh_inv_def by blast

lemma doh_inv_store:
  assumes "doh_inv s" "in_os rs = n" "n \<le> 4"
  shows "doh_inv (store_res host r (s\<lparr>dh_running := rs, dh_slots := n\<rparr>))"
  unfolding doh_inv_def
proof (intro conjI allI impI)
  fix h r' e
  assume "map_of (dh_cache (store_res host r (s\<lparr>dh_running := rs, dh_slots := n\<rparr>))) h = Some (r', e)"
  then show "stored_at (store_res host r (s\<lparr>dh_running := rs, dh_slots := n\<rparr>)) h r' (e - ttl_of r')"
    using doh_inv_cached[OF assms(1), of h r' e] by (auto simp: store_res_def map_of_cache_put stored_at_def split: if_splits)
next
  show "\<forall>(h, r', t) \<in> set (dh_served (store_res host r (s\<lparr>dh_running := rs, dh_slots := n\<rparr>))).
    \<exists>t0. (h, r', t0) \<in> set (dh_stored (store_res host r (s\<lparr>dh_running := rs, dh_slots := n\<rparr>))) \<and> t0 \<le> t \<and> t < t0 + ttl_of r'"
    using assms(1) by (fastforce simp: store_res_def doh_inv_def)
next
  have "length (dh_cache s) \<le> dohCacheMax" using assms(1) by (simp add: doh_inv_def)
  then show "length (dh_cache (store_res host r (s\<lparr>dh_running := rs, dh_slots := n\<rparr>))) \<le> dohCacheMax"
    using length_cache_put[of "dh_cache s" "dh_clock s" host r] by (simp add: store_res_def)
qed (use assms in \<open>simp_all add: store_res_def\<close>)

lemma doh_inv_step:
  assumes "doh_step s t" "doh_inv s"
  shows "doh_inv t"
  using assms(1)
proof cases
  case (doh_tick d)
  then show ?thesis using assms(2) by (force simp: doh_inv_def stored_at_def)
next
  case (doh_hit host r)
  then obtain e where e: "map_of (dh_cache s) host = Some (r, e)" "dh_clock s < e"
    by (auto simp: cache_get_def split: option.splits if_splits)
  then have "stored_at s host r (e - ttl_of r)" using doh_inv_cached[OF assms(2)] by blast
  then have "\<exists>t0. (host, r, t0) \<in> set (dh_stored s) \<and> t0 \<le> dh_clock s \<and> dh_clock s < t0 + ttl_of r"
    using e(2) by (intro exI[of _ "e - ttl_of r"]) (simp add: stored_at_def)
  then show ?thesis using doh_hit(1) assms(2) by (simp add: doh_inv_def stored_at_def)
next
  case (doh_miss host)
  then show ?thesis using assms(2) by (simp add: doh_inv_def stored_at_def)
next
  case (doh_found as host bs out)
  have "in_os (as @ bs) = dh_slots s" "dh_slots s \<le> 4" using assms(2) doh_found(2) by (auto simp: doh_inv_def)
  from doh_inv_store[OF assms(2) this] show ?thesis using doh_found(1) by simp
next
  case (doh_empty as host bs)
  then show ?thesis using assms(2) by (simp add: doh_inv_def stored_at_def)
next
  case (doh_slot as host bs)
  then show ?thesis using assms(2) by (simp add: doh_inv_def stored_at_def)
next
  case (doh_gone as host bs)
  then show ?thesis using assms(2) by (simp add: doh_inv_def stored_at_def)
next
  case (doh_os as host bs r)
  have "in_os (as @ bs) = dh_slots s - 1" "dh_slots s - 1 \<le> 4" using assms(2) doh_os(2) by (auto simp: doh_inv_def)
  from doh_inv_store[OF assms(2) this] show ?thesis using doh_os(1) by simp
qed

interpretation doh_sys: step_invariant doh_init doh_step doh_inv
proof
  show "doh_inv s" if "doh_init s" for s using that by (simp add: doh_init_def doh_inv_def dohCacheMax_def)
qed (rule doh_inv_step)

text \<open>
  C21. However lookups interleave: an answer given from the cache is one a lookup of that name stored less
  than five minutes before, or less than half a minute before when it is a failure; the cache
  holds at most 4096 names; and at most four lookups are with the operating system at once.
\<close>

theorem resolver_bounded_and_fresh:
  assumes "reachable doh_init doh_step s" "(host, r, t) \<in> set (dh_served s)"
  shows "length (dh_cache s) \<le> 4096 \<and> in_os (dh_running s) \<le> 4 \<and>
    list_ex (\<lambda>(h, r', t0). h = host \<and> r' = r \<and> t0 \<le> t \<and>
      t - t0 < (if snd r = None then minutes 5 else seconds 30)) (dh_stored s)"
proof -
  have inv: "doh_inv s" by (rule doh_sys.reachable_inv[OF assms(1)])
  then obtain t0 where "(host, r, t0) \<in> set (dh_stored s)" "t0 \<le> t" "t < t0 + ttl_of r"
    using assms(2) by (fastforce simp: doh_inv_def)
  then have "list_ex (\<lambda>(h, r', t0). h = host \<and> r' = r \<and> t0 \<le> t \<and>
      t - t0 < (if snd r = None then minutes 5 else seconds 30)) (dh_stored s)"
    unfolding list_ex_iff
    by (intro bexI[of _ "(host, r, t0)"]) (auto simp: ttl_of_def dohCacheOK_def dohCacheFail_def split: if_splits)
  then show ?thesis using inv by (simp add: doh_inv_def dohCacheMax_def)
qed

definition doh_start :: "nat doh" where
  "doh_start = \<lparr>dh_cache = [], dh_clock = 0, dh_running = [], dh_slots = 0, dh_stored = [], dh_served = []\<rparr>"

definition doh_served_once :: "nat doh" where
  "doh_served_once = (let s = store_res ''h'' ([7], None) doh_start in
     s\<lparr>dh_clock := seconds 40, dh_served := [(''h'', ([7], None), seconds 40)]\<rparr>)"

theorem resolver_bounded_and_fresh_witness:
  "reachable doh_init doh_step doh_served_once \<and> length (dh_cache doh_served_once) \<le> 4096"
proof -
  let ?a = "doh_start\<lparr>dh_running := [Asking ''h'']\<rparr>" and ?b = "store_res ''h'' ([7], None) doh_start"
  have r0: "reachable doh_init doh_step doh_start" by (rule reach_init) (simp add: doh_init_def doh_start_def)
  have t1: "doh_step doh_start ?a"
    using doh_miss[of doh_start "''h''"] by (simp add: doh_start_def cache_get_def)
  have r1: "reachable doh_init doh_step ?a" by (rule reach_step) (rule r0, rule t1)
  have t2: "doh_step ?a ?b"
    using doh_found[of ?a "[]" "''h''" "[]" "[7]"] by (simp add: doh_start_def store_res_def)
  have r2: "reachable doh_init doh_step ?b" by (rule reach_step) (rule r1, rule t2)
  have t3: "doh_step ?b (?b\<lparr>dh_clock := seconds 40\<rparr>)"
    using doh_tick[of "seconds 40" ?b] by (simp add: store_res_def doh_start_def)
  have r3: "reachable doh_init doh_step (?b\<lparr>dh_clock := seconds 40\<rparr>)" by (rule reach_step) (rule r2, rule t3)
  have t4: "doh_step (?b\<lparr>dh_clock := seconds 40\<rparr>) doh_served_once"
    using doh_hit[of "?b\<lparr>dh_clock := seconds 40\<rparr>" "''h''" "([7], None)"]
    by (simp add: doh_served_once_def store_res_def doh_start_def cache_get_def cache_put_def dohCacheMax_def ttl_of_def
        dohCacheOK_def Let_def)
  have r4: "reachable doh_init doh_step doh_served_once" by (rule reach_step) (rule r3, rule t4)
  note r = r4
  have "(''h'', ([7], None), seconds 40) \<in> set (dh_served doh_served_once)"
    by (simp add: doh_served_once_def Let_def)
  from resolver_bounded_and_fresh[OF r this] r show ?thesis by blast
qed

text \<open>The step relation is that of the functions: a lookup that starts and misses, then ends.\<close>

lemma lookup_is_steps:
  assumes "lookup_start parse_ip is4 raw (dh_clock s) host (dh_cache s) = Ask"
    and "lookup_end (dh_clock s) host out fb (dh_cache s) = (r, m)" "dh_slots s < 4"
  shows "\<exists>t. doh_step\<^sup>*\<^sup>* s t \<and> dh_cache t = m \<and> dh_running t = dh_running s \<and> dh_slots t = dh_slots s"
proof -
  let ?a = "s\<lparr>dh_running := Asking host # dh_running s\<rparr>"
  have miss: "cache_get (dh_clock s) host (dh_cache s) = None"
    using assms(1) by (auto simp: lookup_start_def split: if_splits option.splits)
  have a: "doh_step s ?a" by (rule doh_miss[OF miss])
  show ?thesis
  proof (cases "out = []")
    case False
    have "doh_step ?a (store_res host (out, None) s)"
      using doh_found[of ?a "[]" host "dh_running s" out] False by simp
    moreover have "m = dh_cache (store_res host (out, None) s)" using assms(2) False by (auto simp: lookup_end_def store_res_def)
    ultimately show ?thesis using a
      by (intro exI[of _ "store_res host (out, None) s"]) (auto simp: store_res_def)
  next
    case True
    let ?b = "s\<lparr>dh_running := Wanting host # dh_running s\<rparr>"
    have b: "doh_step ?a ?b" using doh_empty[of ?a "[]" host "dh_running s"] by simp
    show ?thesis
    proof (cases fb)
      case No_slot
      have "doh_step ?b s" using doh_gone[of ?b "[]" host "dh_running s"] by simp
      then show ?thesis using a b True No_slot assms(2)
        by (intro exI[of _ s]) (auto simp: lookup_end_def intro: converse_rtranclp_into_rtranclp)
    next
      case (Os_said x)
      let ?c = "s\<lparr>dh_running := In_os host # dh_running s, dh_slots := dh_slots s + 1\<rparr>"
      have c: "doh_step ?b ?c" using doh_slot[of ?b "[]" host "dh_running s"] assms(3) by simp
      have "doh_step ?c (store_res host x s)" using doh_os[of ?c "[]" host "dh_running s" x] by simp
      then show ?thesis using a b c True Os_said assms(2)
        by (intro exI[of _ "store_res host x s"])
          (auto simp: lookup_end_def store_res_def intro: converse_rtranclp_into_rtranclp)
    qed
  qed
qed

end
