(* ===== verification/Faults.thy ===== *)
theory Faults
  imports Store
begin

text \<open>
  What the node keeps of its own failures: the blocks a peer asked for and it could not read
  (\<open>servefail.go\<close>, over the block store), and the panics that were recovered (\<open>safego.go\<close>).
\<close>

section \<open>Failed serves\<close>

record serveFailure =
  sf_cid :: cid
  sf_err :: string
  sf_when :: nanos

definition maxServeFailures :: nat where
  "maxServeFailures = 256"

record failureLog =
  fl_byCid :: "cid \<Rightarrow> serveFailure option"
  fl_order :: "cid list"

definition newFailureLog :: failureLog where
  "newFailureLog = \<lparr>fl_byCid = Map.empty, fl_order = []\<rparr>"

function drop_oldest :: "nat \<Rightarrow> failureLog \<Rightarrow> failureLog" where
  "drop_oldest n f =
     (if length (fl_order f) > n
      then drop_oldest n (f\<lparr>fl_byCid := (fl_byCid f)(hd (fl_order f) := None), fl_order := tl (fl_order f)\<rparr>)
      else f)"
  by pat_completeness auto
termination by (relation "measure (\<lambda>(n, f). length (fl_order f))") auto

declare drop_oldest.simps [simp del]

definition record_upto :: "nat \<Rightarrow> nanos \<Rightarrow> cid \<Rightarrow> string option \<Rightarrow> failureLog \<Rightarrow> failureLog" where
  "record_upto n now c err f =
     (case err of
        None \<Rightarrow> f
      | Some e \<Rightarrow>
          (let g = (if fl_byCid f c \<noteq> None then f else drop_oldest n (f\<lparr>fl_order := fl_order f @ [c]\<rparr>))
           in g\<lparr>fl_byCid := (fl_byCid g)(c \<mapsto> \<lparr>sf_cid = c, sf_err = e, sf_when = now\<rparr>)\<rparr>))"

definition record_failure :: "nanos \<Rightarrow> cid \<Rightarrow> string option \<Rightarrow> failureLog \<Rightarrow> failureLog" where
  "record_failure = record_upto maxServeFailures"

definition drain :: "failureLog \<Rightarrow> serveFailure list \<times> failureLog" where
  "drain f = (List.map_filter (fl_byCid f) (fl_order f), newFailureLog)"

definition failure_count :: "failureLog \<Rightarrow> nat" where
  "failure_count f = length (fl_order f)"

definition log_ok :: "nat \<Rightarrow> failureLog \<Rightarrow> bool" where
  "log_ok n f \<longleftrightarrow> distinct (fl_order f) \<and> dom (fl_byCid f) = set (fl_order f) \<and> length (fl_order f) \<le> n"

lemma drop_oldest_one:
  assumes "length (fl_order f) = Suc n"
  shows "drop_oldest n f = f\<lparr>fl_byCid := (fl_byCid f)(hd (fl_order f) := None), fl_order := tl (fl_order f)\<rparr>"
  using assms by (simp add: drop_oldest.simps[of n f]) (simp add: drop_oldest.simps)

lemma drop_oldest_none: "length (fl_order f) \<le> n \<Longrightarrow> drop_oldest n f = f"
  by (simp add: drop_oldest.simps)

text \<open>A record keeps the log in bounds: a CID met before is updated in place, a new one evicts the oldest met.\<close>

lemma record_order:
  assumes "log_ok n f" "0 < n"
  shows "fl_order (record_upto n now c (Some e) f) =
    (if c \<in> set (fl_order f) then fl_order f
     else if length (fl_order f) = n then tl (fl_order f) @ [c] else fl_order f @ [c])"
proof (cases "c \<in> set (fl_order f)")
  case True
  then have "fl_byCid f c \<noteq> None" using assms(1) by (auto simp: log_ok_def)
  then show ?thesis using True by (simp add: record_upto_def)
next
  case False
  then have n: "fl_byCid f c = None" using assms(1) by (auto simp: log_ok_def)
  show ?thesis
  proof (cases "length (fl_order f) = n")
    case True
    then have "fl_order f \<noteq> []" using assms(2) by auto
    then show ?thesis using n False True
      by (simp add: record_upto_def drop_oldest_one)
  next
    case less: False
    then show ?thesis using n False assms(1) by (simp add: record_upto_def drop_oldest_none log_ok_def)
  qed
qed

lemma record_map:
  assumes "log_ok n f" "0 < n"
  shows "fl_byCid (record_upto n now c (Some e) f) k =
    (if k = c then Some \<lparr>sf_cid = c, sf_err = e, sf_when = now\<rparr>
     else if c \<notin> set (fl_order f) \<and> length (fl_order f) = n \<and> k = hd (fl_order f) then None
     else fl_byCid f k)"
proof (cases "c \<in> set (fl_order f)")
  case True
  then have "fl_byCid f c \<noteq> None" using assms(1) by (auto simp: log_ok_def)
  then show ?thesis using True by (simp add: record_upto_def)
next
  case False
  then have n: "fl_byCid f c = None" using assms(1) by (auto simp: log_ok_def)
  show ?thesis
  proof (cases "length (fl_order f) = n")
    case True
    then have "fl_order f \<noteq> []" using assms(2) by auto
    then show ?thesis using n False True by (simp add: record_upto_def drop_oldest_one)
  next
    case less: False
    then show ?thesis using n False assms(1) by (simp add: record_upto_def drop_oldest_none log_ok_def)
  qed
qed

lemma record_ok:
  assumes "log_ok n f" "0 < n"
  shows "log_ok n (record_upto n now c err f)"
proof (cases err)
  case None
  then show ?thesis using assms(1) by (simp add: record_upto_def)
next
  case (Some e)
  note ord = record_order[OF assms, of now c e] and mp = record_map[OF assms, of now c e]
  let ?g = "record_upto n now c (Some e) f"
  have d: "dom (fl_byCid ?g) = {k. fl_byCid ?g k \<noteq> None}" by (auto simp: dom_def)
  have dom: "fl_byCid f k \<noteq> None \<longleftrightarrow> k \<in> set (fl_order f)" for k using assms(1) by (auto simp: log_ok_def)
  have dist: "distinct (fl_order f)" and len: "length (fl_order f) \<le> n" using assms(1) by (auto simp: log_ok_def)
  consider (old) "c \<in> set (fl_order f)" | (full) "c \<notin> set (fl_order f)" "length (fl_order f) = n"
    | (room) "c \<notin> set (fl_order f)" "length (fl_order f) < n" using len by linarith
  then show ?thesis
  proof cases
    case old
    then show ?thesis using Some dist len dom by (auto simp: log_ok_def ord d mp)
  next
    case full
    then obtain x xs where x: "fl_order f = x # xs" using assms(2) by (cases "fl_order f") auto
    show ?thesis using Some full dist dom x by (auto simp: log_ok_def ord d mp)
  next
    case room
    then show ?thesis using Some dist dom by (auto simp: log_ok_def ord d mp)
  qed
qed

text \<open>The latest failure of a CID among those recorded.\<close>

fun record_all :: "nat \<Rightarrow> (nanos \<times> cid \<times> string) list \<Rightarrow> failureLog \<Rightarrow> failureLog" where
  "record_all n [] f = f"
| "record_all n ((now, c, e) # rs) f = record_all n rs (record_upto n now c (Some e) f)"

lemma record_all_append: "record_all n (xs @ ys) f = record_all n ys (record_all n xs f)"
  by (induction n xs f rule: record_all.induct) simp_all

definition latest :: "(nanos \<times> cid \<times> string) list \<Rightarrow> cid \<Rightarrow> serveFailure option" where
  "latest rs c = map_of (map (\<lambda>(now, c, e). (c, \<lparr>sf_cid = c, sf_err = e, sf_when = now\<rparr>)) (rev rs)) c"

lemma latest_snoc: "latest (rs @ [(now, c, e)]) k = (if k = c then Some \<lparr>sf_cid = c, sf_err = e, sf_when = now\<rparr> else latest rs k)"
  by (simp add: latest_def)

lemma record_all_spec:
  assumes "0 < n"
  shows "log_ok n (record_all n rs newFailureLog) \<and>
    (\<forall>k v. fl_byCid (record_all n rs newFailureLog) k = Some v \<longrightarrow> latest rs k = Some v) \<and>
    (card ((\<lambda>(now, c, e). c) ` set rs) \<le> n \<longrightarrow> set (fl_order (record_all n rs newFailureLog)) = (\<lambda>(now, c, e). c) ` set rs)"
proof (induction rs rule: rev_induct)
  case Nil
  then show ?case by (simp add: log_ok_def newFailureLog_def)
next
  case (snoc r rs)
  obtain now c e where r: "r = (now, c, e)" by (cases r)
  let ?f = "record_all n rs newFailureLog" and ?cids = "(\<lambda>(now, c, e). c) ` set rs"
  have ok: "log_ok n ?f" using snoc by blast
  have rec: "record_all n (rs @ [(now, c, e)]) newFailureLog = record_upto n now c (Some e) ?f"
    by (simp add: record_all_append)
  have "latest (rs @ [r]) k = Some v" if "fl_byCid (record_upto n now c (Some e) ?f) k = Some v" for k v
    using that snoc by (auto simp: record_map[OF ok assms] r latest_snoc split: if_splits)
  moreover have "set (fl_order (record_upto n now c (Some e) ?f)) = insert c ?cids" if "card (insert c ?cids) \<le> n"
  proof -
    have "card ?cids \<le> n" using that by (meson card_mono finite_imageI finite_insert finite_set le_trans subset_insertI)
    then have same: "set (fl_order ?f) = ?cids" using snoc by blast
    show ?thesis
    proof (cases "c \<in> ?cids")
      case True
      then show ?thesis using same by (auto simp: record_order[OF ok assms] insert_absorb)
    next
      case False
      have "length (fl_order ?f) = card ?cids" using ok same by (metis distinct_card log_ok_def)
      moreover have "card (insert c ?cids) = Suc (card ?cids)" using False by (intro card_insert_disjoint) auto
      ultimately have "length (fl_order ?f) \<noteq> n" using that by simp
      then show ?thesis using False same by (simp add: record_order[OF ok assms])
    qed
  qed
  ultimately show ?case using record_ok[OF ok assms] unfolding r rec by simp
qed

text \<open>
  The failures a drain hands over: one per CID, at most \<open>maxServeFailures\<close>, each the latest of its
  CID, the newest of all among them, and all of them when no more CIDs failed than that.
\<close>

theorem failure_log_exact:
  assumes "drain (record_all maxServeFailures (rs @ [(now, c, e)]) newFailureLog) = (out, g)"
  shows "g = newFailureLog \<and> length out \<le> maxServeFailures \<and> distinct (map sf_cid out) \<and>
    list_all (\<lambda>v. latest (rs @ [(now, c, e)]) (sf_cid v) = Some v) out \<and>
    \<lparr>sf_cid = c, sf_err = e, sf_when = now\<rparr> \<in> set out \<and>
    (card ((\<lambda>(now, c, e). c) ` set (rs @ [(now, c, e)])) \<le> maxServeFailures \<longrightarrow>
       sf_cid ` set out = (\<lambda>(now, c, e). c) ` set (rs @ [(now, c, e)]))"
proof -
  let ?n = maxServeFailures and ?rs = "rs @ [(now, c, e)]"
  define f where "f = record_all ?n ?rs newFailureLog"
  have n: "0 < ?n" by (simp add: maxServeFailures_def)
  note sp = record_all_spec[OF n, of ?rs, folded f_def]
  have okn: "log_ok ?n (record_all ?n rs newFailureLog)" using record_all_spec[OF n] by blast
  have newest: "fl_byCid f c = Some \<lparr>sf_cid = c, sf_err = e, sf_when = now\<rparr>"
    by (simp add: f_def record_all_append record_map[OF okn n])
  have ok: "distinct (fl_order f)" "dom (fl_byCid f) = set (fl_order f)" "length (fl_order f) \<le> ?n"
    using sp by (auto simp: log_ok_def)
  have cid_of: "sf_cid v = k" if "fl_byCid f k = Some v" for k v
  proof -
    have "latest ?rs k = Some v" using sp that by blast
    then have "(k, v) \<in> set (map (\<lambda>(now, c, e). (c, \<lparr>sf_cid = c, sf_err = e, sf_when = now\<rparr>)) (rev ?rs))"
      unfolding latest_def by (rule map_of_SomeD)
    then show ?thesis by auto
  qed
  have out: "out = map (\<lambda>k. the (fl_byCid f k)) (fl_order f)"
  proof -
    have "List.map_filter (fl_byCid f) xs = map (\<lambda>k. the (fl_byCid f k)) xs" if "set xs \<subseteq> dom (fl_byCid f)" for xs
      using that by (induction xs) (auto simp: List.map_filter_def)
    then have "List.map_filter (fl_byCid f) (fl_order f) = map (\<lambda>k. the (fl_byCid f k)) (fl_order f)" using ok(2) by blast
    moreover have "out = List.map_filter (fl_byCid f) (fl_order f)" using assms unfolding drain_def f_def by simp
    ultimately show ?thesis by simp
  qed
  have "sf_cid (the (fl_byCid f k)) = k" if "k \<in> set (fl_order f)" for k
  proof -
    have "k \<in> dom (fl_byCid f)" unfolding ok(2) by (rule that)
    then obtain v where v: "fl_byCid f k = Some v" by (rule exE[OF domD])
    show ?thesis unfolding v option.sel by (rule cid_of[OF v])
  qed
  then have ids: "map sf_cid out = fl_order f" unfolding out map_map by (intro map_idI) simp
  moreover have "latest ?rs (sf_cid v) = Some v" if v_in: "v \<in> set out" for v
  proof -
    obtain k where k: "k \<in> set (fl_order f)" "v = the (fl_byCid f k)" using v_in unfolding out by auto
    have "k \<in> dom (fl_byCid f)" unfolding ok(2) by (rule k(1))
    then obtain u where "fl_byCid f k = Some u" by (rule exE[OF domD])
    then have v: "fl_byCid f k = Some v" by (simp add: k(2))
    then have "latest ?rs k = Some v" using sp by blast
    then show ?thesis unfolding cid_of[OF v] .
  qed
  moreover have "\<lparr>sf_cid = c, sf_err = e, sf_when = now\<rparr> \<in> set out"
  proof -
    have "c \<in> set (fl_order f)" unfolding ok(2)[symmetric] using newest by (rule domI)
    then show ?thesis using newest by (force simp: out)
  qed
  moreover have "length out \<le> ?n" using ok(3) by (simp add: out)
  moreover have "g = newFailureLog" using assms by (simp add: drain_def)
  moreover have "sf_cid ` set out = set (fl_order f)"
    using ids by (metis set_map)
  ultimately show ?thesis using ok(1) sp ids by (simp add: list_all_iff)
qed

text \<open>
  "The newest failures are the useful ones": but a CID that keeps failing stays where it was first
  met, and is the one evicted, whatever the age of its last failure.
\<close>

lemma repeated_failure_evicted:
  assumes "log_ok n f" "fl_order f = c # cs" "length (fl_order f) = n" "d \<notin> set (fl_order f)"
  shows "fl_byCid (record_upto n (now + 1) d (Some e) (record_upto n now c (Some e) f)) c = None"
proof -
  have n: "0 < n" using assms(2,3) by auto
  let ?g = "record_upto n now c (Some e) f"
  have ok: "log_ok n ?g" by (rule record_ok[OF assms(1) n])
  have "fl_order ?g = fl_order f" using assms(2) by (simp add: record_order[OF assms(1) n])
  then show ?thesis using assms by (auto simp: record_map[OF ok n])
qed

text \<open>The recording blockstore: a block not held is no failure, one held that cannot be read is.\<close>

definition recordingGet :: "boxo \<Rightarrow> store \<Rightarrow> nanos \<Rightarrow> string \<Rightarrow> cid \<Rightarrow> failureLog \<Rightarrow> bytes option \<times> failureLog" where
  "recordingGet E s now msg c f =
     (case block_get E s c of
        Some b \<Rightarrow> (Some b, f)
      | None \<Rightarrow> (None, if hasLocal s c then record_failure now c (Some msg) f else f))"

lemma recorded_unservable:
  assumes "log_ok maxServeFailures f" "recordingGet E s now msg c f = (None, g)" "hasLocal s c"
  shows "c \<in> set (fl_order g) \<and> cidUnservable E s c = Some (Unreadable c)"
proof -
  have n: "0 < maxServeFailures" by (simp add: maxServeFailures_def)
  have b: "block_get E s c = None" and g: "g = record_upto maxServeFailures now c (Some msg) f"
    using assms(2,3) by (auto simp: recordingGet_def record_failure_def split: option.splits)
  have "c \<in> set (fl_order g)" by (simp add: g record_order[OF assms(1) n])
  moreover have "cidUnservable E s c = Some (Unreadable c)"
    using b by (simp add: cidUnservable_def dag_walk.simps unservable_visit_def)
  ultimately show ?thesis ..
qed

section \<open>Recovered panics\<close>

record panics =
  pa_count :: int
  pa_last :: "string \<times> nanos"
  pa_site :: "string \<Rightarrow> int"

definition panicStackCap :: int where
  "panicStackCap = 5"

definition no_panics :: panics where
  "no_panics = \<lparr>pa_count = 0, pa_last = ('''', 0), pa_site = (\<lambda>x. 0)\<rparr>"

text \<open>Whether to print the stack, whether to say that stacks are suppressed from now on.\<close>

definition notePanic :: "nanos \<Rightarrow> string \<Rightarrow> panics \<Rightarrow> (bool \<times> bool) \<times> panics" where
  "notePanic now site s =
     (let k = pa_site s site + 1 in
      ((k \<le> panicStackCap, k = panicStackCap + 1),
       \<lparr>pa_count = pa_count s + 1, pa_last = (site, now), pa_site = (pa_site s)(site := k)\<rparr>))"

definition panicStats :: "panics \<Rightarrow> int \<times> string \<times> nanos" where
  "panicStats s = (pa_count s, pa_last s)"

datatype 'a outcome_of = Returned 'a | Panicked

definition guard_run :: "nanos \<Rightarrow> string \<Rightarrow> 'a outcome_of \<Rightarrow> panics \<Rightarrow> 'a option \<times> panics" where
  "guard_run now site r s = (case r of Returned x \<Rightarrow> (Some x, s) | Panicked \<Rightarrow> (None, snd (notePanic now site s)))"

definition guardErr :: "nanos \<Rightarrow> string \<Rightarrow> (string option) outcome_of \<Rightarrow> panics \<Rightarrow> string option \<times> panics" where
  "guardErr now site r s =
     (case r of Returned e \<Rightarrow> (e, s) | Panicked \<Rightarrow> (Some (''panic in '' @ site), snd (notePanic now site s)))"

fun note_all :: "(nanos \<times> string) list \<Rightarrow> panics \<Rightarrow> (string \<times> bool \<times> bool) list \<times> panics" where
  "note_all [] s = ([], s)"
| "note_all ((now, site) # ps) s =
     (case notePanic now site s of (x, t) \<Rightarrow> (case note_all ps t of (xs, u) \<Rightarrow> ((site, x) # xs, u)))"

definition stacks_of :: "string \<Rightarrow> (string \<times> bool \<times> bool) list \<Rightarrow> nat" where
  "stacks_of site xs = length (filter (\<lambda>(n, st, note). n = site \<and> st) xs)"

definition notes_of :: "string \<Rightarrow> (string \<times> bool \<times> bool) list \<Rightarrow> nat" where
  "notes_of site xs = length (filter (\<lambda>(n, st, note). n = site \<and> note) xs)"

lemma stacks_notes_Cons [simp]:
  "stacks_of site ((n, st, note) # xs) = (if n = site \<and> st then 1 else 0) + stacks_of site xs"
  "notes_of site ((n, st, note) # xs) = (if n = site \<and> note then 1 else 0) + notes_of site xs"
  "stacks_of site [] = 0" "notes_of site [] = 0"
  by (simp_all add: stacks_of_def notes_of_def)

text \<open>However panics recur: every one is counted, a site prints at most five stacks, and says once that it stops.\<close>

lemma panics_counted:
  "note_all ps s = (xs, t) \<Longrightarrow> 0 \<le> pa_site s site \<Longrightarrow>
   pa_count t = pa_count s + int (length ps) \<and>
   pa_site t site = pa_site s site + int (length (filter (\<lambda>p. snd p = site) ps)) \<and>
   int (stacks_of site xs) = min panicStackCap (pa_site t site) - min panicStackCap (pa_site s site) \<and>
   notes_of site xs = (if pa_site s site \<le> panicStackCap \<and> panicStackCap < pa_site t site then 1 else 0)"
proof (induction ps s arbitrary: xs rule: note_all.induct)
  case (1 s)
  then show ?case by auto
next
  case (2 now n ps s)
  obtain st nt u where x: "notePanic now n s = ((st, nt), u)" by (metis surj_pair)
  obtain ys where ys: "note_all ps u = (ys, t)" "xs = (n, st, nt) # ys" using 2(2) x by (auto split: prod.splits)
  have u: "pa_count u = pa_count s + 1" "pa_site u site = pa_site s site + (if n = site then 1 else 0)"
    "st \<longleftrightarrow> pa_site s n + 1 \<le> panicStackCap" "nt \<longleftrightarrow> pa_site s n = panicStackCap"
    using x by (auto simp: notePanic_def Let_def)
  have "0 \<le> pa_site u site" using 2(3) u(2) by simp
  note IH = 2(1)[OF x[symmetric] ys(1) this]
  show ?case
    using IH u 2(3) by (cases "n = site") (auto simp: ys(2) panicStackCap_def)
qed

end
