(* ===== verification/Finder.thy ===== *)
theory Finder
  imports Social
begin

text \<open>
  Who is asked for content: the accepted friends as providers (\<open>friendprovider.go\<close>), the
  provider search over all routers at once (\<open>combinedFinder\<close> of \<open>online.go\<close>), and the walks and dials
  that refresh a provider's addresses, never two at a time for the same key (\<open>warm.go\<close>).
  A peer ID in text decodes by the parameter \<open>decode\<close>; the connectedness of a peer and what a router
  answers are arguments.
\<close>

section \<open>Friends as providers\<close>

datatype connectedness = NotConnected | Connected | Limited

definition friendProviderPeers :: "('p \<Rightarrow> 'q option) \<Rightarrow> 'p socialState option \<Rightarrow> 'q \<Rightarrow> 'q list" where
  "friendProviderPeers decode s self =
     (case s of
        None \<Rightarrow> []
      | Some st \<Rightarrow> filter (\<lambda>q. q \<noteq> self) (List.map_filter decode (acceptedPeers st)))"

definition maxFriendProviders :: nat where
  "maxFriendProviders = 6"

text \<open>The peers sent, of which the search takes \<open>takes\<close> before its context ends.\<close>

fun offer_friends :: "('q \<Rightarrow> connectedness) \<Rightarrow> nat \<Rightarrow> nat \<Rightarrow> 'q list \<Rightarrow> 'q list" where
  "offer_friends conn takes sent [] = []"
| "offer_friends conn takes sent (p # ps) =
     (if sent \<ge> maxFriendProviders then []
      else if conn p \<noteq> Connected then offer_friends conn takes sent ps
      else if sent < takes then p # offer_friends conn takes (sent + 1) ps
      else [])"

definition friend_providers ::
  "('p \<Rightarrow> 'q option) \<Rightarrow> 'p socialState option \<Rightarrow> ('q \<Rightarrow> connectedness) \<Rightarrow> nat \<Rightarrow> 'q \<Rightarrow> 'q list" where
  "friend_providers decode s conn takes self = offer_friends conn takes 0 (friendProviderPeers decode s self)"

definition friendConnected :: "('p \<Rightarrow> 'q option) \<Rightarrow> 'p socialState option \<Rightarrow> ('q \<Rightarrow> connectedness) \<Rightarrow> 'q \<Rightarrow> bool" where
  "friendConnected decode s conn self = list_ex (\<lambda>p. conn p = Connected) (friendProviderPeers decode s self)"

lemma offer_friends_exact:
  "offer_friends conn takes sent ps =
   take (min maxFriendProviders takes - sent) (filter (\<lambda>p. conn p = Connected) ps)"
proof (induction ps arbitrary: sent)
  case (Cons p ps)
  show ?case
  proof (cases "conn p = Connected \<and> sent < maxFriendProviders \<and> sent < takes")
    case True
    then have "min maxFriendProviders takes - sent = Suc (min maxFriendProviders takes - (sent + 1))"
      by (auto simp: min_def)
    then show ?thesis using True Cons.IH[of "sent + 1"] by simp
  qed (use Cons.IH[of sent] in auto)
qed simp

text \<open>
  What the friends contribute to a search: accepted friends, directly connected, never this node, six at
  most; and some whenever \<open>friendConnected\<close> holds the other routers back.
\<close>

lemma friend_providers_exact:
  "friend_providers decode s conn takes self =
   take (min maxFriendProviders takes) (filter (\<lambda>p. conn p = Connected) (friendProviderPeers decode s self))"
  by (simp add: friend_providers_def offer_friends_exact)

lemma friend_providers_who:
  assumes "q \<in> set (friend_providers decode (Some st) conn takes self)" "so_keys st"
  shows "conn q = Connected \<and> q \<noteq> self \<and> (\<exists>p c. decode p = Some q \<and> so_get p st = Some c \<and> ct_state c = stAccepted)"
proof -
  have q: "q \<in> set (filter (\<lambda>p. conn p = Connected) (friendProviderPeers decode (Some st) self))"
    using assms(1) unfolding friend_providers_exact by (rule in_set_takeD)
  then obtain p where p: "p \<in> set (acceptedPeers st)" "decode p = Some q"
    by (auto simp: friendProviderPeers_def List.map_filter_def)
  then have "\<exists>c. so_get p st = Some c \<and> ct_state c = stAccepted" using book.accepted_iff[OF assms(2)] by blast
  then show ?thesis using q p by (auto simp: friendProviderPeers_def)
qed

lemma friend_connected_offers:
  "friendConnected decode s conn self \<Longrightarrow> 0 < takes \<Longrightarrow> friend_providers decode s conn takes self \<noteq> []"
  by (auto simp: friendConnected_def friend_providers_exact list_ex_iff maxFriendProviders_def filter_empty_conv)

section \<open>The provider search\<close>

text \<open>
  One thread per router, by its index: 0 the friends, 1 the DHT, then the indexers. A router that is
  held back waits the search delay; then it forwards what the router offers. \<open>fd_noted\<close> logs every
  provider noted, with its router and the peers that were not to be handed out at that moment.
\<close>

datatype 'q rphase = Gated | Asking | Sending 'q | Ended

record 'q finder =
  fd_routers :: "'q rphase list"
  fd_held :: bool
  fd_ctx_done :: bool
  fd_skip :: "'q set"
  fd_noted :: "(nat \<times> 'q \<times> 'q set) list"
  fd_out :: "'q list"
  fd_closed :: bool
  fd_passed :: "nat list"

text \<open>\<open>present\<close>: which routers there are; a nil one has no thread.\<close>

definition find_start :: "bool list \<Rightarrow> bool \<Rightarrow> 'q set \<Rightarrow> 'q finder" where
  "find_start present held skip =
     \<lparr>fd_routers = map (\<lambda>i. if \<not> present ! i then Ended else if i > 0 \<and> held then Gated else Asking) [0..<length present],
      fd_held = held, fd_ctx_done = False, fd_skip = skip, fd_noted = [], fd_out = [], fd_closed = False, fd_passed = []\<rparr>"

definition set_router :: "nat \<Rightarrow> 'q rphase \<Rightarrow> 'q finder \<Rightarrow> 'q finder" where
  "set_router i r s = s\<lparr>fd_routers := (fd_routers s)[i := r]\<rparr>"

definition at_router :: "nat \<Rightarrow> 'q rphase \<Rightarrow> 'q finder \<Rightarrow> bool" where
  "at_router i r s \<longleftrightarrow> i < length (fd_routers s) \<and> fd_routers s ! i = r"

inductive find_step :: "(nat \<Rightarrow> 'q \<Rightarrow> bool) \<Rightarrow> 'q finder \<Rightarrow> 'q finder \<Rightarrow> bool" for offers where
  find_pass: "at_router i Gated s \<Longrightarrow> \<not> fd_ctx_done s \<Longrightarrow>
    find_step offers s (set_router i Asking (s\<lparr>fd_passed := i # fd_passed s\<rparr>))"
| find_give_up: "at_router i Gated s \<Longrightarrow> fd_ctx_done s \<Longrightarrow> find_step offers s (set_router i Ended s)"
| find_skip: "at_router i Asking s \<Longrightarrow> offers i q \<Longrightarrow> q \<in> fd_skip s \<Longrightarrow> find_step offers s s"
| find_offer: "at_router i Asking s \<Longrightarrow> offers i q \<Longrightarrow> q \<notin> fd_skip s \<Longrightarrow>
    find_step offers s (set_router i (Sending q) (s\<lparr>fd_noted := (i, q, fd_skip s) # fd_noted s\<rparr>))"
| find_send: "at_router i (Sending q) s \<Longrightarrow> find_step offers s (set_router i Asking (s\<lparr>fd_out := q # fd_out s\<rparr>))"
| find_cut: "at_router i (Sending q) s \<Longrightarrow> fd_ctx_done s \<Longrightarrow> find_step offers s (set_router i Ended s)"
| find_over: "at_router i Asking s \<Longrightarrow> find_step offers s (set_router i Ended s)"
| find_close: "list_all (\<lambda>r. r = Ended) (fd_routers s) \<Longrightarrow> \<not> fd_closed s \<Longrightarrow> find_step offers s (s\<lparr>fd_closed := True\<rparr>)"
| find_ctx: "find_step offers s (s\<lparr>fd_ctx_done := True\<rparr>)"
| find_quarantine: "find_step offers s (s\<lparr>fd_skip := S\<rparr>)"

definition find_init :: "bool list \<Rightarrow> bool \<Rightarrow> 'q finder \<Rightarrow> bool" where
  "find_init present held s \<longleftrightarrow> (\<exists>skip. s = find_start present held skip)"

text \<open>What a thread's phase says of the logs.\<close>

fun router_ok :: "bool list \<Rightarrow> bool \<Rightarrow> nat set \<Rightarrow> (nat \<times> 'q \<times> 'q set) set \<Rightarrow> nat \<Rightarrow> 'q rphase \<Rightarrow> bool" where
  "router_ok present held P N i Gated \<longleftrightarrow> present ! i"
| "router_ok present held P N i Asking \<longleftrightarrow> present ! i \<and> (held \<and> 0 < i \<longrightarrow> i \<in> P)"
| "router_ok present held P N i (Sending q) \<longleftrightarrow> present ! i \<and> (held \<and> 0 < i \<longrightarrow> i \<in> P) \<and> (\<exists>S. (i, q, S) \<in> N)"
| "router_ok present held P N i Ended \<longleftrightarrow> True"

lemma router_ok_mono:
  "router_ok present held P N i r \<Longrightarrow> P \<subseteq> P' \<Longrightarrow> N \<subseteq> N' \<Longrightarrow> router_ok present held P' N' i r"
  by (cases r) auto

definition routers_ok :: "bool list \<Rightarrow> bool \<Rightarrow> 'q finder \<Rightarrow> bool" where
  "routers_ok present held s \<longleftrightarrow> length (fd_routers s) = length present \<and>
     (\<forall>i < length present. router_ok present held (set (fd_passed s)) (set (fd_noted s)) i (fd_routers s ! i))"

definition noted_ok :: "(nat \<Rightarrow> 'q \<Rightarrow> bool) \<Rightarrow> bool list \<Rightarrow> bool \<Rightarrow> nat set \<Rightarrow> nat \<times> 'q \<times> 'q set \<Rightarrow> bool" where
  "noted_ok offers present held P x \<longleftrightarrow> (case x of (i, q, S) \<Rightarrow>
     i < length present \<and> present ! i \<and> offers i q \<and> q \<notin> S \<and> (held \<and> 0 < i \<longrightarrow> i \<in> P))"

definition find_inv :: "(nat \<Rightarrow> 'q \<Rightarrow> bool) \<Rightarrow> bool list \<Rightarrow> bool \<Rightarrow> 'q finder \<Rightarrow> bool" where
  "find_inv offers present held s \<longleftrightarrow>
     routers_ok present held s \<and>
     list_all (noted_ok offers present held (set (fd_passed s))) (fd_noted s) \<and>
     set (fd_out s) \<subseteq> (\<lambda>(i, q, S). q) ` set (fd_noted s) \<and>
     (fd_closed s \<longrightarrow> list_all (\<lambda>r. r = Ended) (fd_routers s))"

lemma routers_ok_set:
  assumes "routers_ok present held s" "fd_routers t = (fd_routers s)[i := r]"
    "set (fd_passed s) \<subseteq> set (fd_passed t)" "set (fd_noted s) \<subseteq> set (fd_noted t)"
    "router_ok present held (set (fd_passed t)) (set (fd_noted t)) i r"
  shows "routers_ok present held t"
proof -
  have "router_ok present held (set (fd_passed t)) (set (fd_noted t)) j ((fd_routers s)[i := r] ! j)" if j: "j < length present" for j
  proof (cases "j = i")
    case True
    then show ?thesis using assms(1,5) j by (simp add: routers_ok_def)
  next
    case False
    then show ?thesis using router_ok_mono[OF _ assms(3,4), of present held j "fd_routers s ! j"] assms(1) j by (simp add: routers_ok_def)
  qed
  then show ?thesis using assms(1,2) by (simp add: routers_ok_def)
qed

lemma not_closed_at: "find_inv offers present held s \<Longrightarrow> at_router i r s \<Longrightarrow> r \<noteq> Ended \<Longrightarrow> \<not> fd_closed s"
  by (auto simp: find_inv_def at_router_def list_all_length)

lemma at_router_ok:
  "find_inv offers present held s \<Longrightarrow> at_router i r s \<Longrightarrow>
   i < length present \<and> router_ok present held (set (fd_passed s)) (set (fd_noted s)) i r"
  by (auto simp: find_inv_def routers_ok_def at_router_def)

lemma noted_ok_mono: "noted_ok offers present held P x \<Longrightarrow> P \<subseteq> P' \<Longrightarrow> noted_ok offers present held P' x"
  by (auto simp: noted_ok_def)

text \<open>A thread that moves on keeps the invariant, when its new phase and what it logs are in order.\<close>

lemma find_inv_move:
  assumes "find_inv offers present held s" "\<not> fd_closed t" "fd_routers t = (fd_routers s)[i := r]"
    "router_ok present held (set (fd_passed t)) (set (fd_noted t)) i r"
    "set (fd_passed s) \<subseteq> set (fd_passed t)" "set (fd_noted s) \<subseteq> set (fd_noted t)"
    "list_all (noted_ok offers present held (set (fd_passed t))) (fd_noted t)"
    "set (fd_out t) \<subseteq> (\<lambda>(i, q, S). q) ` set (fd_noted t)"
  shows "find_inv offers present held t"
  using assms routers_ok_set[of present held s t i r] by (simp add: find_inv_def)

lemma find_inv_init: "find_init present held s \<Longrightarrow> find_inv offers present held s"
  by (auto simp: find_init_def find_inv_def find_start_def routers_ok_def)

lemma find_inv_step:
  assumes "find_inv offers present held s" "find_step offers s t"
  shows "find_inv offers present held t"
  using assms(2)
proof cases
  case (find_pass i)
  note a = at_router_ok[OF assms(1) find_pass(2)] not_closed_at[OF assms(1) find_pass(2)]
  have n: "list_all (noted_ok offers present held (insert i (set (fd_passed s)))) (fd_noted s)"
    using assms(1) unfolding find_inv_def by (auto simp: list_all_iff intro: noted_ok_mono)
  show ?thesis
    using assms(1) a n unfolding find_pass(1) by (intro find_inv_move[OF assms(1)]) (auto simp: set_router_def find_inv_def)
next
  case (find_give_up i)
  note a = not_closed_at[OF assms(1) find_give_up(2)]
  show ?thesis
    using assms(1) a unfolding find_give_up(1) by (intro find_inv_move[OF assms(1)]) (auto simp: set_router_def find_inv_def)
next
  case (find_skip i q)
  then show ?thesis using assms(1) by simp
next
  case (find_offer i q)
  note a = at_router_ok[OF assms(1) find_offer(2)] not_closed_at[OF assms(1) find_offer(2)]
  show ?thesis
    using assms(1) a find_offer(3,4) unfolding find_offer(1)
    by (intro find_inv_move[OF assms(1)]) (auto simp: set_router_def find_inv_def noted_ok_def)
next
  case (find_send i q)
  note a = at_router_ok[OF assms(1) find_send(2)] not_closed_at[OF assms(1) find_send(2)]
  have "q \<in> (\<lambda>(i, q, S). q) ` set (fd_noted s)" using a(1) by force
  then show ?thesis
    using assms(1) a unfolding find_send(1) by (intro find_inv_move[OF assms(1)]) (auto simp: set_router_def find_inv_def)
next
  case (find_cut i q)
  note a = not_closed_at[OF assms(1) find_cut(2)]
  show ?thesis
    using assms(1) a unfolding find_cut(1) by (intro find_inv_move[OF assms(1)]) (auto simp: set_router_def find_inv_def)
next
  case (find_over i)
  note a = not_closed_at[OF assms(1) find_over(2)]
  show ?thesis
    using assms(1) a unfolding find_over(1) by (intro find_inv_move[OF assms(1)]) (auto simp: set_router_def find_inv_def)
qed (use assms(1) in \<open>simp_all add: find_inv_def routers_ok_def\<close>)

interpretation find_sys: step_invariant "find_init present held" "find_step offers" "find_inv offers present held"
  for present held offers
  by unfold_locales (auto intro: find_inv_init find_inv_step)

lemma find_ctx_stays:
  "find_step offers s t \<Longrightarrow> fd_ctx_done s \<Longrightarrow> fd_ctx_done t \<and> fd_passed t = fd_passed s"
  by (erule find_step.cases) (auto simp: set_router_def at_router_def)

lemma find_ctx_stays_star:
  "(find_step offers)\<^sup>*\<^sup>* s t \<Longrightarrow> fd_ctx_done s \<Longrightarrow> fd_ctx_done t \<and> fd_passed t = fd_passed s"
  by (induction rule: rtranclp_induct) (auto dest: find_ctx_stays)


text \<open>The search ends: once its context has, whatever its threads are at, the channel can be closed.\<close>

fun phase_work :: "'q rphase \<Rightarrow> nat" where
  "phase_work Gated = 1" | "phase_work Asking = 1" | "phase_work (Sending q) = 1" | "phase_work Ended = 0"

lemma phase_work_Ended: "phase_work r = 0 \<longleftrightarrow> r = Ended"
  by (cases r) auto

lemma some_router_ends:
  assumes "fd_ctx_done s" "i < length (fd_routers s)" "fd_routers s ! i \<noteq> Ended"
  shows "find_step offers s (set_router i Ended s)"
proof (cases "fd_routers s ! i")
  case Gated
  then show ?thesis using assms find_give_up[of i s] by (simp add: at_router_def)
next
  case Asking
  then show ?thesis using assms find_over[of i s] by (simp add: at_router_def)
next
  case (Sending q)
  then show ?thesis using assms find_cut[of i q s] by (simp add: at_router_def)
qed (use assms in simp)

lemma search_closes:
  "fd_ctx_done s \<Longrightarrow> \<exists>t. (find_step offers)\<^sup>*\<^sup>* s t \<and> fd_closed t"
proof (induction "sum_list (map phase_work (fd_routers s))" arbitrary: s rule: less_induct)
  case less
  show ?case
  proof (cases "list_all (\<lambda>r. r = Ended) (fd_routers s)")
    case True
    show ?thesis
    proof (cases "fd_closed s")
      case False
      then show ?thesis using find_close[OF True False, of offers] by (intro exI[of _ "s\<lparr>fd_closed := True\<rparr>"]) auto
    qed auto
  next
    case False
    then obtain i where i: "i < length (fd_routers s)" "fd_routers s ! i \<noteq> Ended" by (auto simp: list_all_length)
    let ?t = "set_router i Ended s"
    have step: "find_step offers s ?t" by (rule some_router_ends[OF less.prems i])
    have w: "0 < phase_work (fd_routers s ! i)" using i(2) phase_work_Ended by (metis gr0I)
    have "sum_list (map phase_work ((fd_routers s)[i := Ended])) < sum_list (map phase_work (fd_routers s))"
    proof -
      have "phase_work (fd_routers s ! i) \<le> sum_list (map phase_work (fd_routers s))"
        using i(1) by (intro member_le_sum_list) simp_all
      then show ?thesis using w i(1) by (simp add: map_update sum_list_update)
    qed
    then have "\<exists>u. (find_step offers)\<^sup>*\<^sup>* ?t u \<and> fd_closed u"
      by (intro less.hyps) (simp_all add: set_router_def less.prems)
    then show ?thesis using step by (meson converse_rtranclp_into_rtranclp)
  qed
qed

definition find_demo :: "nat finder" where
  "find_demo = set_router 0 Asking ((set_router 0 (Sending 5) ((find_start [True, True] True {7})\<lparr>fd_noted := [(0, 5, {7})]\<rparr>))\<lparr>fd_out := [5]\<rparr>)"

lemma find_demo_reachable:
  "reachable (find_init [True, True] True) (find_step (\<lambda>i q. q = 5 + i)) find_demo"
proof -
  let ?s0 = "find_start [True, True] True {7 :: nat}"
  let ?s1 = "set_router 0 (Sending 5) (?s0\<lparr>fd_noted := [(0, 5, {7})]\<rparr>)"
  have "reachable (find_init [True, True] True) (find_step (\<lambda>i q. q = 5 + i)) ?s0"
    by (rule reach_init) (auto simp: find_init_def)
  moreover have "find_step (\<lambda>i q. q = 5 + i) ?s0 ?s1"
    using find_offer[of 0 ?s0 "\<lambda>i q. q = 5 + i" 5] by (simp add: at_router_def find_start_def)
  moreover have "find_step (\<lambda>i q. q = 5 + i) ?s1 find_demo"
    using find_send[of 0 5 ?s1] by (simp add: at_router_def find_start_def set_router_def find_demo_def)
  ultimately show ?thesis by (blast intro: reach_step)
qed


section \<open>Walks and dials\<close>

text \<open>
  \<open>walkNeeded\<close>: whether the context ended within the delay, whether it had by its end, and what \<open>moved\<close>
  said (\<open>None\<close>: no such function).
\<close>

definition walkNeeded :: "bool \<Rightarrow> bool \<Rightarrow> bool option \<Rightarrow> bool" where
  "walkNeeded ended_in_delay ended moved =
     (if ended_in_delay then False else \<not> ended \<and> (case moved of None \<Rightarrow> True | Some m \<Rightarrow> \<not> m))"

definition friendWarmEvery :: nanos where
  "friendWarmEvery = seconds 60"

definition friend_key :: "string \<Rightarrow> string" where
  "friend_key p = ''friend:'' @ p"

text \<open>Whether \<open>warmFriends\<close> goes on to claim the friend: it decodes, is not this node, has no connection, and was not tried lately.\<close>

definition friend_due :: "(string \<Rightarrow> 'q option) \<Rightarrow> 'q \<Rightarrow> ('q \<Rightarrow> connectedness) \<Rightarrow> nanos \<Rightarrow> nanos option \<Rightarrow> string \<Rightarrow> bool" where
  "friend_due decode self conn now tried p =
     (case decode p of
        None \<Rightarrow> False
      | Some q \<Rightarrow>
          if q = self then False
          else if conn q = Connected \<or> conn q = Limited then False
          else (case tried of None \<Rightarrow> True | Some t \<Rightarrow> \<not> now - t < friendWarmEvery))"

text \<open>
  The goroutines: a fetch attempt's refresh (its remaining targets and the attempt), and the warming of one friend.
  \<open>warmInflight\<close> is the set of keys being worked on.
\<close>

datatype warm_thread =
    Wt_delay "string list" nat
  | Wt_targets "string list" nat
  | Wt_claim string "string list" nat
  | Wt_walk string "string list" nat
  | Fr_checked string
  | Fr_dial string

record warm =
  wm_threads :: "warm_thread list"
  wm_inflight :: "string set"
  wm_friendAt :: "string \<Rightarrow> nanos option"
  wm_now :: nanos
  wm_ended :: "nat set"
  wm_dials :: "(string \<times> nanos) list"

inductive warm_step :: "(string \<Rightarrow> 'q option) \<Rightarrow> 'q \<Rightarrow> warm \<Rightarrow> warm \<Rightarrow> bool" for decode self where
  warm_start: "warm_step decode self s (s\<lparr>wm_threads := wm_threads s @ [Wt_delay (c # seeds) a]\<rparr>)"
| warm_skip: "wm_threads s = as @ Wt_delay ts a # bs \<Longrightarrow> \<not> walkNeeded early (a \<in> wm_ended s) moved \<Longrightarrow>
    warm_step decode self s (s\<lparr>wm_threads := as @ bs\<rparr>)"
| warm_go: "wm_threads s = as @ Wt_delay ts a # bs \<Longrightarrow> walkNeeded False (a \<in> wm_ended s) moved \<Longrightarrow>
    warm_step decode self s (s\<lparr>wm_threads := as @ Wt_targets ts a # bs\<rparr>)"
| warm_over: "wm_threads s = as @ Wt_targets ts a # bs \<Longrightarrow> ts = [] \<or> a \<in> wm_ended s \<Longrightarrow>
    warm_step decode self s (s\<lparr>wm_threads := as @ bs\<rparr>)"
| warm_next: "wm_threads s = as @ Wt_targets (c # ts) a # bs \<Longrightarrow> a \<notin> wm_ended s \<Longrightarrow>
    warm_step decode self s (s\<lparr>wm_threads := as @ Wt_claim c ts a # bs\<rparr>)"
| warm_busy: "wm_threads s = as @ Wt_claim c ts a # bs \<Longrightarrow> c \<in> wm_inflight s \<Longrightarrow>
    warm_step decode self s (s\<lparr>wm_threads := as @ Wt_targets ts a # bs\<rparr>)"
| warm_walk: "wm_threads s = as @ Wt_claim c ts a # bs \<Longrightarrow> c \<notin> wm_inflight s \<Longrightarrow>
    warm_step decode self s (s\<lparr>wm_threads := as @ Wt_walk c ts a # bs, wm_inflight := insert c (wm_inflight s)\<rparr>)"
| warm_walked: "wm_threads s = as @ Wt_walk c ts a # bs \<Longrightarrow>
    warm_step decode self s (s\<lparr>wm_threads := as @ Wt_targets ts a # bs, wm_inflight := wm_inflight s - {c}\<rparr>)"
| friend_check: "friend_due decode self conn (wm_now s) (wm_friendAt s p) p \<Longrightarrow>
    warm_step decode self s (s\<lparr>wm_threads := wm_threads s @ [Fr_checked p]\<rparr>)"
| friend_busy: "wm_threads s = as @ Fr_checked p # bs \<Longrightarrow> friend_key p \<in> wm_inflight s \<Longrightarrow>
    warm_step decode self s (s\<lparr>wm_threads := as @ bs\<rparr>)"
| friend_dial: "wm_threads s = as @ Fr_checked p # bs \<Longrightarrow> friend_key p \<notin> wm_inflight s \<Longrightarrow>
    warm_step decode self s (s\<lparr>wm_threads := as @ Fr_dial p # bs, wm_inflight := insert (friend_key p) (wm_inflight s),
      wm_friendAt := (wm_friendAt s)(p \<mapsto> wm_now s), wm_dials := (p, wm_now s) # wm_dials s\<rparr>)"
| friend_dialled: "wm_threads s = as @ Fr_dial p # bs \<Longrightarrow>
    warm_step decode self s (s\<lparr>wm_threads := as @ bs, wm_inflight := wm_inflight s - {friend_key p}\<rparr>)"
| warm_tick: "0 \<le> d \<Longrightarrow> warm_step decode self s (s\<lparr>wm_now := wm_now s + d\<rparr>)"
| warm_attempt_ends: "warm_step decode self s (s\<lparr>wm_ended := insert a (wm_ended s)\<rparr>)"

definition warm_init :: "warm \<Rightarrow> bool" where
  "warm_init s \<longleftrightarrow> wm_threads s = [] \<and> wm_inflight s = {} \<and> wm_friendAt s = Map.empty \<and> wm_dials s = []"

fun warm_keys :: "warm_thread list \<Rightarrow> string list" where
  "warm_keys [] = []"
| "warm_keys (Wt_walk c ts a # xs) = c # warm_keys xs"
| "warm_keys (Fr_dial p # xs) = friend_key p # warm_keys xs"
| "warm_keys (x # xs) = warm_keys xs"

lemma warm_keys_append [simp]: "warm_keys (xs @ ys) = warm_keys xs @ warm_keys ys"
  by (induction xs rule: warm_keys.induct) auto

definition warm_inv :: "warm \<Rightarrow> bool" where
  "warm_inv s \<longleftrightarrow> distinct (warm_keys (wm_threads s)) \<and> set (warm_keys (wm_threads s)) = wm_inflight s"

lemma warm_inv_step: "warm_inv s \<Longrightarrow> warm_step decode self s t \<Longrightarrow> warm_inv t"
  by (erule warm_step.cases) (auto simp: warm_inv_def)

interpretation warm_sys: step_invariant warm_init "warm_step decode self" warm_inv for decode self
proof
  show "warm_inv s" if "warm_init s" for s using that by (simp add: warm_init_def warm_inv_def)
qed (rule warm_inv_step)

text \<open>However many attempts retry, a CID is walked for, and a friend is dialled, by one goroutine at a time.\<close>

lemma warm_once:
  assumes "reachable warm_init (warm_step decode self) s"
  shows "distinct (warm_keys (wm_threads s))"
  using warm_sys.reachable_inv[OF assms] by (simp add: warm_inv_def)

text \<open>
  The rate limit is read before the friend is claimed: of two callers at once, the second can dial a
  friend the first one dialled a moment ago.
\<close>

definition warm_idle :: warm where
  "warm_idle = \<lparr>wm_threads = [], wm_inflight = {}, wm_friendAt = Map.empty, wm_now = 0, wm_ended = {}, wm_dials = []\<rparr>"

lemma friend_rate_race:
  "\<exists>s. reachable warm_init (warm_step Some ''me'') s \<and> wm_dials s = [(''p'', 0), (''p'', 0)]"
proof -
  let ?step = "warm_step Some ''me''"
  let ?s1 = "warm_idle\<lparr>wm_threads := [Fr_checked ''p'']\<rparr>"
  let ?s2 = "warm_idle\<lparr>wm_threads := [Fr_checked ''p'', Fr_checked ''p'']\<rparr>"
  let ?s3 = "?s2\<lparr>wm_threads := [Fr_dial ''p'', Fr_checked ''p''], wm_inflight := {friend_key ''p''},
    wm_friendAt := [''p'' \<mapsto> 0], wm_dials := [(''p'', 0)]\<rparr>"
  let ?s4 = "?s3\<lparr>wm_threads := [Fr_checked ''p''], wm_inflight := {}\<rparr>"
  let ?s5 = "?s4\<lparr>wm_threads := [Fr_dial ''p''], wm_inflight := {friend_key ''p''}, wm_dials := [(''p'', 0), (''p'', 0)]\<rparr>"
  have due: "friend_due Some ''me'' (\<lambda>q. NotConnected) 0 None ''p''" by code_simp
  have r0: "reachable warm_init ?step warm_idle"
    by (rule reach_init) (simp add: warm_idle_def warm_init_def)
  have t1: "?step warm_idle ?s1"
    using friend_check[of Some "''me''" "\<lambda>q. NotConnected" warm_idle "''p''"] due by (simp add: warm_idle_def)
  have t2: "?step ?s1 ?s2"
    using friend_check[of Some "''me''" "\<lambda>q. NotConnected" ?s1 "''p''"] due by (simp add: warm_idle_def)
  have t3: "?step ?s2 ?s3"
    using friend_dial[of ?s2 "[]" "''p''" "[Fr_checked ''p'']"] by (simp add: warm_idle_def)
  have t4: "?step ?s3 ?s4"
    using friend_dialled[of ?s3 "[]" "''p''" "[Fr_checked ''p'']"] by (simp add: warm_idle_def)
  have t5: "?step ?s4 ?s5"
    using friend_dial[of ?s4 "[]" "''p''" "[]"] by (simp add: warm_idle_def)
  have r1: "reachable warm_init ?step ?s1" by (rule reach_step) (rule r0, rule t1)
  have r2: "reachable warm_init ?step ?s2" by (rule reach_step) (rule r1, rule t2)
  have r3: "reachable warm_init ?step ?s3" by (rule reach_step) (rule r2, rule t3)
  have r4: "reachable warm_init ?step ?s4" by (rule reach_step) (rule r3, rule t4)
  have r5: "reachable warm_init ?step ?s5" by (rule reach_step) (rule r4, rule t5)
  show ?thesis by (intro exI[of _ ?s5] conjI r5) simp
qed

end
