(* ===== verification/Online.thy ===== *)
theory Online
  imports NodeLife Ipns
begin

text \<open>
  Going online (\<open>goOnline\<close> of \<open>online.go\<close>): the steps of one attempt in order, what each opens, the
  deferred teardown of an attempt that fails (an error or a recovered panic), and the retries of
  \<open>node.go\<close>. What the libraries build is opaque; an argument says how each step went. The goroutines
  started on the node's own context are kept apart from what the teardown closes.
\<close>

section \<open>The identity\<close>

text \<open>
  \<open>loadOrCreateIdentity\<close> on the contents of \<open>identity.key\<close>: \<open>read_ok\<close> says whether the read of a file that is
  there succeeds, \<open>gen\<close> is a new key with its encoding, and a torn write leaves the file empty.
\<close>

definition loadOrCreateIdentity ::
  "(bytes \<Rightarrow> 'k option) \<Rightarrow> ('k \<times> bytes) option \<Rightarrow> bool \<Rightarrow> write_fate \<Rightarrow> bytes option \<Rightarrow> 'k option \<times> bytes option" where
  "loadOrCreateIdentity parse_key gen read_ok fate f =
     (case (if read_ok then f else None) of
        Some b \<Rightarrow> (parse_key b, f)
      | None \<Rightarrow>
          (case gen of
             None \<Rightarrow> (None, f)
           | Some (k, b) \<Rightarrow> (Some k, case fate of Wrote \<Rightarrow> Some b | Not_opened \<Rightarrow> f | Torn \<Rightarrow> Some [])))"

text \<open>The identity of the first run is that of every later one.\<close>

lemma identity_stable:
  assumes "loadOrCreateIdentity parse_key (Some (k, b)) True Wrote None = (r, f)" "parse_key b = Some k"
  shows "r = Some k \<and> loadOrCreateIdentity parse_key gen True fate f = (Some k, f)"
  using assms by (auto simp: loadOrCreateIdentity_def)

text \<open>Any failure to read the key counts as its absence: a new one is made and written over it.\<close>

lemma unreadable_key_replaced:
  "loadOrCreateIdentity parse_key (Some (k, b)) False Wrote (Some old) = (Some k, Some b)"
  by (simp add: loadOrCreateIdentity_def)

text \<open>A write torn on the first run is a node that never comes online again, when an empty file is no key.\<close>

lemma torn_key_stuck:
  assumes "parse_key [] = None"
  shows "fst (loadOrCreateIdentity parse_key gen' True fate (snd (loadOrCreateIdentity parse_key (Some kb) True Torn None))) = None"
  using assms by (cases kb) (simp add: loadOrCreateIdentity_def)

section \<open>The attempt\<close>

datatype resource = Host | Kad | Quarantine_loop | Bitswap | Provider | Mdns

datatype node_loop = Stats_loop | Presence_loop | Link_loop

datatype online_step =
    St_identity | St_limits | St_host | St_listen | St_kad | St_quarantine | St_bitswap | St_publish
  | St_provider | St_mdns | St_friend | St_linkm | St_overlay | St_online

datatype step_result = Fine | Declined | Fails

record online_node =
  ol_open :: "resource list"
  ol_loops :: "node_loop list"
  ol_deferred :: bool
  ol_clean_kad :: bool
  ol_clean_bitswap :: bool
  ol_provider :: bool
  ol_mdns :: bool
  ol_host :: bool
  ol_online :: bool

definition online_steps :: "bool \<Rightarrow> online_step list" where
  "online_steps social =
     [St_identity, St_limits, St_host, St_listen, St_kad, St_quarantine, St_bitswap, St_publish, St_provider, St_mdns] @
     (if social then [St_friend, St_linkm, St_overlay] else []) @ [St_online]"

text \<open>
  The effect of a step that goes well. The provider and mDNS may be declined: the attempt goes on
  without them. \<open>ol_open\<close> lists what is open, the newest first.
\<close>

fun do_online :: "bool \<Rightarrow> online_step \<Rightarrow> online_node \<Rightarrow> online_node" where
  "do_online ok St_host s = s\<lparr>ol_open := Host # ol_open s, ol_deferred := True\<rparr>"
| "do_online ok St_kad s = s\<lparr>ol_open := Kad # ol_open s, ol_clean_kad := True\<rparr>"
| "do_online ok St_quarantine s = s\<lparr>ol_open := Quarantine_loop # ol_open s\<rparr>"
| "do_online ok St_bitswap s = s\<lparr>ol_open := Bitswap # ol_open s, ol_clean_bitswap := True\<rparr>"
| "do_online ok St_publish s = s\<lparr>ol_host := True, ol_loops := Stats_loop # ol_loops s\<rparr>"
| "do_online ok St_provider s = (if ok then s\<lparr>ol_open := Provider # ol_open s, ol_provider := True\<rparr> else s)"
| "do_online ok St_mdns s = (if ok then s\<lparr>ol_open := Mdns # ol_open s, ol_mdns := True\<rparr> else s)"
| "do_online ok St_friend s = s\<lparr>ol_loops := Presence_loop # ol_loops s\<rparr>"
| "do_online ok St_overlay s = s\<lparr>ol_loops := Link_loop # ol_loops s\<rparr>"
| "do_online ok St_online s = s\<lparr>ol_online := True\<rparr>"
| "do_online ok x s = s"

fun run_online :: "(online_step \<Rightarrow> step_result) \<Rightarrow> online_step list \<Rightarrow> online_node \<Rightarrow> bool \<times> online_node" where
  "run_online out [] s = (True, s)"
| "run_online out (x # xs) s =
     (if out x = Fails then (False, s) else run_online out xs (do_online (out x = Fine) x s))"

text \<open>The teardown, in its order.\<close>

definition teardown_order :: "resource list" where
  "teardown_order = [Mdns, Provider, Bitswap, Quarantine_loop, Kad, Host]"

fun to_close :: "online_node \<Rightarrow> resource \<Rightarrow> bool" where
  "to_close s Mdns = ol_mdns s"
| "to_close s Provider = ol_provider s"
| "to_close s Bitswap = ol_clean_bitswap s"
| "to_close s Quarantine_loop = ol_clean_bitswap s"
| "to_close s Kad = ol_clean_kad s"
| "to_close s Host = True"

definition closed_by :: "online_node \<Rightarrow> resource list" where
  "closed_by s = (if ol_deferred s then filter (to_close s) teardown_order else [])"

definition teardown :: "online_node \<Rightarrow> online_node" where
  "teardown s = s\<lparr>ol_open := filter (\<lambda>r. r \<notin> set (closed_by s)) (ol_open s),
     ol_mdns := ol_mdns s \<and> \<not> ol_deferred s, ol_provider := ol_provider s \<and> \<not> ol_deferred s\<rparr>"

text \<open>The variables of the attempt start out clear.\<close>

definition goOnline :: "bool \<Rightarrow> (online_step \<Rightarrow> step_result) \<Rightarrow> online_node \<Rightarrow> bool \<times> online_node" where
  "goOnline social out s =
     (case run_online out (online_steps social) (s\<lparr>ol_deferred := False, ol_clean_kad := False, ol_clean_bitswap := False\<rparr>) of
        (True, t) \<Rightarrow> (True, t)
      | (False, t) \<Rightarrow> (False, teardown t))"

definition offline :: "online_node \<Rightarrow> bool" where
  "offline s \<longleftrightarrow> ol_open s = [] \<and> \<not> ol_provider s \<and> \<not> ol_mdns s \<and> \<not> ol_online s"

definition up_resources :: "(online_step \<Rightarrow> step_result) \<Rightarrow> resource list" where
  "up_resources out = (if out St_mdns = Fine then [Mdns] else []) @ (if out St_provider = Fine then [Provider] else []) @
     [Bitswap, Quarantine_loop, Kad, Host]"

lemmas go_defs = goOnline_def online_steps_def teardown_def closed_by_def teardown_order_def

definition failing :: "bool \<Rightarrow> (online_step \<Rightarrow> step_result) \<Rightarrow> online_step option" where
  "failing social out = List.find (\<lambda>x. out x = Fails) (online_steps social)"

definition up_to :: "(online_step \<Rightarrow> step_result) \<Rightarrow> online_step list \<Rightarrow> online_node \<Rightarrow> online_node" where
  "up_to out xs s = fold (\<lambda>x. do_online (out x = Fine) x) xs s"

lemma run_online_find:
  "run_online out xs s =
   (case List.find (\<lambda>x. out x = Fails) xs of
      None \<Rightarrow> (True, up_to out xs s)
    | Some x \<Rightarrow> (False, up_to out (takeWhile (\<lambda>y. y \<noteq> x) xs) s))"
proof (induction xs arbitrary: s)
  case (Cons x xs)
  have "out y = Fails" if "List.find (\<lambda>x. out x = Fails) xs = Some y" for y
    using that by (auto simp: find_Some_iff)
  then show ?case using Cons.IH by (cases "out x = Fails") (auto simp: up_to_def split: option.split)
qed (simp add: up_to_def)

definition fresh_attempt :: "online_node \<Rightarrow> online_node" where
  "fresh_attempt s = s\<lparr>ol_deferred := False, ol_clean_kad := False, ol_clean_bitswap := False\<rparr>"

definition reached :: "bool \<Rightarrow> (online_step \<Rightarrow> step_result) \<Rightarrow> online_step \<Rightarrow> online_node \<Rightarrow> online_node" where
  "reached social out x s = up_to out (takeWhile (\<lambda>y. y \<noteq> x) (online_steps social)) (fresh_attempt s)"

lemma goOnline_failing:
  "goOnline social out s =
   (case failing social out of
      None \<Rightarrow> (True, up_to out (online_steps social) (fresh_attempt s))
    | Some x \<Rightarrow> (False, teardown (reached social out x s)))"
  by (simp add: goOnline_def run_online_find failing_def reached_def fresh_attempt_def split: option.split)

lemma failing_step: "failing social out = Some x \<Longrightarrow> x \<in> set (online_steps social)"
  by (auto simp: failing_def find_Some_iff)

lemma goOnline_up:
  assumes "offline s" "failing social out = None"
  shows "fst (goOnline social out s) \<and> ol_open (snd (goOnline social out s)) = up_resources out \<and>
    ol_online (snd (goOnline social out s)) \<and> ol_host (snd (goOnline social out s))"
  using assms(1)
  by (simp add: goOnline_failing assms(2) up_to_def online_steps_def fresh_attempt_def offline_def up_resources_def)

text \<open>Where a failed attempt stood, and what its teardown closes: all it opened, the newest first.\<close>

lemma reached_open:
  assumes "offline s" "x \<in> set (online_steps social)" "x \<noteq> St_bitswap"
  shows "closed_by (reached social out x s) = ol_open (reached social out x s) \<and> \<not> ol_online (reached social out x s) \<and>
    (ol_deferred (reached social out x s) \<or> (\<not> ol_mdns (reached social out x s) \<and> \<not> ol_provider (reached social out x s)))"
  using assms by (cases x; cases social)
    (simp_all add: reached_def up_to_def online_steps_def fresh_attempt_def offline_def closed_by_def teardown_order_def)

lemma reached_bitswap:
  "offline s \<Longrightarrow> ol_open (teardown (reached social out St_bitswap s)) = [Quarantine_loop]"
  by (simp add: reached_def up_to_def online_steps_def fresh_attempt_def offline_def teardown_def closed_by_def teardown_order_def)

lemma goOnline_down:
  assumes "offline s" "failing social out = Some x"
  shows "\<not> fst (goOnline social out s) \<and>
    (if x = St_bitswap then ol_open (snd (goOnline social out s)) = [Quarantine_loop] else offline (snd (goOnline social out s)))"
proof (cases "x = St_bitswap")
  case True
  then show ?thesis using reached_bitswap[OF assms(1)] assms(2) by (simp add: goOnline_failing)
next
  case False
  note r = reached_open[OF assms(1) failing_step[OF assms(2)] False, of out]
  then have "offline (teardown (reached social out x s))" by (auto simp: offline_def teardown_def)
  then show ?thesis using False assms(2) by (simp add: goOnline_failing)
qed

text \<open>The attempts of a start: the first, then \<open>retryOnline\<close>'s, up to the one that succeeds.\<close>

fun try_online :: "bool \<Rightarrow> (online_step \<Rightarrow> step_result) list \<Rightarrow> online_node \<Rightarrow> bool \<times> online_node" where
  "try_online social [] s = (False, s)"
| "try_online social (out # outs) s =
     (case goOnline social out s of (True, t) \<Rightarrow> (True, t) | (False, t) \<Rightarrow> try_online social outs t)"

lemma try_online_spec:
  "offline s \<Longrightarrow> list_all (\<lambda>out. failing social out \<noteq> Some St_bitswap) outs \<Longrightarrow> try_online social outs s = (ok, t) \<Longrightarrow>
   (ok \<longleftrightarrow> list_ex (\<lambda>out. failing social out = None) outs) \<and>
   (if ok then ol_online t \<and> (\<exists>out \<in> set outs. failing social out = None \<and> ol_open t = up_resources out) else offline t)"
proof (induction outs arbitrary: s)
  case (Cons out outs)
  show ?case
  proof (cases "failing social out")
    case None
    then show ?thesis using goOnline_up[OF Cons.prems(1) None] Cons.prems(3)
      by (cases "goOnline social out s") auto
  next
    case (Some x)
    then have x: "x \<noteq> St_bitswap" using Cons.prems(2) by auto
    obtain u where u: "goOnline social out s = (False, u)" "offline u"
      using goOnline_down[OF Cons.prems(1) Some] x by (cases "goOnline social out s") auto
    then show ?thesis using Cons.IH[of u] Cons.prems(2,3) Some by auto
  qed
qed simp

text \<open>
  C22. Online, all or nothing: an attempt that fails at any step, by an error or a panic, leaves none of the host,
  the DHT, bitswap, its quarantine loop, the provider and mDNS open (unless it is the
  construction of bitswap itself that panics), so however many attempts a start takes, at most one of
  each is ever live; and a start is online exactly when one of its attempts met no fault.
\<close>

theorem go_online_all_or_nothing:
  assumes "offline s" "list_all (\<lambda>out. failing social out \<noteq> Some St_bitswap) outs" "try_online social outs s = (ok, t)"
  shows "(ok \<longleftrightarrow> list_ex (\<lambda>out. failing social out = None) outs) \<and> distinct (ol_open t) \<and>
    (if ok then ol_online t \<and> set [Host, Kad, Bitswap, Quarantine_loop] \<subseteq> set (ol_open t) else ol_open t = [] \<and> \<not> ol_online t)"
proof -
  have up: "distinct (up_resources out) \<and> set [Host, Kad, Bitswap, Quarantine_loop] \<subseteq> set (up_resources out)" for out
    by (auto simp: up_resources_def)
  show ?thesis using try_online_spec[OF assms] up by (cases ok) (auto simp: offline_def)
qed

definition node_off :: online_node where
  "node_off = \<lparr>ol_open = [], ol_loops = [], ol_deferred = False, ol_clean_kad = False, ol_clean_bitswap = False,
     ol_provider = False, ol_mdns = False, ol_host = False, ol_online = False\<rparr>"

theorem go_online_all_or_nothing_witness:
  "ol_online (snd (try_online True [\<lambda>x. if x = St_overlay then Fails else Fine, \<lambda>x. Fine] node_off)) \<and>
   distinct (ol_open (snd (try_online True [\<lambda>x. if x = St_overlay then Fails else Fine, \<lambda>x. Fine] node_off)))"
proof -
  let ?outs = "[\<lambda>x. if x = St_overlay then Fails else Fine, \<lambda>x. Fine]"
  have off: "offline node_off" by code_simp
  have f: "list_all (\<lambda>out. failing True out \<noteq> Some St_bitswap) ?outs" by code_simp
  have ok: "list_ex (\<lambda>out. failing True out = None) ?outs" by code_simp
  obtain ok t where r: "try_online True ?outs node_off = (ok, t)" by fastforce
  from go_online_all_or_nothing[OF off f r] show ?thesis using ok r by (auto split: if_splits)
qed

text \<open>
  What the teardown leaves behind. A panic in the construction of bitswap leaves the quarantine loop. The loops on
  the node's context are not stopped: every attempt that fails after the friends started leaves a
  presence loop, and \<open>n.host\<close> stays set to a host that is closed.
\<close>

lemma bitswap_panic_leaves_loop:
  "ol_open (snd (goOnline True (\<lambda>x. if x = St_bitswap then Fails else Fine) node_off)) = [Quarantine_loop]"
  by code_simp

definition overlay_panics :: "online_step \<Rightarrow> step_result" where
  "overlay_panics x = (if x = St_overlay then Fails else Fine)"

lemma overlay_panics_attempt:
  "fst (goOnline True overlay_panics s) = False \<and> ol_loops (snd (goOnline True overlay_panics s)) = Presence_loop # Stats_loop # ol_loops s \<and>
   ol_host (snd (goOnline True overlay_panics s))"
proof -
  have "failing True overlay_panics = Some St_overlay" by code_simp
  then show ?thesis
    by (simp add: goOnline_failing reached_def up_to_def online_steps_def fresh_attempt_def teardown_def overlay_panics_def)
qed

lemma failed_attempts_pile_up:
  "length (filter (\<lambda>l. l = Presence_loop) (ol_loops (snd (try_online True (replicate k overlay_panics) s)))) =
   k + length (filter (\<lambda>l. l = Presence_loop) (ol_loops s))"
proof (induction k arbitrary: s)
  case (Suc k)
  show ?case
    using Suc.IH[of "snd (goOnline True overlay_panics s)"] overlay_panics_attempt[of s]
    by (cases "goOnline True overlay_panics s") simp
qed simp

end
