(* ===== verification/ListenPorts.thy ===== *)
theory ListenPorts
  imports Ipns
begin

text \<open>
  The ports the node listens on (\<open>listenports.go\<close>): those of the last run, kept in a file; a transport
  whose port cannot be had gets a fresh one. The host's \<open>Listen\<close> and the search for a free port are
  arguments; \<open>binds\<close> states what the code relies on in the first.
\<close>

section \<open>Addresses and ports\<close>

datatype family = V4 | V6

datatype kind = K_tcp | K_quic | K_webtransport | K_ws

record listen_addr =
  la_family :: family
  la_kind :: kind
  la_port :: nat

datatype transport = T_tcp | T_udp | T_ws

record listenPorts =
  lp_tcp :: nat
  lp_udp :: nat
  lp_ws :: nat

definition no_ports :: listenPorts where
  "no_ports = \<lparr>lp_tcp = 0, lp_udp = 0, lp_ws = 0\<rparr>"

definition transports :: "transport list" where
  "transports = [T_tcp, T_udp, T_ws]"

fun port_of :: "transport \<Rightarrow> listenPorts \<Rightarrow> nat" where
  "port_of T_tcp p = lp_tcp p" | "port_of T_udp p = lp_udp p" | "port_of T_ws p = lp_ws p"

fun set_port :: "transport \<Rightarrow> nat \<Rightarrow> listenPorts \<Rightarrow> listenPorts" where
  "set_port T_tcp k p = p\<lparr>lp_tcp := k\<rparr>" | "set_port T_udp k p = p\<lparr>lp_udp := k\<rparr>" | "set_port T_ws k p = p\<lparr>lp_ws := k\<rparr>"

fun kinds :: "transport \<Rightarrow> kind list" where
  "kinds T_tcp = [K_tcp]" | "kinds T_udp = [K_quic, K_webtransport]" | "kinds T_ws = [K_ws]"

definition addrs :: "transport \<Rightarrow> family \<Rightarrow> nat \<Rightarrow> listen_addr list" where
  "addrs t fam k = map (\<lambda>kd. \<lparr>la_family = fam, la_kind = kd, la_port = k\<rparr>) (kinds t)"

text \<open>The port a listening address names: its transport's, QUIC alone for UDP.\<close>

fun names_port :: "kind \<Rightarrow> transport option" where
  "names_port K_tcp = Some T_tcp" | "names_port K_quic = Some T_udp" | "names_port K_webtransport = None" | "names_port K_ws = Some T_ws"

definition note_addr :: "listen_addr \<Rightarrow> listenPorts \<times> listenPorts \<Rightarrow> listenPorts \<times> listenPorts" where
  "note_addr a vs =
     (case names_port (la_kind a) of
        None \<Rightarrow> vs
      | Some t \<Rightarrow> if la_family a = V4 then apfst (set_port t (la_port a)) vs else apsnd (set_port t (la_port a)) vs)"

definition portsOf :: "listen_addr list \<Rightarrow> listenPorts" where
  "portsOf as =
     (case fold note_addr as (no_ports, no_ports) of
        (v4, v6) \<Rightarrow> fold (\<lambda>t p. if port_of t p = 0 then set_port t (port_of t v6) p else p) transports v4)"

section \<open>Listening\<close>

text \<open>
  \<open>bind ls a\<close>: the address bound when the host, listening on \<open>ls\<close>, is asked for \<open>a\<close>. All of a family of one
  transport, or none: those bound already are closed, by the addresses asked for.
\<close>

fun listen_try :: "(listen_addr list \<Rightarrow> listen_addr \<Rightarrow> listen_addr option) \<Rightarrow> listen_addr list \<Rightarrow> listen_addr list \<Rightarrow>
    listen_addr list \<Rightarrow> bool \<times> listen_addr list" where
  "listen_try bind bound ls [] = (True, ls)"
| "listen_try bind bound ls (a # as) =
     (case bind ls a of
        None \<Rightarrow> (False, filter (\<lambda>b. b \<notin> set bound) ls)
      | Some b \<Rightarrow> listen_try bind (bound @ [a]) (ls @ [b]) as)"

definition listen :: "(listen_addr list \<Rightarrow> listen_addr \<Rightarrow> listen_addr option) \<Rightarrow> listen_addr list \<Rightarrow> listen_addr list \<Rightarrow>
    bool \<times> listen_addr list" where
  "listen bind ls as = listen_try bind [] ls as"

text \<open>What the host offers in a run: its \<open>Listen\<close>, the free ports found by each of the searches, and IPv6.\<close>

record net_env =
  ne_bind :: "listen_addr list \<Rightarrow> listen_addr \<Rightarrow> listen_addr option"
  ne_free :: "transport \<Rightarrow> nat"
  ne_fresh :: "transport \<Rightarrow> nat"
  ne_free6 :: "transport \<Rightarrow> nat"
  ne_ipv6 :: bool

definition listen_four :: "net_env \<Rightarrow> transport \<Rightarrow> nat \<Rightarrow> listen_addr list \<Rightarrow> nat \<times> listen_addr list" where
  "listen_four e t saved ls =
     (let port = (if saved = 0 then ne_free e t else saved);
          (ok, ls1) = (if port = 0 then (False, ls) else listen (ne_bind e) ls (addrs t V4 port)) in
      if ok then (port, ls1)
      else (ne_fresh e t, snd (listen (ne_bind e) ls1 (addrs t V4 (ne_fresh e t)))))"

definition listen_six :: "net_env \<Rightarrow> transport \<Rightarrow> nat \<Rightarrow> listen_addr list \<Rightarrow> listen_addr list" where
  "listen_six e t port ls =
     (case listen (ne_bind e) ls (addrs t V6 port) of
        (ok, ls1) \<Rightarrow>
          if ok \<or> \<not> ne_ipv6 e then ls1
          else if ne_free6 e t = 0 then ls1
          else snd (listen (ne_bind e) ls1 (addrs t V6 (ne_free6 e t))))"

definition listen_transport :: "net_env \<Rightarrow> listenPorts \<Rightarrow> transport \<Rightarrow> listen_addr list \<Rightarrow> listen_addr list" where
  "listen_transport e saved t ls = (case listen_four e t (port_of t saved) ls of (port, ls1) \<Rightarrow> listen_six e t port ls1)"

text \<open>The file: \<open>None\<close> when it is missing or does not parse. It is written beside and renamed: in full, or not.\<close>

definition loadListenPorts :: "listenPorts option \<Rightarrow> listenPorts" where
  "loadListenPorts f = (case f of None \<Rightarrow> no_ports | Some p \<Rightarrow> p)"

definition listenOn :: "net_env \<Rightarrow> bool \<Rightarrow> listenPorts option \<Rightarrow> bool \<times> listen_addr list \<times> listenPorts option" where
  "listenOn e saves f =
     (let saved = loadListenPorts f; ls = fold (listen_transport e saved) transports [] in
      if ls = [] then (False, ls, f)
      else if portsOf ls = saved then (True, ls, f)
      else (True, ls, if saves then Some (portsOf ls) else f))"

text \<open>
  \<open>freePort\<close>: one try is the port bound on IPv4, if any, and the one then bound on IPv6 (the same, or any
  when there was none); a port is free on both families, or on the one this host has.
\<close>

definition free_port_try :: "bool \<Rightarrow> nat option \<times> nat option \<Rightarrow> nat" where
  "free_port_try v6 r =
     (let port = (case fst r of None \<Rightarrow> 0 | Some p \<Rightarrow> p) in
      case snd r of
        Some q \<Rightarrow> if port = 0 then q else port
      | None \<Rightarrow> if v6 then 0 else port)"

definition freePort :: "bool \<Rightarrow> (nat option \<times> nat option) list \<Rightarrow> nat" where
  "freePort v6 tries =
     (case List.find (\<lambda>p. p \<noteq> 0) (map (free_port_try v6) (take 16 tries)) of None \<Rightarrow> 0 | Some p \<Rightarrow> p)"

lemma freePort_sound:
  assumes "freePort v6 tries = p" "p \<noteq> 0" "\<And>p4 p6. (Some p4, Some p6) \<in> set tries \<Longrightarrow> p6 = p4"
  shows "\<exists>r \<in> set (take 16 tries). (snd r = Some p \<or> (\<not> v6 \<and> snd r = None)) \<and> (fst r = Some p \<or> fst r = None \<or> fst r = Some 0)"
proof -
  obtain r where r: "r \<in> set (take 16 tries)" "p = free_port_try v6 r"
  proof -
    have "List.find (\<lambda>p. p \<noteq> 0) (map (free_port_try v6) (take 16 tries)) = Some p"
      using assms(1,2) by (auto simp: freePort_def split: option.splits)
    then have "p \<in> set (map (free_port_try v6) (take 16 tries))" unfolding find_Some_iff by (metis nth_mem)
    then show thesis using that by auto
  qed
  moreover have "r \<in> set tries" using r(1) by (rule in_set_takeD)
  ultimately show ?thesis
    using assms(2,3) by (intro bexI[OF _ r(1)]) (cases r; auto simp: free_port_try_def Let_def split: option.splits if_splits)
qed

text \<open>The host binds what it is asked for, a nonzero port, once.\<close>

definition binds :: "(listen_addr list \<Rightarrow> listen_addr \<Rightarrow> listen_addr option) \<Rightarrow> bool" where
  "binds bind \<longleftrightarrow> (\<forall>ls a b. bind ls a = Some b \<longrightarrow>
     la_family b = la_family a \<and> la_kind b = la_kind a \<and> la_port b \<noteq> 0 \<and> (la_port a \<noteq> 0 \<longrightarrow> b = a) \<and> b \<notin> set ls)"

lemma bindsD:
  assumes "binds bind" "bind ls a = Some b"
  shows "la_family b = la_family a" "la_kind b = la_kind a" "la_port b \<noteq> 0" "la_port a \<noteq> 0 \<Longrightarrow> b = a" "b \<notin> set ls"
  using assms unfolding binds_def by blast+

text \<open>All or none, on a port.\<close>

lemma listen_try_all_or_none:
  assumes "binds bind" "list_all (\<lambda>a. la_port a \<noteq> 0) as" "set bound \<inter> set ls = {}" "distinct as"
  shows "listen_try bind bound (ls @ bound) as = (True, ls @ bound @ as) \<or> listen_try bind bound (ls @ bound) as = (False, ls)"
  using assms(2,3,4)
proof (induction as arbitrary: bound)
  case Nil
  then show ?case by simp
next
  case (Cons a as)
  show ?case
  proof (cases "bind (ls @ bound) a")
    case None
    have "filter (\<lambda>b. b \<notin> set bound) (ls @ bound) = ls"
      using Cons.prems(2) by (auto simp: filter_id_conv filter_empty_conv)
    then show ?thesis using None by simp
  next
    case (Some b)
    have b: "b = a" "a \<notin> set (ls @ bound)" using bindsD[OF assms(1) Some] Cons.prems(1) by auto
    then show ?thesis using Cons.IH[of "bound @ [a]"] Cons.prems Some by auto
  qed
qed

lemma addrs_props [simp]: "distinct (addrs t fam k)" "list_all (\<lambda>a. 0 < la_port a) (addrs t fam k) \<longleftrightarrow> 0 < k"
  by (cases t; auto simp: addrs_def)+

lemma listen_all_or_none:
  assumes "binds bind" "k \<noteq> 0"
  shows "listen bind ls (addrs t fam k) = (True, ls @ addrs t fam k) \<or> listen bind ls (addrs t fam k) = (False, ls)"
  using listen_try_all_or_none[OF assms(1), of "addrs t fam k" "[]" ls] assms(2) by (simp add: listen_def)

section \<open>The same ports every run\<close>

definition fours :: "listen_addr list \<Rightarrow> listen_addr list" where
  "fours ls = filter (\<lambda>a. la_family a = V4) ls"

lemma fours_append [simp]: "fours (xs @ ys) = fours xs @ fours ys"
  by (simp add: fours_def)

lemma fours_addrs [simp]: "fours (addrs t V4 k) = addrs t V4 k" "fours (addrs t V6 k) = []"
  by (auto simp: fours_def addrs_def filter_id_conv filter_empty_conv)

text \<open>Whatever happens on IPv6 leaves the IPv4 listeners as they are.\<close>

lemma listen_try_six:
  assumes "binds bind" "list_all (\<lambda>a. la_family a = V6) as" "list_all (\<lambda>a. la_family a = V6) bound"
  shows "fours (snd (listen_try bind bound ls as)) = fours ls"
  using assms(2,3)
proof (induction as arbitrary: bound ls)
  case (Cons a as)
  show ?case
  proof (cases "bind ls a")
    case None
    have "fours (filter (\<lambda>x. x \<notin> set bound) ls) = fours ls"
      unfolding fours_def filter_filter using Cons.prems(2) by (intro filter_cong) (auto simp: list_all_iff)
    then show ?thesis using None by simp
  next
    case (Some x)
    then show ?thesis using Cons.IH[of "bound @ [a]" "ls @ [x]"] Cons.prems bindsD(1)[OF assms(1) Some] by (simp add: fours_def)
  qed
qed simp

lemma listen_six_fours: "binds (ne_bind e) \<Longrightarrow> fours (listen_six e t k ls) = fours ls"
proof -
  assume b: "binds (ne_bind e)"
  have six: "fours (snd (listen (ne_bind e) xs (addrs t V6 j))) = fours xs" for xs j
    unfolding listen_def by (rule listen_try_six[OF b]) (simp_all add: addrs_def list_all_iff)
  show ?thesis
    using six[of ls k] six[of "snd (listen (ne_bind e) ls (addrs t V6 k))" "ne_free6 e t"]
    by (auto simp: listen_six_def split: prod.split)
qed

lemma listen_four_fours:
  assumes "binds (ne_bind e)" "ne_fresh e t \<noteq> 0"
  shows "\<exists>k. k \<noteq> 0 \<and> (snd (listen_four e t saved ls) = ls @ addrs t V4 k \<or> snd (listen_four e t saved ls) = ls)"
proof -
  let ?p = "if saved = 0 then ne_free e t else saved"
  show ?thesis
  proof (cases "?p = 0")
    case True
    then have "listen_four e t saved ls = (ne_fresh e t, snd (listen (ne_bind e) ls (addrs t V4 (ne_fresh e t))))"
      by (simp add: listen_four_def Let_def)
    then show ?thesis using listen_all_or_none[OF assms, of ls t V4] assms(2) by auto
  next
    case False
    from listen_all_or_none[OF assms(1) False, of ls t V4] show ?thesis
    proof
      assume "listen (ne_bind e) ls (addrs t V4 ?p) = (True, ls @ addrs t V4 ?p)"
      then show ?thesis using False by (intro exI[of _ ?p]) (simp add: listen_four_def Let_def)
    next
      assume no: "listen (ne_bind e) ls (addrs t V4 ?p) = (False, ls)"
      have "listen_four e t saved ls = (ne_fresh e t, snd (listen (ne_bind e) ls (addrs t V4 (ne_fresh e t))))"
        using no False by (simp add: listen_four_def Let_def)
      then show ?thesis using listen_all_or_none[OF assms, of ls t V4] assms(2) by (intro exI[of _ "ne_fresh e t"]) auto
    qed
  qed
qed

lemma listen_transport_fours:
  assumes "binds (ne_bind e)" "ne_fresh e t \<noteq> 0"
  shows "\<exists>k. k \<noteq> 0 \<and> (fours (listen_transport e saved t ls) = fours ls @ addrs t V4 k \<or> fours (listen_transport e saved t ls) = fours ls)"
  using listen_four_fours[OF assms, of "port_of t saved" ls] listen_six_fours[OF assms(1)]
  by (cases "listen_four e t (port_of t saved) ls") (auto simp: listen_transport_def)

lemma listen_try_had:
  assumes "binds bind" "list_all (\<lambda>a. 0 < la_port a) as" "distinct as" "set ls \<inter> set as = {}"
    "\<And>xs a. a \<in> set as \<Longrightarrow> a \<notin> set xs \<Longrightarrow> bind xs a \<noteq> None"
  shows "fst (listen_try bind bound ls as)"
  using assms(2-5)
proof (induction as arbitrary: bound ls)
  case (Cons a as)
  then obtain b where b: "bind ls a = Some b" by fastforce
  have "b = a" using bindsD(4)[OF assms(1) b] Cons.prems(1) by simp
  then have "fst (listen_try bind (bound @ [a]) (ls @ [b]) as)" using Cons.prems by (intro Cons.IH) auto
  then show ?case using b by simp
qed simp

lemma listen_transport_had:
  assumes "binds (ne_bind e)" "port_of t saved \<noteq> 0" "set (fours ls) \<inter> set (addrs t V4 (port_of t saved)) = {}"
    "\<And>xs a. a \<in> set (addrs t V4 (port_of t saved)) \<Longrightarrow> a \<notin> set xs \<Longrightarrow> ne_bind e xs a \<noteq> None"
  shows "fours (listen_transport e saved t ls) = fours ls @ addrs t V4 (port_of t saved)"
proof -
  have "set ls \<inter> set (addrs t V4 (port_of t saved)) = {}" using assms(3) by (auto simp: fours_def addrs_def)
  then have "fst (listen (ne_bind e) ls (addrs t V4 (port_of t saved)))"
    using assms(2,4) unfolding listen_def by (intro listen_try_had[OF assms(1)]) auto
  then have "listen_four e t (port_of t saved) ls = (port_of t saved, ls @ addrs t V4 (port_of t saved))"
    using listen_all_or_none[OF assms(1,2), of ls t V4] assms(2) by (auto simp: listen_four_def Let_def)
  then show ?thesis using listen_six_fours[OF assms(1)] by (simp add: listen_transport_def)
qed

text \<open>The ports of a node that listens on IPv4 with every transport are those of its IPv4 listeners.\<close>

lemma note_addr_pair:
  "note_addr a (x, y) =
   (case names_port (la_kind a) of None \<Rightarrow> (x, y)
    | Some t \<Rightarrow> if la_family a = V4 then (set_port t (la_port a) x, y) else (x, set_port t (la_port a) y))"
  by (simp add: note_addr_def split: option.split)

lemma fold_note_fours: "fst (fold note_addr as (v4, v6)) = fst (fold note_addr (fours as) (v4, v6'))"
proof (induction as arbitrary: v4 v6 v6')
  case (Cons a as)
  show ?case
    by (cases "la_family a"; cases "names_port (la_kind a)") (simp_all add: fours_def note_addr_pair Cons.IH[unfolded fours_def])
qed (simp add: fours_def)

lemma portsOf_fours:
  assumes "fours ls = addrs T_tcp V4 a @ addrs T_udp V4 b @ addrs T_ws V4 c" "a \<noteq> 0" "b \<noteq> 0" "c \<noteq> 0"
  shows "portsOf ls = \<lparr>lp_tcp = a, lp_udp = b, lp_ws = c\<rparr>"
proof -
  obtain v4 v6 where v: "fold note_addr ls (no_ports, no_ports) = (v4, v6)" by fastforce
  have "v4 = fst (fold note_addr (fours ls) (no_ports, no_ports))" using fold_note_fours[of ls no_ports no_ports no_ports] v by simp
  then have "v4 = \<lparr>lp_tcp = a, lp_udp = b, lp_ws = c\<rparr>" by (simp add: assms(1) addrs_def note_addr_pair no_ports_def)
  then show ?thesis using assms(2-4) by (simp add: portsOf_def v transports_def)
qed

definition run_listeners :: "net_env \<Rightarrow> listenPorts \<Rightarrow> listen_addr list" where
  "run_listeners e saved = fold (listen_transport e saved) transports []"

definition hears :: "listen_addr list \<Rightarrow> transport \<Rightarrow> bool" where
  "hears ls t \<longleftrightarrow> list_ex (\<lambda>a. la_family a = V4 \<and> names_port (la_kind a) = Some t) ls"

definition named :: "transport \<Rightarrow> listen_addr list \<Rightarrow> bool" where
  "named t as \<longleftrightarrow> (\<exists>a \<in> set as. names_port (la_kind a) = Some t)"

lemma named_simps [simp]:
  "named t (xs @ ys) \<longleftrightarrow> named t xs \<or> named t ys" "named t [] \<longleftrightarrow> False" "named t (addrs u fam k) \<longleftrightarrow> t = u"
  by (cases u; auto simp: named_def addrs_def)+

lemma hears_fours: "hears ls t \<longleftrightarrow> named t (fours ls)"
  by (auto simp: hears_def fours_def list_ex_iff named_def)

lemma run_fours:
  assumes "binds (ne_bind e)" "\<And>t. ne_fresh e t \<noteq> 0" "list_all (hears (run_listeners e saved)) transports"
  shows "\<exists>p. lp_tcp p \<noteq> 0 \<and> lp_udp p \<noteq> 0 \<and> lp_ws p \<noteq> 0 \<and> portsOf (run_listeners e saved) = p \<and>
    fours (run_listeners e saved) = concat (map (\<lambda>t. addrs t V4 (port_of t p)) transports)"
proof -
  define l1 where "l1 = listen_transport e saved T_tcp []"
  define l2 where "l2 = listen_transport e saved T_udp l1"
  define l3 where "l3 = listen_transport e saved T_ws l2"
  have run: "run_listeners e saved = l3" by (simp add: run_listeners_def transports_def l1_def l2_def l3_def)
  obtain k1 where k1: "k1 \<noteq> 0" "fours l1 = addrs T_tcp V4 k1 \<or> fours l1 = []"
    using listen_transport_fours[OF assms(1,2), of saved T_tcp "[]"] by (auto simp: l1_def fours_def)
  obtain k2 where k2: "k2 \<noteq> 0" "fours l2 = fours l1 @ addrs T_udp V4 k2 \<or> fours l2 = fours l1"
    using listen_transport_fours[OF assms(1,2), of saved T_udp l1] by (auto simp: l2_def)
  obtain k3 where k3: "k3 \<noteq> 0" "fours l3 = fours l2 @ addrs T_ws V4 k3 \<or> fours l3 = fours l2"
    using listen_transport_fours[OF assms(1,2), of saved T_ws l2] by (auto simp: l3_def)
  have "named T_tcp (fours l3)" "named T_udp (fours l3)" "named T_ws (fours l3)"
    using assms(3) by (simp_all add: run hears_fours transports_def)
  then have "fours l3 = addrs T_tcp V4 k1 @ addrs T_udp V4 k2 @ addrs T_ws V4 k3"
    using k1(2) k2(2) k3(2) by (elim disjE) simp_all
  then show ?thesis
    using portsOf_fours[of l3 k1 k2 k3] k1(1) k2(1) k3(1) by (simp add: run transports_def)
qed

lemma run_had:
  assumes "binds (ne_bind e)" "lp_tcp p \<noteq> 0" "lp_udp p \<noteq> 0" "lp_ws p \<noteq> 0"
    "\<And>xs t a. a \<in> set (addrs t V4 (port_of t p)) \<Longrightarrow> a \<notin> set xs \<Longrightarrow> ne_bind e xs a \<noteq> None"
  shows "fours (run_listeners e p) = concat (map (\<lambda>t. addrs t V4 (port_of t p)) transports)"
proof -
  have pz: "port_of t p \<noteq> 0" for t using assms(2-4) by (cases t) simp_all
  have one: "fours (listen_transport e p t ls) = fours ls @ addrs t V4 (port_of t p)"
    if "set (fours ls) \<inter> set (addrs t V4 (port_of t p)) = {}" for t ls
    by (rule listen_transport_had[OF assms(1) pz that assms(5)])
  define l1 where "l1 = listen_transport e p T_tcp []"
  define l2 where "l2 = listen_transport e p T_udp l1"
  have l1: "fours l1 = addrs T_tcp V4 (lp_tcp p)" using one[of "[]" T_tcp] by (simp add: l1_def fours_def)
  then have l2: "fours l2 = addrs T_tcp V4 (lp_tcp p) @ addrs T_udp V4 (lp_udp p)"
    using one[of l1 T_udp] by (simp add: l2_def addrs_def)
  then have "fours (listen_transport e p T_ws l2) = fours l2 @ addrs T_ws V4 (lp_ws p)"
    using one[of l2 T_ws] by (simp add: addrs_def)
  then show ?thesis using l2 by (simp add: run_listeners_def transports_def flip: l1_def l2_def)
qed

text \<open>The host can have these ports, on IPv4: it binds any of their addresses it does not listen on already.\<close>

definition can_have :: "net_env \<Rightarrow> listenPorts \<Rightarrow> bool" where
  "can_have e p \<longleftrightarrow> (\<forall>xs t. \<forall>a \<in> set (addrs t V4 (port_of t p)). a \<notin> set xs \<longrightarrow> ne_bind e xs a \<noteq> None)"


definition easy_bind :: "listen_addr list \<Rightarrow> listen_addr \<Rightarrow> listen_addr option" where
  "easy_bind ls a =
     (let b = (if la_port a = 0 then a\<lparr>la_port := 30 + length ls\<rparr> else a) in
      if b \<in> set ls \<or> la_family a = V6 then None else Some b)"

text \<open>A host that binds whatever it is asked for, on IPv4, with \<open>ports\<close> free.\<close>

definition host_at :: "nat \<Rightarrow> net_env" where
  "host_at k = \<lparr>ne_bind = easy_bind, ne_free = (\<lambda>t. case t of T_tcp \<Rightarrow> k | T_udp \<Rightarrow> k + 1 | T_ws \<Rightarrow> k + 2),
     ne_fresh = (\<lambda>t. k + 7), ne_free6 = (\<lambda>t. 0), ne_ipv6 = True\<rparr>"

lemma easy_binds: "binds easy_bind"
  by (auto simp: binds_def easy_bind_def Let_def split: if_splits)

lemma easy_had: "a \<in> set (addrs t V4 k) \<Longrightarrow> 0 < k \<Longrightarrow> a \<notin> set xs \<Longrightarrow> easy_bind xs a \<noteq> None"
  by (auto simp: easy_bind_def addrs_def)


section \<open>Where it does not hold\<close>

text \<open>
  On a host without IPv4 the saved port is refused on IPv4 and given up before IPv6 is asked for it: every
  start moves to another port.
\<close>

definition six_bind :: "listen_addr list \<Rightarrow> listen_addr \<Rightarrow> listen_addr option" where
  "six_bind ls a = (if a \<in> set ls \<or> la_family a = V4 \<or> la_port a = 0 then None else Some a)"

definition six_host :: "nat \<Rightarrow> net_env" where
  "six_host k = \<lparr>ne_bind = six_bind, ne_free = (\<lambda>t. k), ne_fresh = (\<lambda>t. case t of T_tcp \<Rightarrow> k | T_udp \<Rightarrow> k + 1 | T_ws \<Rightarrow> k + 2),
     ne_free6 = (\<lambda>t. 0), ne_ipv6 = True\<rparr>"

lemma six_only_moves:
  "snd (snd (listenOn (six_host 41) True None)) = Some \<lparr>lp_tcp = 41, lp_udp = 42, lp_ws = 43\<rparr> \<and>
   snd (snd (listenOn (six_host 51) True (Some \<lparr>lp_tcp = 41, lp_udp = 42, lp_ws = 43\<rparr>))) =
     Some \<lparr>lp_tcp = 51, lp_udp = 52, lp_ws = 53\<rparr>"
  by code_simp

text \<open>When no free port is found the node asks for port 0, once for QUIC and once for WebTransport: they can be split.\<close>

lemma port_zero_splits:
  "fst (snd (listenOn ((host_at 0)\<lparr>ne_free := (\<lambda>t. 0), ne_fresh := (\<lambda>t. 0)\<rparr>) True None)) =
   [\<lparr>la_family = V4, la_kind = K_tcp, la_port = 30\<rparr>, \<lparr>la_family = V4, la_kind = K_quic, la_port = 31\<rparr>,
    \<lparr>la_family = V4, la_kind = K_webtransport, la_port = 32\<rparr>, \<lparr>la_family = V4, la_kind = K_ws, la_port = 33\<rparr>]"
  by code_simp

end
