(* ===== verification/Api.thy ===== *)
theory Api
  imports NetQueue AddFile Publish RefMove FetchFile
begin

text \<open>
  The exported C ABI (\<open>api.go\<close>), as far as it decides anything: the return codes and outcomes of the calls on the
  block store, the events a fetch attempt emits, and the handles of the network queue that the caller
  holds. The node is \<open>None\<close> before \<open>VgStart\<close> and after \<open>VgStop\<close>; C strings and JSON texts are the values they
  carry, \<open>None\<close> for a text that does not parse.
\<close>

section \<open>Calls on the store\<close>

datatype api_err = Node_not_started | Not_a_cid | Not_json | Op_failed

datatype answer =
    A_none | A_cid cid | A_bytes bytes | A_entries "(string \<times> cid) list" | A_folder "cid option" "string list"
  | A_cids "cid list" | A_paths "path list" | A_rows "(nat \<times> path) list" | A_counts nat nat

text \<open>A reply: the return code, the out-parameter, the error out-parameter.\<close>

type_synonym reply = "int \<times> answer \<times> api_err option"

abbreviation (input) fail :: "api_err \<Rightarrow> reply" where
  "fail e \<equiv> (-1, A_none, Some e)"

definition with_node :: "(store \<Rightarrow> reply \<times> store) \<Rightarrow> store option \<Rightarrow> reply \<times> store option" where
  "with_node f n = (case n of None \<Rightarrow> (fail Node_not_started, None) | Some s \<Rightarrow> apsnd Some (f s))"

definition with_cid :: "boxo \<Rightarrow> string \<Rightarrow> (cid \<Rightarrow> store \<Rightarrow> reply \<times> store) \<Rightarrow> store option \<Rightarrow> reply \<times> store option" where
  "with_cid E text f =
     with_node (\<lambda>s. case decode_cid E text of None \<Rightarrow> (fail Not_a_cid, s) | Some c \<Rightarrow> f c s)"

definition VgAddNoCopy :: "boxo \<Rightarrow> (bytes \<Rightarrow> import) \<Rightarrow> add_step option \<Rightarrow> path \<Rightarrow> store option \<Rightarrow> reply \<times> store option" where
  "VgAddNoCopy E imp fault p =
     with_node (\<lambda>s. case addNoCopy E imp fault p s of
        (Inl e, t) \<Rightarrow> (fail Op_failed, t) | (Inr c, t) \<Rightarrow> ((0, A_cid c, None), t))"

definition VgBlockPut :: "boxo \<Rightarrow> put_step option \<Rightarrow> bool \<Rightarrow> bytes \<Rightarrow> store option \<Rightarrow> reply \<times> store option" where
  "VgBlockPut E fault indirect b =
     with_node (\<lambda>s. case blockPut E fault indirect b s of
        (Inl e, t) \<Rightarrow> (fail Op_failed, t) | (Inr c, t) \<Rightarrow> ((0, A_cid c, None), t))"

definition VgBlockGet :: "boxo \<Rightarrow> string \<Rightarrow> store option \<Rightarrow> reply \<times> store option" where
  "VgBlockGet E text =
     with_cid E text (\<lambda>c s. (case blockGet E s c of None \<Rightarrow> fail Op_failed | Some b \<Rightarrow> (0, A_bytes b, None), s))"

definition VgDirEntries :: "boxo \<Rightarrow> string \<Rightarrow> store option \<Rightarrow> reply \<times> store option" where
  "VgDirEntries E text =
     with_cid E text (\<lambda>c s. (case dirEntries E s c of Inl e \<Rightarrow> fail Op_failed | Inr es \<Rightarrow> (0, A_entries es, None), s))"

text \<open>A failed \<open>makeDir\<close> may have stored and pinned the folder before it failed.\<close>

definition VgMakeDir :: "boxo \<Rightarrow> dir_step option \<Rightarrow> (string \<times> string) list option \<Rightarrow> store option \<Rightarrow> reply \<times> store option" where
  "VgMakeDir E fault entries =
     with_node (\<lambda>s. case entries of
        None \<Rightarrow> (fail Not_json, s)
      | Some es \<Rightarrow>
          (case makeWholeDir E fault False es s of
             (Inl e, t) \<Rightarrow> (fail Op_failed, t)
           | (Inr (c, gaps), t) \<Rightarrow> ((0, case c of None \<Rightarrow> A_none | Some d \<Rightarrow> A_cid d, None), t)))"

definition VgMakeWholeDir :: "boxo \<Rightarrow> dir_step option \<Rightarrow> (string \<times> string) list option \<Rightarrow> store option \<Rightarrow> reply \<times> store option" where
  "VgMakeWholeDir E fault entries =
     with_node (\<lambda>s. case entries of
        None \<Rightarrow> (fail Not_json, s)
      | Some es \<Rightarrow>
          (case makeWholeDir E fault True es s of
             (Inl e, t) \<Rightarrow> (fail Op_failed, t)
           | (Inr (c, gaps), t) \<Rightarrow> ((0, A_folder c gaps, None), t)))"

definition VgDropRef :: "boxo \<Rightarrow> string \<Rightarrow> store option \<Rightarrow> reply \<times> store option" where
  "VgDropRef E text = with_cid E text (\<lambda>c s. ((0, A_none, None), dropRef E c s))"

definition VgDropCached :: "boxo \<Rightarrow> string \<Rightarrow> store option \<Rightarrow> reply \<times> store option" where
  "VgDropCached E text = with_cid E text (\<lambda>c s. ((0, A_none, None), dropClosure E c s))"

definition VgPinRm :: "boxo \<Rightarrow> bool \<Rightarrow> string \<Rightarrow> store option \<Rightarrow> reply \<times> store option" where
  "VgPinRm E unpin_ok text =
     with_cid E text (\<lambda>c s. if unpin_ok then ((0, A_none, None), unpin c s)
        else (fail Op_failed, s\<lparr>st_unlisted := c # st_unlisted s\<rparr>))"

definition VgPinLs :: "bool \<Rightarrow> store option \<Rightarrow> reply \<times> store option" where
  "VgPinLs list_ok = with_node (\<lambda>s. (if list_ok then (0, A_cids (pinLs s), None) else fail Op_failed, s))"

text \<open>The number of references moved is the return code.\<close>

definition VgMoveRefs :: "bool \<Rightarrow> refMove list option \<Rightarrow> store option \<Rightarrow> reply \<times> store option" where
  "VgMoveRefs commit_ok moves =
     with_node (\<lambda>s. case moves of
        None \<Rightarrow> (fail Not_json, s)
      | Some ms \<Rightarrow> (case moveRefs commit_ok ms s of
            (None, t) \<Rightarrow> (fail Op_failed, t) | (Some k, t) \<Rightarrow> ((int k, A_none, None), t)))"

text \<open>The checks: 1, 0, or -1 for no answer; \<open>VgHeldWhole\<close> says 0 then.\<close>

definition ask :: "boxo \<Rightarrow> string \<Rightarrow> int \<Rightarrow> (store \<Rightarrow> cid \<Rightarrow> bool) \<Rightarrow> store option \<Rightarrow> int" where
  "ask E text none f n =
     (case n of None \<Rightarrow> none
      | Some s \<Rightarrow> (case decode_cid E text of None \<Rightarrow> none | Some c \<Rightarrow> if f s c then 1 else 0))"

definition VgHasLocal :: "boxo \<Rightarrow> string \<Rightarrow> store option \<Rightarrow> int" where
  "VgHasLocal E text = ask E text (-1) hasLocal"

definition VgCidMissing :: "boxo \<Rightarrow> string \<Rightarrow> store option \<Rightarrow> int" where
  "VgCidMissing E text = ask E text (-1) (cidMissing E)"

definition VgHeldWhole :: "boxo \<Rightarrow> string \<Rightarrow> store option \<Rightarrow> int" where
  "VgHeldWhole E text = ask E text 0 (\<lambda>s c. heldWhole E s c = None)"

text \<open>The texts: \<open>None\<close> is the empty one, a clean bill.\<close>

datatype verdict = V_not_started | V_bad_cid | V_reason check_error

definition status_of :: "boxo \<Rightarrow> string \<Rightarrow> (store \<Rightarrow> cid \<Rightarrow> check_error option) \<Rightarrow> store option \<Rightarrow> verdict option" where
  "status_of E text f n =
     (case n of None \<Rightarrow> Some V_not_started
      | Some s \<Rightarrow> (case decode_cid E text of None \<Rightarrow> Some V_bad_cid | Some c \<Rightarrow> map_option V_reason (f s c)))"

definition VgCidServeStatus :: "boxo \<Rightarrow> string \<Rightarrow> store option \<Rightarrow> verdict option" where
  "VgCidServeStatus E text = status_of E text (cidServeStatus E)"

definition VgVerifyCid :: "boxo \<Rightarrow> string \<Rightarrow> store option \<Rightarrow> verdict option" where
  "VgVerifyCid E text = status_of E text (cidUnservable E)"

text \<open>The scans answer an empty list when there is no node, and never fail.\<close>

definition VgOrphanedRefPaths :: "store option \<Rightarrow> path list" where
  "VgOrphanedRefPaths n = (case n of None \<Rightarrow> [] | Some s \<Rightarrow> orphanedRefPaths s)"

definition VgUnservableRefs :: "boxo \<Rightarrow> store option \<Rightarrow> (nat \<times> path) list" where
  "VgUnservableRefs E n = (case n of None \<Rightarrow> [] | Some s \<Rightarrow> unservableRefs E s)"

definition VgDebugCounts :: "store option \<Rightarrow> (nat \<times> nat) option" where
  "VgDebugCounts n = map_option counts n"

text \<open>\<open>VgComputeCid\<close> needs no node; its failure code is 1.\<close>

definition VgComputeCid :: "(bytes \<Rightarrow> import) \<Rightarrow> bytes option \<Rightarrow> reply" where
  "VgComputeCid imp f = (case computeCid imp f of None \<Rightarrow> (1, A_none, Some Op_failed) | Some c \<Rightarrow> (0, A_cid c, None))"

section \<open>The contract of a call\<close>

datatype request =
    Rq_add path | Rq_block_put bytes | Rq_block_get string | Rq_entries string
  | Rq_make_dir "(string \<times> string) list option" | Rq_make_whole "(string \<times> string) list option"
  | Rq_drop_ref string | Rq_drop_cached string | Rq_pin_rm string | Rq_pin_ls | Rq_move "refMove list option"

text \<open>How the operations a request runs go.\<close>

record api_faults =
  af_import :: "bytes \<Rightarrow> import"
  af_add :: "add_step option"
  af_put :: "put_step option"
  af_indirect :: bool
  af_dir :: "dir_step option"
  af_unpin :: bool
  af_list :: bool
  af_commit :: bool

fun api_do :: "boxo \<Rightarrow> api_faults \<Rightarrow> request \<Rightarrow> store option \<Rightarrow> reply \<times> store option" where
  "api_do E F (Rq_add p) n = VgAddNoCopy E (af_import F) (af_add F) p n"
| "api_do E F (Rq_block_put b) n = VgBlockPut E (af_put F) (af_indirect F) b n"
| "api_do E F (Rq_block_get c) n = VgBlockGet E c n"
| "api_do E F (Rq_entries c) n = VgDirEntries E c n"
| "api_do E F (Rq_make_dir es) n = VgMakeDir E (af_dir F) es n"
| "api_do E F (Rq_make_whole es) n = VgMakeWholeDir E (af_dir F) es n"
| "api_do E F (Rq_drop_ref c) n = VgDropRef E c n"
| "api_do E F (Rq_drop_cached c) n = VgDropCached E c n"
| "api_do E F (Rq_pin_rm c) n = VgPinRm E (af_unpin F) c n"
| "api_do E F Rq_pin_ls n = VgPinLs (af_list F) n"
| "api_do E F (Rq_move ms) n = VgMoveRefs (af_commit F) ms n"

text \<open>The answer a request can get, when it succeeds; the requests that only read.\<close>

fun answers :: "request \<Rightarrow> answer \<Rightarrow> bool" where
  "answers (Rq_add p) a \<longleftrightarrow> (\<exists>c. a = A_cid c)"
| "answers (Rq_block_put b) a \<longleftrightarrow> (\<exists>c. a = A_cid c)"
| "answers (Rq_block_get c) a \<longleftrightarrow> (\<exists>b. a = A_bytes b)"
| "answers (Rq_entries c) a \<longleftrightarrow> (\<exists>es. a = A_entries es)"
| "answers (Rq_make_dir es) a \<longleftrightarrow> (\<exists>c. a = A_cid c)"
| "answers (Rq_make_whole es) a \<longleftrightarrow> (\<exists>c gaps. a = A_folder c gaps)"
| "answers Rq_pin_ls a \<longleftrightarrow> (\<exists>cs. a = A_cids cs)"
| "answers rq a \<longleftrightarrow> a = A_none"

fun reads_only :: "request \<Rightarrow> bool" where
  "reads_only (Rq_block_get c) = True"
| "reads_only (Rq_entries c) = True"
| "reads_only Rq_pin_ls = True"
| "reads_only rq = False"

definition counts_refs :: "request \<Rightarrow> bool" where
  "counts_refs rq \<longleftrightarrow> (case rq of Rq_move ms \<Rightarrow> True | r \<Rightarrow> False)"

definition refused_early :: "api_err \<Rightarrow> bool" where
  "refused_early e \<longleftrightarrow> e \<noteq> Op_failed"

definition reply_ok :: "request \<Rightarrow> store option \<Rightarrow> reply \<times> store option \<Rightarrow> bool" where
  "reply_ok rq n r \<longleftrightarrow> (case r of ((rc, out, err), n') \<Rightarrow>
     (case err of
        None \<Rightarrow> answers rq out \<and> (if counts_refs rq then 0 \<le> rc else rc = 0)
      | Some e \<Rightarrow> rc = -1 \<and> out = A_none \<and> (if refused_early e then n' = n else True)) \<and>
     (n' = None \<longleftrightarrow> n = None) \<and> (if reads_only rq then n' = n else True) \<and>
     (n = None \<longrightarrow> err = Some Node_not_started))"

lemma with_node_ok:
  assumes "\<And>s. n = Some s \<Longrightarrow> reply_ok rq n (apsnd Some (f s))"
  shows "reply_ok rq n (with_node f n)"
  using assms by (cases n) (auto simp: with_node_def reply_ok_def refused_early_def)

lemma with_cid_ok:
  assumes "\<And>s c. n = Some s \<Longrightarrow> reply_ok rq n (apsnd Some (f c s))"
  shows "reply_ok rq n (with_cid E text f n)"
  unfolding with_cid_def
proof (rule with_node_ok)
  fix s assume n: "n = Some s"
  show "reply_ok rq n (apsnd Some (case decode_cid E text of None \<Rightarrow> (fail Not_a_cid, s) | Some c \<Rightarrow> f c s))"
    using assms[OF n] n by (cases "decode_cid E text") (simp_all add: reply_ok_def refused_early_def)
qed

lemma make_dir_some: "makeWholeDir E fault False es s = (Inr (c, gaps), t) \<Longrightarrow> \<exists>d. c = Some d"
  by (auto simp: makeWholeDir_def keep_dir_def Let_def split: sum.splits if_splits prod.splits)

lemmas vg_defs = VgAddNoCopy_def VgBlockPut_def VgBlockGet_def VgDirEntries_def VgMakeDir_def VgMakeWholeDir_def
  VgDropRef_def VgDropCached_def VgPinRm_def VgPinLs_def VgMoveRefs_def

lemma api_reply_ok: "reply_ok rq n (api_do E F rq n)"
proof (cases rq)
  case (Rq_make_dir es)
  show ?thesis
    unfolding Rq_make_dir api_do.simps VgMakeDir_def
    by (rule with_node_ok)
      (auto simp: reply_ok_def counts_refs_def refused_early_def split: option.splits sum.splits prod.splits dest: make_dir_some)
qed ((simp only: api_do.simps vg_defs, (rule with_cid_ok | rule with_node_ok),
    (auto simp: reply_ok_def counts_refs_def refused_early_def split: option.splits sum.splits prod.splits)[1])+)


text \<open>A block that was put is there for every later question about it.\<close>

lemma put_then_ask:
  assumes "VgBlockPut E fault indirect b (Some s) = ((rc, A_cid c, None), n)" "decode_cid E text = Some c" "st_root s = []"
    "\<forall>b'. map_of (st_plain s) (hash_of E b) = Some b' \<longrightarrow> b' = b"
  shows "VgBlockGet E text n = ((0, A_bytes b, None), n) \<and> VgHeldWhole E text n = 1 \<and> VgCidMissing E text n = 0"
proof -
  obtain t where t: "blockPut E fault indirect b s = (Inr c, t)" "n = Some t"
    using assms(1) by (auto simp: VgBlockPut_def with_node_def split: prod.splits sum.splits)
  note served = put_served[OF t(1) assms(4,3)]
  then have "blockGet E t c = Some b" "heldWhole E t c = None" "\<not> cidMissing E t c" by blast+
  then show ?thesis
    using t(2) assms(2) by (simp add: VgBlockGet_def VgHeldWhole_def VgCidMissing_def with_cid_def with_node_def ask_def)
qed

text \<open>"Fallible calls return -1 on failure": this one returns 1.\<close>

lemma compute_cid_fails_with_one: "VgComputeCid imp None = (1, A_none, Some Op_failed)"
  by (simp add: VgComputeCid_def computeCid_def)

section \<open>One fetch attempt\<close>

datatype transfer_event = Ev_started | Ev_progress int | Ev_finalizing int | Ev_finished "fetch_error option"

definition is_finished :: "transfer_event \<Rightarrow> bool" where
  "is_finished e \<longleftrightarrow> (case e of Ev_finished r \<Rightarrow> True | x \<Rightarrow> False)"

text \<open>\<open>run\<close>: what the fetch returned and the progress it reported; \<open>cancels\<close>: the cancellations standing when it returned.\<close>

definition VgFetchOnce ::
  "bool \<Rightarrow> string list \<Rightarrow> string \<Rightarrow> fetch_error option \<times> transfer_event list \<Rightarrow> outcome \<times> bool \<times> transfer_event list" where
  "VgFetchOnce up cancels c run =
     (if \<not> up then (Fetch_retryable, True, [])
      else (case run of (err, prog) \<Rightarrow>
        (let rc = classifyFetchErr cancels c err in
         case err of
           None \<Rightarrow> (Fetch_done, False, Ev_started # prog @ [Ev_finished None])
         | Some e \<Rightarrow> (rc, True, Ev_started # prog @ (if rc = Fetch_terminal then [Ev_finished (Some e)] else [])))))"

text \<open>The attempts of one transfer, as the queue dispatches them: up to the first that is not retryable.\<close>

fun transfer :: "string \<Rightarrow> (bool \<times> string list \<times> fetch_error option \<times> transfer_event list) list \<Rightarrow> outcome \<times> transfer_event list" where
  "transfer c [] = (Fetch_retryable, [])"
| "transfer c ((up, cancels, run) # rest) =
     (case VgFetchOnce up cancels c run of (rc, err, evs) \<Rightarrow>
        if rc = Fetch_retryable then apsnd ((@) evs) (transfer c rest) else (rc, evs))"

lemma once_events:
  assumes "VgFetchOnce up cancels c run = (rc, err, evs)" "list_all (\<lambda>e. \<not> is_finished e) (snd run)"
  shows "filter is_finished evs = (if rc = Fetch_retryable then [] else [last evs]) \<and>
    (rc = Fetch_done \<longleftrightarrow> up \<and> fst run = None) \<and> (rc \<noteq> Fetch_retryable \<longrightarrow> evs \<noteq> [] \<and> last evs = Ev_finished (fst run)) \<and>
    (up \<longleftrightarrow> evs \<noteq> [] \<and> hd evs = Ev_started)"
proof -
  have "filter is_finished (snd run) = []" using assms(2) by (auto simp: list_all_iff filter_empty_conv)
  then show ?thesis
    using assms(1)
    by (cases run; cases "fst run")
      (auto simp: VgFetchOnce_def classifyFetchErr_def Let_def is_finished_def split: if_splits)
qed

text \<open>
  C25. However often the queue retries a transfer, its row is told that it finished exactly once and last, when the
  attempt's outcome is final: with success if and only if the fetch returned no error, else with the
  error; while the outcome is retryable the row is told of no end at all.
\<close>

theorem transfer_finishes_once:
  assumes "list_all (\<lambda>(up, cancels, run). list_all (\<lambda>e. \<not> is_finished e) (snd run)) attempts"
    "transfer c attempts = (rc, evs)"
  shows "filter is_finished evs = (if rc = Fetch_retryable then [] else [last evs]) \<and>
    (if rc = Fetch_retryable then list_all (\<lambda>(up, cancels, run). up = False \<or> fst run \<noteq> None) attempts
     else \<exists>up cancels run. (up, cancels, run) \<in> set attempts \<and> up \<and> last evs = Ev_finished (fst run) \<and>
            (rc = Fetch_done \<longleftrightarrow> fst run = None))"
  using assms
proof (induction attempts arbitrary: evs)
  case Nil
  then show ?case by auto
next
  case (Cons a rest)
  obtain up cancels run where a: "a = (up, cancels, run)" by (metis surj_pair)
  obtain rc1 err evs1 where o: "VgFetchOnce up cancels c run = (rc1, err, evs1)" by (metis surj_pair)
  note ev = once_events[OF o]
  show ?case
  proof (cases "rc1 = Fetch_retryable")
    case True
    then obtain evs2 where r: "transfer c rest = (rc, evs2)" "evs = evs1 @ evs2"
      using Cons.prems(2) o a by (cases "transfer c rest") auto
    have IH: "filter is_finished evs2 = (if rc = Fetch_retryable then [] else [last evs2])"
      "rc = Fetch_retryable \<Longrightarrow> list_all (\<lambda>(up, cancels, run). up = False \<or> fst run \<noteq> None) rest"
      "rc \<noteq> Fetch_retryable \<Longrightarrow> \<exists>up cancels run. (up, cancels, run) \<in> set rest \<and> up \<and> last evs2 = Ev_finished (fst run) \<and>
        (rc = Fetch_done \<longleftrightarrow> fst run = None)"
      using Cons.IH[OF _ r(1)] Cons.prems(1) by (auto split: if_splits)
    have "evs2 \<noteq> []" if "rc \<noteq> Fetch_retryable" using IH(1) that by auto
    then show ?thesis using IH ev True Cons.prems(1) r(2) a by auto
  next
    case False
    then have rc: "rc = rc1" "evs = evs1" using Cons.prems(2) o a by auto
    have up: "up" using False o by (auto simp: VgFetchOnce_def split: if_splits)
    have run: "list_all (\<lambda>e. \<not> is_finished e) (snd run)" using Cons.prems(1) a by simp
    have "(up, cancels, run) \<in> set (a # rest)" "last evs = Ev_finished (fst run)" "rc = Fetch_done \<longleftrightarrow> fst run = None"
      using ev[OF run] rc up False a by simp_all
    then have ex: "\<exists>up cancels run. (up, cancels, run) \<in> set (a # rest) \<and> up \<and> last evs = Ev_finished (fst run) \<and>
        (rc = Fetch_done \<longleftrightarrow> fst run = None)" using up by (intro exI[of _ up] exI[of _ cancels] exI[of _ run] conjI)
    have "filter is_finished evs = [last evs]" "rc \<noteq> Fetch_retryable" using ev[OF run] rc False by simp_all
    then show ?thesis using ex by presburger
  qed
qed

theorem transfer_finishes_once_witness:
  "filter is_finished (snd (transfer ''c'' [(False, [], None, []), (True, [], Some Transient, [Ev_progress 5]), (True, [], None, [Ev_finalizing 100])])) =
   [Ev_finished None]"
proof -
  let ?as = "[(False, [], None, []), (True, [], Some Transient, [Ev_progress 5]), (True, [], None, [Ev_finalizing 100])]
     :: (bool \<times> string list \<times> fetch_error option \<times> transfer_event list) list"
  obtain rc evs where t: "transfer ''c'' ?as = (rc, evs)" by fastforce
  have r: "fst (transfer ''c'' ?as) = Fetch_done" "last (snd (transfer ''c'' ?as)) = Ev_finished None" by code_simp+
  have "list_all (\<lambda>(up, cancels, run). list_all (\<lambda>e. \<not> is_finished e) (snd run)) ?as" by code_simp
  from transfer_finishes_once[OF this t] show ?thesis using r t by simp
qed

end
