(* ===== verification/ApiNet.thy ===== *)
theory ApiNet
  imports NetQueue "HOL-Library.Multiset"
begin

text \<open>
  The handles of the network queue that the caller of the C ABI holds (\<open>api.go\<close>): \<open>VgNetAcquire\<close>,
  \<open>VgNetHold\<close> and \<open>VgNetRelease\<close> over the queue of \<open>NetQueue\<close>, interleaved with each other and with the
  jobs of the node. The table has its own lock: a release takes the entry out first, and gives the
  slot or the hold back after.
\<close>

section \<open>The table\<close>

datatype held = H_slot nat | H_hold

record api_net =
  an_sys :: nq_sys
  an_held :: "(int \<times> held) list"
  an_next :: int
  an_waiting :: "nat list"
  an_unregistered :: "held list"
  an_releasing :: "held list"
  an_holds_taken :: int

text \<open>The tail of \<open>VgNetAcquire\<close> and of \<open>VgNetHold\<close>: a new handle for what was taken.\<close>

definition net_register :: "held \<Rightarrow> api_net \<Rightarrow> int \<times> api_net" where
  "net_register h s =
     (let i = an_next s + 1 in (i, s\<lparr>an_next := i, an_held := (i, h) # an_held s\<rparr>))"

text \<open>The first half of \<open>VgNetRelease\<close>: the entry, taken out of the table.\<close>

definition net_take :: "int \<Rightarrow> api_net \<Rightarrow> held option \<times> api_net" where
  "net_take i s = (map_of (an_held s) i, s\<lparr>an_held := filter (\<lambda>x. fst x \<noteq> i) (an_held s)\<rparr>)"

text \<open>The second half: the release function of what was taken.\<close>

fun run_release :: "held \<Rightarrow> nq_sys \<Rightarrow> nq_sys" where
  "run_release (H_slot ch) q = q\<lparr>sys_job := (sys_job q)(ch := None), sys_q := releaser True (sys_q q)\<rparr>"
| "run_release H_hold q = q\<lparr>sys_q := hold_release (sys_q q)\<rparr>"

definition ours :: "api_net \<Rightarrow> held list" where
  "ours s = map snd (an_held s) @ an_unregistered s @ an_releasing s"

fun slots_in :: "held list \<Rightarrow> nat list" where
  "slots_in [] = []"
| "slots_in (H_slot ch # hs) = ch # slots_in hs"
| "slots_in (H_hold # hs) = slots_in hs"

definition holds_in :: "held list \<Rightarrow> nat" where
  "holds_in hs = length (filter (\<lambda>h. h = H_hold) hs)"

text \<open>
  The steps: an acquire that gets its slot at once or waits for it (its context never ends), the
  registration of a handle, a hold, the two halves of a release, of any number, and whatever the
  node's own jobs do with theirs.
\<close>

inductive api_step :: "api_net \<Rightarrow> api_net \<Rightarrow> bool" where
  net_now: "acquire (sys_next q) True (sys_q q) = (Slot, q') \<Longrightarrow> q = an_sys s \<Longrightarrow>
    api_step s (s\<lparr>an_sys := q\<lparr>sys_q := q', sys_job := (sys_job q)(sys_next q \<mapsto> Holding True), sys_next := Suc (sys_next q)\<rparr>,
      an_unregistered := H_slot (sys_next q) # an_unregistered s\<rparr>)"
| net_wait: "acquire (sys_next q) True (sys_q q) = (Queued, q') \<Longrightarrow> q = an_sys s \<Longrightarrow>
    api_step s (s\<lparr>an_sys := q\<lparr>sys_q := q', sys_job := (sys_job q)(sys_next q \<mapsto> Waiting True), sys_next := Suc (sys_next q)\<rparr>,
      an_waiting := sys_next q # an_waiting s\<rparr>)"
| net_wake: "an_waiting s = as @ ch # bs \<Longrightarrow> sys_job q ch = Some (Waiting True) \<Longrightarrow> ch \<in> nq_granted (sys_q q) \<Longrightarrow> q = an_sys s \<Longrightarrow>
    api_step s (s\<lparr>an_sys := q\<lparr>sys_job := (sys_job q)(ch \<mapsto> Holding True)\<rparr>, an_waiting := as @ bs,
      an_unregistered := H_slot ch # an_unregistered s\<rparr>)"
| net_registered: "an_unregistered s = as @ h # bs \<Longrightarrow>
    api_step s (snd (net_register h (s\<lparr>an_unregistered := as @ bs\<rparr>)))"
| net_hold: "q = an_sys s \<Longrightarrow>
    api_step s (s\<lparr>an_sys := q\<lparr>sys_q := hold (sys_q q)\<rparr>, an_unregistered := H_hold # an_unregistered s,
      an_holds_taken := an_holds_taken s + 1\<rparr>)"
| net_release_take: "net_take i s = (Some h, t) \<Longrightarrow> api_step s (t\<lparr>an_releasing := h # an_releasing s\<rparr>)"
| net_release_unknown: "net_take i s = (None, t) \<Longrightarrow> api_step s t"
| net_release_run: "an_releasing s = as @ h # bs \<Longrightarrow>
    api_step s (s\<lparr>an_sys := run_release h (an_sys s), an_releasing := as @ bs\<rparr>)"
| net_others: "nq_step (an_sys s) q \<Longrightarrow> nq_holds (sys_q q) = nq_holds (sys_q (an_sys s)) \<Longrightarrow>
    (\<And>ch. ch \<in> set (slots_in (ours s)) \<union> set (an_waiting s) \<Longrightarrow> sys_job q ch = sys_job (an_sys s) ch) \<Longrightarrow>
    api_step s (s\<lparr>an_sys := q\<rparr>)"

definition api_init :: "api_net \<Rightarrow> bool" where
  "api_init s \<longleftrightarrow> nq_init (an_sys s) \<and> an_held s = [] \<and> an_next s = 0 \<and> an_waiting s = [] \<and> an_unregistered s = [] \<and>
     an_releasing s = [] \<and> an_holds_taken s = 0"

section \<open>Every run of the table is a run of the queue\<close>

lemma slots_in_append [simp]: "slots_in (xs @ ys) = slots_in xs @ slots_in ys"
  by (induction xs rule: slots_in.induct) auto

lemma holds_in_simps [simp]:
  "holds_in [] = 0" "holds_in (h # hs) = (if h = H_hold then 1 else 0) + holds_in hs" "holds_in (xs @ ys) = holds_in xs + holds_in ys"
  by (simp_all add: holds_in_def)

fun slot_of :: "held \<Rightarrow> nat" where
  "slot_of (H_slot ch) = ch"
| "slot_of H_hold = 0"

lemma mset_slots_in: "mset (slots_in hs) = image_mset slot_of (filter_mset (\<lambda>h. h \<noteq> H_hold) (mset hs))"
  by (induction hs rule: slots_in.induct) auto

lemma holds_in_mset: "holds_in hs = size (filter_mset (\<lambda>h. h = H_hold) (mset hs))"
  by (induction hs) auto

text \<open>What is held counts as a multiset: where an entry is does not matter.\<close>

lemma ours_same:
  assumes "mset xs = mset ys"
  shows "mset (slots_in xs) = mset (slots_in ys)" "set (slots_in xs) = set (slots_in ys)"
    "distinct (slots_in xs) \<longleftrightarrow> distinct (slots_in ys)" "holds_in xs = holds_in ys"
proof -
  show m: "mset (slots_in xs) = mset (slots_in ys)" by (simp add: mset_slots_in assms)
  then show "set (slots_in xs) = set (slots_in ys)" by (rule mset_eq_setD)
  from m show "distinct (slots_in xs) \<longleftrightarrow> distinct (slots_in ys)" by (rule mset_eq_imp_distinct_iff)
  show "holds_in xs = holds_in ys" by (simp add: holds_in_mset assms)
qed

lemma mset_take:
  "map_of xs i = Some h \<Longrightarrow> distinct (map fst xs) \<Longrightarrow>
   add_mset h (mset (map snd (filter (\<lambda>x. fst x \<noteq> i) xs))) = mset (map snd xs)"
proof (induction xs)
  case (Cons x xs)
  show ?case
  proof (cases "fst x = i")
    case True
    have "i \<notin> fst ` set xs" using Cons.prems(2) True by simp
    then have "\<forall>y \<in> set xs. fst y \<noteq> i" by (metis image_eqI)
    then have "filter (\<lambda>x. fst x \<noteq> i) xs = xs" by (rule filter_True)
    then show ?thesis using Cons.prems(1) True by (cases x) auto
  qed (use Cons in \<open>cases x; auto\<close>)
qed simp

lemma map_of_None_filter: "map_of xs i = None \<Longrightarrow> filter (\<lambda>x. fst x \<noteq> i) xs = xs"
  by (induction xs) (auto split: if_splits)

text \<open>The table's books: distinct handles, each slot held by one entry, as many holds as the queue counts.\<close>

definition api_books :: "api_net \<Rightarrow> bool" where
  "api_books s \<longleftrightarrow>
     distinct (map fst (an_held s)) \<and> (\<forall>x \<in> set (an_held s). fst x \<le> an_next s) \<and>
     distinct (slots_in (ours s)) \<and> (\<forall>ch \<in> set (slots_in (ours s)). sys_job (an_sys s) ch = Some (Holding True)) \<and>
     (\<forall>ch \<in> set (an_waiting s). sys_job (an_sys s) ch = Some (Waiting True)) \<and> distinct (an_waiting s) \<and>
     int (holds_in (ours s)) = nq_holds (sys_q (an_sys s))"

definition api_inv :: "api_net \<Rightarrow> bool" where
  "api_inv s \<longleftrightarrow> reachable nq_init nq_step (an_sys s) \<and> api_books s"

lemma grant_holds [simp]: "nq_holds (grantLocked q) = nq_holds q"
  using grantLocked_split[of q] by (auto simp: granted_from_def)

lemma op_holds [simp]:
  "nq_holds (markFgIdleIfLocked q) = nq_holds q" "nq_holds (markFgBusyLocked q) = nq_holds q"
  "nq_holds (releaser fg q) = nq_holds q" "nq_holds (hold q) = nq_holds q + 1" "nq_holds (hold_release q) = nq_holds q - 1"
  "nq_holds (snd (acquire ch fg q)) = nq_holds q"
  by (simp_all add: markFgIdleIfLocked_def markFgBusyLocked_def releaser_def hold_def hold_release_def acquire_def Let_def)

lemma acquire_holds: "acquire ch fg q = (r, q') \<Longrightarrow> nq_holds q' = nq_holds q"
  using op_holds(6)[of ch fg q] by simp

lemma books_fresh:
  assumes "api_inv s"
  shows "sys_next (an_sys s) \<notin> set (slots_in (ours s))" "sys_next (an_sys s) \<notin> set (an_waiting s)"
proof -
  have "nq_sys_inv (an_sys s)" using assms netq.reachable_inv by (simp add: api_inv_def)
  then have "dom (sys_job (an_sys s)) \<subseteq> {..<sys_next (an_sys s)}" by (simp add: nq_sys_inv_def nq_books_def)
  then have "sys_job (an_sys s) (sys_next (an_sys s)) = None" by auto
  then show "sys_next (an_sys s) \<notin> set (slots_in (ours s))" "sys_next (an_sys s) \<notin> set (an_waiting s)"
    using assms by (force simp: api_inv_def api_books_def)+
qed

lemma books_move:
  assumes "api_books s" "mset (ours t) = mset (ours s)" "an_sys t = an_sys s" "an_waiting t = an_waiting s"
    "distinct (map fst (an_held t))" "\<forall>x \<in> set (an_held t). fst x \<le> an_next t"
  shows "api_books t"
  using assms ours_same[OF assms(2)] by (simp add: api_books_def)

lemma books_add:
  assumes "api_books s" "mset (ours t) = add_mset h (mset (ours s))" "an_held t = an_held s" "an_next t = an_next s"
    "distinct (slots_in (h # ours s))" "\<forall>ch \<in> set (slots_in (h # ours s)). sys_job (an_sys t) ch = Some (Holding True)"
    "\<forall>ch \<in> set (an_waiting t). sys_job (an_sys t) ch = Some (Waiting True)" "distinct (an_waiting t)"
    "nq_holds (sys_q (an_sys t)) = nq_holds (sys_q (an_sys s)) + (if h = H_hold then 1 else 0)"
  shows "api_books t"
proof -
  have "mset (ours t) = mset (h # ours s)" using assms(2) by simp
  from ours_same[OF this] show ?thesis using assms by (simp add: api_books_def)
qed

lemma nq_next: "reachable nq_init nq_step q \<Longrightarrow> nq_step q q' \<Longrightarrow> reachable nq_init nq_step q'"
  by (rule reach_step)

lemma api_inv_step:
  assumes "api_inv s" "api_step s t"
  shows "api_inv t"
proof -
  have r: "reachable nq_init nq_step (an_sys s)" and b: "api_books s" using assms(1) by (simp_all add: api_inv_def)
  have held: "distinct (map fst (an_held s))" "\<forall>x \<in> set (an_held s). fst x \<le> an_next s"
    and slots: "distinct (slots_in (ours s))" "\<forall>ch \<in> set (slots_in (ours s)). sys_job (an_sys s) ch = Some (Holding True)"
    and waits: "\<forall>ch \<in> set (an_waiting s). sys_job (an_sys s) ch = Some (Waiting True)" "distinct (an_waiting s)"
    and holds: "int (holds_in (ours s)) = nq_holds (sys_q (an_sys s))"
    using b by (simp_all add: api_books_def)
  note fresh = books_fresh[OF assms(1)]
  from assms(2) show ?thesis
  proof cases
    case (net_now q q')
    have "nq_step (an_sys s) (an_sys t)" using nq_now[OF net_now(2)] net_now(1,3) by simp
    then have "reachable nq_init nq_step (an_sys t)" by (rule nq_next[OF r])
    moreover have "api_books t"
    proof (rule books_add[OF b, where h = "H_slot (sys_next q)"])
      show "mset (ours t) = add_mset (H_slot (sys_next q)) (mset (ours s))" by (simp add: net_now(1) ours_def)
    qed (use net_now fresh slots waits acquire_holds[OF net_now(2)] in auto)
    ultimately show ?thesis by (simp add: api_inv_def)
  next
    case (net_wait q q')
    have "nq_step (an_sys s) (an_sys t)" using nq_wait[OF net_wait(2)] net_wait(1,3) by simp
    then have "reachable nq_init nq_step (an_sys t)" by (rule nq_next[OF r])
    moreover have "api_books t"
      using held slots waits holds fresh acquire_holds[OF net_wait(2)]
      unfolding api_books_def net_wait(1) by (auto simp: ours_def net_wait(3))
    ultimately show ?thesis by (simp add: api_inv_def)
  next
    case (net_wake as ch bs q)
    have "nq_step (an_sys s) (an_sys t)" using nq_wake[of q ch True] net_wake by simp
    then have "reachable nq_init nq_step (an_sys t)" by (rule nq_next[OF r])
    moreover have "ch \<notin> set (slots_in (ours s))" using slots(2) net_wake(3,5) by auto
    then have "api_books t"
      using net_wake slots waits
      by (intro books_add[OF b, where h = "H_slot ch"]) (auto simp: ours_def)
    ultimately show ?thesis by (simp add: api_inv_def)
  next
    case (net_registered as h bs)
    have "api_books t"
      by (rule books_move[OF b]) (use held in \<open>force simp: net_registered ours_def net_register_def Let_def\<close>)+
    then show ?thesis using r by (simp add: api_inv_def net_registered net_register_def Let_def)
  next
    case (net_hold q)
    have "nq_step (an_sys s) (an_sys t)" using nq_hold[of q] net_hold by simp
    then have "reachable nq_init nq_step (an_sys t)" by (rule nq_next[OF r])
    moreover have "api_books t"
      using net_hold slots waits
      by (intro books_add[OF b, where h = H_hold]) (auto simp: ours_def)
    ultimately show ?thesis by (simp add: api_inv_def)
  next
    case (net_release_take i h u)
    then have "add_mset h (mset (map snd (filter (\<lambda>x. fst x \<noteq> i) (an_held s)))) = mset (map snd (an_held s))"
      using mset_take[OF _ held(1)] by (simp add: net_take_def)
    moreover have u: "u = s\<lparr>an_held := filter (\<lambda>x. fst x \<noteq> i) (an_held s)\<rparr>" using net_release_take(2) by (simp add: net_take_def)
    ultimately have "mset (ours t) = mset (ours s)" using net_release_take(1) by (simp add: ours_def)
    then have "api_books t"
      using held by (intro books_move[OF b]) (simp_all add: net_release_take(1) u distinct_map_filter)
    then show ?thesis using r net_release_take by (auto simp: api_inv_def net_take_def)
  next
    case (net_release_unknown i)
    then have "t = s" using map_of_None_filter[of "an_held s" i] by (auto simp: net_take_def)
    then show ?thesis using assms(1) by simp
  next
    case (net_release_run as h bs)
    have o: "mset (ours s) = add_mset h (mset (ours t))" by (simp add: net_release_run ours_def)
    then have om: "mset (ours s) = mset (h # ours t)" by simp
    note os = ours_same[OF om]
    show ?thesis
    proof (cases h)
      case (H_slot ch)
      have ch: "sys_job (an_sys s) ch = Some (Holding True)" "ch \<notin> set (slots_in (ours t))" "ch \<notin> set (an_waiting s)"
        using slots os H_slot waits by auto
      have "nq_step (an_sys s) (an_sys t)" using nq_release[OF ch(1)] net_release_run H_slot by simp
      then have "reachable nq_init nq_step (an_sys t)" by (rule nq_next[OF r])
      moreover have "api_books t"
        using held slots waits holds os ch H_slot net_release_run by (auto simp: api_books_def)
      ultimately show ?thesis by (simp add: api_inv_def)
    next
      case H_hold
      have "1 \<le> nq_holds (sys_q (an_sys s))" using holds os(4) H_hold by simp
      then have "nq_step (an_sys s) (an_sys t)" using nq_unhold[of "an_sys s"] net_release_run H_hold by simp
      then have "reachable nq_init nq_step (an_sys t)" by (rule nq_next[OF r])
      moreover have "api_books t"
        using held slots waits holds os H_hold net_release_run by (auto simp: api_books_def)
      ultimately show ?thesis by (simp add: api_inv_def)
    qed
  next
    case (net_others q)
    have "reachable nq_init nq_step (an_sys t)" using nq_next[OF r net_others(2)] net_others(1) by simp
    moreover have "api_books t"
      using held slots waits holds net_others(3,4) unfolding net_others(1) by (auto simp: api_books_def ours_def)
    ultimately show ?thesis by (simp add: api_inv_def)
  qed
qed

interpretation api_net_sys: step_invariant api_init api_step api_inv
proof
  show "api_inv s" if "api_init s" for s
    using that reach_init[of nq_init "an_sys s" nq_step]
    by (auto simp: api_init_def api_inv_def api_books_def ours_def nq_init_def newNetQueue_def)
qed (rule api_inv_step)

text \<open>
  C23. The table over the queue is sound, whatever numbers the caller releases, how often, and however its calls
  interleave: every state of it is a reachable state of the queue, each slot held through a handle is
  a slot the queue counts for the foreground, held once, the queue counts exactly the holds taken and not given back,
  and a number released again, or never given out, changes nothing.
\<close>

theorem api_net_refines_queue:
  assumes "reachable api_init api_step s"
  shows "reachable nq_init nq_step (an_sys s) \<and>
    distinct (slots_in (ours s)) \<and> set (slots_in (ours s)) \<subseteq> owners (an_sys s) True \<and>
    int (holds_in (ours s)) = nq_holds (sys_q (an_sys s)) \<and>
    (fst (net_take i (snd (net_take i s))) = None \<and> snd (net_take i (snd (net_take i s))) = snd (net_take i s)) \<and>
    (i \<notin> fst ` set (an_held s) \<longrightarrow> net_take i s = (None, s))"
proof -
  have inv: "api_inv s" by (rule api_net_sys.reachable_inv[OF assms])
  have gone: "map_of (filter (\<lambda>x. fst x \<noteq> i) xs) i = None" for xs :: "(int \<times> held) list"
    by (auto simp: map_of_eq_None_iff)
  have "i \<notin> fst ` set (an_held s) \<longrightarrow> net_take i s = (None, s)"
    using map_of_None_filter[of "an_held s" i] by (simp add: net_take_def map_of_eq_None_iff)
  moreover have "fst (net_take i (snd (net_take i s))) = None" "snd (net_take i (snd (net_take i s))) = snd (net_take i s)"
    by (simp_all add: net_take_def gone)
  moreover have "set (slots_in (ours s)) \<subseteq> owners (an_sys s) True"
    using inv by (auto simp: api_inv_def api_books_def owners_def)
  ultimately show ?thesis using inv by (simp add: api_inv_def api_books_def)
qed

definition net_start :: api_net where
  "net_start = \<lparr>an_sys = \<lparr>sys_q = newNetQueue 2, sys_job = Map.empty, sys_next = 0\<rparr>, an_held = [], an_next = 0, an_waiting = [],
     an_unregistered = [], an_releasing = [], an_holds_taken = 0\<rparr>"

definition net_holding :: api_net where
  "net_holding = snd (net_register H_hold (net_start\<lparr>an_sys := (an_sys net_start)\<lparr>sys_q := hold (newNetQueue 2)\<rparr>, an_holds_taken := 1\<rparr>))"

lemma net_holding_reachable: "reachable api_init api_step net_holding"
proof -
  let ?s1 = "net_start\<lparr>an_sys := (an_sys net_start)\<lparr>sys_q := hold (newNetQueue 2)\<rparr>, an_unregistered := [H_hold], an_holds_taken := 1\<rparr>"
  have "reachable api_init api_step net_start"
    by (rule reach_init) (simp add: api_init_def nq_init_def net_start_def, rule exI[of _ 2], simp)
  moreover have "api_step net_start ?s1"
    using net_hold[of "an_sys net_start" net_start] by (simp add: net_start_def)
  ultimately have "reachable api_init api_step ?s1" by (rule reach_step)
  moreover have "api_step ?s1 net_holding"
    using net_registered[of ?s1 "[]" H_hold "[]"] by (simp add: net_holding_def net_start_def)
  ultimately show ?thesis by (rule reach_step)
qed

theorem api_net_refines_queue_witness:
  "fst ` set (an_held net_holding) = {1} \<and> nq_holds (sys_q (an_sys net_holding)) = 1 \<and> net_take 2 net_holding = (None, net_holding)"
proof -
  have h: "an_held net_holding = [(1, H_hold)]" by code_simp
  have "ours net_holding = [H_hold]" by code_simp
  then show ?thesis using api_net_refines_queue[OF net_holding_reachable, of 2] h by simp
qed

end
