(* ===== verification/NatGateway.thy ===== *)
theory NatGateway
  imports Resolver "HOL-Library.Sublist"
begin

text \<open>
  The gateway of the virtual LAN (\<open>natgateway.go\<close>), above its network stack: the count of flows, the
  splicing of a game's connection onto the host's, and the DNS queries answered in the node. The
  stack, the sockets and the DNS message format are arguments.
\<close>

section \<open>Splicing\<close>

text \<open>
  Two pumps, one per direction; a pump waits for each read until its deadline, \<open>idle\<close> after the
  read began. \<open>sp_in\<close> and \<open>sp_out\<close> are what a pump has read and what it has written.
\<close>

datatype dir = Outward | Inward

record splice =
  sp_now :: nanos
  sp_deadline :: "dir \<Rightarrow> nanos"
  sp_pump :: "dir \<Rightarrow> bool"
  sp_closed :: bool
  sp_in :: "dir \<Rightarrow> bytes"
  sp_out :: "dir \<Rightarrow> bytes"

definition splice_start :: "nanos \<Rightarrow> nanos \<Rightarrow> splice" where
  "splice_start idle now =
     \<lparr>sp_now = now, sp_deadline = (\<lambda>d. now + idle), sp_pump = (\<lambda>d. True), sp_closed = False,
      sp_in = (\<lambda>d. []), sp_out = (\<lambda>d. [])\<rparr>"

definition pump_ends :: "dir \<Rightarrow> splice \<Rightarrow> splice" where
  "pump_ends d s = s\<lparr>sp_pump := (sp_pump s)(d := False)\<rparr>"

definition pump_reads :: "dir \<Rightarrow> bytes \<Rightarrow> splice \<Rightarrow> splice" where
  "pump_reads d b s = s\<lparr>sp_in := (sp_in s)(d := sp_in s d @ b)\<rparr>"

definition pump_writes :: "dir \<Rightarrow> bytes \<Rightarrow> splice \<Rightarrow> splice" where
  "pump_writes d b s = s\<lparr>sp_out := (sp_out s)(d := sp_out s d @ b)\<rparr>"

inductive splice_step :: "nanos \<Rightarrow> splice \<Rightarrow> splice \<Rightarrow> bool" for idle where
  sp_copy: "sp_pump s d \<Longrightarrow> \<not> sp_closed s \<Longrightarrow> sp_now s \<le> sp_deadline s d \<Longrightarrow> t = pump_writes d b (pump_reads d b s) \<Longrightarrow>
    splice_step idle s (t\<lparr>sp_deadline := (sp_deadline s)(d := sp_now s + idle)\<rparr>)"
| sp_last: "sp_pump s d \<Longrightarrow> \<not> sp_closed s \<Longrightarrow> splice_step idle s (pump_ends d (pump_writes d b (pump_reads d b s)))"
| sp_broken: "sp_pump s d \<Longrightarrow> prefix c b \<Longrightarrow> splice_step idle s (pump_ends d (pump_writes d c (pump_reads d b s)))"
| sp_timeout: "sp_pump s d \<Longrightarrow> sp_deadline s d \<le> sp_now s \<Longrightarrow> splice_step idle s (pump_ends d s)"
| sp_close: "\<not> sp_pump s d \<Longrightarrow> splice_step idle s (s\<lparr>sp_closed := True\<rparr>)"
| sp_unblock: "sp_pump s d \<Longrightarrow> sp_closed s \<Longrightarrow> splice_step idle s (pump_ends d s)"
| sp_tick: "0 \<le> x \<Longrightarrow> splice_step idle s (s\<lparr>sp_now := sp_now s + x\<rparr>)"

definition splice_init :: "nanos \<Rightarrow> splice \<Rightarrow> bool" where
  "splice_init idle s \<longleftrightarrow> (\<exists>now. s = splice_start idle now)"

definition splice_over :: "splice \<Rightarrow> bool" where
  "splice_over s \<longleftrightarrow> sp_closed s \<and> \<not> sp_pump s Outward \<and> \<not> sp_pump s Inward"

definition splice_inv :: "splice \<Rightarrow> bool" where
  "splice_inv s \<longleftrightarrow>
     (\<forall>d. prefix (sp_out s d) (sp_in s d)) \<and> (\<forall>d. sp_pump s d \<longrightarrow> sp_out s d = sp_in s d) \<and>
     (sp_closed s \<longrightarrow> \<not> sp_pump s Outward \<or> \<not> sp_pump s Inward)"

lemma splice_inv_step: "splice_inv s \<Longrightarrow> splice_step idle s t \<Longrightarrow> splice_inv t"
  by (erule splice_step.cases; auto simp: splice_inv_def pump_ends_def pump_reads_def pump_writes_def; (metis dir.exhaust)?)

interpretation splice_sys: step_invariant "splice_init idle" "splice_step idle" splice_inv for idle
proof
  show "splice_inv s" if "splice_init idle s" for s
    using that by (auto simp: splice_init_def splice_start_def splice_inv_def)
qed (rule splice_inv_step)

lemma splice_ends:
  assumes "\<not> sp_pump s d"
  shows "\<exists>t. (splice_step idle)\<^sup>*\<^sup>* s t \<and> splice_over t"
proof -
  have one: "\<exists>t. (splice_step idle)\<^sup>*\<^sup>* s t \<and> sp_closed t \<and> \<not> sp_pump t e" if "sp_closed s" for s e
  proof (cases "sp_pump s e")
    case True
    then show ?thesis using sp_unblock[OF True that, of idle] that by (intro exI[of _ "pump_ends e s"]) (simp add: pump_ends_def)
  qed (use that in blast)
  let ?s1 = "s\<lparr>sp_closed := True\<rparr>"
  define s2 where "s2 = (if sp_pump ?s1 Outward then pump_ends Outward ?s1 else ?s1)"
  define s3 where "s3 = (if sp_pump s2 Inward then pump_ends Inward s2 else s2)"
  have c: "sp_closed ?s1" "sp_closed s2" by (simp_all add: s2_def pump_ends_def)
  have "(splice_step idle)\<^sup>*\<^sup>* s ?s1" using sp_close[OF assms, of idle] by blast
  moreover have "(splice_step idle)\<^sup>*\<^sup>* ?s1 s2" using sp_unblock[of ?s1 Outward idle] c(1) by (auto simp: s2_def)
  moreover have "(splice_step idle)\<^sup>*\<^sup>* s2 s3" using sp_unblock[of s2 Inward idle] c(2) by (auto simp: s3_def)
  ultimately have "(splice_step idle)\<^sup>*\<^sup>* s s3" by (meson rtranclp_trans)
  moreover have "splice_over s3" by (simp add: s3_def s2_def splice_over_def pump_ends_def)
  ultimately show ?thesis by blast
qed

text \<open>
  A spliced flow carries in each direction exactly the bytes it read, in order, up to where a write failed;
  it is closed only after a pump has ended, and once one has, for whatever reason, the whole flow can end: no pump
  is left behind.
\<close>

theorem splice_faithful:
  assumes "reachable (splice_init idle) (splice_step idle) s"
  shows "prefix (sp_out s d) (sp_in s d) \<and> (if sp_pump s d then sp_out s d = sp_in s d else True) \<and>
    (if sp_closed s then \<not> sp_pump s Outward \<or> \<not> sp_pump s Inward else True) \<and>
    (if sp_pump s d then True else \<exists>t. (splice_step idle)\<^sup>*\<^sup>* s t \<and> splice_over t)"
  using splice_sys.reachable_inv[OF assms] splice_ends[of s d idle] by (simp add: splice_inv_def)

text \<open>
  "Until either side closes or the flow idles out": but a pump waits for its own direction alone, so a flow that is
  busy one way is torn down when the other way has been silent for \<open>idle\<close>.
\<close>

definition one_way :: splice where
  "one_way =
     (splice_start 10 0)\<lparr>sp_now := 10, sp_deadline := (\<lambda>d. 10)(Inward := 20), sp_in := (\<lambda>d. [])(Inward := [1, 2]),
        sp_out := (\<lambda>d. [])(Inward := [1, 2])\<rparr>"

lemma one_way_reachable: "reachable (splice_init 10) (splice_step 10) one_way"
proof -
  let ?s0 = "splice_start 10 0"
  let ?s1 = "?s0\<lparr>sp_deadline := (\<lambda>d. 10)(Inward := 10), sp_in := (\<lambda>d. [])(Inward := [1]), sp_out := (\<lambda>d. [])(Inward := [1])\<rparr>"
  let ?s2 = "?s1\<lparr>sp_now := 10\<rparr>"
  have r0: "reachable (splice_init 10) (splice_step 10) ?s0" by (rule reach_init) (auto simp: splice_init_def)
  have t1: "splice_step 10 ?s0 ?s1"
    using sp_copy[of ?s0 Inward _ "[1]" 10, OF _ _ _ refl] by (simp add: splice_start_def pump_reads_def pump_writes_def)
  have r1: "reachable (splice_init 10) (splice_step 10) ?s1" by (rule reach_step) (rule r0, rule t1)
  have t2: "splice_step 10 ?s1 ?s2" using sp_tick[of 10 10 ?s1] by (simp add: splice_start_def)
  have r2: "reachable (splice_init 10) (splice_step 10) ?s2" by (rule reach_step) (rule r1, rule t2)
  let ?s3 = "(pump_writes Inward [2] (pump_reads Inward [2] ?s2))\<lparr>sp_deadline := (sp_deadline ?s2)(Inward := sp_now ?s2 + 10)\<rparr>"
  have "?s3 = one_way" by (auto simp: splice_start_def pump_reads_def pump_writes_def one_way_def)
  then have t3: "splice_step 10 ?s2 one_way"
    using sp_copy[of ?s2 Inward _ "[2]" 10, OF _ _ _ refl] by (simp add: splice_start_def)
  show ?thesis by (rule reach_step) (rule r2, rule t3)
qed

lemma one_way_flow_cut: "splice_step 10 one_way (pump_ends Outward one_way) \<and> sp_now one_way < sp_deadline one_way Inward"
  using sp_timeout[of one_way Outward 10] by (simp add: one_way_def splice_start_def)

theorem splice_faithful_witness: "sp_out one_way Inward = [1, 2] \<and> prefix (sp_out one_way Inward) (sp_in one_way Inward)"
  using splice_faithful[OF one_way_reachable, of Inward] by (simp add: one_way_def)

section \<open>The count of flows\<close>

text \<open>
  The handlers of one protocol: a flow is refused when the count is full; else its endpoint is created
  (or not), and it is counted until it ends. The check and the count are two moments.
\<close>

definition gwMaxFlows :: int where
  "gwMaxFlows = 512"

datatype flow = Fl_admitted | Fl_counted

record flows =
  fw_count :: int
  fw_flows :: "flow list"

inductive flow_step :: "flows \<Rightarrow> flows \<Rightarrow> bool" where
  fw_admit: "fw_count s < gwMaxFlows \<Longrightarrow> flow_step s (s\<lparr>fw_flows := Fl_admitted # fw_flows s\<rparr>)"
| fw_no_endpoint: "fw_flows s = as @ Fl_admitted # bs \<Longrightarrow> flow_step s (s\<lparr>fw_flows := as @ bs\<rparr>)"
| fw_counted: "fw_flows s = as @ Fl_admitted # bs \<Longrightarrow>
    flow_step s (s\<lparr>fw_flows := as @ Fl_counted # bs, fw_count := fw_count s + 1\<rparr>)"
| fw_ended: "fw_flows s = as @ Fl_counted # bs \<Longrightarrow> flow_step s (s\<lparr>fw_flows := as @ bs, fw_count := fw_count s - 1\<rparr>)"

definition flow_init :: "flows \<Rightarrow> bool" where
  "flow_init s \<longleftrightarrow> fw_count s = 0 \<and> fw_flows s = []"

definition counted :: "flow list \<Rightarrow> nat" where
  "counted fs = length (filter (\<lambda>f. f = Fl_counted) fs)"

definition flow_inv :: "flows \<Rightarrow> bool" where
  "flow_inv s \<longleftrightarrow> fw_count s = int (counted (fw_flows s))"

interpretation flow_sys: step_invariant flow_init flow_step flow_inv
proof
  show "flow_inv t" if "flow_inv s" "flow_step s t" for s t
    using that(2,1) by cases (auto simp: flow_inv_def counted_def)
qed (simp add: flow_init_def flow_inv_def counted_def)

text \<open>The count is exact, so a gateway whose flows have all ended admits again.\<close>

lemma flow_count_exact:
  "reachable flow_init flow_step s \<Longrightarrow> fw_count s = int (counted (fw_flows s))"
  using flow_sys.reachable_inv by (simp add: flow_inv_def)

text \<open>But flows that arrive together are all admitted before any is counted.\<close>

lemma admitted_together:
  "reachable flow_init flow_step \<lparr>fw_count = 0, fw_flows = replicate k Fl_admitted\<rparr>"
proof (induction k)
  case 0
  show ?case by (rule reach_init) (simp add: flow_init_def)
next
  case (Suc k)
  show ?case
    using reach_step[OF Suc fw_admit[of "\<lparr>fw_count = 0, fw_flows = replicate k Fl_admitted\<rparr>"]] by (simp add: gwMaxFlows_def)
qed

lemma counted_together:
  "j \<le> k \<Longrightarrow> reachable flow_init flow_step \<lparr>fw_count = int j, fw_flows = replicate j Fl_counted @ replicate (k - j) Fl_admitted\<rparr>"
proof (induction j)
  case 0
  show ?case using admitted_together[of k] by simp
next
  case (Suc j)
  let ?s = "\<lparr>fw_count = int j, fw_flows = replicate j Fl_counted @ replicate (k - j) Fl_admitted\<rparr>"
  let ?t = "\<lparr>fw_count = int j + 1, fw_flows = replicate j Fl_counted @ Fl_counted # replicate (k - Suc j) Fl_admitted\<rparr>"
  have k: "k - j = Suc (k - Suc j)" using Suc.prems by simp
  have r: "reachable flow_init flow_step ?s" by (rule Suc.IH) (use Suc.prems in simp)
  have t: "flow_step ?s ?t"
    using fw_counted[of ?s "replicate j Fl_counted" "replicate (k - Suc j) Fl_admitted"] k by simp
  have "reachable flow_init flow_step ?t" by (rule reach_step) (rule r, rule t)
  then show ?case by (simp add: replicate_app_Cons_same add.commute)
qed

lemma flow_cap_exceeded: "\<exists>s. reachable flow_init flow_step s \<and> gwMaxFlows < fw_count s"
proof -
  have "reachable flow_init flow_step \<lparr>fw_count = int 513, fw_flows = replicate 513 Fl_counted @ replicate (513 - 513) Fl_admitted\<rparr>"
    by (rule counted_together) simp
  moreover have "gwMaxFlows < fw_count \<lparr>fw_count = int 513, fw_flows = replicate 513 Fl_counted @ replicate (513 - 513) Fl_admitted\<rparr>"
    by (simp add: gwMaxFlows_def)
  ultimately show ?thesis by blast
qed

section \<open>DNS\<close>

datatype qtype = Q_A | Q_AAAA | Q_other

record dns_query =
  dq_id :: nat
  dq_rd :: bool
  dq_name :: string
  dq_type :: qtype

text \<open>What is answered: the addresses of the type that was asked for. \<open>is4\<close>: the address is an IPv4 one.\<close>

definition dns_records :: "('ip \<Rightarrow> bool) \<Rightarrow> qtype \<Rightarrow> 'ip list \<Rightarrow> 'ip list" where
  "dns_records is4 qt ips = filter (\<lambda>ip. (is4 ip \<and> qt = Q_A) \<or> (\<not> is4 ip \<and> qt = Q_AAAA)) ips"

text \<open>\<open>parse\<close> reads the header and the first question; \<open>pack\<close> builds the response to it, with the records.\<close>

definition answerDNS ::
  "(bytes \<Rightarrow> dns_query option) \<Rightarrow> (dns_query \<Rightarrow> 'ip list \<Rightarrow> bytes option) \<Rightarrow> ('ip \<Rightarrow> bool) \<Rightarrow> (string \<Rightarrow> 'ip list option) \<Rightarrow>
   bytes \<Rightarrow> bytes option" where
  "answerDNS parse pack is4 resolve q =
     (case parse q of
        None \<Rightarrow> None
      | Some d \<Rightarrow>
          if dq_type d \<noteq> Q_A \<and> dq_type d \<noteq> Q_AAAA then None
          else (case resolve (trim_suffix (dq_name d) ''.'') of
                  None \<Rightarrow> None
                | Some ips \<Rightarrow> pack d (dns_records is4 (dq_type d) ips)))"

function fields :: "string \<Rightarrow> string list" where
  "fields s =
     (let t = dropWhile space s in
      if t = [] then [] else takeWhile (\<lambda>c. \<not> space c) t # fields (dropWhile (\<lambda>c. \<not> space c) t))"
  by pat_completeness auto
termination
proof (relation "measure length")
  fix s t :: string
  assume t: "t = dropWhile space s" "t \<noteq> []"
  then obtain c u where u: "t = c # u" "\<not> space c" by (metis dropWhile_eq_Cons_conv list.exhaust)
  have "length (dropWhile (\<lambda>c. \<not> space c) t) \<le> length u" using u by (simp add: length_dropWhile_le)
  also have "\<dots> < length t" using u by simp
  also have "\<dots> \<le> length s" by (simp add: t(1) length_dropWhile_le)
  finally show "(dropWhile (\<lambda>c. \<not> space c) t, s) \<in> measure length" by simp
qed simp

declare fields.simps [simp del]

definition join_host_port :: "string \<Rightarrow> string \<Rightarrow> string" where
  "join_host_port h p = (if CHR '':'' \<in> set h then ''['' @ h @ '']:'' @ p else h @ '':'' @ p)"

fun resolver_in :: "string list \<Rightarrow> string" where
  "resolver_in [] = []"
| "resolver_in (line # ls) =
     (let f = fields line in
      if length f \<ge> 2 \<and> f ! 0 = ''nameserver''
      then (if CHR 0x25 \<in> set (f ! 1) then resolver_in ls else join_host_port (f ! 1) ''53'')
      else resolver_in ls)"

definition hostResolverAddr :: "string option \<Rightarrow> string" where
  "hostResolverAddr conf = (case conf of None \<Rightarrow> [] | Some b \<Rightarrow> resolver_in (split_on (CHR 0x0A) b))"

text \<open>\<open>relay\<close>: what the server at an address sent back to the query, if anything.\<close>

definition forwardDNS :: "string option \<Rightarrow> (string \<Rightarrow> bytes \<Rightarrow> bytes option) \<Rightarrow> bytes \<Rightarrow> bytes option" where
  "forwardDNS conf relay q = (let server = hostResolverAddr conf in if server = [] then None else relay server q)"

text \<open>The loop over the datagrams of a flow: the responses written, up to a write that fails.\<close>

fun serveDNS :: "(bytes \<Rightarrow> bytes option) \<Rightarrow> (bytes \<Rightarrow> bytes option) \<Rightarrow> (bytes \<times> bool) list \<Rightarrow> (bytes \<times> bytes) list" where
  "serveDNS answer forward [] = []"
| "serveDNS answer forward ((q, write_ok) # qs) =
     (case (case answer q of None \<Rightarrow> forward q | Some r \<Rightarrow> Some r) of
        None \<Rightarrow> serveDNS answer forward qs
      | Some r \<Rightarrow> if write_ok then (q, r) # serveDNS answer forward qs else [])"

text \<open>
  Queries are answered in order, each at most once, from the resolver when that answers, else by the host's: a query the
  resolver answered is never forwarded.
\<close>

lemma serveDNS_sound:
  "(q, r) \<in> set (serveDNS answer forward qs) \<Longrightarrow>
   q \<in> fst ` set qs \<and> (answer q = Some r \<or> (answer q = None \<and> forward q = Some r))"
  by (induction answer forward qs rule: serveDNS.induct) (auto split: option.splits if_splits)

lemma serveDNS_complete:
  "list_all snd qs \<Longrightarrow>
   serveDNS answer forward qs =
   List.map_filter (\<lambda>(q, ok). map_option (Pair q) (case answer q of None \<Rightarrow> forward q | Some r \<Rightarrow> Some r)) qs"
  by (induction answer forward qs rule: serveDNS.induct) (auto simp: List.map_filter_def split: option.splits)

text \<open>Every address answered has the type that was asked for, and none of that type is left out.\<close>

lemma dns_records_exact:
  "ip \<in> set (dns_records is4 qt ips) \<longleftrightarrow> ip \<in> set ips \<and> (qt = Q_A \<and> is4 ip \<or> qt = Q_AAAA \<and> \<not> is4 ip)"
  by (auto simp: dns_records_def)

lemma resolver_conf:
  "hostResolverAddr (Some (''# a'' @ [CHR 0x0A] @ ''nameserver fe80::1'' @ [CHR 0x25] @ ''eth0'' @ [CHR 0x0A] @ ''nameserver  ::1'')) = ''[::1]:53''"
  by code_simp

section \<open>The stack under the gateway\<close>

text \<open>
  \<open>newNATGateway\<close>, \<open>close\<close> and \<open>egressPump\<close>: what is open, and the packets written to the game, in order, up to the
  first write that fails.
\<close>

datatype gw_part = Gw_context | Gw_stack | Gw_endpoint | Gw_pump

definition newNATGateway :: "bool \<Rightarrow> bool \<times> gw_part list" where
  "newNATGateway nic_ok =
     (let opened = [Gw_context, Gw_stack, Gw_endpoint] in
      if \<not> nic_ok then (False, removeAll Gw_context opened) else (True, opened @ [Gw_pump]))"

definition closeNATGateway :: "gw_part list \<Rightarrow> gw_part list" where
  "closeNATGateway parts = removeAll Gw_endpoint (removeAll Gw_stack (removeAll Gw_context parts))"

text \<open>The pump ends by itself once its context or the endpoint is gone.\<close>

definition pump_round :: "gw_part list \<Rightarrow> gw_part list" where
  "pump_round parts = (if Gw_context \<notin> set parts \<or> Gw_endpoint \<notin> set parts then removeAll Gw_pump parts else parts)"

fun egressPump :: "(bytes \<times> bool) list \<Rightarrow> bytes list" where
  "egressPump [] = []"
| "egressPump ((pkt, ok) # ps) = (if ok then pkt # egressPump ps else [])"

lemma egress_in_order: "egressPump ps = map fst (takeWhile snd ps)"
  by (induction ps rule: egressPump.induct) auto

text \<open>The close of a gateway leaves nothing of it; a gateway that could not be made leaves its stack and endpoint open.\<close>

lemma closed_gateway_empty: "pump_round (closeNATGateway (snd (newNATGateway ok))) = []"
  by (cases ok) (simp_all add: newNATGateway_def closeNATGateway_def pump_round_def)

lemma failed_gateway_leaks: "newNATGateway False = (False, [Gw_stack, Gw_endpoint])"
  by (simp add: newNATGateway_def)

end
