(* ===== verification/Health.thy ===== *)
theory Health
  imports Social Faults Overlay "HOL-Library.Sublist" "HOL-Library.Multiset"
begin

text \<open>
  What the node says about itself: the health report (\<open>health.go\<close>), the network test (\<open>nettest.go\<close>) and the
  listing of addresses (\<open>peers.go\<close>). The sentences of a row are reduced to the numbers they show.
\<close>

section \<open>Addresses\<close>

definition contains :: "string \<Rightarrow> string \<Rightarrow> bool" where
  "contains s sub = sublist sub s"

definition private_prefixes :: "string list" where
  "private_prefixes = [''/ip4/10.'', ''/ip4/127.'', ''/ip4/172.1'', ''/ip4/172.2'', ''/ip4/172.3'',
     ''/ip4/192.168.'', ''/ip6/::1'', ''/ip6/fc'', ''/ip6/fd'', ''/ip6/fe80'']"

definition isPublicish :: "string \<Rightarrow> bool" where
  "isPublicish a \<longleftrightarrow> \<not> list_ex (\<lambda>p. prefix p a) private_prefixes"

definition isLoopbackAddr :: "string \<Rightarrow> bool" where
  "isLoopbackAddr s \<longleftrightarrow> 12 \<le> length s \<and> (take 12 s = ''/ip4/127.0.0'' \<or> take 8 s = ''/ip6/::1'')"

text \<open>\<open>host\<close>: the identity of the node and its addresses, if it is online.\<close>

definition listenAddrs :: "(string \<times> string list) option \<Rightarrow> string list" where
  "listenAddrs host = (case host of None \<Rightarrow> []
     | Some (pid, addrs) \<Rightarrow> map (\<lambda>s. s @ ''/p2p/'' @ pid) (filter (\<lambda>s. \<not> isLoopbackAddr s) addrs))"

text \<open>The counts of direct public and of relayed addresses.\<close>

definition direct_count :: "string list \<Rightarrow> nat" where
  "direct_count as = length (filter (\<lambda>a. \<not> contains a ''/p2p-circuit'' \<and> isPublicish a) as)"

definition relayed_count :: "string list \<Rightarrow> nat" where
  "relayed_count as = length (filter (\<lambda>a. contains a ''/p2p-circuit'') as)"

section \<open>The health report\<close>

datatype health = H_ok | H_warn | H_down | H_off

type_synonym health_row = "string \<times> health \<times> int list"

datatype dns_verdict = Never_probed | Resolving nat | Probe_failed string | Probe_incomplete

text \<open>What the report reads of a node; \<open>None\<close> is a service that is not there.\<close>

record 'p health_view =
  hv_online :: bool
  hv_host :: "(nat \<times> string list) option" \<comment> \<open>peers, addresses\<close>
  hv_dht :: "nat option"
  hv_exchange :: bool
  hv_serveFails :: "failureLog option"
  hv_provider :: bool
  hv_seed :: "bool \<times> nat"
  hv_mdns :: bool
  hv_friend :: bool
  hv_social :: "'p contact list option"
  hv_linkm :: "link_state list option"
  hv_overlay :: "(bool \<times> nat \<times> bool \<times> bool) option" \<comment> \<open>\<open>healthSnapshot\<close>: running, routes, gateway, reflector\<close>

definition reachability :: "string list \<Rightarrow> health_row" where
  "reachability as =
     (''Reachability'', if 0 < direct_count as then (H_ok, [int (direct_count as)]) else (H_warn, []))"

definition dht_row :: "nat option \<Rightarrow> health_row" where
  "dht_row d = (''DHT'', case d of None \<Rightarrow> (H_down, []) | Some sz \<Rightarrow> if sz = 0 then (H_warn, []) else (H_ok, [int sz]))"

definition transfer_rows :: "bool \<Rightarrow> failureLog option \<Rightarrow> health_row list" where
  "transfer_rows exch sf =
     [(''Transfers (bitswap)'', if exch then (H_ok, []) else (H_down, []))] @
     (case sf of None \<Rightarrow> []
      | Some f \<Rightarrow> [(''Deliverability'', if 0 < failure_count f then (H_warn, [int (failure_count f)]) else (H_ok, []))])"

definition friends_row :: "bool \<Rightarrow> 'p contact list option \<Rightarrow> health_row" where
  "friends_row svc social =
     (''Friends'', case social of None \<Rightarrow> (H_down, []) | Some cs \<Rightarrow>
        if \<not> svc then (H_down, [])
        else (H_ok, [int (length (filter (\<lambda>c. ct_state c = stAccepted) cs)),
                     int (length (filter (\<lambda>c. ct_state c = stAccepted \<and> ct_online c) cs))]))"

definition links_row :: "link_state list option \<Rightarrow> health_row" where
  "links_row m =
     (''Virtual LAN links'', case m of None \<Rightarrow> (H_down, []) | Some ls \<Rightarrow>
        (H_ok, int (length ls) # map (\<lambda>k. int (count_list ls k)) [linkDirect, linkRelayed, linkConnecting, linkDown]))"

definition overlay_rows :: "(bool \<times> nat \<times> bool \<times> bool) option \<Rightarrow> health_row list" where
  "overlay_rows ov = (case ov of
     None \<Rightarrow> [(''Overlay datapath'', H_down, [])]
   | Some (running, routes, gw, relay) \<Rightarrow>
       [(''Overlay datapath'', H_ok, [int routes]),
        (''Internet gateway'', if running \<and> gw then H_ok else H_off, []),
        (''Broadcast reflector'', if running \<and> relay then H_ok else H_off, [])])"

definition dns_row :: "dns_verdict \<Rightarrow> health_row" where
  "dns_row v = (''DNS-over-HTTPS'', case v of
     Never_probed \<Rightarrow> (H_ok, []) | Resolving ms \<Rightarrow> (H_ok, [int ms]) | Probe_failed e \<Rightarrow> (H_warn, []) | Probe_incomplete \<Rightarrow> (H_warn, []))"

definition panic_row :: "panics \<Rightarrow> health_row" where
  "panic_row pa = (''Panic guard'',
     let (total, last, when) = panicStats pa in if 0 < total then (H_warn, [total, when]) else (H_ok, []))"

definition service_rows :: "nat \<Rightarrow> string list \<Rightarrow> dns_verdict \<Rightarrow> 'p health_view \<Rightarrow> health_row list" where
  "service_rows peers addrs v n =
     [(''Network'', if peers = 0 then H_warn else H_ok, [int peers, int (length addrs)]), reachability addrs, dht_row (hv_dht n)] @
     transfer_rows (hv_exchange n) (hv_serveFails n) @
     [(''Content announce'', if hv_provider n then (H_ok, [int (snd (hv_seed n))]) else (H_down, [])),
      (''LAN discovery (mDNS)'', if hv_mdns n then (H_ok, []) else (H_warn, [])),
      friends_row (hv_friend n) (hv_social n), links_row (hv_linkm n)] @
     overlay_rows (hv_overlay n) @ [dns_row v]"

definition healthReport :: "panics \<Rightarrow> dns_verdict \<Rightarrow> 'p health_view option \<Rightarrow> health_row list" where
  "healthReport pa v node = panic_row pa # (case node of
     None \<Rightarrow> [(''Node'', H_down, [])]
   | Some n \<Rightarrow> (''Node'', H_ok, []) # (case hv_host n of
       None \<Rightarrow> [(''Network'', H_down, [])]
     | Some (peers, addrs) \<Rightarrow> if hv_online n then service_rows peers addrs v n else [(''Network'', H_down, [])]))"

text \<open>The rs that a service which is not there leaves at \<open>down\<close>.\<close>

definition absent_services :: "'p health_view \<Rightarrow> string list" where
  "absent_services n =
     (if hv_dht n = None then [''DHT''] else []) @ (if hv_exchange n then [] else [''Transfers (bitswap)'']) @
     (if hv_provider n then [] else [''Content announce'']) @
     (if \<not> hv_friend n \<or> hv_social n = None then [''Friends''] else []) @
     (if hv_linkm n = None then [''Virtual LAN links''] else []) @
     (if hv_overlay n = None then [''Overlay datapath''] else [])"

definition down_rows :: "health_row list \<Rightarrow> string list" where
  "down_rows rs = map fst (filter (\<lambda>(nm, st, ns). st = H_down) rs)"

lemma down_rows_simps [simp]:
  "down_rows [] = []" "down_rows ((nm, st, ns) # rs) = (if st = H_down then nm # down_rows rs else down_rows rs)"
  "down_rows (xs @ ys) = down_rows xs @ down_rows ys"
  by (auto simp: down_rows_def)

lemma row_down:
  "down_rows (reachability as # rs) = down_rows rs" "down_rows (dns_row v # rs) = down_rows rs"
  "down_rows (dht_row d # rs) = (if d = None then [''DHT''] else []) @ down_rows rs"
  "down_rows (transfer_rows e sf) = (if e then [] else [''Transfers (bitswap)''])"
  "down_rows (friends_row f so # rs) = (if \<not> f \<or> so = None then [''Friends''] else []) @ down_rows rs"
  "down_rows (links_row m # rs) = (if m = None then [''Virtual LAN links''] else []) @ down_rows rs"
  "down_rows (overlay_rows ov) = (if ov = None then [''Overlay datapath''] else [])"
  "down_rows (panic_row pa # rs) = down_rows rs"
  by (auto simp: reachability_def dht_row_def transfer_rows_def friends_row_def links_row_def overlay_rows_def dns_row_def
      panic_row_def Let_def split: option.splits dns_verdict.splits prod.splits)

lemma service_rows_down: "down_rows (service_rows peers addrs v n) = absent_services n"
  unfolding service_rows_def absent_services_def by (simp add: row_down)

text \<open>
  The report names as down exactly what is not there: the node when there is none, the network when it is
  offline, and otherwise, in this order, the DHT, the transfers, the announcements, the friends, the links and the
  datapath of the virtual LAN that are missing, and nothing else; every report starts with the panics that were
  recovered, and warns of them.
\<close>

theorem health_names_the_dead:
  "down_rows (healthReport pa v node) =
     (case node of None \<Rightarrow> [''Node'']
      | Some n \<Rightarrow> if hv_online n \<and> hv_host n \<noteq> None then absent_services n else [''Network'']) \<and>
   (\<exists>rs. healthReport pa v node = panic_row pa # rs) \<and> (fst (snd (panic_row pa)) = H_warn \<longleftrightarrow> 0 < pa_count pa)"
  by (auto simp: healthReport_def row_down service_rows_down panic_row_def panicStats_def split: option.splits prod.splits)

text \<open>
  \<open>healthSnapshot\<close>, on the state of \<open>Overlay\<close>. A packet loop that dies while its link is attached (its game still
  runs) leaves the report that of a node waiting for a game.
\<close>

definition healthSnapshot :: "nat \<Rightarrow> tun_sys \<Rightarrow> bool \<times> nat \<times> bool \<times> bool" where
  "healthSnapshot routes s = (tn_running s, routes, tn_gw s \<noteq> None, tn_relay s \<noteq> None)"

lemma dead_pump_looks_ready:
  "tn_link s = Some l \<Longrightarrow>
   overlay_rows (Some (healthSnapshot r (readLoop_exit l (s\<lparr>tn_running := True\<rparr>)))) =
   overlay_rows (Some (healthSnapshot r (tun_detach s)))"
  by (simp add: healthSnapshot_def readLoop_exit_def tun_detach_def overlay_rows_def)

section \<open>The probe of the resolver\<close>

record doh_probe =
  dp_last :: "nanos option"
  dp_running :: bool
  dp_verdict :: dns_verdict

text \<open>A report kicks the probe: whether one is started.\<close>

definition kickDoHProbe :: "nanos \<Rightarrow> doh_probe \<Rightarrow> bool \<times> doh_probe" where
  "kickDoHProbe now p =
     (if dp_running p \<or> (case dp_last p of None \<Rightarrow> False | Some l \<Rightarrow> now - l < minutes 1) then (False, p)
      else (True, p\<lparr>dp_running := True\<rparr>))"

text \<open>The end of a probe: the lookup's time or error, or a panic that was recovered.\<close>

datatype probe_end = Looked_up nat | Lookup_error string | Probe_panic

definition probe_ends :: "nanos \<Rightarrow> probe_end \<Rightarrow> doh_probe \<Rightarrow> doh_probe" where
  "probe_ends now e p =
     p\<lparr>dp_verdict := (case e of Looked_up ms \<Rightarrow> Resolving ms | Lookup_error x \<Rightarrow> Probe_failed x | Probe_panic \<Rightarrow> Probe_incomplete),
       dp_last := Some now, dp_running := False\<rparr>"

record probe_sys =
  ps_now :: nanos
  ps_probe :: doh_probe
  ps_alive :: nat
  ps_starts :: "nanos list"

inductive probe_step :: "probe_sys \<Rightarrow> probe_sys \<Rightarrow> bool" where
  pb_tick: "0 \<le> x \<Longrightarrow> probe_step s (s\<lparr>ps_now := ps_now s + x\<rparr>)"
| pb_refused: "kickDoHProbe (ps_now s) (ps_probe s) = (False, p) \<Longrightarrow> probe_step s (s\<lparr>ps_probe := p\<rparr>)"
| pb_started: "kickDoHProbe (ps_now s) (ps_probe s) = (True, p) \<Longrightarrow>
    probe_step s (s\<lparr>ps_probe := p, ps_alive := ps_alive s + 1, ps_starts := ps_now s # ps_starts s\<rparr>)"
| pb_ended: "0 < ps_alive s \<Longrightarrow>
    probe_step s (s\<lparr>ps_probe := probe_ends (ps_now s) e (ps_probe s), ps_alive := ps_alive s - 1\<rparr>)"

definition probe_init :: "probe_sys \<Rightarrow> bool" where
  "probe_init s \<longleftrightarrow> ps_probe s = \<lparr>dp_last = None, dp_running = False, dp_verdict = Never_probed\<rparr> \<and> ps_alive s = 0 \<and> ps_starts s = []"

text \<open>Starts, the latest first, a minute or more apart.\<close>

definition spaced :: "nanos list \<Rightarrow> bool" where
  "spaced ts = sorted_wrt (\<lambda>a b. b + minutes 1 \<le> a) ts"

definition probe_inv :: "probe_sys \<Rightarrow> bool" where
  "probe_inv s \<longleftrightarrow> ps_alive s = (if dp_running (ps_probe s) then 1 else 0) \<and> spaced (ps_starts s) \<and>
     (\<forall>t \<in> set (ps_starts s). t \<le> ps_now s) \<and>
     (case dp_last (ps_probe s) of
        None \<Rightarrow> ps_starts s = [] \<or> dp_running (ps_probe s) \<and> length (ps_starts s) = 1
      | Some l \<Rightarrow> l \<le> ps_now s \<and> (dp_running (ps_probe s) \<or> (\<forall>t \<in> set (ps_starts s). t \<le> l)))"

lemma probe_inv_start:
  assumes "probe_inv s" "kickDoHProbe (ps_now s) (ps_probe s) = (True, p)"
  shows "probe_inv (s\<lparr>ps_probe := p, ps_alive := ps_alive s + 1, ps_starts := ps_now s # ps_starts s\<rparr>)"
proof -
  have idle: "\<not> dp_running (ps_probe s)" and p: "p = (ps_probe s)\<lparr>dp_running := True\<rparr>"
    and old: "\<And>l. dp_last (ps_probe s) = Some l \<Longrightarrow> l + minutes 1 \<le> ps_now s"
    using assms(2) by (auto simp: kickDoHProbe_def split: if_splits option.splits)
  have "t + minutes 1 \<le> ps_now s" if "t \<in> set (ps_starts s)" for t
    using assms(1) idle that old by (cases "dp_last (ps_probe s)") (force simp: probe_inv_def)+
  then show ?thesis
    using assms(1) idle by (auto simp: probe_inv_def p spaced_def split: option.splits)
qed

lemma probe_inv_step: "probe_inv s \<Longrightarrow> probe_step s t \<Longrightarrow> probe_inv t"
proof (erule probe_step.cases, goal_cases)
  case (1 x s') then show ?case by (auto simp: probe_inv_def split: option.splits; force)
next
  case (2 s' p) then show ?case by (auto simp: kickDoHProbe_def split: if_splits)
next
  case (3 s' p) then show ?case using probe_inv_start by simp
next
  case (4 s' e) then show ?case by (auto simp: probe_inv_def probe_ends_def split: if_splits option.splits)
qed

interpretation probe: step_invariant probe_init probe_step probe_inv
  by unfold_locales (simp add: probe_init_def probe_inv_def spaced_def, fact probe_inv_step)

text \<open>
  However often the report is asked for, the resolver is probed by one goroutine at a time and at most once a
  minute; and the row is never frozen: while a probe is marked as running its goroutine lives, and however it ends, by
  an answer, an error or a panic, the mark is gone and the verdict is new.
\<close>

theorem probe_rate_and_liveness:
  assumes "reachable probe_init probe_step s"
  shows "ps_alive s \<le> 1 \<and> sorted_wrt (\<lambda>a b. b + minutes 1 \<le> a) (ps_starts s) \<and>
    (if dp_running (ps_probe s)
     then ps_alive s = 1 \<and> (\<exists>t. probe_step s t \<and> \<not> dp_running (ps_probe t) \<and> dp_verdict (ps_probe t) = Probe_incomplete)
     else ps_alive s = 0)"
proof -
  have inv: "probe_inv s" by (rule probe.reachable_inv[OF assms])
  have "\<exists>t. probe_step s t \<and> \<not> dp_running (ps_probe t) \<and> dp_verdict (ps_probe t) = Probe_incomplete" if "0 < ps_alive s"
    using pb_ended[OF that, of Probe_panic] by (intro exI conjI) (assumption, simp_all add: probe_ends_def)
  with inv show ?thesis by (auto simp: probe_inv_def spaced_def)
qed

definition probe_ex :: probe_sys where
  "probe_ex = \<lparr>ps_now = 7, ps_probe = \<lparr>dp_last = None, dp_running = True, dp_verdict = Never_probed\<rparr>, ps_alive = 1, ps_starts = [7]\<rparr>"

theorem probe_rate_and_liveness_witness: "ps_alive probe_ex \<le> 1 \<and> (\<exists>t. probe_step probe_ex t \<and> \<not> dp_running (ps_probe t))"
proof -
  let ?s = "\<lparr>ps_now = 7, ps_probe = \<lparr>dp_last = None, dp_running = False, dp_verdict = Never_probed\<rparr>, ps_alive = 0, ps_starts = []\<rparr>"
  have r: "reachable probe_init probe_step ?s" by (rule reach_init) (simp add: probe_init_def)
  have t: "probe_step ?s probe_ex"
    using pb_started[of ?s "\<lparr>dp_last = None, dp_running = True, dp_verdict = Never_probed\<rparr>"]
    by (simp add: kickDoHProbe_def probe_ex_def)
  have "reachable probe_init probe_step probe_ex" by (rule reach_step) (rule r, rule t)
  from probe_rate_and_liveness[OF this] show ?thesis by (auto simp: probe_ex_def)
qed

section \<open>The network test\<close>

datatype check_status = C_ok | C_warn | C_fail

type_synonym netCheck = "string \<times> check_status \<times> int list"

text \<open>The last part of a chain of errors, after the last colon and space.\<close>

fun last_sep :: "string \<Rightarrow> string option" where
  "last_sep [] = None"
| "last_sep (c # cs) =
     (case last_sep cs of Some r \<Rightarrow> Some r | None \<Rightarrow> if c = CHR '':'' \<and> prefix '' '' cs then Some (tl cs) else None)"

definition rootErr :: "string option \<Rightarrow> string" where
  "rootErr err = (case err of None \<Rightarrow> ''unknown''
     | Some s \<Rightarrow> (case last_sep s of None \<Rightarrow> s | Some r \<Rightarrow> if r = [] then s else r))"

text \<open>A request's error, or its time and status.\<close>

definition checkHTTPS :: "string + nat \<times> nat \<Rightarrow> netCheck" where
  "checkHTTPS r = (''Internet (HTTPS)'', case r of Inl e \<Rightarrow> (C_fail, []) | Inr (ms, code) \<Rightarrow> (C_ok, [int ms, int code]))"

definition checkDoH :: "string option \<Rightarrow> nat \<Rightarrow> nat \<Rightarrow> netCheck" where
  "checkDoH err ips ms = (''DNS over HTTPS'', if err \<noteq> None \<or> ips = 0 then (C_fail, []) else (C_ok, [int ips, int ms]))"

definition checkPeers :: "nat \<Rightarrow> netCheck" where
  "checkPeers peers =
     (''Peer connectivity'', if peers = 0 then (C_fail, []) else (if peers < 5 then C_warn else C_ok, [int peers]))"

text \<open>The connections of each poll, by their remote addresses: how many are QUIC, and TCP.\<close>

definition conn_counts :: "string list \<Rightarrow> nat \<times> nat" where
  "conn_counts conns =
     (length (filter (\<lambda>a. contains a ''/quic'') conns),
      length (filter (\<lambda>a. \<not> contains a ''/quic'' \<and> contains a ''/tcp'') conns))"

fun udp_wait :: "nat \<Rightarrow> (nat \<Rightarrow> string list) \<Rightarrow> nat \<Rightarrow> nat \<times> nat" where
  "udp_wait 0 poll i = conn_counts (poll i)"
| "udp_wait (Suc n) poll i =
     (if fst (conn_counts (poll i)) = 0 then udp_wait n poll (Suc i) else conn_counts (poll i))"

definition checkUDP :: "(nat \<Rightarrow> string list) \<Rightarrow> netCheck" where
  "checkUDP poll =
     (let (quic, tcp) = udp_wait 32 poll 0 in
      (''UDP / QUIC'', if 0 < quic then (C_ok, [int quic, int tcp]) else if 0 < tcp then (C_fail, [int tcp]) else (C_warn, [])))"

definition checkInbound :: "string list \<Rightarrow> netCheck" where
  "checkInbound as =
     (''Inbound reachability'', if 0 < direct_count as then (C_ok, [int (direct_count as)]) else (C_warn, []))"

text \<open>The browse's error, and the instances heard; one's own answer is not another's.\<close>

definition heard_others :: "string \<Rightarrow> string list \<Rightarrow> string list" where
  "heard_others self heard = filter (\<lambda>i. \<not> contains self i \<and> \<not> contains i (drop (length self - 8) self)) heard"

definition checkMDNS :: "string \<Rightarrow> string option \<Rightarrow> string list \<Rightarrow> netCheck" where
  "checkMDNS self err answers =
     (let heard = remdups (filter (\<lambda>i. i \<noteq> []) answers) in
      (''LAN discovery (mDNS)'',
       if err \<noteq> None \<and> heard = [] then (C_fail, []) else if heard = [] then (C_warn, [])
       else (C_ok, [int (length heard), int (length (heard_others self heard))])))"

definition checkDHT :: "nat option \<Rightarrow> nat \<Rightarrow> netCheck" where
  "checkDHT providers ms =
     (''DHT lookups'', case providers of None \<Rightarrow> (C_fail, [])
        | Some n \<Rightarrow> if n = 0 then (C_fail, []) else (C_ok, [int (min n 3), int ms]))"

definition checkFriendLinks :: "'p contact list option \<Rightarrow> link_state list option \<Rightarrow> netCheck" where
  "checkFriendLinks social linkm =
     (''Friend links'', case linkm of None \<Rightarrow> (C_warn, [])
        | Some ls \<Rightarrow>
            if ls = [] then
              (let accepted = length (filter (\<lambda>c. ct_state c = stAccepted) (case social of None \<Rightarrow> [] | Some cs \<Rightarrow> cs)) in
               if 0 < accepted then (C_warn, [int accepted]) else (C_ok, []))
            else (if count_list ls linkDirect = length ls then C_ok
                  else if 0 < count_list ls linkDirect + count_list ls linkRelayed then C_warn else C_fail,
                  map int (filter (\<lambda>n. 0 < n) (map (count_list ls) [linkConnecting, linkDirect, linkDown, linkRelayed]))))"

text \<open>The checks run at once; one that panics leaves no row. \<open>results\<close>: those that finished, in the
  order they put their row into the map.\<close>

definition check_order :: "string list" where
  "check_order = [''Internet (HTTPS)'', ''DNS over HTTPS'', ''Peer connectivity'', ''UDP / QUIC'',
     ''Inbound reachability'', ''LAN discovery (mDNS)'', ''DHT lookups'', ''Friend links'']"

definition runNetworkTest :: "netCheck list \<Rightarrow> netCheck list" where
  "runNetworkTest results =
     (let out = map_of (rev results) in
      List.map_filter (\<lambda>k. map_option (Pair k) (out k)) check_order)"

subsection \<open>Properties\<close>

lemma run_network_test_of:
  "distinct (map fst rs) \<Longrightarrow> runNetworkTest rs = List.map_filter (\<lambda>k. map_option (Pair k) (map_of rs k)) check_order"
proof -
  assume d: "distinct (map fst rs)"
  then have "map_of (rev rs) = map_of rs" by (intro map_of_inject_set[THEN iffD2]) (simp_all add: rev_map[symmetric])
  then show "runNetworkTest rs = List.map_filter (\<lambda>k. map_option (Pair k) (map_of rs k)) check_order"
    by (simp add: runNetworkTest_def)
qed

lemma map_filter_pair:
  "set (List.map_filter (\<lambda>k. map_option (Pair k) (f k)) ks) = {(k, v). k \<in> set ks \<and> f k = Some v}"
  "map fst (List.map_filter (\<lambda>k. map_option (Pair k) (f k)) ks) = filter (\<lambda>k. f k \<noteq> None) ks"
  by (induction ks) (auto simp: List.map_filter_simps split: option.splits)

text \<open>
  Whatever order the checks finish in, the test reports each that finished once, as it found it, in the fixed
  order; one that panicked is the only kind left out.
\<close>

theorem network_test_stable:
  assumes "distinct (map fst rs)" "fst ` set rs \<subseteq> set check_order" "mset rs' = mset rs"
  shows "runNetworkTest rs' = runNetworkTest rs \<and> set (runNetworkTest rs) = set rs \<and>
    map fst (runNetworkTest rs) = filter (\<lambda>k. k \<in> fst ` set rs) check_order"
proof -
  have s: "set rs' = set rs" using assms(3) by (metis set_mset_mset)
  have "mset (map fst rs') = mset (map fst rs)" using assms(3) by simp
  then have d: "distinct (map fst rs')" using assms(1) by (metis mset_eq_imp_distinct_iff)
  then have "map_of rs' = map_of rs" using assms(1) s by (metis map_of_inject_set)
  then have same: "runNetworkTest rs' = runNetworkTest rs" using assms(1) d by (simp add: run_network_test_of)
  have "set (runNetworkTest rs) = set rs"
    using assms(1,2) by (force simp: run_network_test_of map_filter_pair map_of_eq_Some_iff)
  moreover have "map fst (runNetworkTest rs) = filter (\<lambda>k. k \<in> fst ` set rs) check_order"
    using assms(1) by (simp add: run_network_test_of map_filter_pair map_of_eq_None_iff)
  ultimately show ?thesis using same by simp
qed

lemma checks_named:
  "map fst [checkHTTPS r, checkDoH e n t, checkPeers k, checkUDP poll, checkInbound as, checkMDNS me x hs, checkDHT d u,
     checkFriendLinks so lm] = check_order"
  by (simp add: check_order_def checkHTTPS_def checkDoH_def checkPeers_def checkUDP_def checkInbound_def checkMDNS_def
      checkDHT_def checkFriendLinks_def Let_def split: prod.split)

theorem network_test_stable_witness:
  "runNetworkTest [checkPeers 3, checkDHT None 0] = runNetworkTest [checkDHT None 0, checkPeers 3]"
  using network_test_stable[of "[checkDHT None 0, checkPeers 3]" "[checkPeers 3, checkDHT None 0]"]
  by (simp add: checkPeers_def checkDHT_def check_order_def)

text \<open>UDP is called blocked only when no poll in the whole wait saw a QUIC connection and the last saw TCP ones.\<close>

lemma udp_wait_zero:
  "fst (udp_wait n poll i) = 0 \<longleftrightarrow> (\<forall>j \<le> n. fst (conn_counts (poll (i + j))) = 0)"
proof (induction n arbitrary: i)
  case (Suc n)
  show ?case using Suc.IH[of "Suc i"] by (simp add: less_Suc_eq_le[symmetric] All_less_Suc2)
qed simp

lemma udp_wait_last: "fst (udp_wait n poll i) = 0 \<Longrightarrow> udp_wait n poll i = conn_counts (poll (i + n))"
proof (induction n arbitrary: i)
  case (Suc n)
  then show ?case using Suc.IH[of "Suc i"] by (simp split: if_splits)
qed simp

lemma udp_blocked_exact:
  "fst (snd (checkUDP poll)) = C_fail \<longleftrightarrow>
   (\<forall>i \<le> 32. fst (conn_counts (poll i)) = 0) \<and> 0 < snd (conn_counts (poll 32))"
  using udp_wait_zero[of 32 poll 0] udp_wait_last[of 32 poll 0]
  by (simp add: checkUDP_def Let_def split: prod.splits) (metis prod.sel less_numeral_extra(3) neq0_conv)

text \<open>The two reports agree on whether others reach the node.\<close>

lemma reachability_agrees: "fst (snd (reachability as)) = H_ok \<longleftrightarrow> fst (snd (checkInbound as)) = C_ok"
  by (simp add: reachability_def checkInbound_def)

text \<open>Friend links fail exactly when there are some and none is up.\<close>

lemma friend_links_fail:
  "fst (snd (checkFriendLinks social linkm)) = C_fail \<longleftrightarrow>
   (\<exists>ls. linkm = Some ls \<and> ls \<noteq> [] \<and> linkDirect \<notin> set ls \<and> linkRelayed \<notin> set ls)"
proof -
  have "0 < count_list ls k \<longleftrightarrow> k \<in> set ls" for ls and k :: link_state by (metis count_list_0_iff neq0_conv)
  moreover have "count_list ls linkDirect = length ls \<Longrightarrow> ls \<noteq> [] \<Longrightarrow> linkDirect \<in> set ls" for ls
    by (metis count_list_0_iff length_0_conv)
  ultimately show ?thesis by (auto simp: checkFriendLinks_def Let_def split: option.splits)
qed

text \<open>
  The private addresses are recognised by the first digits of their text: some that are public are taken for private,
  and link-local and carrier ones for public, so a node that has only these is said to be publicly reachable.
\<close>

lemma public_misjudged:
  "\<not> isPublicish ''/ip4/172.104.7.9/udp/4001'' \<and> isPublicish ''/ip4/169.254.7.9/udp/4001'' \<and>
   fst (snd (reachability [''/ip4/169.254.7.9/udp/4001''])) = H_ok \<and> fst (snd (reachability [''/ip4/172.104.7.9/udp/4001''])) = H_warn"
  by code_simp

lemma listen_addrs_no_loopback:
  "listenAddrs (Some (pid, as)) = map (\<lambda>s. s @ ''/p2p/'' @ pid) bs \<longleftrightarrow> bs = filter (\<lambda>s. \<not> isLoopbackAddr s) as"
  by (auto simp: listenAddrs_def dest!: map_injective simp: inj_def)

end
