(* ===== verification/Uploads.thy ===== *)
theory Uploads
  imports Provide Health
begin

text \<open>
  What bitswap's messages tell the node (\<open>uploadtracer.go\<close>, \<open>wiretrace.go\<close>), the set of announced keys the
  interface counts (\<open>seedannounce.go\<close>), and the callers of dials (\<open>dialtrace.go\<close>).
\<close>

section \<open>Messages\<close>

record 'c want_entry =
  we_cid :: 'c
  we_cancel :: bool
  we_have :: bool

text \<open>The blocks of a message with their lengths, and how many of its presences are HAVE and DONT\_HAVE.\<close>

record 'c bitswap_message =
  bm_wants :: "'c want_entry list"
  bm_blocks :: "('c \<times> nat) list"
  bm_haves :: nat
  bm_donts :: nat

section \<open>Announcing on demand, and the uploads\<close>

text \<open>\<open>up_pinned\<close> is \<open>None\<close> until the pinned roots were first listed.\<close>

record ('c, 'k) up_node =
  up_pinned :: "'c set option"
  up_seen :: "('c \<times> int) list"
  up_done :: "'c set"
  up_prov :: "'k provideState"

definition seedAnnounced :: "'c \<Rightarrow> ('c, 'k) up_node \<Rightarrow> bool" where
  "seedAnnounced c s \<longleftrightarrow> c \<in> up_done s"

definition seedCount :: "('c, 'k) up_node \<Rightarrow> nat" where
  "seedCount s = card (up_done s)"

text \<open>\<open>multihash\<close> gives the key a CID is provided under; the flush that follows the offer is a step of \<open>Provide\<close>.\<close>

definition provide_cids :: "('c \<Rightarrow> 'k) \<Rightarrow> 'c list \<Rightarrow> ('c, 'k) up_node \<Rightarrow> ('c, 'k) up_node" where
  "provide_cids multihash cs s =
     (if cs = [] then s
      else s\<lparr>up_done := up_done s \<union> set cs, up_prov := startProviding (map multihash cs) (up_prov s)\<rparr>)"

definition announce :: "('c \<Rightarrow> 'k) \<Rightarrow> 'c \<Rightarrow> ('c, 'k) up_node \<Rightarrow> ('c, 'k) up_node" where
  "announce multihash c s = provide_cids multihash [c] s"

definition pinned_roots :: "('c, 'k) up_node \<Rightarrow> 'c set" where
  "pinned_roots s = (case up_pinned s of None \<Rightarrow> {} | Some ps \<Rightarrow> ps)"

definition received_want :: "('c \<Rightarrow> 'k) \<Rightarrow> 'c set \<Rightarrow> 'c want_entry \<Rightarrow> ('c, 'k) up_node \<Rightarrow> ('c, 'k) up_node" where
  "received_want multihash ps e s =
     (if we_cancel e \<or> we_cid e \<notin> ps \<or> seedAnnounced (we_cid e) s then s else announce multihash (we_cid e) s)"

definition messageReceived :: "('c \<Rightarrow> 'k) \<Rightarrow> 'c bitswap_message \<Rightarrow> ('c, 'k) up_node \<Rightarrow> ('c, 'k) up_node" where
  "messageReceived multihash m s =
     (if bm_wants m = [] \<or> pinned_roots s = {} then s else fold (received_want multihash (pinned_roots s)) (bm_wants m) s)"

definition messageSent :: "int \<Rightarrow> 'c bitswap_message \<Rightarrow> ('c, 'k) up_node \<Rightarrow> ('c, 'k) up_node" where
  "messageSent now m s =
     (if bm_blocks m = [] \<or> pinned_roots s = {} then s
      else s\<lparr>up_seen := fold (\<lambda>(c, n) seen. if c \<in> pinned_roots s then AList.update c now seen else seen) (bm_blocks m) (up_seen s)\<rparr>)"

text \<open>The listing of the pinned roots ends at the first error; what came before it is the new set.\<close>

definition refreshPinned :: "'c option list \<Rightarrow> ('c, 'k) up_node \<Rightarrow> ('c, 'k) up_node" where
  "refreshPinned keys s = s\<lparr>up_pinned := Some (set (map the (takeWhile (\<lambda>k. k \<noteq> None) keys)))\<rparr>"

definition activeUploads :: "int \<Rightarrow> int \<Rightarrow> ('c, 'k) up_node \<Rightarrow> 'c list \<times> ('c, 'k) up_node" where
  "activeUploads now windowMs s =
     (let fresh = filter (\<lambda>(c, ts). now - windowMs \<le> ts) (up_seen s) in (map fst fresh, s\<lparr>up_seen := fresh\<rparr>))"

subsection \<open>Announcing on demand\<close>

lemma received_want_done:
  "up_done (received_want multihash ps e s) = up_done s \<union> (if we_cancel e \<or> we_cid e \<notin> ps then {} else {we_cid e})"
  by (auto simp: received_want_def announce_def provide_cids_def seedAnnounced_def)

lemma received_want_pinned [simp]: "pinned_roots (received_want multihash ps e s) = pinned_roots s"
  by (simp add: received_want_def announce_def provide_cids_def pinned_roots_def)

lemma received_wants_done:
  "up_done (fold (received_want multihash ps) es s) = up_done s \<union> {we_cid e | e. e \<in> set es \<and> \<not> we_cancel e \<and> we_cid e \<in> ps}"
  by (induction es arbitrary: s) (auto simp: received_want_done)

lemma received_wants_settled:
  "{we_cid e | e. e \<in> set es \<and> \<not> we_cancel e \<and> we_cid e \<in> ps} \<subseteq> up_done s \<Longrightarrow> fold (received_want multihash ps) es s = s"
  by (induction es arbitrary: s) (auto simp: received_want_def seedAnnounced_def)

lemma received_wants_pinned [simp]: "pinned_roots (fold (received_want multihash ps) es s) = pinned_roots s"
  by (induction es arbitrary: s) simp_all

lemma received_want_handed:
  "pv_handed (up_prov (received_want multihash ps e s)) =
   pv_handed (up_prov s) \<union> multihash ` (up_done (received_want multihash ps e s) - up_done s)"
  by (auto simp: received_want_def announce_def provide_cids_def seedAnnounced_def startProviding_def offerProvides_def)

lemma received_wants_handed:
  "pv_handed (up_prov (fold (received_want multihash ps) es s)) =
   pv_handed (up_prov s) \<union> multihash ` (up_done (fold (received_want multihash ps) es s) - up_done s)"
proof (induction es arbitrary: s)
  case (Cons e es)
  let ?t = "received_want multihash ps e s"
  have "up_done s \<subseteq> up_done ?t" "up_done ?t \<subseteq> up_done (fold (received_want multihash ps) es ?t)"
    by (auto simp: received_want_done received_wants_done)
  then show ?case using Cons.IH[of ?t] received_want_handed[of multihash ps e s] by auto
qed simp

text \<open>
  A want for a pinned root that this run never offered hands exactly that root to the provider; cancels, leaves
  and roots offered before hand over nothing, and the same message again changes nothing, so a burst of wants for a
  root offers it once.
\<close>

theorem announced_on_demand:
  "let t = messageReceived multihash m s in
     up_done t = up_done s \<union> {we_cid e | e. e \<in> set (bm_wants m) \<and> \<not> we_cancel e \<and> we_cid e \<in> pinned_roots s} \<and>
     pv_handed (up_prov t) = pv_handed (up_prov s) \<union> multihash ` (up_done t - up_done s) \<and> messageReceived multihash m t = t"
proof -
  define t where "t = messageReceived multihash m s"
  have d: "up_done t = up_done s \<union> {we_cid e | e. e \<in> set (bm_wants m) \<and> \<not> we_cancel e \<and> we_cid e \<in> pinned_roots s}"
    by (auto simp: t_def messageReceived_def received_wants_done)
  have h: "pv_handed (up_prov t) = pv_handed (up_prov s) \<union> multihash ` (up_done t - up_done s)"
    by (simp add: t_def messageReceived_def received_wants_handed)
  have p: "pinned_roots t = pinned_roots s" by (simp add: t_def messageReceived_def)
  have "fold (received_want multihash (pinned_roots s)) (bm_wants m) t = t"
    by (rule received_wants_settled) (auto simp: d)
  then have "messageReceived multihash m t = t" by (simp add: messageReceived_def p)
  with d h show ?thesis by (simp add: Let_def flip: t_def)
qed

text \<open>
  \<open>seedDone\<close> is said to hold the CIDs whose announcement has completed; a key is in it from the moment it is offered,
  while the provider has not even taken it.
\<close>

lemma seed_done_before_announced:
  "seedAnnounced c (announce multihash c s) \<and> has_key (pv_pending (up_prov (announce multihash c s))) (multihash c)"
  by (simp add: announce_def provide_cids_def seedAnnounced_def startProviding_def offerProvides_def put_pending_def)

subsection \<open>The roots being uploaded\<close>

text \<open>\<open>Serve\<close>: a message with these blocks is sent while the roots \<open>ps\<close> are pinned; \<open>Ask\<close>: the interface asks.\<close>

datatype 'c up_event = Serve int "'c bitswap_message" "'c set" | Ask int

definition up_do :: "int \<Rightarrow> 'c up_event \<Rightarrow> ('c, 'k) up_node \<Rightarrow> 'c list \<times> ('c, 'k) up_node" where
  "up_do w e s = (case e of
     Serve now m ps \<Rightarrow> ([], messageSent now m (s\<lparr>up_pinned := Some ps\<rparr>)) | Ask now \<Rightarrow> activeUploads now w s)"

primrec up_time :: "'c up_event \<Rightarrow> int" where
  "up_time (Serve now m ps) = now"
| "up_time (Ask now) = now"

definition served_at :: "'c up_event list \<Rightarrow> 'c \<Rightarrow> int \<Rightarrow> bool" where
  "served_at es c t \<longleftrightarrow> (\<exists>m ps. Serve t m ps \<in> set es \<and> c \<in> fst ` set (bm_blocks m) \<and> c \<in> ps)"

definition up_run :: "int \<Rightarrow> 'c up_event list \<Rightarrow> ('c, 'k) up_node \<Rightarrow> ('c, 'k) up_node" where
  "up_run w es s = fold (\<lambda>e s. snd (up_do w e s)) es s"

lemma fold_seen:
  "map_of (fold (\<lambda>(c, n) seen. if c \<in> ps then AList.update c now seen else seen) bs seen) c =
   (if c \<in> fst ` set bs \<and> c \<in> ps then Some (now :: int) else map_of seen c)"
  by (induction bs arbitrary: seen) (auto simp: update_conv')

lemma fold_seen_distinct:
  "distinct (map fst seen) \<Longrightarrow>
   distinct (map fst (fold (\<lambda>(c, n) seen. if c \<in> ps then AList.update c (now :: int) seen else seen) bs seen))"
  by (induction bs arbitrary: seen) (auto simp: distinct_update)

text \<open>What \<open>up_seen\<close> is after a history: the last serve of each root, if an asking has not found it too old.\<close>

definition seen_inv :: "int \<Rightarrow> 'c up_event list \<Rightarrow> ('c, 'k) up_node \<Rightarrow> bool" where
  "seen_inv w es s \<longleftrightarrow> distinct (map fst (up_seen s)) \<and>
     (\<forall>c t. map_of (up_seen s) c = Some t \<longrightarrow> served_at es c t \<and> (\<forall>u. served_at es c u \<longrightarrow> u \<le> t)) \<and>
     (\<forall>c u. served_at es c u \<longrightarrow> map_of (up_seen s) c \<noteq> None \<or> (\<exists>now. Ask now \<in> set es \<and> u < now - w))"

lemma served_snoc:
  "served_at (es @ [e]) c u \<longleftrightarrow> served_at es c u \<or>
     (\<exists>m ps. e = Serve u m ps \<and> c \<in> fst ` set (bm_blocks m) \<and> c \<in> ps)"
  unfolding served_at_def by (simp add: ex_disj_distrib conj_disj_distribR) blast

lemma seen_invD:
  "seen_inv w es s \<Longrightarrow> map_of (up_seen s) c = Some t \<Longrightarrow> served_at es c t"
  "seen_inv w es s \<Longrightarrow> map_of (up_seen s) c = Some t \<Longrightarrow> served_at es c u \<Longrightarrow> u \<le> t"
  "seen_inv w es s \<Longrightarrow> served_at es c u \<Longrightarrow> map_of (up_seen s) c \<noteq> None \<or> (\<exists>now. Ask now \<in> set es \<and> u < now - w)"
  "seen_inv w es s \<Longrightarrow> distinct (map fst (up_seen s))"
  unfolding seen_inv_def by blast+

lemma messageSent_seen:
  "up_seen (messageSent now m (s\<lparr>up_pinned := Some ps\<rparr>)) =
   fold (\<lambda>(c, n) seen. if c \<in> ps then AList.update c now seen else seen) (bm_blocks m) (up_seen s)"
proof (cases "ps = {}")
  case True
  have "fold (\<lambda>(c, n) seen. if c \<in> {} then AList.update c now seen else seen) bs seen = seen" for bs :: "('a \<times> nat) list" and seen
    by (induction bs arbitrary: seen) auto
  then show ?thesis using True by (simp add: messageSent_def pinned_roots_def)
qed (simp add: messageSent_def pinned_roots_def)

lemma map_of_filter_val:
  "distinct (map fst xs) \<Longrightarrow> map_of (filter (\<lambda>(k, v). P v) xs) k = (case map_of xs k of Some v \<Rightarrow> if P v then Some v else None | None \<Rightarrow> None)"
  by (induction xs) (auto split: option.splits simp: map_of_eq_None_iff image_iff)

lemma activeUploads_seen:
  assumes "distinct (map fst (up_seen s))"
  shows "map_of (up_seen (snd (activeUploads now w s))) c =
      (case map_of (up_seen s) c of Some t \<Rightarrow> if now - w \<le> t then Some t else None | None \<Rightarrow> None)"
    and "distinct (map fst (up_seen (snd (activeUploads now w s))))"
    and "c \<in> set (fst (activeUploads now w s)) \<longleftrightarrow> (\<exists>t. map_of (up_seen s) c = Some t \<and> now - w \<le> t)"
  using assms
  by (simp_all add: activeUploads_def Let_def map_of_filter_val distinct_map_filter image_iff Bex_def del: split_paired_Ex)
    (auto simp: map_of_eq_Some_iff)

lemma seen_inv_serve:
  assumes "seen_inv w es s" "\<And>c u. served_at es c u \<Longrightarrow> u \<le> now"
  shows "seen_inv w (es @ [Serve now m ps]) (snd (up_do w (Serve now m ps) s))"
proof -
  have seen: "map_of (up_seen (snd (up_do w (Serve now m ps) s))) c =
      (if c \<in> fst ` set (bm_blocks m) \<and> c \<in> ps then Some now else map_of (up_seen s) c)" for c
    by (simp add: up_do_def messageSent_seen fold_seen)
  let ?t = "snd (up_do w (Serve now m ps) s)"
  have new: "served_at (es @ [Serve now m ps]) c u \<longleftrightarrow> served_at es c u \<or> u = now \<and> c \<in> fst ` set (bm_blocks m) \<and> c \<in> ps" for c u
    unfolding served_snoc by blast
  have "distinct (map fst (up_seen ?t))"
    using seen_invD(4)[OF assms(1)] by (simp add: up_do_def messageSent_seen fold_seen_distinct)
  moreover have "served_at (es @ [Serve now m ps]) c t \<and> (\<forall>u. served_at (es @ [Serve now m ps]) c u \<longrightarrow> u \<le> t)"
    if "map_of (up_seen ?t) c = Some t" for c t
    using that assms(2) seen_invD(1,2)[OF assms(1), of c] unfolding seen new by (metis option.inject order_refl)
  moreover have "map_of (up_seen ?t) c \<noteq> None \<or> (\<exists>n. Ask n \<in> set (es @ [Serve now m ps]) \<and> u < n - w)"
    if "served_at (es @ [Serve now m ps]) c u" for c u
    using that seen_invD(3)[OF assms(1), of c u] unfolding seen new by auto
  ultimately show ?thesis unfolding seen_inv_def by blast
qed

lemma seen_inv_ask:
  assumes "seen_inv w es s"
  shows "seen_inv w (es @ [Ask now]) (snd (up_do w (Ask now) s))"
proof -
  note d = seen_invD(4)[OF assms]
  let ?t = "snd (activeUploads now w s)"
  have same: "served_at (es @ [Ask now]) c u \<longleftrightarrow> served_at es c u" for c u unfolding served_snoc by simp
  have kept: "map_of (up_seen ?t) c = Some t \<longleftrightarrow> map_of (up_seen s) c = Some t \<and> now - w \<le> t" for c t
    by (auto simp: activeUploads_seen(1)[OF d] split: option.split)
  have "map_of (up_seen ?t) c \<noteq> None \<or> (\<exists>n. Ask n \<in> set (es @ [Ask now]) \<and> u < n - w)"
    if "served_at es c u" for c u
  proof (cases "map_of (up_seen s) c")
    case None
    then show ?thesis using seen_invD(3)[OF assms that] by auto
  next
    case (Some t)
    then have "u \<le> t" using seen_invD(2)[OF assms] that by blast
    then show ?thesis using kept[of c t] Some by (cases "now - w \<le> t") auto
  qed
  moreover have "map_of (up_seen ?t) c = Some t \<Longrightarrow> served_at es c t \<and> (\<forall>u. served_at es c u \<longrightarrow> u \<le> t)" for c t
    using kept seen_invD(1,2)[OF assms] by blast
  ultimately have "seen_inv w (es @ [Ask now]) ?t"
    using activeUploads_seen(2)[OF d] unfolding seen_inv_def same by blast
  then show ?thesis by (simp add: up_do_def)
qed

lemma seen_inv_run:
  assumes "up_seen s = []" "sorted (map up_time es)"
  shows "seen_inv w es (up_run w es s)"
  using assms(2)
proof (induction es rule: rev_induct)
  case Nil
  then show ?case by (simp add: seen_inv_def up_run_def served_at_def assms(1))
next
  case (snoc e es)
  have inv: "seen_inv w es (up_run w es s)" using snoc by (simp add: sorted_append)
  have step: "up_run w (es @ [e]) s = snd (up_do w e (up_run w es s))" by (simp add: up_run_def)
  show ?case
  proof (cases e)
    case (Serve now m ps)
    have "served_at es c u \<Longrightarrow> u \<le> now" for c u
      using snoc.prems Serve by (auto simp: served_at_def sorted_append)
    then show ?thesis using seen_inv_serve[OF inv] step Serve by simp
  next
    case (Ask now)
    then show ?thesis using seen_inv_ask[OF inv] step by simp
  qed
qed

text \<open>
  When the interface asks which seeded items are being uploaded, it gets exactly the roots that were served, while
  pinned, within the window before it asked, whatever was served and asked before; a root served again and again is
  listed once.
\<close>

theorem uploads_exact:
  assumes "up_seen s = []" "sorted (map up_time (es @ [Ask now]))"
  shows "set (fst (activeUploads now w (up_run w es s))) = {c. \<exists>u. served_at es c u \<and> now - w \<le> u} \<and>
    distinct (fst (activeUploads now w (up_run w es s)))"
proof -
  have inv: "seen_inv w es (up_run w es s)" using assms by (intro seen_inv_run) (simp_all add: sorted_append)
  have le: "n \<le> now" if "Ask n \<in> set es" for n using assms(2) that by (auto simp: sorted_append)
  note d = seen_invD(4)[OF inv]
  have "(\<exists>t. map_of (up_seen (up_run w es s)) c = Some t \<and> now - w \<le> t) \<longleftrightarrow> (\<exists>u. served_at es c u \<and> now - w \<le> u)" for c
  proof
    assume "\<exists>u. served_at es c u \<and> now - w \<le> u"
    then obtain u where u: "served_at es c u" "now - w \<le> u" by blast
    have "\<not> (\<exists>n. Ask n \<in> set es \<and> u < n - w)" using le u(2) by fastforce
    then obtain t where t: "map_of (up_seen (up_run w es s)) c = Some t" using seen_invD(3)[OF inv u(1)] by blast
    have "now - w \<le> t" using seen_invD(2)[OF inv t u(1)] u(2) by simp
    with t show "\<exists>t. map_of (up_seen (up_run w es s)) c = Some t \<and> now - w \<le> t" by blast
  qed (use seen_invD(1)[OF inv] in blast)
  then have "set (fst (activeUploads now w (up_run w es s))) = {c. \<exists>u. served_at es c u \<and> now - w \<le> u}"
    using activeUploads_seen(3)[OF d] by blast
  moreover have "distinct (fst (activeUploads now w (up_run w es s)))"
    using d by (simp add: activeUploads_def Let_def distinct_map_filter)
  ultimately show ?thesis by blast
qed

definition serve_ex :: "nat bitswap_message" where
  "serve_ex = \<lparr>bm_wants = [], bm_blocks = [(4, 10), (5, 10), (4, 10)], bm_haves = 0, bm_donts = 0\<rparr>"

definition up_node_ex :: "(nat, nat) up_node" where
  "up_node_ex = \<lparr>up_pinned = None, up_seen = [], up_done = {}, up_prov = fresh_run {} {} False\<rparr>"

theorem uploads_exact_witness:
  "set (fst (activeUploads 9 5 (up_run 5 [Serve 1 serve_ex {4, 5}, Ask 3, Serve 8 serve_ex {4}] up_node_ex))) = {4}"
proof -
  have "set (fst (activeUploads 9 5 (up_run 5 [Serve 1 serve_ex {4, 5}, Ask 3, Serve 8 serve_ex {4}] up_node_ex))) =
      {c. \<exists>u. served_at [Serve 1 serve_ex {4, 5}, Ask 3, Serve 8 serve_ex {4}] c u \<and> 9 - 5 \<le> u}"
    using uploads_exact[of up_node_ex "[Serve 1 serve_ex {4, 5}, Ask 3, Serve 8 serve_ex {4}]" 9 5]
    by (simp add: up_node_ex_def)
  also have "\<dots> = {4}"
    unfolding served_at_def by (intro set_eqI) (auto simp: serve_ex_def intro!: exI[of _ 8])
  finally show ?thesis .
qed

text \<open>An asking with a shorter window forgets what a later one with a longer window would list.\<close>

lemma short_window_forgets:
  "fst (activeUploads 9 100 (snd (activeUploads 9 5 (up_node_ex\<lparr>up_seen := [(4, 1)]\<rparr>)))) = [] \<and>
   fst (activeUploads 9 100 (up_node_ex\<lparr>up_seen := [(4, 1)]\<rparr>)) = [4]"
  by (simp add: activeUploads_def)

section \<open>What the peers said: the wire trace\<close>

record wireCounts =
  wc_sentWantBlock :: int
  wc_sentWantHave :: int
  wc_sentCancel :: int
  wc_recvBlocks :: int
  wc_recvBytes :: int
  wc_recvHave :: int
  wc_recvDontHave :: int
  wc_recvWantlist :: int

definition wc_zero :: wireCounts where
  "wc_zero = \<lparr>wc_sentWantBlock = 0, wc_sentWantHave = 0, wc_sentCancel = 0, wc_recvBlocks = 0, wc_recvBytes = 0,
     wc_recvHave = 0, wc_recvDontHave = 0, wc_recvWantlist = 0\<rparr>"

definition wc_add :: "wireCounts \<Rightarrow> wireCounts \<Rightarrow> wireCounts" where
  "wc_add a b =
     \<lparr>wc_sentWantBlock = wc_sentWantBlock a + wc_sentWantBlock b, wc_sentWantHave = wc_sentWantHave a + wc_sentWantHave b,
      wc_sentCancel = wc_sentCancel a + wc_sentCancel b, wc_recvBlocks = wc_recvBlocks a + wc_recvBlocks b,
      wc_recvBytes = wc_recvBytes a + wc_recvBytes b, wc_recvHave = wc_recvHave a + wc_recvHave b,
      wc_recvDontHave = wc_recvDontHave a + wc_recvDontHave b, wc_recvWantlist = wc_recvWantlist a + wc_recvWantlist b\<rparr>"

definition wc_sub :: "wireCounts \<Rightarrow> wireCounts \<Rightarrow> wireCounts" where
  "wc_sub a b =
     \<lparr>wc_sentWantBlock = wc_sentWantBlock a - wc_sentWantBlock b, wc_sentWantHave = wc_sentWantHave a - wc_sentWantHave b,
      wc_sentCancel = wc_sentCancel a - wc_sentCancel b, wc_recvBlocks = wc_recvBlocks a - wc_recvBlocks b,
      wc_recvBytes = wc_recvBytes a - wc_recvBytes b, wc_recvHave = wc_recvHave a - wc_recvHave b,
      wc_recvDontHave = wc_recvDontHave a - wc_recvDontHave b, wc_recvWantlist = wc_recvWantlist a - wc_recvWantlist b\<rparr>"

record 'p wireStats =
  ws_peers :: "('p \<times> wireCounts) list"
  ws_last :: "('p \<times> wireCounts) list"

definition counts_of :: "('p \<times> wireCounts) list \<Rightarrow> 'p \<Rightarrow> wireCounts" where
  "counts_of m p = (case map_of m p of None \<Rightarrow> wc_zero | Some c \<Rightarrow> c)"

definition count_sent :: "'c want_entry \<Rightarrow> wireCounts \<Rightarrow> wireCounts" where
  "count_sent e c =
     (if we_cancel e then c\<lparr>wc_sentCancel := wc_sentCancel c + 1\<rparr>
      else if we_have e then c\<lparr>wc_sentWantHave := wc_sentWantHave c + 1\<rparr>
      else c\<lparr>wc_sentWantBlock := wc_sentWantBlock c + 1\<rparr>)"

definition wire_sent :: "bool \<Rightarrow> 'p \<Rightarrow> 'c bitswap_message \<Rightarrow> 'p wireStats \<Rightarrow> 'p wireStats" where
  "wire_sent tracing p m w =
     (if \<not> tracing \<or> bm_wants m = [] then w
      else w\<lparr>ws_peers := AList.update p (fold count_sent (bm_wants m) (counts_of (ws_peers w) p)) (ws_peers w)\<rparr>)"

definition wire_received :: "bool \<Rightarrow> 'p \<Rightarrow> 'c bitswap_message \<Rightarrow> 'p wireStats \<Rightarrow> 'p wireStats" where
  "wire_received tracing p m w =
     (if \<not> tracing \<or> bm_blocks m = [] \<and> bm_haves m = 0 \<and> bm_donts m = 0 \<and> bm_wants m = [] then w
      else (let c = counts_of (ws_peers w) p in
        w\<lparr>ws_peers := AList.update p
           (c\<lparr>wc_recvBlocks := wc_recvBlocks c + int (length (bm_blocks m)),
              wc_recvBytes := wc_recvBytes c + int (sum_list (map snd (bm_blocks m))),
              wc_recvHave := wc_recvHave c + int (bm_haves m),
              wc_recvDontHave := wc_recvDontHave c + int (bm_donts m),
              wc_recvWantlist := wc_recvWantlist c + int (length (bm_wants m))\<rparr>) (ws_peers w)\<rparr>))"

text \<open>The lines of a report: the peer, what changed since the last report, and the totals.\<close>

definition report_peer :: "'p wireStats \<Rightarrow> 'p \<Rightarrow> ('p \<times> wireCounts \<times> wireCounts) option" where
  "report_peer w p =
     (let cur = counts_of (ws_peers w) p; prev = counts_of (ws_last w) p in
      if cur = prev then None else Some (p, wc_sub cur prev, cur))"

definition wire_report :: "bool \<Rightarrow> ('p :: linorder) wireStats \<Rightarrow> ('p \<times> wireCounts \<times> wireCounts) list \<times> 'p wireStats" where
  "wire_report tracing w =
     (if \<not> tracing then ([], w)
      else (let lines = List.map_filter (report_peer w) (sort (map fst (ws_peers w))) in
        (lines, w\<lparr>ws_last := fold (\<lambda>(p, d, cur). AList.update p cur) lines (ws_last w)\<rparr>)))"

subsection \<open>The lines add up\<close>

datatype ('p, 'c) wire_event = W_sent 'p "'c bitswap_message" | W_received 'p "'c bitswap_message" | W_report

primrec wire_do :: "('p :: linorder, 'c) wire_event \<Rightarrow> 'p wireStats \<Rightarrow> ('p \<times> wireCounts \<times> wireCounts) list \<times> 'p wireStats" where
  "wire_do (W_sent p m) w = ([], wire_sent True p m w)"
| "wire_do (W_received p m) w = ([], wire_received True p m w)"
| "wire_do W_report w = wire_report True w"

fun wire_run :: "('p :: linorder, 'c) wire_event list \<Rightarrow> 'p wireStats \<Rightarrow> ('p \<times> wireCounts \<times> wireCounts) list \<times> 'p wireStats" where
  "wire_run [] w = ([], w)"
| "wire_run (e # es) w = (let (ls, w1) = wire_do e w; (ls', w2) = wire_run es w1 in (ls @ ls', w2))"

text \<open>What an event adds to the counts of a peer.\<close>

primrec event_counts :: "'p \<Rightarrow> ('p, 'c) wire_event \<Rightarrow> wireCounts" where
  "event_counts q (W_sent p m) = (if q = p then fold count_sent (bm_wants m) wc_zero else wc_zero)"
| "event_counts q (W_received p m) =
     (if q = p then \<lparr>wc_sentWantBlock = 0, wc_sentWantHave = 0, wc_sentCancel = 0, wc_recvBlocks = int (length (bm_blocks m)),
        wc_recvBytes = int (sum_list (map snd (bm_blocks m))), wc_recvHave = int (bm_haves m),
        wc_recvDontHave = int (bm_donts m), wc_recvWantlist = int (length (bm_wants m))\<rparr> else wc_zero)"
| "event_counts q W_report = wc_zero"

definition wc_sum :: "wireCounts list \<Rightarrow> wireCounts" where
  "wc_sum cs = foldr wc_add cs wc_zero"

definition lines_of :: "'p \<Rightarrow> ('p \<times> wireCounts \<times> wireCounts) list \<Rightarrow> wireCounts list" where
  "lines_of p ls = map (fst \<circ> snd) (filter (\<lambda>l. fst l = p) ls)"

lemmas wc_defs = wc_zero_def wc_add_def wc_sub_def

lemma wc_monoid [simp]:
  "wc_add a wc_zero = a" "wc_add wc_zero a = a" "wc_add (wc_add a b) c = wc_add a (wc_add b c)" "wc_add a (wc_sub b a) = b"
  by (simp_all add: wc_defs)

lemma wc_sum_simps [simp]: "wc_sum [] = wc_zero" "wc_sum (c # cs) = wc_add c (wc_sum cs)" "wc_sum (xs @ ys) = wc_add (wc_sum xs) (wc_sum ys)"
  by (simp_all add: wc_sum_def) (induction xs; simp)

lemma lines_of_append [simp]: "lines_of p [] = []" "lines_of p (xs @ ys) = lines_of p xs @ lines_of p ys"
  by (simp_all add: lines_of_def)

lemma count_sent_add: "count_sent e (wc_add a b) = wc_add a (count_sent e b)"
  by (simp add: count_sent_def wc_defs)

lemma fold_count_sent: "fold count_sent es (wc_add a b) = wc_add a (fold count_sent es b)"
  by (induction es arbitrary: b) (simp_all add: count_sent_add)

lemma counts_of_none: "p \<notin> fst ` set m \<Longrightarrow> counts_of m p = wc_zero"
  by (simp add: counts_of_def map_of_eq_None_iff[THEN iffD2])

lemma counts_of_update: "counts_of (AList.update q c m) p = (if p = q then c else counts_of m p)"
  by (simp add: counts_of_def update_conv')

lemma wire_sent_counts:
  "counts_of (ws_peers (wire_sent True q m w)) p = wc_add (counts_of (ws_peers w) p) (event_counts p (W_sent q m))"
  using fold_count_sent[of "bm_wants m" "counts_of (ws_peers w) q" wc_zero]
  by (simp add: wire_sent_def counts_of_update)

lemma wire_received_counts:
  "counts_of (ws_peers (wire_received True q m w)) p = wc_add (counts_of (ws_peers w) p) (event_counts p (W_received q m))"
  by (auto simp: wire_received_def counts_of_update Let_def wc_defs)

text \<open>The state after a run: the counts are the traffic, and what was printed for a peer is its last snapshot.\<close>

definition wire_inv :: "'p \<Rightarrow> wireCounts list \<Rightarrow> wireCounts list \<Rightarrow> 'p wireStats \<Rightarrow> bool" where
  "wire_inv p traffic printed w \<longleftrightarrow>
     distinct (map fst (ws_peers w)) \<and> counts_of (ws_peers w) p = wc_sum traffic \<and> counts_of (ws_last w) p = wc_sum printed \<and>
     (p \<notin> fst ` set (ws_peers w) \<longrightarrow> counts_of (ws_last w) p = wc_zero)"

lemma report_line_iff: "(p, d, cur) \<in> set (List.map_filter (report_peer w) ps) \<longleftrightarrow> p \<in> set ps \<and> report_peer w p = Some (p, d, cur)"
  by (induction ps) (auto simp: List.map_filter_simps report_peer_def Let_def split: option.splits if_splits)

lemma report_keys:
  "fst ` set (List.map_filter (report_peer w) ps) = {p \<in> set ps. counts_of (ws_peers w) p \<noteq> counts_of (ws_last w) p}"
  by (induction ps) (auto simp: List.map_filter_simps report_peer_def Let_def)

lemma lines_of_report:
  "distinct ps \<Longrightarrow> lines_of p (List.map_filter (report_peer w) ps) =
     (if p \<in> set ps \<and> counts_of (ws_peers w) p \<noteq> counts_of (ws_last w) p
      then [wc_sub (counts_of (ws_peers w) p) (counts_of (ws_last w) p)] else [])"
  by (induction ps) (auto simp: List.map_filter_simps report_peer_def Let_def lines_of_def)

lemma fold_last:
  "\<forall>(q, d, cur) \<in> set ls. cur = f q \<Longrightarrow>
   counts_of (fold (\<lambda>(p, d, cur). AList.update p cur) ls m) p = (if p \<in> fst ` set ls then f p else counts_of m p)"
  by (induction ls arbitrary: m) (auto simp: counts_of_update)

lemma report_counts:
  assumes "distinct (map fst (ws_peers w))" "p \<notin> fst ` set (ws_peers w) \<longrightarrow> counts_of (ws_last w) p = wc_zero"
    "wire_report True w = (ls, w')"
  shows "ws_peers w' = ws_peers w" "counts_of (ws_last w') p = counts_of (ws_peers w) p"
    "wc_add (counts_of (ws_last w) p) (wc_sum (lines_of p ls)) = counts_of (ws_peers w) p"
proof -
  let ?ps = "sort (map fst (ws_peers w))"
  have ls: "ls = List.map_filter (report_peer w) ?ps"
    and w': "w' = w\<lparr>ws_last := fold (\<lambda>(p, d, cur). AList.update p cur) ls (ws_last w)\<rparr>"
    using assms(3) by (auto simp: wire_report_def Let_def)
  have none: "p \<notin> set ?ps \<Longrightarrow> counts_of (ws_peers w) p = counts_of (ws_last w) p"
    using assms(2) by (simp add: counts_of_none)
  have "\<forall>(q, d, cur) \<in> set ls. cur = counts_of (ws_peers w) q"
    unfolding ls by (auto simp: report_line_iff report_peer_def Let_def split: if_splits)
  from fold_last[OF this, of "ws_last w" p]
  have "counts_of (ws_last w') p = (if p \<in> fst ` set ls then counts_of (ws_peers w) p else counts_of (ws_last w) p)"
    by (simp add: w')
  moreover have "p \<in> fst ` set ls \<longleftrightarrow> p \<in> set ?ps \<and> counts_of (ws_peers w) p \<noteq> counts_of (ws_last w) p"
    unfolding ls report_keys by simp
  ultimately show "counts_of (ws_last w') p = counts_of (ws_peers w) p" using none by auto
  show "ws_peers w' = ws_peers w" by (simp add: w')
  show "wc_add (counts_of (ws_last w) p) (wc_sum (lines_of p ls)) = counts_of (ws_peers w) p"
    using none assms(1) unfolding ls by (auto simp: lines_of_report)
qed

lemma wire_run_snoc:
  "wire_run (es @ [e]) w = (case wire_run es w of (ls, w1) \<Rightarrow> (case wire_do e w1 of (ls', w2) \<Rightarrow> (ls @ ls', w2)))"
  by (induction es arbitrary: w) (simp_all split: prod.splits)

lemma wire_inv_do:
  assumes "wire_inv p traffic (lines_of p ls) w" "wire_do e w = (ls', w')"
  shows "wire_inv p (traffic @ [event_counts p e]) (lines_of p (ls @ ls')) w'"
proof -
  have d: "distinct (map fst (ws_peers w))" and z: "p \<notin> fst ` set (ws_peers w) \<longrightarrow> counts_of (ws_last w) p = wc_zero"
    using assms(1) unfolding wire_inv_def by blast+
  have upd: "distinct (map fst (ws_peers (wire_sent True q m w)))" "distinct (map fst (ws_peers (wire_received True q m w)))"
    "fst ` set (ws_peers w) \<subseteq> fst ` set (ws_peers (wire_sent True q m w))"
    "fst ` set (ws_peers w) \<subseteq> fst ` set (ws_peers (wire_received True q m w))"
    "ws_last (wire_sent True q m w) = ws_last w" "ws_last (wire_received True q m w) = ws_last w" for q and m :: "'b bitswap_message"
    using d by (auto simp: wire_sent_def wire_received_def Let_def distinct_update dom_update)
  show ?thesis
  proof (cases e)
    case (W_sent q m)
    then show ?thesis using assms upd[of q m] wire_sent_counts[of q m w p] by (auto simp: wire_inv_def simp del: event_counts.simps)
  next
    case (W_received q m)
    then show ?thesis using assms upd[of q m] wire_received_counts[of q m w p] by (auto simp: wire_inv_def simp del: event_counts.simps)
  next
    case W_report
    with assms(2) have "wire_report True w = (ls', w')" by simp
    note r = report_counts[OF d z this]
    show ?thesis using assms(1) r by (auto simp: wire_inv_def W_report counts_of_none)
  qed
qed

lemma wire_inv_run:
  "wire_run es \<lparr>ws_peers = [], ws_last = []\<rparr> = (ls, w) \<Longrightarrow> wire_inv p (map (event_counts p) es) (lines_of p ls) w"
proof (induction es arbitrary: ls w rule: rev_induct)
  case Nil
  then show ?case by (auto simp: wire_inv_def counts_of_def)
next
  case (snoc e es)
  obtain ls1 w1 ls2 where r: "wire_run es \<lparr>ws_peers = [], ws_last = []\<rparr> = (ls1, w1)" "wire_do e w1 = (ls2, w)" "ls = ls1 @ ls2"
    using snoc.prems by (auto simp: wire_run_snoc split: prod.splits)
  show ?case using wire_inv_do[OF snoc.IH[OF r(1)] r(2)] r(3) by simp
qed

text \<open>
  The trace accounts for all traffic: whenever it has just been printed, the changes printed for a peer since the
  start add up, counter by counter, to what was sent to it and received from it, whatever order the messages and the
  reports came in; and a report with nothing new prints nothing.
\<close>

theorem wire_lines_add_up:
  "case wire_run (es @ [W_report]) \<lparr>ws_peers = [], ws_last = []\<rparr> of (ls, w) \<Rightarrow>
     wc_sum (lines_of p ls) = wc_sum (map (event_counts p) es) \<and> fst (wire_report True w) = []"
proof -
  obtain ls w ls1 w1 where r: "wire_run es \<lparr>ws_peers = [], ws_last = []\<rparr> = (ls1, w1)"
    "wire_run (es @ [W_report]) \<lparr>ws_peers = [], ws_last = []\<rparr> = (ls, w)"
    by fastforce
  have rep: "wire_report True w1 = (drop (length ls1) ls, w)"
    using r by (auto simp: wire_run_snoc split: prod.splits)
  have same: "counts_of (ws_last w) q = counts_of (ws_peers w) q" for q
  proof -
    have inv: "wire_inv q (map (event_counts q) es) (lines_of q ls1) w1" by (rule wire_inv_run[OF r(1)])
    then have d: "distinct (map fst (ws_peers w1))" and z: "q \<notin> fst ` set (ws_peers w1) \<longrightarrow> counts_of (ws_last w1) q = wc_zero"
      unfolding wire_inv_def by blast+
    show ?thesis using report_counts(1,2)[OF d z rep] by simp
  qed
  have "wire_inv p (map (event_counts p) (es @ [W_report])) (lines_of p ls) w" by (rule wire_inv_run[OF r(2)])
  then have "wc_sum (lines_of p ls) = wc_sum (map (event_counts p) es)" using same[of p] by (auto simp: wire_inv_def)
  moreover have "List.map_filter (report_peer w) ps = []" for ps
    by (induction ps) (simp_all add: List.map_filter_simps report_peer_def same)
  ultimately show ?thesis by (simp add: r(2) wire_report_def)
qed

section \<open>Who dials\<close>

definition dialPlumbing :: "string list" where
  "dialPlumbing = [''/dialtrace.go'', ''/netgate.go'', ''/p2p/net/swarm/'', ''/p2p/host/basic/'', ''/p2p/host/routed/'',
     ''/p2p/host/blank/'', ''/runtime/'', ''/core/network/'', ''/core/host/'', ''/p2p/net/connmgr/'', ''/p2p/protocol/identify/'']"

definition dhtQueryPlumbing :: "string list" where
  "dhtQueryPlumbing = [''/query.go'', ''/lookup.go'', ''/lookup_optim.go'', ''/dht.go'', ''/routing.go'', ''/handlers.go'',
     ''/internal/net/'', ''/qpeerset/'', ''/netsize/'']"

definition plumbing :: "string \<Rightarrow> bool" where
  "plumbing file \<longleftrightarrow> list_ex (contains file) dialPlumbing"

definition inKadQuery :: "string \<Rightarrow> bool" where
  "inKadQuery file \<longleftrightarrow> contains file ''go-libp2p-kad-dht@'' \<and> list_ex (contains file) dhtQueryPlumbing"

definition shortFn :: "string \<Rightarrow> string" where
  "shortFn fn = rev (takeWhile (\<lambda>c. c \<noteq> CHR ''/'') (rev fn))"

text \<open>The frames of the stack, file and function, innermost first; \<open>first\<close> is the first of the DHT's query engine.\<close>

fun dialCaller :: "string \<Rightarrow> (string \<times> string) list \<Rightarrow> string" where
  "dialCaller first [] = (if first \<noteq> [] then ''dht<-(query goroutine)'' else ''?'')"
| "dialCaller first ((file, fn) # fs) =
     (if plumbing file then dialCaller first fs
      else if inKadQuery file
      then dialCaller (if first = [] then fn else first) fs
      else if first \<noteq> [] then ''dht<-'' @ shortFn fn else shortFn fn)"

definition note_dial :: "(string \<times> string) list \<Rightarrow> (string \<times> nat) list \<Rightarrow> (string \<times> nat) list" where
  "note_dial frames m =
     (let c = dialCaller [] frames in AList.update c (case map_of m c of None \<Rightarrow> 1 | Some k \<Rightarrow> k + 1) m)"

text \<open>What is printed, and the tally after; callers of equal counts come in any order.\<close>

definition drain_dials :: "(string \<times> nat) list \<Rightarrow> (string \<times> nat) list \<times> (string \<times> nat) list" where
  "drain_dials m = (take 8 (rev (sort_key snd m)), [])"

text \<open>A dial is laid to the first frame that is neither plumbing nor the DHT's query engine.\<close>

lemma dial_caller_exact:
  assumes "\<forall>f \<in> set pre. plumbing (fst f) \<or> inKadQuery (fst f)" "\<not> plumbing file" "\<not> inKadQuery file"
  shows "dialCaller first (pre @ (file, fn) # post) \<in> {shortFn fn, ''dht<-'' @ shortFn fn}"
  using assms(1)
proof (induction pre arbitrary: first)
  case Nil
  show ?case using assms(2,3) by simp
next
  case (Cons f pre)
  obtain x y where f: "f = (x, y)" by (rule prod.exhaust)
  define g where "g = (if plumbing x \<or> first \<noteq> [] then first else y)"
  have "dialCaller first ((f # pre) @ (file, fn) # post) = dialCaller g (pre @ (file, fn) # post)"
    using Cons.prems by (auto simp: f g_def)
  moreover have "dialCaller g (pre @ (file, fn) # post) \<in> {shortFn fn, ''dht<-'' @ shortFn fn}"
    by (rule Cons.IH) (use Cons.prems in simp)
  ultimately show ?case by (simp only:)
qed

lemma take_largest:
  assumes "sorted_wrt R r" "a \<in> set (take k r)" "b \<in> set r" "b \<notin> set (take k r)"
  shows "R a b"
proof -
  have "sorted_wrt R (take k r @ drop k r)" using assms(1) by simp
  moreover have "b \<in> set (drop k r)" using assms(3,4) by (metis Un_iff append_take_drop_id set_append)
  ultimately show ?thesis using assms(2) unfolding sorted_wrt_append by blast
qed

lemma drain_largest:
  assumes "a \<in> set (fst (drain_dials m))" "b \<in> set m" "b \<notin> set (fst (drain_dials m))"
  shows "snd b \<le> snd a"
proof -
  have s: "sorted_wrt (\<lambda>x y. snd y \<le> snd x) (rev (sort_key snd m))"
    using sorted_sort_key[of snd m] by (simp add: sorted_wrt_rev sorted_map)
  have a: "a \<in> set (take 8 (rev (sort_key snd m)))" using assms(1) unfolding drain_dials_def fst_conv .
  have b: "b \<notin> set (take 8 (rev (sort_key snd m)))" using assms(3) unfolding drain_dials_def fst_conv .
  have m: "b \<in> set (rev (sort_key snd m))" using assms(2) by simp
  show ?thesis by (rule take_largest[OF s a m b])
qed

end
