(* ===== verification/Handoff.thy ===== *)
theory Handoff
  imports FriendLan Resolver
begin

text \<open>
  The endpoints of the virtual LAN: the TUN devices (\<open>overlaytun_linux.go\<close>, \<open>overlaytun_windows.go\<close>), the socket
  over which a game's sandbox hands its TUN out (\<open>overlayserve_linux.go\<close>), and the calls that start, serve, stop
  and filter the LAN (\<open>api_overlay.go\<close>). System calls and commands are arguments.
\<close>

section \<open>The devices\<close>

text \<open>The request of \<open>TUNSETIFF\<close>: the name in 16 bytes, cut at 15, the flags, and zeros up to 40.\<close>

definition tun_flags :: "16 word" where
  "tun_flags = 0x0001 OR 0x1000"

definition ifreq :: "bytes \<Rightarrow> bytes" where
  "ifreq name = take 15 name @ replicate (16 - length (take 15 name)) 0 @ le_bytes 2 tun_flags @ replicate 22 0"

definition ifreq_name :: "bytes \<Rightarrow> bytes" where
  "ifreq_name ifr = rev (dropWhile (\<lambda>b. b = 0) (rev (take 16 ifr)))"

record tunLink =
  tl_name :: bytes
  tl_mtu :: nat

text \<open>\<open>ioctl\<close>: what the kernel makes of the request; a failure closes the descriptor again.\<close>

datatype device = Not_opened | Closed_again | Kept tunLink

definition newTUN :: "bool \<Rightarrow> (bytes \<Rightarrow> bytes option) \<Rightarrow> bytes \<Rightarrow> nat \<Rightarrow> device" where
  "newTUN opens ioctl name mtu =
     (if \<not> opens then Not_opened
      else (case ioctl (ifreq name) of None \<Rightarrow> Closed_again | Some ifr \<Rightarrow> Kept \<lparr>tl_name = ifreq_name ifr, tl_mtu = mtu\<rparr>))"

definition newTUN_windows :: "bool \<Rightarrow> bool \<Rightarrow> bytes \<Rightarrow> nat \<Rightarrow> device" where
  "newTUN_windows adapter session name mtu =
     (if \<not> adapter then Not_opened else if \<not> session then Closed_again
      else Kept \<lparr>tl_name = (if name = [] then map (\<lambda>c. of_nat (of_char c)) ''VidyaGod'' else name), tl_mtu = mtu\<rparr>)"

text \<open>A read takes as much of a packet as its buffer holds.\<close>

definition ReadPacket :: "tunLink \<Rightarrow> bytes \<Rightarrow> bytes" where
  "ReadPacket t pkt = take (tl_mtu t + 64) pkt"

text \<open>The ring of a Windows adapter: a packet, an empty ring (wait and ask again), or an error. \<open>None\<close>: it waits on.\<close>

datatype ring_read = Ring_packet bytes | Ring_empty | Ring_error

fun ReadPacket_windows :: "ring_read list \<Rightarrow> (unit + bytes) option" where
  "ReadPacket_windows [] = None"
| "ReadPacket_windows (Ring_packet p # rs) = Some (Inr p)"
| "ReadPacket_windows (Ring_empty # rs) = ReadPacket_windows rs"
| "ReadPacket_windows (Ring_error # rs) = Some (Inl ())"

text \<open>The commands that bring an interface up; \<open>run\<close>: a command succeeds.\<close>

definition linux_steps :: "string \<Rightarrow> nat \<Rightarrow> string \<Rightarrow> string list list" where
  "linux_steps name mtu cidr =
     [[''ip'', ''link'', ''set'', ''dev'', name, ''mtu'', decimal mtu], [''ip'', ''addr'', ''add'', cidr, ''dev'', name],
      [''ip'', ''link'', ''set'', ''dev'', name, ''up'']]"

fun configureIP :: "(string list \<Rightarrow> bool) \<Rightarrow> string list list \<Rightarrow> string list list \<times> bool" where
  "configureIP run [] = ([], True)"
| "configureIP run (c # cs) =
     (if run c then (let (done, ok) = configureIP run cs in (c # done, ok)) else ([c], False))"

lemma name_round_trip: "length name \<le> 15 \<Longrightarrow> (name = [] \<or> List.last name \<noteq> 0) \<Longrightarrow> ifreq_name (ifreq name) = name"
proof -
  assume n: "length name \<le> 15" "name = [] \<or> List.last name \<noteq> 0"
  have "take 16 (ifreq name) = name @ replicate (16 - length name) 0" using n(1) by (simp add: ifreq_def)
  moreover have "dropWhile (\<lambda>b. b = 0) (replicate k 0 @ rev name) = rev name" for k
    using n(2) by (induction k) (auto simp: dropWhile_eq_self_iff hd_rev)
  ultimately show ?thesis by (simp add: ifreq_name_def)
qed

lemma length_ifreq: "length (ifreq name) = 40"
  by (simp add: ifreq_def min_def)

lemma configureIP_exact:
  "snd (configureIP run cs) \<longleftrightarrow> list_all run cs"
  "fst (configureIP run cs) = (if list_all run cs then cs else takeWhile run cs @ [hd (dropWhile run cs)])"
  by (induction cs) (auto split: prod.splits)

text \<open>A packet of the interface's MTU is read whole.\<close>

lemma read_whole: "length pkt \<le> tl_mtu t + 64 \<Longrightarrow> ReadPacket t pkt = pkt"
  by (simp add: ReadPacket_def)

section \<open>Starting on the host\<close>

text \<open>The bits of the subnet, after its last slash.\<close>

definition mask_bits :: "string \<Rightarrow> string" where
  "mask_bits subnet =
     (if CHR ''/'' \<in> set subnet then rev (takeWhile (\<lambda>c. c \<noteq> CHR ''/'') (rev subnet)) else ''16'')"

datatype lan_error = Net_offline | No_lan | Tun_failed | Ip_failed | Bad_peer | Listen_failed

text \<open>
  \<open>lan\<close>: what \<open>lanConfig\<close> gives; \<open>tun\<close>: the name of the TUN, if one is made; \<open>conf\<close>: whether an address can be
  given to it; \<open>parse\<close> and \<open>decode\<close> as in \<open>ov_configure\<close>. The second part: a TUN was made and closed again.
\<close>

definition VgOverlayStart ::
  "bool \<Rightarrow> (ip4 \<times> string \<times> (ip4 \<times> 's) list) option \<Rightarrow> string option \<Rightarrow> (string \<Rightarrow> bool) \<Rightarrow> (string \<Rightarrow> (ip4 \<times> ip4) option) \<Rightarrow>
   ('s \<Rightarrow> 'p option) \<Rightarrow> 'p overlay_routes \<Rightarrow> tun_sys \<Rightarrow> (lan_error + string) \<times> bool \<times> 'p overlay_routes \<times> tun_sys" where
  "VgOverlayStart online lan tun conf parse decode ov s =
     (if \<not> online then (Inl Net_offline, False, ov, s)
      else (case lan of None \<Rightarrow> (Inl No_lan, False, ov, s)
      | Some (vip, subnet, table) \<Rightarrow>
          (case tun of None \<Rightarrow> (Inl Tun_failed, False, ov, s)
           | Some name \<Rightarrow>
               if \<not> conf (dotted vip @ ''/'' @ mask_bits subnet) then (Inl Ip_failed, True, ov, s)
               else (case ov_configure decode vip (parse subnet) table ov of
                       None \<Rightarrow> (Inl Bad_peer, True, ov, s)
                     | Some ov' \<Rightarrow> (Inr name, False, ov', tun_attach s)))))"

text \<open>
  Starting the LAN on the host is all or nothing: it succeeds exactly when the node is online, there is a friend
  LAN, the TUN is made and addressed and every friend's identity is readable; then exactly the new TUN is attached
  and forwards by the new routes. Any failure leaves the routes and what was forwarding as they were, and no TUN open.
\<close>

theorem overlay_start_all_or_nothing:
  assumes "VgOverlayStart online lan tun conf parse decode ov s = (r, closed, ov', s')"
  shows "case r of
      Inr name \<Rightarrow> tun = Some name \<and> \<not> closed \<and> tn_running s' \<and> tn_link s' \<noteq> None \<and> tn_gw s' = tn_gw (tun_attach s) \<and>
        (\<exists>vip subnet table. lan = Some (vip, subnet, table) \<and> conf (dotted vip @ ''/'' @ mask_bits subnet) \<and>
           ov_configure decode vip (parse subnet) table ov = Some ov')
    | Inl e \<Rightarrow> ov' = ov \<and> s' = s \<and> (closed \<longleftrightarrow> e = Ip_failed \<or> e = Bad_peer) \<and>
        (e = Net_offline \<longleftrightarrow> \<not> online) \<and> (e = No_lan \<longleftrightarrow> online \<and> lan = None) \<and>
        (e = Tun_failed \<longleftrightarrow> online \<and> lan \<noteq> None \<and> tun = None)"
proof -
  have "tn_running (tun_attach s) \<and> tn_link (tun_attach s) \<noteq> None" by (simp add: tun_attach_def Let_def)
  then show ?thesis
    using assms by (auto simp: VgOverlayStart_def split: if_splits option.splits)
qed

theorem overlay_start_all_or_nothing_witness:
  "\<exists>ov' s'. VgOverlayStart True (Some ([10, 66, 0, 1], ''10.66.0.0/16'', [([10, 66, 0, 9], 4)])) (Some ''vg-lan'') (\<lambda>c. True)
     (\<lambda>t. None) (\<lambda>p. if p = 4 then None else Some (p :: nat)) ov_ex tun_ex = (Inl Bad_peer, True, ov', s') \<and> ov' = ov_ex \<and> s' = tun_ex"
proof -
  let ?c = "VgOverlayStart True (Some ([10, 66, 0, 1], ''10.66.0.0/16'', [([10, 66, 0, 9], 4)])) (Some ''vg-lan'') (\<lambda>c. True)
     (\<lambda>t. None) (\<lambda>p. if p = 4 then None else Some (p :: nat)) ov_ex tun_ex"
  have "?c = (Inl Bad_peer, True, ov_ex, tun_ex)" by (simp add: VgOverlayStart_def ov_configure_def)
  from overlay_start_all_or_nothing[OF this] this show ?thesis by simp
qed

text \<open>The roster: the entries of a comma-separated list, trimmed, and those of them that are identities.\<close>

definition VgLanSetExcluded ::
  "(string \<Rightarrow> 'p option) \<Rightarrow> string \<Rightarrow> 'p overlay_routes option \<Rightarrow> string set \<times> 'p overlay_routes option" where
  "VgLanSetExcluded decode csv ov =
     (let names = filter (\<lambda>s. s \<noteq> []) (map trim_space (split_on (CHR '','') csv)) in
      (set names, map_option (setExcluded (set (List.map_filter decode names))) ov))"

section \<open>Handing out the TUN of a sandbox\<close>

text \<open>
  Listeners are numbered as they are made. A serve listens and then notes its listener and path in the service
  (two moments); its goroutine waits for one connection, and then for the descriptor on it. \<open>ho_paths\<close>: the socket
  files; \<open>ho_made\<close>: the listeners whose serve has not noted them yet.
\<close>

record handoff =
  ho_tun :: tun_sys
  ho_sock :: "(nat \<times> string) option"
  ho_open :: "nat set"
  ho_paths :: "string \<Rightarrow> nat option"
  ho_made :: "(nat \<times> string) set"
  ho_wait :: "nat set"
  ho_conn :: "nat set"
  ho_next :: nat
  ho_attached :: "nat list"

definition serve_listen :: "string \<Rightarrow> bool \<Rightarrow> handoff \<Rightarrow> handoff" where
  "serve_listen path ok s =
     (if \<not> ok then s\<lparr>ho_paths := (ho_paths s)(path := None)\<rparr>
      else s\<lparr>ho_paths := (ho_paths s)(path := Some (ho_next s)), ho_open := insert (ho_next s) (ho_open s),
             ho_made := insert (ho_next s, path) (ho_made s), ho_next := ho_next s + 1\<rparr>)"

definition serve_note :: "nat \<Rightarrow> string \<Rightarrow> handoff \<Rightarrow> handoff" where
  "serve_note l path s = s\<lparr>ho_sock := Some (l, path), ho_made := ho_made s - {(l, path)}, ho_wait := insert l (ho_wait s)\<rparr>"

text \<open>\<open>detach\<close>, its socket included; an attach over what another left behind starts with it.\<close>

definition ho_detach :: "handoff \<Rightarrow> handoff" where
  "ho_detach s =
     (case ho_sock s of None \<Rightarrow> s\<lparr>ho_tun := tun_detach (ho_tun s)\<rparr>
      | Some (l, path) \<Rightarrow> s\<lparr>ho_tun := tun_detach (ho_tun s), ho_sock := None, ho_open := ho_open s - {l},
          ho_paths := (ho_paths s)(path := None)\<rparr>)"

definition ho_attach :: "nat \<Rightarrow> handoff \<Rightarrow> handoff" where
  "ho_attach l s0 =
     (let t = ho_tun s0;
          s = (if tn_running t \<or> tn_link t \<noteq> None \<or> tn_gw t \<noteq> None \<or> tn_relay t \<noteq> None then ho_detach s0 else s0) in
      s\<lparr>ho_tun := tun_attach (ho_tun s), ho_conn := ho_conn s - {l}, ho_attached := l # ho_attached s\<rparr>)"

inductive ho_step :: "handoff \<Rightarrow> handoff \<Rightarrow> bool" where
  ho_listen: "ho_step s (serve_listen path ok s)"
| ho_note: "(l, path) \<in> ho_made s \<Longrightarrow> ho_step s (serve_note l path s)"
| ho_accept: "l \<in> ho_wait s \<Longrightarrow> l \<in> ho_open s \<Longrightarrow> ho_step s (s\<lparr>ho_wait := ho_wait s - {l}, ho_conn := insert l (ho_conn s)\<rparr>)"
| ho_refuse: "l \<in> ho_wait s \<Longrightarrow> l \<notin> ho_open s \<Longrightarrow> ho_step s (s\<lparr>ho_wait := ho_wait s - {l}\<rparr>)"
| ho_no_fd: "l \<in> ho_conn s \<Longrightarrow> ho_step s (s\<lparr>ho_conn := ho_conn s - {l}\<rparr>)"
| ho_fd: "l \<in> ho_conn s \<Longrightarrow> ho_step s (ho_attach l s)"
| ho_stop: "ho_step s (ho_detach s)"
| ho_planes: "tun_step (ho_tun s) t \<Longrightarrow> \<not> (t = tun_attach (ho_tun s)) \<Longrightarrow> ho_step s (s\<lparr>ho_tun := t\<rparr>)"

definition ho_init :: "handoff \<Rightarrow> bool" where
  "ho_init s \<longleftrightarrow> tun_init (ho_tun s) \<and> ho_sock s = None \<and> ho_open s = {} \<and> ho_paths s = Map.empty \<and> ho_made s = {} \<and>
     ho_wait s = {} \<and> ho_conn s = {} \<and> ho_attached s = []"

text \<open>A listener is in one phase at a time, and the phases that are over do not come back.\<close>

definition ho_inv :: "handoff \<Rightarrow> bool" where
  "ho_inv s \<longleftrightarrow> tun_inv (ho_tun s) \<and>
     (\<forall>l \<in> fst ` ho_made s \<union> ho_wait s \<union> ho_conn s \<union> set (ho_attached s) \<union> ho_open s. l < ho_next s) \<and>
     (\<forall>p l. ho_paths s p = Some l \<longrightarrow> l < ho_next s) \<and>
     (\<forall>l p. ho_sock s = Some (l, p) \<longrightarrow> l < ho_next s \<and> l \<notin> fst ` ho_made s) \<and>
     fst ` ho_made s \<inter> (ho_wait s \<union> ho_conn s \<union> set (ho_attached s)) = {} \<and> inj_on fst (ho_made s) \<and>
     ho_wait s \<inter> (ho_conn s \<union> set (ho_attached s)) = {} \<and> ho_conn s \<inter> set (ho_attached s) = {} \<and> distinct (ho_attached s)"

lemma ho_tun_detach [simp]: "ho_tun (ho_detach s) = tun_detach (ho_tun s)"
  by (simp add: ho_detach_def split: option.splits)

lemma ho_inv_detach: "ho_inv s \<Longrightarrow> ho_inv (ho_detach s)"
  by (auto simp: ho_inv_def ho_detach_def tun_inv_detach split: option.splits if_splits)

lemma ho_detach_phases:
  "ho_made (ho_detach s) = ho_made s" "ho_wait (ho_detach s) = ho_wait s" "ho_conn (ho_detach s) = ho_conn s"
  "ho_attached (ho_detach s) = ho_attached s" "ho_next (ho_detach s) = ho_next s"
  by (simp_all add: ho_detach_def split: option.splits)

lemma ho_inv_attached:
  assumes "ho_inv s" "l \<in> ho_conn s"
  shows "ho_inv (s\<lparr>ho_tun := tun_attach (ho_tun s), ho_conn := ho_conn s - {l}, ho_attached := l # ho_attached s\<rparr>)"
proof -
  have "tun_inv (tun_attach (ho_tun s))" using assms(1) tun_inv_step[OF _ tn_attach] by (simp add: ho_inv_def)
  with assms show ?thesis by (auto simp: ho_inv_def)
qed

lemma ho_inv_step: "ho_inv s \<Longrightarrow> ho_step s t \<Longrightarrow> ho_inv t"
proof (erule ho_step.cases, goal_cases)
  case (1 s' path ok)
  then have lt: "\<forall>l \<in> fst ` ho_made s'. l < ho_next s'" unfolding ho_inv_def by blast
  have "(ho_next s', b) \<notin> ho_made s'" for b
  proof
    assume "(ho_next s', b) \<in> ho_made s'"
    with lt have "fst (ho_next s', b) < ho_next s'" by blast
    then show False by simp
  qed
  with 1 show ?case by (auto simp: ho_inv_def serve_listen_def inj_on_def less_Suc_eq)
next
  case (2 l path s')
  then have n: "ho_inv s'" "l \<in> fst ` ho_made s'" "(l, path) \<in> ho_made s'" by force+
  then have inj: "inj_on fst (ho_made s')" by (simp add: ho_inv_def)
  have m: "fst ` (ho_made s' - {(l, path)}) = fst ` ho_made s' - {l}"
    using inj_on_image_set_diff[OF inj, of "ho_made s'" "{(l, path)}"] n(3) by simp
  have "ho_inv (serve_note l path s')"
    using n(1,2) inj_on_diff[OF inj, of "{(l, path)}"] unfolding ho_inv_def
    by (intro conjI; elim conjE; (auto simp: serve_note_def m)[1])
  with 2 show ?case by simp
next
  case (6 l s')
  have d: "ho_inv (ho_detach s')" "l \<in> ho_conn (ho_detach s')" using 6 by (auto simp: ho_inv_detach ho_detach_phases)
  have "ho_inv (ho_attach l s')"
    unfolding ho_attach_def Let_def using ho_inv_attached[OF d] ho_inv_attached[of s' l] 6 by (simp split: if_split)
  with 6 show ?case by simp
next
  case (7 s') then show ?case by (simp add: ho_inv_detach)
next
  case (8 s' u) then show ?case by (auto simp: ho_inv_def intro: tun_inv_step)
qed (auto simp: ho_inv_def)

lemma ho_inv_init: "ho_init s \<Longrightarrow> ho_inv s"
  by (auto simp: ho_init_def ho_inv_def tun_init_def tun_inv_def)

interpretation handoff: step_invariant ho_init ho_step ho_inv
  by unfold_locales (fact ho_inv_init, fact ho_inv_step)

text \<open>
  Each serve leads to one attach at most; nothing of the datapath leaks by the handoff, and a detach leaves no socket
  of the service open.
\<close>

lemma handoff_once:
  assumes "reachable ho_init ho_step s"
  shows "distinct (ho_attached s)" "ho_wait s \<inter> (ho_conn s \<union> set (ho_attached s)) = {}" "ho_conn s \<inter> set (ho_attached s) = {}"
    "tn_open (ho_tun (ho_detach s)) \<subseteq> snd ` tn_flight (ho_tun s)"
    "ho_sock s = Some (l, path) \<Longrightarrow> l \<notin> ho_open (ho_detach s) \<and> ho_paths (ho_detach s) path = None"
proof -
  have inv: "ho_inv s" by (rule handoff.reachable_inv[OF assms])
  then show "distinct (ho_attached s)" "ho_wait s \<inter> (ho_conn s \<union> set (ho_attached s)) = {}" "ho_conn s \<inter> set (ho_attached s) = {}"
    unfolding ho_inv_def by blast+
  show "tn_open (ho_tun (ho_detach s)) \<subseteq> snd ` tn_flight (ho_tun s)"
    using inv by (auto simp: ho_inv_def tun_inv_def tun_detach_def)
  show "ho_sock s = Some (l, path) \<Longrightarrow> l \<notin> ho_open (ho_detach s) \<and> ho_paths (ho_detach s) path = None"
    by (simp add: ho_detach_def)
qed

text \<open>
  A stop between the sandbox's connection and its descriptor does not hold: the attach follows, and the LAN of a game
  that was stopped is up. A serve before the last one was stopped loses the listener of the last one for good.
\<close>

definition ho_idle :: handoff where
  "ho_idle = \<lparr>ho_tun = tun_ex, ho_sock = None, ho_open = {}, ho_paths = Map.empty, ho_made = {}, ho_wait = {}, ho_conn = {},
     ho_next = 0, ho_attached = []\<rparr>"

definition ho_served :: "string \<Rightarrow> handoff \<Rightarrow> handoff" where
  "ho_served path s = serve_note (ho_next s) path (serve_listen path True s)"

lemma ho_served_reachable:
  "reachable ho_init ho_step s \<Longrightarrow> reachable ho_init ho_step (ho_served path s)"
proof -
  assume "reachable ho_init ho_step s"
  then have "reachable ho_init ho_step (serve_listen path True s)" by (rule reach_step) (rule ho_listen)
  then show ?thesis unfolding ho_served_def by (rule reach_step) (rule ho_note, simp add: serve_listen_def)
qed

lemma ho_idle_reachable: "reachable ho_init ho_step ho_idle"
  by (rule reach_init) (simp add: ho_init_def ho_idle_def tun_init_def tun_ex_def)

definition ho_connected :: handoff where
  "ho_connected = (let s = ho_served ''vg'' ho_idle in s\<lparr>ho_wait := ho_wait s - {0}, ho_conn := insert 0 (ho_conn s)\<rparr>)"

lemma attach_after_stop:
  "reachable ho_init ho_step (ho_attach 0 (ho_detach ho_connected)) \<and> tn_running (ho_tun (ho_attach 0 (ho_detach ho_connected)))"
proof
  have r1: "reachable ho_init ho_step (ho_served ''vg'' ho_idle)" by (rule ho_served_reachable[OF ho_idle_reachable])
  have t2: "ho_step (ho_served ''vg'' ho_idle) ho_connected"
    unfolding ho_connected_def Let_def by (rule ho_accept) (simp_all add: ho_served_def serve_note_def serve_listen_def ho_idle_def)
  have r2: "reachable ho_init ho_step ho_connected" by (rule reach_step) (rule r1, rule t2)
  have r3: "reachable ho_init ho_step (ho_detach ho_connected)" by (rule reach_step) (rule r2, rule ho_stop)
  have "0 \<in> ho_conn (ho_detach ho_connected)" by (simp add: ho_detach_phases ho_connected_def Let_def)
  from ho_fd[OF this] show "reachable ho_init ho_step (ho_attach 0 (ho_detach ho_connected))" by (intro reach_step[OF r3])
qed (simp add: ho_attach_def Let_def tun_attach_def)

lemma served_twice_leaks:
  "\<exists>s. reachable ho_init ho_step s \<and> ho_sock s = None \<and> 0 \<in> ho_open s \<and> 0 \<in> ho_wait s"
proof (intro exI conjI)
  let ?s = "ho_detach (ho_served ''b'' (ho_served ''a'' ho_idle))"
  have "reachable ho_init ho_step (ho_served ''b'' (ho_served ''a'' ho_idle))"
    by (intro ho_served_reachable ho_idle_reachable)
  then show "reachable ho_init ho_step ?s" by (rule reach_step) (rule ho_stop)
qed (simp_all add: ho_served_def serve_note_def serve_listen_def ho_idle_def ho_detach_def)

end
