(* ===== verification/Receiving.thy ===== *)
theory Receiving
  imports LeafResume FetchControl
begin

text \<open>
  The receiving of a file's leaves (\<open>writeThrough\<close>, \<open>leafGetter\<close> of \<open>fetch.go\<close>): where each block is taken from,
  the number shown while they come, the watcher that ends a session on a cancel or a silence, and what the end of a
  session leads to. The files it writes are those of \<open>WriteThrough\<close>.
\<close>

section \<open>Where a block comes from\<close>

text \<open>
  \<open>GetBlocks\<close> of \<open>leafGetter\<close>, its loop over the blockstore: the hits are handed over in order, the misses
  collected. \<open>room\<close>: how many blocks are taken before the context ends. \<open>None\<close>: it ended in the loop.
\<close>

fun hand_local ::
  "(cid \<Rightarrow> bytes option) \<Rightarrow> nat \<Rightarrow> cid list \<Rightarrow> (cid \<times> bytes) list \<times> (nat \<times> cid list) option" where
  "hand_local store room [] = ([], Some (room, []))"
| "hand_local store room (c # ks) =
     (case store c of
        None \<Rightarrow> (case hand_local store room ks of (out, r) \<Rightarrow> (out, map_option (\<lambda>(m, ms). (m, c # ms)) r))
      | Some b \<Rightarrow>
          (case room of
             0 \<Rightarrow> ([], None)
           | Suc n \<Rightarrow> (case hand_local store n ks of (out, r) \<Rightarrow> ((c, b) # out, r))))"

text \<open>
  The session (\<open>None\<close> offline) is asked for the misses; it refuses (\<open>None\<close>) or delivers some blocks. The second
  component: what it was asked for.
\<close>

definition leaf_get ::
  "(cid \<Rightarrow> bytes option) \<Rightarrow> (cid list \<Rightarrow> (cid \<times> bytes) list option) option \<Rightarrow> nat \<Rightarrow> cid list
    \<Rightarrow> (cid \<times> bytes) list \<times> cid list" where
  "leaf_get store sess room ks =
     (case hand_local store room ks of
        (out, None) \<Rightarrow> (out, [])
      | (out, Some (m, misses)) \<Rightarrow>
          (case sess of
             None \<Rightarrow> (out, [])
           | Some ask \<Rightarrow>
               if misses = [] then (out, [])
               else (case ask misses of None \<Rightarrow> (out, misses) | Some got \<Rightarrow> (out @ take m got, misses))))"

lemma hand_local_spec:
  "hand_local store room ks = (out, r) \<Longrightarrow>
   (let hits = map (\<lambda>c. (c, the (store c))) (filter (\<lambda>c. store c \<noteq> None) ks);
        misses = filter (\<lambda>c. store c = None) ks in
    if length hits \<le> room then out = hits \<and> r = Some (room - length hits, misses)
    else out = take room hits \<and> r = None)"
proof (induction ks arbitrary: room out r)
  case (Cons c ks)
  show ?case
  proof (cases "store c")
    case None
    obtain o1 r1 where h: "hand_local store room ks = (o1, r1)" by fastforce
    show ?thesis using Cons.IH[OF h] Cons.prems None h by (auto simp: Let_def split: if_splits)
  next
    case (Some b)
    show ?thesis
    proof (cases room)
      case 0
      then show ?thesis using Cons.prems Some by (auto simp: Let_def)
    next
      case (Suc n)
      obtain o1 r1 where h: "hand_local store n ks = (o1, r1)" by fastforce
      show ?thesis using Cons.IH[OF h] Cons.prems Some Suc h by (auto simp: Let_def split: if_splits)
    qed
  qed
qed (auto simp: Let_def)

text \<open>Only what the store lacks is asked of the network; what the store has needs no network.\<close>

lemma leaf_get_asks:
  "snd (leaf_get store sess room ks) = [] \<or> snd (leaf_get store sess room ks) = filter (\<lambda>c. store c = None) ks"
proof -
  obtain out r where h: "hand_local store room ks = (out, r)" by fastforce
  show ?thesis using hand_local_spec[OF h] h
    by (auto simp: leaf_get_def Let_def split: option.splits if_splits)
qed

lemma leaf_get_offline:
  assumes "list_all (\<lambda>c. store c \<noteq> None) ks" "length ks \<le> room"
  shows "leaf_get store sess room ks = (map (\<lambda>c. (c, the (store c))) ks, [])"
proof -
  obtain out r where h: "hand_local store room ks = (out, r)" by fastforce
  have "filter (\<lambda>c. store c = None) ks = []" "filter (\<lambda>c. store c \<noteq> None) ks = ks"
    using assms(1) by (auto simp: filter_empty_conv filter_id_conv list_all_iff)
  then show ?thesis using hand_local_spec[OF h] h assms(2)
    by (auto simp: leaf_get_def Let_def split: option.splits)
qed

text \<open>
  With a store and a session that give a CID's bytes, and a session that gives only what it is asked for, every block
  is one of the asked, with its bytes; with distinct keys, each comes once.
\<close>

definition session_law :: "(cid \<Rightarrow> bytes) \<Rightarrow> (cid list \<Rightarrow> (cid \<times> bytes) list option) \<Rightarrow> bool" where
  "session_law content ask \<longleftrightarrow>
     (\<forall>ks got. ask ks = Some got \<longrightarrow> distinct (map fst got) \<and> (\<forall>(c, b) \<in> set got. c \<in> set ks \<and> b = content c))"

lemma leaf_get_sound:
  assumes "\<And>c b. store c = Some b \<Longrightarrow> b = content c" "\<And>ask. sess = Some ask \<Longrightarrow> session_law content ask" "distinct ks"
  shows "\<forall>(c, b) \<in> set (fst (leaf_get store sess room ks)). c \<in> set ks \<and> b = content c"
    and "distinct (map fst (fst (leaf_get store sess room ks)))"
proof -
  obtain out r where h: "hand_local store room ks = (out, r)" by fastforce
  define hits where "hits = map (\<lambda>c. (c, the (store c))) (filter (\<lambda>c. store c \<noteq> None) ks)"
  define misses where "misses = filter (\<lambda>c. store c = None) ks"
  have hits: "\<forall>(c, b) \<in> set hits. c \<in> set ks \<and> b = content c" "distinct (map fst hits)"
    "\<forall>x \<in> set hits. fst x \<notin> set misses"
    using assms(1,3) by (auto simp: hits_def misses_def comp_def)
  have cases: "(\<exists>k. fst (leaf_get store sess room ks) = take k hits) \<or>
    (\<exists>k ask got. sess = Some ask \<and> ask misses = Some got \<and> fst (leaf_get store sess room ks) = hits @ take k got)"
  proof (cases "length hits \<le> room")
    case True
    then have "hand_local store room ks = (hits, Some (room - length hits, misses))"
      using hand_local_spec[OF h] h by (simp add: Let_def hits_def misses_def)
    then show ?thesis by (auto simp: leaf_get_def split: option.split intro: exI[of _ "length hits"])
  next
    case False
    then have "hand_local store room ks = (take room hits, None)"
      using hand_local_spec[OF h] h by (simp add: Let_def hits_def misses_def)
    then show ?thesis by (auto simp: leaf_get_def)
  qed
  have got: "distinct (map fst got) \<and> (\<forall>(c, b) \<in> set got. c \<in> set misses \<and> b = content c)"
    if "sess = Some ask" "ask misses = Some got" for ask got
    using assms(2)[OF that(1)] that(2) by (simp add: session_law_def)
  have sub: "set misses \<subseteq> set ks" by (auto simp: misses_def)
  from cases show "\<forall>(c, b) \<in> set (fst (leaf_get store sess room ks)). c \<in> set ks \<and> b = content c"
  proof (elim disjE exE conjE)
    fix k assume "fst (leaf_get store sess room ks) = take k hits"
    then show ?thesis using hits(1) by (auto dest!: in_set_takeD)
  next
    fix k ask got assume a: "sess = Some ask" "ask misses = Some got" "fst (leaf_get store sess room ks) = hits @ take k got"
    then show ?thesis using hits(1) got[OF a(1,2)] sub by (auto dest!: in_set_takeD)
  qed
  from cases show "distinct (map fst (fst (leaf_get store sess room ks)))"
  proof (elim disjE exE conjE)
    fix k assume "fst (leaf_get store sess room ks) = take k hits"
    then show ?thesis using hits(2) by (simp add: take_map[symmetric])
  next
    fix k ask got assume a: "sess = Some ask" "ask misses = Some got" "fst (leaf_get store sess room ks) = hits @ take k got"
    have "\<forall>x \<in> set (take k got). fst x \<in> set misses" using got[OF a(1,2)] in_set_takeD[of _ k got] by fastforce
    moreover have "distinct (map fst (take k got))" using got[OF a(1,2)] by (metis distinct_take take_map)
    moreover have "set (map fst hits) \<inter> set (map fst (take k got)) = {}" using calculation(1) hits(3) by fastforce
    ultimately show ?thesis using hits(2) a(3) by simp
  qed
qed

section \<open>The number shown\<close>

text \<open>The bytes an earlier attempt left, then the length of a block at each of its places.\<close>

definition written_before :: "leaf list \<Rightarrow> partBits \<Rightarrow> nat" where
  "written_before leaves p = sum_list (map (\<lambda>i. if pb_get p i = Some True then snd (leaves ! i) else 0) [0..<length leaves])"

definition written_by :: "leaf list \<Rightarrow> bytes \<Rightarrow> cid \<Rightarrow> nat" where
  "written_by leaves data c = length (offsets leaves c) * length data"

definition shown :: "int \<Rightarrow> nat \<Rightarrow> rat option" where
  "shown full written = (if full > 0 then Some (min 99 (100 * of_nat written / of_int full)) else None)"

fun shown_all :: "int \<Rightarrow> leaf list \<Rightarrow> nat \<Rightarrow> (cid \<times> bytes) list \<Rightarrow> rat list" where
  "shown_all full leaves w [] = []"
| "shown_all full leaves w ((c, data) # bs) =
     (let ws = map (\<lambda>k. w + (k + 1) * length data) [0..<length (offsets leaves c)] in
      (if full > 0 then map (\<lambda>v. the (shown full v)) ws else []) @
      shown_all full leaves (w + written_by leaves data c) bs)"

definition progress_shown :: "int \<Rightarrow> leaf list \<Rightarrow> partBits \<Rightarrow> (cid \<times> bytes) list \<Rightarrow> rat list" where
  "progress_shown full leaves p bs =
     (case shown full (written_before leaves p) of None \<Rightarrow> [] | Some x \<Rightarrow> [x]) @
     shown_all full leaves (written_before leaves p) bs"

lemma shown_mono: "0 < full \<Longrightarrow> v \<le> w \<Longrightarrow> the (shown full v) \<le> the (shown full w)"
proof -
  assume a: "0 < full" "v \<le> w"
  then have "(100 :: rat) * of_nat v / of_int full \<le> 100 * of_nat w / of_int full"
    by (intro divide_right_mono mult_left_mono) simp_all
  then show ?thesis using a by (simp add: shown_def min_le_iff_disj)
qed

lemma sorted_stages:
  assumes "sorted xs" "\<And>x. x \<in> set xs \<Longrightarrow> x \<le> m \<and> l \<le> x \<and> x \<le> t" "l \<le> m" "sorted ys \<and> (\<forall>y \<in> set ys. m \<le> y \<and> y \<le> t)"
  shows "sorted (xs @ ys) \<and> (\<forall>x \<in> set (xs @ ys). l \<le> x \<and> x \<le> (t :: rat))"
  using assms by (auto simp: sorted_append intro: order_trans)

lemma shown_all_spec:
  "0 < full \<Longrightarrow> sorted (shown_all full leaves w bs) \<and>
   (\<forall>x \<in> set (shown_all full leaves w bs). the (shown full w) \<le> x \<and> x \<le> 99)"
proof (induction full leaves w bs rule: shown_all.induct)
  case (2 full leaves w c data bs)
  let ?n = "length (offsets leaves c)" and ?f = "\<lambda>v. the (shown full v)"
  let ?now = "map (\<lambda>k. ?f (w + (k + 1) * length data)) [0..<?n]" and ?w = "w + written_by leaves data c"
  note IH = 2(1)[OF refl 2(2)]
  have "sorted ?now"
    unfolding sorted_iff_nth_mono by (auto intro!: shown_mono[OF 2(2)])
  moreover have "x \<le> ?f ?w \<and> ?f w \<le> x \<and> x \<le> 99" if "x \<in> set ?now" for x
  proof -
    obtain k where k: "k < ?n" "x = ?f (w + (k + 1) * length data)" using \<open>x \<in> set ?now\<close> by auto
    have "(k + 1) * length data \<le> ?n * length data" using k(1) by (intro mult_le_mono1) simp
    then have "w + (k + 1) * length data \<le> ?w" by (simp add: written_by_def)
    from shown_mono[OF 2(2) this] shown_mono[OF 2(2), of w "w + (k + 1) * length data"]
    show ?thesis using 2(2) k(2) by (simp add: shown_def)
  qed
  moreover have "?f w \<le> ?f ?w" by (rule shown_mono[OF 2(2)]) simp
  ultimately have "sorted (?now @ shown_all full leaves ?w bs) \<and> (\<forall>x \<in> set (?now @ shown_all full leaves ?w bs). ?f w \<le> x \<and> x \<le> 99)"
    using IH by (intro sorted_stages) auto
  then show ?case using 2(2) by (simp add: Let_def comp_def)
qed simp

text \<open>The number never falls, and stays under 100: only the landed file says 100.\<close>

lemma progress_shown_steady:
  "sorted (progress_shown full leaves p bs) \<and> list_all (\<lambda>x. x \<le> 99) (progress_shown full leaves p bs)"
proof (cases "0 < full")
  case True
  from shown_all_spec[OF True, of leaves "written_before leaves p" bs] show ?thesis
    using True by (auto simp: progress_shown_def shown_def list_all_iff)
next
  case False
  then have "shown_all full leaves w bs = []" for w by (induction bs arbitrary: w) auto
  then show ?thesis using False by (simp add: progress_shown_def shown_def)
qed

text \<open>
  A bitmap that marks all places of a chunk or none counts right: with every needed block come, all the bytes of the
  file have been counted.
\<close>

definition even_marks :: "leaf list \<Rightarrow> partBits \<Rightarrow> bool" where
  "even_marks leaves p \<longleftrightarrow>
     (\<forall>i < length leaves. \<forall>j < length leaves. fst (leaves ! i) = fst (leaves ! j) \<longrightarrow>
        (pb_get p i = Some True \<longleftrightarrow> pb_get p j = Some True))"

lemma sum_upt: "sum_list (map f [0..<n]) = (\<Sum>i<n. f i :: nat)"
  by (simp add: sum_list_distinct_conv_sum_set atLeast0LessThan)

lemma written_complete:
  assumes "honest leaves content" "even_marks leaves p"
  shows "written_before leaves p + sum_list (map (\<lambda>c. written_by leaves (content c) c) (needed leaves p)) = file_len leaves"
proof -
  let ?n = "length leaves" and ?sz = "\<lambda>i. snd (leaves ! i)" and ?m = "\<lambda>i. pb_get p i = Some True"
  define U where "U = {i. i < ?n \<and> \<not> ?m i}"
  have sz: "length (content (fst (leaves ! i))) = ?sz i" if "i < ?n" for i
    using assms(1) that by (auto simp: honest_def list_all_length split: prod.splits)
  have idx: "set (idxOf leaves c) = {i. i < ?n \<and> fst (leaves ! i) = c}" "distinct (idxOf leaves c)" for c
    by (auto simp: idxOf_def)
  have wby: "written_by leaves (content c) c = (\<Sum>i \<in> set (idxOf leaves c). ?sz i)" for c
  proof -
    have "(\<Sum>i \<in> set (idxOf leaves c). ?sz i) = (\<Sum>i \<in> set (idxOf leaves c). length (content c))"
      by (rule sum.cong) (use idx sz in auto)
    then show ?thesis by (simp add: written_by_def offsets_def distinct_card[OF idx(2)])
  qed
  have need: "c \<in> set (needed leaves p) \<longleftrightarrow> (\<exists>i \<in> U. fst (leaves ! i) = c)" for c
    by (auto simp: needed_def U_def list_ex_iff idx image_iff in_set_conv_nth) (metis nth_mem fst_conv)+
  have all: "i \<in> U" if "c \<in> set (needed leaves p)" "i \<in> set (idxOf leaves c)" for c i
    using that assms(2) by (auto simp: need U_def idx even_marks_def)
  have U: "U = (\<Union>c \<in> set (needed leaves p). set (idxOf leaves c))"
    using all by (auto simp: idx) (auto simp: U_def need)
  have dist: "distinct (needed leaves p)" by (simp add: needed_def uniq_def)
  have "sum_list (map (\<lambda>c. written_by leaves (content c) c) (needed leaves p)) = (\<Sum>c \<in> set (needed leaves p). \<Sum>i \<in> set (idxOf leaves c). ?sz i)"
    by (simp add: sum_list_distinct_conv_sum_set[OF dist] wby)
  also have "\<dots> = (\<Sum>i \<in> U. ?sz i)"
    unfolding U by (rule sum.UNION_disjoint[symmetric]) (auto simp: idx)
  finally have 1: "sum_list (map (\<lambda>c. written_by leaves (content c) c) (needed leaves p)) = (\<Sum>i \<in> U. ?sz i)" .
  have "written_before leaves p = (\<Sum>i<?n. if ?m i then ?sz i else 0)" by (simp add: written_before_def sum_upt)
  moreover have "(\<Sum>i \<in> U. ?sz i) = (\<Sum>i<?n. if ?m i then 0 else ?sz i)"
    by (simp add: U_def sum.If_cases Int_def lessThan_def Collect_neg_eq[symmetric])
  moreover have "(\<Sum>i<?n. if ?m i then ?sz i else 0) + (\<Sum>i<?n. if ?m i then 0 else ?sz i) = (\<Sum>i<?n. ?sz i)"
    unfolding sum.distrib[symmetric] by (rule sum.cong) auto
  moreover have "file_len leaves = (\<Sum>i<?n. ?sz i)"
    by (simp add: file_len_def sum_list_sum_nth atLeast0LessThan)
  ultimately show ?thesis using 1 by simp
qed

text \<open>
  A gateway resume that is cut fills the places of a repeated chunk one by one: the next attempt then counts the
  place it already has twice.
\<close>

definition twice_leaves :: "leaf list" where
  "twice_leaves = [(Cid Raw 7, 2), (Cid Raw 7, 2)]"

definition half_marked :: partBits where
  "half_marked = the (pb_set (newPartBits [] 4 2) 0)"

lemma repeated_chunk_overcounted:
  "needed twice_leaves half_marked = [Cid Raw 7] \<and>
   written_before twice_leaves half_marked + written_by twice_leaves [1, 2] (Cid Raw 7) = 6 \<and> file_len twice_leaves = 4"
  by code_simp

section \<open>The watcher\<close>

text \<open>
  \<open>fetch.worker\<close>: every 200 ms it looks for a cancel of the user, then at the time since the last block. The clock,
  the blocks, the user, the end of the session and the ends of the context come when they come; while both its
  channels are ready the select may still pick the ticker.
\<close>

definition watchEvery :: nanos where "watchEvery = 200000000"

datatype watch_act = Watch_on | Watch_cancel | Watch_stall

definition watch_look :: "bool \<Rightarrow> nanos \<Rightarrow> nanos \<Rightarrow> watch_act" where
  "watch_look cancelled lastBlk now =
     (if cancelled then Watch_cancel else if now - lastBlk > stallTimeout then Watch_stall else Watch_on)"

record session =
  ss_now :: nanos
  ss_last :: nanos
  ss_user :: bool       \<comment> \<open>\<open>isCancelled\<close>\<close>
  ss_fctx :: bool       \<comment> \<open>\<open>fctx\<close> is cancelled\<close>
  ss_recv_done :: bool
  ss_stalled :: bool
  ss_watching :: bool

definition watch_tick :: "session \<Rightarrow> session" where
  "watch_tick s =
     (case watch_look (ss_user s) (ss_last s) (ss_now s) of
        Watch_on \<Rightarrow> s
      | Watch_cancel \<Rightarrow> s\<lparr>ss_fctx := True, ss_watching := False\<rparr>
      | Watch_stall \<Rightarrow> s\<lparr>ss_stalled := True, ss_fctx := True, ss_watching := False\<rparr>)"

inductive session_step :: "session \<Rightarrow> session \<Rightarrow> bool" where
  se_time: "0 \<le> d \<Longrightarrow> session_step s (s\<lparr>ss_now := ss_now s + d\<rparr>)"
| se_block: "\<not> ss_recv_done s \<Longrightarrow> session_step s (s\<lparr>ss_last := ss_now s\<rparr>)"
| se_user: "session_step s (s\<lparr>ss_user := b\<rparr>)"
| se_end: "session_step s (s\<lparr>ss_recv_done := True\<rparr>)"
| se_fail: "session_step s (s\<lparr>ss_fctx := True\<rparr>)"
| se_leave: "ss_watching s \<Longrightarrow> ss_fctx s \<or> ss_recv_done s \<Longrightarrow> session_step s (s\<lparr>ss_watching := False\<rparr>)"
| se_tick: "ss_watching s \<Longrightarrow> session_step s (watch_tick s)"

definition session_init :: "session \<Rightarrow> bool" where
  "session_init s \<longleftrightarrow> ss_last s = ss_now s \<and> \<not> ss_fctx s \<and> \<not> ss_recv_done s \<and> \<not> ss_stalled s \<and> ss_watching s"

definition session_inv :: "session \<Rightarrow> bool" where
  "session_inv s \<longleftrightarrow> ss_last s \<le> ss_now s \<and> (ss_stalled s \<longrightarrow> ss_fctx s \<and> \<not> ss_watching s)"

lemma session_inv_step: "session_inv s \<Longrightarrow> session_step s t \<Longrightarrow> session_inv t"
  by (erule session_step.cases)
     (auto simp: session_inv_def watch_tick_def split: watch_act.split)

lemma session_inv_init: "session_init s \<Longrightarrow> session_inv s"
  by (simp add: session_init_def session_inv_def)

interpretation session: step_invariant session_init session_step session_inv
  by unfold_locales (fact session_inv_init, fact session_inv_step)

text \<open>A stall is found only after a silence longer than the timeout, by a watcher that is up, and ends the session.\<close>

lemma stall_is_silence:
  assumes "reachable session_init session_step s" "session_step s t" "\<not> ss_stalled s" "ss_stalled t"
  shows "ss_now s - ss_last s > stallTimeout \<and> \<not> ss_user s \<and> ss_watching s \<and> ss_fctx t \<and> \<not> ss_watching t"
  using assms(2,3,4)
  by (cases rule: session_step.cases)
     (auto simp: watch_tick_def watch_look_def split: watch_act.splits if_splits)

text \<open>Once gone it touches nothing: the finalize that follows a session is not watched.\<close>

lemma watcher_gone:
  assumes "session_step\<^sup>*\<^sup>* s t" "\<not> ss_watching s"
  shows "\<not> ss_watching t \<and> ss_stalled t = ss_stalled s"
  using assms by (induction rule: rtranclp_induct) (auto elim!: session_step.cases)

text \<open>The looks of a watcher at the given times, up to its first verdict.\<close>

fun watch_run :: "(nanos \<times> bool \<times> nanos) list \<Rightarrow> (nanos \<times> watch_act) option" where
  "watch_run [] = None"
| "watch_run ((now, user, lb) # ts) =
     (case watch_look user lb now of Watch_on \<Rightarrow> watch_run ts | a \<Rightarrow> Some (now, a))"

fun ticking :: "nanos \<Rightarrow> nanos list \<Rightarrow> bool" where
  "ticking t [] = True"
| "ticking t (u # us) \<longleftrightarrow> t \<le> u \<and> u \<le> t + watchEvery \<and> ticking u us"

text \<open>
  A dead session is ended within a tick of the timeout; a user's cancel within a tick of it.
\<close>

lemma silence_is_cut:
  assumes "ticking start ts" "start \<le> lb + stallTimeout" "ts \<noteq> []" "List.last ts > lb + stallTimeout"
  shows "\<exists>t. watch_run (map (\<lambda>t. (t, False, lb)) ts) = Some (t, Watch_stall) \<and>
    lb + stallTimeout < t \<and> t \<le> lb + stallTimeout + watchEvery"
  using assms
proof (induction ts arbitrary: start)
  case (Cons u us)
  show ?case
  proof (cases "u > lb + stallTimeout")
    case True
    then show ?thesis using Cons.prems(1,2) by (simp add: watch_look_def)
  next
    case False
    then have "us \<noteq> []" using Cons.prems(4) by (cases us) auto
    with Cons.IH[of u] False Cons.prems show ?thesis by (simp add: watch_look_def)
  qed
qed simp

lemma flowing_not_cut:
  "list_all (\<lambda>(now, user, lb). \<not> user \<and> now - lb \<le> stallTimeout) ts \<Longrightarrow> watch_run ts = None"
  by (induction ts) (auto simp: watch_look_def)

section \<open>After the session\<close>

datatype after_session = Disk_failed | User_cancelled | Resume_by_gateway | Keep_partial | Go_finalize

text \<open>
  \<open>write_failed\<close>: \<open>writeErr\<close>. \<open>wide\<close>: \<open>n.dht\<close> is there and \<open>nctx\<close> lives. \<open>resumed\<close>: the resume has been tried.
\<close>

definition session_end :: "bool \<Rightarrow> bool \<Rightarrow> bool \<Rightarrow> bool \<Rightarrow> partBits \<Rightarrow> session \<Rightarrow> after_session" where
  "session_end write_failed wide resumed cancelled bits s =
     (if write_failed then Disk_failed
      else if cancelled then User_cancelled
      else if \<not> resumed \<and> \<not> allSet bits \<and> ss_stalled s \<and> wide then Resume_by_gateway
      else if \<not> allSet bits then Keep_partial
      else Go_finalize)"

text \<open>
  What is finalized is whole, whatever the watcher saw: a stall found while the last block landed does not discard a
  finished file. The gateways are asked only after a silence.
\<close>

lemma finalize_only_whole:
  "session_end fl wide resumed cancelled bits s = Go_finalize \<longleftrightarrow> \<not> fl \<and> \<not> cancelled \<and> allSet bits"
  by (auto simp: session_end_def)

lemma resume_only_stalled:
  assumes "session_end fl wide resumed cancelled bits s = Resume_by_gateway" "reachable session_init session_step s"
  shows "\<not> allSet bits \<and> wide \<and> \<not> cancelled \<and> ss_fctx s \<and> \<not> ss_watching s"
  using assms session.reachable_inv[OF assms(2)] by (auto simp: session_end_def session_inv_def split: if_splits)

lemma late_stall_harmless:
  "allSet bits \<Longrightarrow> session_end False wide resumed False bits (s\<lparr>ss_stalled := b\<rparr>) = Go_finalize"
  by (simp add: session_end_def)

end
