(* ===== verification/FetchOnce.thy ===== *)
theory FetchOnce
  imports FetchControl
begin

text \<open>
  One whole attempt (\<open>fetchToPathOnce\<close>, \<open>fetchToPath\<close> of \<open>fetch.go\<close>): the file that may be at the destination, the
  root, the write-through, and the fallback for a DAG whose leaves are not raw. The parts are those of \<open>FetchFile\<close> and
  \<open>FetchControl\<close>; the root and the write-through are arguments here, so that what is said holds of any transfer.
\<close>

section \<open>The fallback\<close>

text \<open>How its steps go: the reader over the DAG, the creation of the file, its rounds, its close and rename, the add.\<close>

record fallback_run =
  fb_reader :: "fetch_error option"
  fb_create :: bool
  fb_reads :: "(bool \<times> bytes \<times> bool \<times> read_end) list"
  fb_close :: bool
  fb_rename :: bool
  fb_add :: "add_step option"

definition fallback_fetch ::
  "boxo \<Rightarrow> (bytes \<Rightarrow> import) \<Rightarrow> cid \<Rightarrow> path \<Rightarrow> fallback_run \<Rightarrow> site \<Rightarrow> fetch_error option \<times> site" where
  "fallback_fetch E imp c dest F s =
     (case fb_reader F of
        Some e \<Rightarrow> (Some e, s)
      | None \<Rightarrow>
          let s1 = s\<lparr>si_tmp := None\<rparr> in
          if \<not> fb_create F then (Some Local_fatal, s1)
          else (case fallback_read (fb_reads F) [] of
              Inl e \<Rightarrow> (Some e, s1)
            | Inr f \<Rightarrow>
                if \<not> fb_close F then (Some Local_fatal, s1\<lparr>si_tmp := Some f\<rparr>)
                else if \<not> fb_rename F then (Some Local_fatal, (remove_dest dest s1)\<lparr>si_tmp := Some f\<rparr>)
                else fallback_finish E imp (fb_add F) c dest f s1))"

section \<open>The attempt\<close>

text \<open>
  \<open>get_root\<close>: what \<open>getRoot\<close> returns over a store; \<open>wt\<close>: what the write-through does from that root. The last component:
  whether a compaction is scheduled.
\<close>

definition root_error :: "fetch_error \<Rightarrow> fetch_error" where
  "root_error e = (if e = Missing_files \<or> isMissingFile (Some e) then Missing_files else e)"

definition after_write_through ::
  "(site \<Rightarrow> fetch_error option \<times> site) \<Rightarrow> fetch_error option \<times> site \<Rightarrow> (fetch_error option \<times> site) \<times> bool" where
  "after_write_through slow r =
     (case r of
        (None, t) \<Rightarrow> ((None, t), True)
      | (Some e, t) \<Rightarrow>
          if e = Incomplete then ((Some Incomplete, t), False)
          else if e \<noteq> Not_raw then ((Some (if isMissingFile (Some e) then Missing_files else e), t), False)
          else (case slow t of (e', u) \<Rightarrow> ((e', u), e' = None)))"

definition fetchToPathOnce ::
  "boxo \<Rightarrow> (bytes \<Rightarrow> import) \<Rightarrow> bool \<Rightarrow> add_step option \<Rightarrow> bool \<Rightarrow> cid option \<Rightarrow> path \<Rightarrow> bool \<Rightarrow>
   (store \<Rightarrow> fetch_error + 'n) \<Rightarrow> ('n \<Rightarrow> site \<Rightarrow> fetch_error option \<times> site) \<Rightarrow> fallback_run \<Rightarrow> site \<Rightarrow>
   (fetch_error option \<times> site) \<times> bool" where
  "fetchToPathOnce E imp can_read fault cancelled c dest dir_ok get_root wt F s =
     (case start_fetch E imp can_read fault cancelled c dest s of
        (Dest_done, t) \<Rightarrow> ((None, t), False)
      | (Dest_failed e, t) \<Rightarrow> ((Some e, t), False)
      | (Dest_fetch, t) \<Rightarrow>
          if \<not> dir_ok then ((Some Local_fatal, t), False)
          else (case get_root (si_store t) of
              Inl e \<Rightarrow> ((Some (root_error e), t), False)
            | Inr nd \<Rightarrow> after_write_through (fallback_fetch E imp (the c) dest F) (wt nd t)))"

definition fetchToPath ::
  "boxo \<Rightarrow> (bytes \<Rightarrow> import) \<Rightarrow> bool \<Rightarrow> add_step option \<Rightarrow> bool \<Rightarrow> cid \<Rightarrow> path \<Rightarrow> bool \<Rightarrow>
   (store \<Rightarrow> fetch_error + 'n) \<Rightarrow> ('n \<Rightarrow> site \<Rightarrow> fetch_error option \<times> site) \<Rightarrow> fallback_run \<Rightarrow> site \<Rightarrow> fetch_error option \<times> site" where
  "fetchToPath E imp can_read fault cancelled c dest dir_ok get_root wt F s =
     fetchToPath_end E c (fst (fetchToPathOnce E imp can_read fault cancelled (Some c) dest dir_ok get_root wt F s))"

text \<open>A finished fetch leaves a file at the destination, by whichever way it finished.\<close>

lemma addNoCopy_disk: "st_disk (snd (addNoCopy E imp fault p s)) = st_disk s"
  by (auto simp: addNoCopy_def Let_def build_disk dropRef_def unpin_def split: option.split prod.split)

lemma check_dest_done:
  assumes "check_dest E imp can_read fault c dest s = (Dest_done, t)"
  shows "dest_bytes dest t = dest_bytes dest s \<and> dest_bytes dest s \<noteq> None"
proof -
  have disk: "addNoCopy E imp fault dest (si_store s) = (r, st) \<Longrightarrow> st_disk st = st_disk (si_store s)" for r st
    using addNoCopy_disk[of E imp fault dest "si_store s"] by simp
  show ?thesis using assms disk
    by (auto simp: check_dest_def dest_bytes_def remove_partial_def split: option.splits if_splits sum.splits prod.splits)
qed

lemma fallback_done:
  assumes "fallback_fetch E imp c dest F s = (None, t)"
  shows "\<exists>f. fallback_read (fb_reads F) [] = Inr f \<and> dest_bytes dest t = Some f"
proof -
  obtain f where f: "fallback_read (fb_reads F) [] = Inr f" "fallback_finish E imp (fb_add F) c dest f (s\<lparr>si_tmp := None\<rparr>) = (None, t)"
    using assms by (auto simp: fallback_fetch_def Let_def split: option.splits if_splits sum.splits)
  have disk: "addNoCopy E imp (fb_add F) dest st = (r, st') \<Longrightarrow> st_disk st' = st_disk st" for r st st'
    using addNoCopy_disk[of E imp "fb_add F" dest st] by simp
  have "dest_bytes dest t = Some f"
    using f(2) disk by (auto simp: fallback_finish_def Let_def fallback_landed_def set_disk_def dest_bytes_def dropClosure_def
        split: sum.splits prod.splits)
  with f(1) show ?thesis by blast
qed

lemma fetched_is_there:
  assumes "fetchToPathOnce E imp can_read fault cancelled c dest dir_ok get_root wt F s = ((None, t), sched)"
    and "\<And>nd u v. wt nd u = (None, v) \<Longrightarrow> dest_bytes dest v \<noteq> None"
  shows "dest_bytes dest t \<noteq> None \<and> \<not> cancelled \<and> c \<noteq> None"
proof -
  have start: "\<not> cancelled \<and> c \<noteq> None"
    using assms(1) by (auto simp: fetchToPathOnce_def start_fetch_def split: option.splits if_splits)
  then obtain c' where c: "c = Some c'" by auto
  obtain v u where st: "start_fetch E imp can_read fault cancelled c dest s = (v, u)" by fastforce
  consider (here) "v = Dest_done" "u = t" | (net) nd where "v = Dest_fetch"
    "after_write_through (fallback_fetch E imp c' dest F) (wt nd u) = ((None, t), sched)"
    using assms(1) st by (auto simp: fetchToPathOnce_def c split: dest_verdict.splits if_splits sum.splits)
  then show ?thesis
  proof cases
    case here
    then have "check_dest E imp can_read fault c' dest s = (Dest_done, t)"
      using st start by (auto simp: start_fetch_def c split: dest_verdict.splits prod.splits if_splits)
    then show ?thesis using check_dest_done start by metis
  next
    case (net nd)
    obtain e x where w: "wt nd u = (e, x)" by fastforce
    show ?thesis
    proof (cases e)
      case None
      then show ?thesis using net(2) w assms(2)[of nd u x] start by (simp add: after_write_through_def)
    next
      case (Some e')
      then have "fallback_fetch E imp c' dest F x = (None, t)"
        using net(2) w by (auto simp: after_write_through_def split: if_splits prod.splits)
      then show ?thesis using fallback_done start by fastforce
    qed
  qed
qed

text \<open>A compaction follows exactly the fetches that moved bytes to the end.\<close>

lemma compaction_after_success:
  "fetchToPathOnce E imp can_read fault cancelled c dest dir_ok get_root wt F s = ((e, t), sched) \<Longrightarrow>
   sched \<Longrightarrow> e = None \<and> fst (start_fetch E imp can_read fault cancelled c dest s) = Dest_fetch"
  by (auto simp: fetchToPathOnce_def after_write_through_def split: prod.splits dest_verdict.splits if_splits sum.splits option.splits)

section \<open>A stale reference is fetched again\<close>

text \<open>
  An attempt on content whose file is gone says so, and clears the reference: for the next attempt the content is simply
  not there, so it goes to the network.
\<close>

lemma dropped_not_missing: "\<not> cidMissing E (dropRef E c s) c"
proof -
  let ?t = "dropRef E c s"
  have "c \<in> set (closure_cids E s c)" using closure_exact[of E s c] dag_refl by blast
  then have un: "\<not> hasLocal ?t c" by (simp add: hasLocal_def dropRef_def unpin_def map_of_keep)
  then have none: "list_ref ?t c = None" "dag_get E ?t c = None"
    using dag_get_held by (auto simp: list_ref_def hasLocal_def) fastforce
  have "d = c" if "dag_reach E ?t (unref_node E ?t) c d" for d
    using that by (cases rule: dag_reach.cases) (use none in \<open>auto simp: unref_node_def\<close>)
  then have "backing_present ?t d" if "dag_reach E ?t (unref_node E ?t) c d" for d
    using that none(1) by (fastforce simp: backing_present_def)
  then show ?thesis by (auto simp: cidMissing_exact)
qed

lemma missing_is_cleared:
  assumes "fetchToPath E imp can_read fault cancelled c dest dir_ok get_root wt F s = (Some Missing_files, t)"
  shows "\<not> cidMissing E (si_store t) c"
  using assms dropped_not_missing by (auto simp: fetchToPath_def fetchToPath_end_def split: prod.splits if_splits)

lemma next_attempt_goes_out:
  assumes "fetchToPath E imp can_read fault cancelled c dest dir_ok get_root wt F s = (Some Missing_files, t)"
    and "dest_bytes dest t = None"
  shows "start_fetch E imp can_read' fault' False (Some c) dest t = (Dest_fetch, t)"
  using missing_is_cleared[OF assms(1)] assms(2) by (simp add: start_fetch_def check_dest_def)

text \<open>A cancel standing, and a text that is no CID, end the attempt before it touches anything.\<close>

lemma refused_at_once:
  "fetchToPathOnce E imp can_read fault True c dest dir_ok get_root wt F s = ((Some Cancelled, s), False)"
  "fetchToPathOnce E imp can_read fault False None dest dir_ok get_root wt F s = ((Some Local_fatal, s), False)"
  by (simp_all add: fetchToPathOnce_def start_fetch_def)

end
