(* ===== verification/ApiSocial.thy ===== *)
theory ApiSocial
  imports Friend
begin

text \<open>
  The C ABI of the friends layer (\<open>api_social.go\<close>): one call of the application on the node it finds, with the code
  it returns. The service behind it is that of \<open>Friend\<close>. JSON and C strings are left to their outcomes: an argument
  that does not parse is \<open>None\<close>.
\<close>

section \<open>The calls\<close>

text \<open>
  The node: not started, without a host (the address book alone), or with the friend service, which shares the book.
\<close>

datatype 'p soc_node = No_node | Off_line "'p socialState" | On_line "'p friendService"

datatype 'p soc_call =
    FriendCode | SetProfile bytes bytes | GetProfile | FriendList
  | FriendAdd 'p bytes | FriendAccept 'p | FriendDecline 'p | FriendBlock 'p | FriendRemove 'p
  | FriendPing 'p bool                                   \<comment> \<open>whether the ping gets through\<close>
  | ShareLibrary 'p bytes "shareItem list option" | UnshareLibrary 'p bytes
  | RequestFriendLibraries 'p | SetPresenceDeny "'p list option"

datatype 'p soc_out = Out_nothing | Out_code "'p option" | Out_profile bytes bytes | Out_list "'p contact list"

datatype soc_error = Not_started | Networking_offline | Bad_peer_id | Bad_json

record 'p soc_reply =
  sr_code :: int
  sr_out :: "'p soc_out"
  sr_err :: "soc_error option"
  sr_effects :: "'p effect list"

definition soc_done :: "'p effect list \<times> 'p friendService \<Rightarrow> 'p soc_reply \<times> 'p soc_node" where
  "soc_done r = (\<lparr>sr_code = 0, sr_out = Out_nothing, sr_err = None, sr_effects = fst r\<rparr>, On_line (snd r))"

definition soc_refuse :: "soc_error option \<Rightarrow> 'p soc_node \<Rightarrow> 'p soc_reply \<times> 'p soc_node" where
  "soc_refuse e n = (\<lparr>sr_code = -1, sr_out = Out_nothing, sr_err = e, sr_effects = []\<rparr>, n)"

definition soc_answer :: "'p soc_out \<Rightarrow> 'p soc_node \<Rightarrow> 'p soc_reply \<times> 'p soc_node" where
  "soc_answer x n = (\<lparr>sr_code = 0, sr_out = x, sr_err = None, sr_effects = []\<rparr>, n)"

fun soc_book :: "'p soc_node \<Rightarrow> 'p socialState option" where
  "soc_book No_node = None"
| "soc_book (Off_line b) = Some b"
| "soc_book (On_line f) = Some (fs_social f)"

text \<open>\<open>friendSvc\<close>: the live service, or the refusal.\<close>

definition with_service ::
  "soc_error option \<Rightarrow> ('p friendService \<Rightarrow> 'p soc_reply \<times> 'p soc_node) \<Rightarrow> 'p soc_node \<Rightarrow> 'p soc_reply \<times> 'p soc_node" where
  "with_service e g n = (case n of On_line f \<Rightarrow> g f | _ \<Rightarrow> soc_refuse e n)"

definition VgFriendCode :: "'p soc_node \<Rightarrow> 'p soc_reply \<times> 'p soc_node" where
  "VgFriendCode n =
     (case n of No_node \<Rightarrow> soc_refuse None n
      | Off_line b \<Rightarrow> soc_answer (Out_code None) n
      | On_line f \<Rightarrow> soc_answer (Out_code (Some (fs_self f))) n)"

definition VgSetProfile :: "bytes option \<Rightarrow> bytes \<Rightarrow> bytes \<Rightarrow> 'p soc_node \<Rightarrow> 'p soc_reply \<times> 'p soc_node" where
  "VgSetProfile hostname nick pic n =
     (case n of No_node \<Rightarrow> soc_refuse (Some Not_started) n
      | Off_line b \<Rightarrow> soc_answer Out_nothing (Off_line (setProfile hostname nick pic b))
      | On_line f \<Rightarrow> (let f' = f\<lparr>fs_social := setProfile hostname nick pic (fs_social f)\<rparr> in soc_done (broadcastProfile f', f')))"

definition VgGetProfile :: "bytes option \<Rightarrow> 'p soc_node \<Rightarrow> 'p soc_reply \<times> 'p soc_node" where
  "VgGetProfile hostname n =
     (case soc_book n of None \<Rightarrow> soc_refuse None n
      | Some b \<Rightarrow> (let p = getProfile b in
          soc_answer (Out_profile (if pf_nick p = [] then defaultNick hostname else pf_nick p) (pf_pic p)) n))"

definition VgFriendList :: "'p soc_node \<Rightarrow> 'p soc_reply \<times> 'p soc_node" where
  "VgFriendList n = (case soc_book n of None \<Rightarrow> soc_refuse None n | Some b \<Rightarrow> soc_answer (Out_list (so_list b)) n)"

definition VgFriendAdd :: "bool \<Rightarrow> bytes option \<Rightarrow> int \<Rightarrow> 'p \<Rightarrow> bytes \<Rightarrow> 'p soc_node \<Rightarrow> 'p soc_reply \<times> 'p soc_node" where
  "VgFriendAdd valid hostname now p note n =
     with_service (Some Networking_offline)
       (\<lambda>f. case addFriend valid hostname now p note f of None \<Rightarrow> soc_refuse (Some Bad_peer_id) n | Some r \<Rightarrow> soc_done r) n"

definition VgFriendAccept :: "int \<Rightarrow> 'p \<Rightarrow> 'p soc_node \<Rightarrow> 'p soc_reply \<times> 'p soc_node" where
  "VgFriendAccept now p = with_service (Some Networking_offline) (\<lambda>f. soc_done (acceptFriend now p f))"

definition VgFriendDecline :: "'p \<Rightarrow> 'p soc_node \<Rightarrow> 'p soc_reply \<times> 'p soc_node" where
  "VgFriendDecline p = with_service (Some Networking_offline) (\<lambda>f. soc_done (declineFriend p f))"

definition VgFriendBlock :: "int \<Rightarrow> 'p \<Rightarrow> 'p soc_node \<Rightarrow> 'p soc_reply \<times> 'p soc_node" where
  "VgFriendBlock now p = with_service (Some Networking_offline) (\<lambda>f. soc_done (blockFriend now p f))"

text \<open>\<open>VgFriendRemove\<close>: the shares are purged first, then the contact leaves the book, if it is there.\<close>

definition soc_remove :: "'p \<Rightarrow> 'p friendService \<Rightarrow> bool \<times> 'p friendService" where
  "soc_remove p f = (fst (so_remove p (fs_social f)), f\<lparr>fs_social := snd (so_remove p (fs_social f))\<rparr>)"

definition VgFriendRemove :: "'p \<Rightarrow> 'p soc_node \<Rightarrow> 'p soc_reply \<times> 'p soc_node" where
  "VgFriendRemove p n =
     (case n of No_node \<Rightarrow> soc_refuse None n
      | Off_line b \<Rightarrow> (case so_remove p b of (there, b') \<Rightarrow>
          if there then soc_answer Out_nothing (Off_line b') else soc_refuse None (Off_line b'))
      | On_line f \<Rightarrow> (case soc_remove p (purgeShares p f) of (there, f') \<Rightarrow>
          if there then soc_done ([], f') else soc_refuse None (On_line f')))"

definition VgFriendPing :: "bool \<Rightarrow> bytes option \<Rightarrow> int \<Rightarrow> 'p \<Rightarrow> bool \<Rightarrow> 'p soc_node \<Rightarrow> 'p soc_reply \<times> 'p soc_node" where
  "VgFriendPing valid hostname now p reach =
     with_service None
       (\<lambda>f. case run_task valid reach hostname now (PingTask p) f of (out, es, f') \<Rightarrow>
          (\<lparr>sr_code = (if send_ok valid reach p f then 1 else 0), sr_out = Out_nothing, sr_err = None, sr_effects = es\<rparr>, On_line f'))"

definition VgShareLibrary :: "'p \<Rightarrow> bytes \<Rightarrow> shareItem list option \<Rightarrow> 'p soc_node \<Rightarrow> 'p soc_reply \<times> 'p soc_node" where
  "VgShareLibrary p lib items n =
     with_service (Some Networking_offline)
       (\<lambda>f. case items of None \<Rightarrow> soc_refuse (Some Bad_json) n | Some is \<Rightarrow> soc_done (setShareLib p lib is f)) n"

definition VgUnshareLibrary :: "'p \<Rightarrow> bytes \<Rightarrow> 'p soc_node \<Rightarrow> 'p soc_reply \<times> 'p soc_node" where
  "VgUnshareLibrary p lib = with_service (Some Networking_offline) (\<lambda>f. soc_done (removeShareLib p lib f))"

definition VgRequestFriendLibraries :: "'p \<Rightarrow> 'p soc_node \<Rightarrow> 'p soc_reply \<times> 'p soc_node" where
  "VgRequestFriendLibraries p = with_service (Some Networking_offline) (\<lambda>f. soc_done (requestLibraries p f))"

definition VgSetPresenceDeny :: "'p list option \<Rightarrow> 'p soc_node \<Rightarrow> 'p soc_reply \<times> 'p soc_node" where
  "VgSetPresenceDeny ps n =
     with_service None
       (\<lambda>f. case ps of None \<Rightarrow> soc_refuse None n | Some xs \<Rightarrow> soc_done ([], setPresenceDeny xs f)) n"

fun vg_social :: "('p \<Rightarrow> bool) \<Rightarrow> bytes option \<Rightarrow> int \<Rightarrow> 'p soc_call \<Rightarrow> 'p soc_node \<Rightarrow> 'p soc_reply \<times> 'p soc_node" where
  "vg_social vld h now FriendCode n = VgFriendCode n"
| "vg_social vld h now (SetProfile nick pic) n = VgSetProfile h nick pic n"
| "vg_social vld h now GetProfile n = VgGetProfile h n"
| "vg_social vld h now FriendList n = VgFriendList n"
| "vg_social vld h now (FriendAdd p note) n = VgFriendAdd (vld p) h now p note n"
| "vg_social vld h now (FriendAccept p) n = VgFriendAccept now p n"
| "vg_social vld h now (FriendDecline p) n = VgFriendDecline p n"
| "vg_social vld h now (FriendBlock p) n = VgFriendBlock now p n"
| "vg_social vld h now (FriendRemove p) n = VgFriendRemove p n"
| "vg_social vld h now (FriendPing p reach) n = VgFriendPing (vld p) h now p reach n"
| "vg_social vld h now (ShareLibrary p lib items) n = VgShareLibrary p lib items n"
| "vg_social vld h now (UnshareLibrary p lib) n = VgUnshareLibrary p lib n"
| "vg_social vld h now (RequestFriendLibraries p) n = VgRequestFriendLibraries p n"
| "vg_social vld h now (SetPresenceDeny ps) n = VgSetPresenceDeny ps n"

lemmas soc_defs = VgFriendCode_def VgSetProfile_def VgGetProfile_def VgFriendList_def VgFriendAdd_def VgFriendAccept_def
  VgFriendDecline_def VgFriendBlock_def VgFriendRemove_def VgFriendPing_def VgShareLibrary_def VgUnshareLibrary_def
  VgRequestFriendLibraries_def VgSetPresenceDeny_def with_service_def soc_done_def soc_refuse_def soc_answer_def

lemmas soc_splits = soc_node.splits option.splits prod.splits

section \<open>What a code says\<close>

text \<open>
  Codes are -1, 0 and, for a ping that got through, 1; an error text comes with -1 only; a refused call leaves the node
  as it was and sends nothing, but for a remove; and no call starts or stops the service.
\<close>

lemma social_codes:
  "sr_code (fst (vg_social vld h now c n)) \<in> {-1, 0, 1} \<and>
   (sr_code (fst (vg_social vld h now c n)) = 1 \<longrightarrow> (\<exists>p. c = FriendPing p True)) \<and>
   (sr_err (fst (vg_social vld h now c n)) \<noteq> None \<longrightarrow> sr_code (fst (vg_social vld h now c n)) = -1)"
  by (cases c; simp add: soc_defs send_ok_def Let_def split: soc_splits)

lemma social_refusals:
  assumes "sr_code (fst (vg_social vld h now c n)) = -1" "\<And>p. c \<noteq> FriendRemove p"
  shows "snd (vg_social vld h now c n) = n \<and> sr_effects (fst (vg_social vld h now c n)) = []"
  using assms by (cases c; auto simp: soc_defs Let_def split: soc_splits if_splits)

lemma social_offline:
  "snd (vg_social vld h now c No_node) = No_node \<and> sr_code (fst (vg_social vld h now c No_node)) = -1"
  "\<exists>b'. snd (vg_social vld h now c (Off_line b)) = Off_line b'"
  "\<exists>f'. snd (vg_social vld h now c (On_line f)) = On_line f'"
  by (cases c; auto simp: soc_defs Let_def split: soc_splits if_splits)+

text \<open>A remove of somebody unknown is refused, and has still purged what was shared with them.\<close>

lemma refused_remove_purges:
  "snd (vg_social vld h now (FriendRemove p) (On_line f)) = On_line (snd (soc_remove p (purgeShares p f))) \<and>
   fs_shareLibs (snd (soc_remove p (purgeShares p f))) p = None"
  by (auto simp: soc_defs soc_remove_def purgeShares_def split: prod.splits if_splits)

section \<open>The calls are the actions of the protocol\<close>

fun call_actions :: "int \<Rightarrow> 'p soc_call \<Rightarrow> 'p action list option" where
  "call_actions now (SetProfile nick pic) = Some [SetSelf nick pic, Broadcast]"
| "call_actions now (FriendAdd p note) = Some [AddFriend p note now]"
| "call_actions now (FriendAccept p) = Some [AcceptFriend p now]"
| "call_actions now (FriendDecline p) = Some [DeclineFriend p]"
| "call_actions now (FriendBlock p) = Some [BlockFriend p now]"
| "call_actions now (ShareLibrary p lib (Some items)) = Some [SetShare p lib items]"
| "call_actions now (UnshareLibrary p lib) = Some [RemoveShare p lib]"
| "call_actions now (RequestFriendLibraries p) = Some [RequestLibs p]"
| "call_actions now (SetPresenceDeny (Some ps)) = Some [SetDeny ps]"
| "call_actions now FriendCode = Some []"
| "call_actions now GetProfile = Some []"
| "call_actions now FriendList = Some []"
| "call_actions now c = None"

definition same_run :: "'p friend_sys \<Rightarrow> 'p friend_sys \<Rightarrow> bool" where
  "same_run s t \<longleftrightarrow> fr_svc s = fr_svc t \<and> fr_tasks s = fr_tasks t \<and> fr_sent s = fr_sent t"

text \<open>
  A call on a live node is a short run of the protocol's actions: same service after it, the same tasks started. What
  \<open>Friend\<close> shows of every run is so shown of every use of the ABI.
\<close>

lemma call_is_run:
  assumes "call_actions now c = Some as" "vg_social vld h now c (On_line (fr_svc s)) = (r, n)"
  shows "\<exists>f. n = On_line f \<and>
    same_run (fold (exec vld h) as s) (s\<lparr>fr_svc := f, fr_tasks := fr_tasks s @ spawned (sr_effects r)\<rparr>)"
proof (cases c)
  case (ShareLibrary p lib items)
  then show ?thesis using assms by (cases items) (auto simp: soc_defs same_run_def apply_local_def)
next
  case (SetPresenceDeny ps)
  then show ?thesis using assms by (cases ps) (auto simp: soc_defs same_run_def apply_local_def)
next
  case (FriendAdd p nt)
  then show ?thesis using assms
    by (cases "addFriend (vld p) h now p nt (fr_svc s)") (auto simp: soc_defs same_run_def apply_local_def)
qed (use assms in \<open>auto simp: soc_defs same_run_def apply_local_def Let_def\<close>)

text \<open>
  A removed friend gets nothing more: from the purge on, through whatever happens before and after the contact leaves
  the book, no snapshot sent to it holds a library, until one is shared with it again.
\<close>

definition purge_sys :: "'p \<Rightarrow> 'p friend_sys \<Rightarrow> 'p friend_sys" where
  "purge_sys p s = s\<lparr>fr_svc := purgeShares p (fr_svc s)\<rparr>"

definition remove_sys :: "'p \<Rightarrow> 'p friend_sys \<Rightarrow> 'p friend_sys" where
  "remove_sys p s = s\<lparr>fr_svc := snd (soc_remove p (fr_svc s))\<rparr>"

lemma unshared_runs: "unshared p s \<Longrightarrow> (\<And>l i. SetShare p l i \<notin> set as) \<Longrightarrow> unshared p (fold (exec vld h) as s)"
proof (induction as arbitrary: s)
  case (Cons a as)
  have "unshared p (exec vld h a s)" using Cons.prems by (intro exec_unshared) auto
  then show ?case using Cons.IH Cons.prems(2) by simp
qed simp

lemma remove_unshares:
  assumes "reachable friend_init (friend_step vld h) s"
    and "\<And>l i. SetShare p l i \<notin> set between" "\<And>l i. SetShare p l i \<notin> set after"
  shows "\<exists>out. fr_sent (fold (exec vld h) after (remove_sys p (fold (exec vld h) between (purge_sys p s)))) = fr_sent s @ out \<and>
    sends_nothing p out"
proof -
  let ?s1 = "purge_sys p s" and ?s2 = "fold (exec vld h) between (purge_sys p s)"
  have "list_all no_lib (fr_tasks s)" using friends.reachable_inv[OF assms(1)] by (simp add: friend_inv_def)
  then have u1: "unshared p ?s1" by (simp add: unshared_def purge_sys_def purgeShares_def)
  then have u2: "unshared p ?s2" by (rule unshared_runs) (use assms(2) in auto)
  then have u3: "unshared p (remove_sys p ?s2)" by (simp add: unshared_def remove_sys_def soc_remove_def)
  obtain o1 where o1: "fr_sent ?s2 = fr_sent ?s1 @ o1" "sends_nothing p o1"
    using run_unshared[OF u1, of between vld h] assms(2) by blast
  obtain o2 where o2: "fr_sent (fold (exec vld h) after (remove_sys p ?s2)) = fr_sent (remove_sys p ?s2) @ o2" "sends_nothing p o2"
    using run_unshared[OF u3, of after vld h] assms(3) by blast
  show ?thesis
    by (rule exI[of _ "o1 @ o2"]) (use o1 o2 in \<open>auto simp: sends_nothing_def remove_sys_def purge_sys_def\<close>)
qed

text \<open>
  Hiding our presence is about what is sent unasked: a ping the application asks for goes out to such a peer, which the
  ticker passes over.
\<close>

lemma ping_shows_presence:
  "presenceDenied p f \<Longrightarrow> send_ok valid True p f \<Longrightarrow>
   fst (run_task valid True h now (PingTask p) f) = [(p, helloMsg h Ping f)] \<and> Spawn (PingTask p) \<notin> set (presence_tick f)"
  by (auto simp: presence_tick_def Let_def split_beta)

section \<open>What the application is shown of a contact\<close>

datatype 'p field = F_peer 'p | F_text bytes | F_state friendState | F_flag bool | F_time int

definition emitContact :: "'p contact \<Rightarrow> (string \<times> 'p field) list" where
  "emitContact c =
     [(''peer'', F_peer (ct_peer c)), (''nick'', F_text (ct_nick c)), (''pic'', F_text (ct_pic c)),
      (''state'', F_state (ct_state c)), (''online'', F_flag (ct_online c)), (''seen'', F_time (ct_seen c))]"

definition friendListRow :: "'p contact \<Rightarrow> (string \<times> 'p field) list" where
  "friendListRow c = emitContact c @ [(''added'', F_time (ct_added c))]"

text \<open>The list, read again at every event, keeps every field an event brought, with its value.\<close>

lemma refresh_keeps_event: "map_of (emitContact c) k = Some v \<Longrightarrow> map_of (friendListRow c) k = Some v"
  by (simp add: friendListRow_def map_add_def)

lemma friend_list_fields: "map fst (friendListRow c) = [''peer'', ''nick'', ''pic'', ''state'', ''online'', ''seen'', ''added'']"
  by (simp add: friendListRow_def emitContact_def)

end
