(* ===== verification/NodeOpen.thy ===== *)
theory NodeOpen
  imports Online
begin

text \<open>
  The one node of a process (\<open>openNode\<close>, \<open>retryOnline\<close>, \<open>closeNode\<close> of \<open>node.go\<close>, \<open>filestoreroot.go\<close>): opened,
  brought online now or by a retry loop, closed and opened again. Each function holds \<open>gMu\<close> from end to end, so it is
  one step. An attempt to go online is that of \<open>Online\<close>.
\<close>

section \<open>The filestore's root\<close>

text \<open>
  \<open>abs_path\<close>: \<open>filepath.Abs\<close>, which may fail; \<open>volume\<close>: \<open>filepath.VolumeName\<close>.
\<close>

definition backslash :: char where "backslash = char_of (92 :: nat)"

definition filestoreRoot :: "bool \<Rightarrow> (string \<Rightarrow> string option) \<Rightarrow> (string \<Rightarrow> string) \<Rightarrow> string \<Rightarrow> string" where
  "filestoreRoot windows abs_path volume repo =
     (if \<not> windows then ''/''
      else let a = (case abs_path repo of None \<Rightarrow> repo | Some x \<Rightarrow> x); v = volume a in
           if v \<noteq> '''' then v @ [backslash] else [backslash])"

text \<open>Under it lies every absolute path on Unix, and every path of the repository's volume on Windows.\<close>

lemma filestore_root_unix: "take 1 p = ''/'' \<Longrightarrow> \<exists>rest. p = filestoreRoot False abs_path volume repo @ rest"
  by (cases p) (auto simp: filestoreRoot_def)

lemma filestore_root_windows:
  assumes "abs_path repo = Some a" "volume a = v" "v \<noteq> ''''"
  shows "filestoreRoot True abs_path volume repo = v @ [backslash]"
    and "p = v @ backslash # rest \<Longrightarrow> \<exists>r. p = filestoreRoot True abs_path volume repo @ r"
  using assms by (simp_all add: filestoreRoot_def)

section \<open>The process\<close>

text \<open>
  A node is known by its number. Of each the process may hold the datastore open, the context alive and a retry loop;
  \<open>pr_offline\<close>: the node in place was opened with \<open>VIDYAGOD_IPFS_OFFLINE\<close>; \<open>pr_left\<close>: what a closed node left open.
\<close>

datatype open_error = No_path | No_dir | No_datastore | No_pinner

record process =
  pr_node :: "(nat \<times> online_node) option"   \<comment> \<open>\<open>gNode\<close>\<close>
  pr_offline :: bool
  pr_dbs :: "nat list"
  pr_ctxs :: "nat list"
  pr_retries :: "nat list"
  pr_left :: "(nat \<times> resource list) list"
  pr_next :: nat

definition fresh_node :: online_node where
  "fresh_node = \<lparr>ol_open = [], ol_loops = [], ol_deferred = False, ol_clean_kad = False, ol_clean_bitswap = False,
     ol_provider = False, ol_mdns = False, ol_host = False, ol_online = False\<rparr>"

text \<open>\<open>fault\<close>: the step that fails; what was opened before it is closed again, the latest last.\<close>

definition openNode ::
  "bool \<Rightarrow> open_error option \<Rightarrow> (online_step \<Rightarrow> step_result) \<Rightarrow> process \<Rightarrow> open_error option \<times> process" where
  "openNode offline_env fault out w =
     (case pr_node w of
        Some x \<Rightarrow> (None, w)
      | None \<Rightarrow>
          if fault = Some No_path \<or> fault = Some No_dir then (fault, w)
          else let i = pr_next w; w1 = w\<lparr>pr_next := Suc i, pr_ctxs := i # pr_ctxs w\<rparr> in
            if fault = Some No_datastore then (fault, w1\<lparr>pr_ctxs := removeAll i (pr_ctxs w1)\<rparr>)
            else let w2 = w1\<lparr>pr_dbs := i # pr_dbs w1\<rparr> in
              if fault = Some No_pinner
              then (fault, w2\<lparr>pr_ctxs := removeAll i (pr_ctxs w2), pr_dbs := removeAll i (pr_dbs w2)\<rparr>)
              else if offline_env then (None, w2\<lparr>pr_node := Some (i, fresh_node), pr_offline := True\<rparr>)
              else (case goOnline True out fresh_node of
                  (True, n) \<Rightarrow> (None, w2\<lparr>pr_node := Some (i, n), pr_offline := False\<rparr>)
                | (False, n) \<Rightarrow> (None, w2\<lparr>pr_node := Some (i, n), pr_offline := False, pr_retries := i # pr_retries w2\<rparr>)))"

text \<open>One round of the retry loop of node \<open>i\<close>: woken by its context, or by its timer.\<close>

definition retry_cancelled :: "nat \<Rightarrow> process \<Rightarrow> process" where
  "retry_cancelled i w = w\<lparr>pr_retries := remove1 i (pr_retries w)\<rparr>"

definition retry_attempt :: "(online_step \<Rightarrow> step_result) \<Rightarrow> nat \<Rightarrow> process \<Rightarrow> process" where
  "retry_attempt out i w =
     (case pr_node w of
        Some (j, n) \<Rightarrow>
          if j \<noteq> i then w\<lparr>pr_retries := remove1 i (pr_retries w)\<rparr>
          else (case goOnline True out n of
              (True, m) \<Rightarrow> w\<lparr>pr_node := Some (i, m), pr_retries := remove1 i (pr_retries w)\<rparr>
            | (False, m) \<Rightarrow> w\<lparr>pr_node := Some (i, m)\<rparr>)
      | None \<Rightarrow> w\<lparr>pr_retries := remove1 i (pr_retries w)\<rparr>)"

text \<open>What \<open>closeNode\<close> closes: \<open>n.mdns\<close>, \<open>n.provider\<close>, and \<open>n.dht\<close> and \<open>n.host\<close>, each when set; the rest has its context.\<close>

definition shut_by :: "online_node \<Rightarrow> resource list" where
  "shut_by n = (if ol_mdns n then [Mdns] else []) @ (if ol_provider n then [Provider] else []) @ (if ol_host n then [Kad, Host] else [])"

definition closeNode :: "process \<Rightarrow> process" where
  "closeNode w =
     (case pr_node w of None \<Rightarrow> w
      | Some (i, n) \<Rightarrow> w\<lparr>pr_left := (i, filter (\<lambda>r. r \<notin> set (shut_by n)) (ol_open n)) # pr_left w,
          pr_ctxs := removeAll i (pr_ctxs w), pr_dbs := removeAll i (pr_dbs w), pr_node := None\<rparr>)"

text \<open>\<open>VgStart\<close>, \<open>VgStarted\<close>, \<open>VgOnline\<close> of \<open>api.go\<close>.\<close>

definition VgStart ::
  "bool \<Rightarrow> open_error option \<Rightarrow> (online_step \<Rightarrow> step_result) \<Rightarrow> process \<Rightarrow> (int \<times> open_error option) \<times> process" where
  "VgStart offline_env fault out w =
     (case openNode offline_env fault out w of (e, w') \<Rightarrow> ((if e = None then 0 else -1, e), w'))"

definition VgStarted :: "process \<Rightarrow> int" where
  "VgStarted w = (if pr_node w \<noteq> None then 1 else 0)"

definition VgOnline :: "process \<Rightarrow> int" where
  "VgOnline w = (case pr_node w of Some (i, n) \<Rightarrow> if ol_online n then 1 else 0 | None \<Rightarrow> 0)"

inductive process_step :: "process \<Rightarrow> process \<Rightarrow> bool" where
  ps_open: "process_step w (snd (openNode env fault out w))"
| ps_close: "process_step w (closeNode w)"
| ps_retry: "i \<in> set (pr_retries w) \<Longrightarrow> process_step w (retry_attempt out i w)"
| ps_over: "i \<in> set (pr_retries w) \<Longrightarrow> i \<notin> set (pr_ctxs w) \<Longrightarrow> process_step w (retry_cancelled i w)"

inductive_cases process_stepE: "process_step w v"

definition process_init :: "process \<Rightarrow> bool" where
  "process_init w \<longleftrightarrow> pr_node w = None \<and> pr_dbs w = [] \<and> pr_ctxs w = [] \<and> pr_retries w = [] \<and> pr_left w = []"

section \<open>One node, one store, one retry loop\<close>

text \<open>Between attempts nothing is open but a quarantine loop; online, what is open is what a close closes, or ends by itself.\<close>

definition net_ok :: "online_node \<Rightarrow> bool" where
  "net_ok n \<longleftrightarrow>
     (if ol_online n then set (ol_open n) \<subseteq> set (shut_by n) \<union> {Bitswap, Quarantine_loop}
      else set (ol_open n) \<subseteq> {Quarantine_loop} \<and> \<not> ol_mdns n \<and> \<not> ol_provider n)"

definition process_inv :: "process \<Rightarrow> bool" where
  "process_inv w \<longleftrightarrow>
     pr_dbs w = (case pr_node w of None \<Rightarrow> [] | Some (i, n) \<Rightarrow> [i]) \<and> pr_ctxs w = pr_dbs w \<and>
     distinct (pr_retries w) \<and> list_all (\<lambda>i. i < pr_next w) (pr_retries w) \<and>
     list_all (\<lambda>(i, rs). set rs \<subseteq> {Bitswap, Quarantine_loop}) (pr_left w) \<and>
     (case pr_node w of None \<Rightarrow> True | Some (i, n) \<Rightarrow>
        net_ok n \<and> i < pr_next w \<and> (i \<in> set (pr_retries w) \<longleftrightarrow> \<not> pr_offline w \<and> \<not> ol_online n))"

lemma goOnline_fresh_online:
  assumes "\<not> ol_online n" "goOnline True out n = (ok, m)"
  shows "ol_online m = ok"
proof (cases "failing True out")
  case (Some x)
  then have "goOnline True out n = (False, teardown (reached True out x n))" by (simp add: goOnline_failing)
  moreover have "\<not> ol_online (reached True out x n)"
    using assms(1) failing_step[OF Some] by (cases x) (simp_all add: reached_def up_to_def online_steps_def fresh_attempt_def)
  ultimately show ?thesis using assms(2) by (auto simp: teardown_def)
next
  case None
  then show ?thesis using assms(2)
    by (auto simp: goOnline_failing up_to_def online_steps_def fresh_attempt_def)
qed

lemma goOnline_net_ok:
  assumes "net_ok n" "\<not> ol_online n" "goOnline True out n = (ok, m)"
  shows "net_ok m"
proof (cases "failing True out")
  case None
  then have m: "m = up_to out (online_steps True) (fresh_attempt n)" using assms(3) by (simp add: goOnline_failing)
  show ?thesis using assms(1,2)
    by (auto simp: m net_ok_def shut_by_def up_to_def online_steps_def fresh_attempt_def)
next
  case (Some x)
  then have m: "m = teardown (reached True out x n)" using assms(3) by (simp add: goOnline_failing)
  show ?thesis using assms(1,2) failing_step[OF Some]
    by (cases x) (auto simp: m net_ok_def teardown_def closed_by_def teardown_order_def reached_def up_to_def online_steps_def fresh_attempt_def)
qed

lemma process_inv_init: "process_init w \<Longrightarrow> process_inv w"
  by (simp add: process_init_def process_inv_def)

lemma process_inv_open:
  assumes "process_inv w"
  shows "process_inv (snd (openNode env fault out w))"
proof (cases "pr_node w")
  case None
  have fresh: "\<not> ol_online fresh_node" by (simp add: fresh_node_def)
  obtain ok n where g: "goOnline True out fresh_node = (ok, n)" by fastforce
  have "net_ok fresh_node" by (simp add: net_ok_def fresh_node_def)
  then have "net_ok n" "net_ok fresh_node" using goOnline_net_ok[OF _ fresh g] by blast+
  moreover have "ol_online n = ok" by (rule goOnline_fresh_online[OF fresh g])
  ultimately show ?thesis using None assms fresh g
    by (auto simp: process_inv_def openNode_def Let_def list_all_iff split: bool.split)
qed (use assms in \<open>simp add: openNode_def\<close>)

lemma process_inv_close: "process_inv w \<Longrightarrow> process_inv (closeNode w)"
  by (auto simp: process_inv_def closeNode_def net_ok_def split: option.splits if_splits)

lemma process_inv_drop:
  assumes "process_inv w" "\<And>j n. pr_node w = Some (j, n) \<Longrightarrow> j \<noteq> i"
  shows "process_inv (w\<lparr>pr_retries := remove1 i (pr_retries w)\<rparr>)"
  using assms by (auto simp: process_inv_def list_all_iff split: option.splits dest: notin_set_remove1)

lemma process_inv_retry:
  assumes "process_inv w" "i \<in> set (pr_retries w)"
  shows "process_inv (retry_attempt out i w)"
proof (cases "pr_node w")
  case None
  then show ?thesis using process_inv_drop[OF assms(1), of i] by (simp add: retry_attempt_def)
next
  case (Some x)
  obtain j n where x: "x = (j, n)" by (cases x)
  show ?thesis
  proof (cases "j = i")
    case False
    then show ?thesis using process_inv_drop[OF assms(1), of i] Some x by (simp add: retry_attempt_def)
  next
    case True
    have off: "\<not> ol_online n" "\<not> pr_offline w" using assms True Some x by (auto simp: process_inv_def)
    obtain ok m where g: "goOnline True out n = (ok, m)" by fastforce
    have "net_ok n" using assms Some x by (simp add: process_inv_def)
    then have "net_ok m" by (rule goOnline_net_ok[OF _ off(1) g])
    moreover have "ol_online m = ok" by (rule goOnline_fresh_online[OF off(1) g])
    ultimately show ?thesis using assms True Some x off g
      by (auto simp: process_inv_def retry_attempt_def list_all_iff split: bool.split dest: notin_set_remove1)
  qed
qed

lemma process_inv_step: "process_inv w \<Longrightarrow> process_step w v \<Longrightarrow> process_inv v"
proof (erule process_stepE)
  fix i assume a: "process_inv w" "v = retry_cancelled i w" "i \<in> set (pr_retries w)" "i \<notin> set (pr_ctxs w)"
  then have "process_inv (w\<lparr>pr_retries := remove1 i (pr_retries w)\<rparr>)"
    by (intro process_inv_drop) (auto simp: process_inv_def)
  then show ?thesis using a(2) by (simp add: retry_cancelled_def)
qed (simp_all add: process_inv_open process_inv_close process_inv_retry)

interpretation process: step_invariant process_init process_step process_inv
  by unfold_locales (auto intro: process_inv_init process_inv_step)

text \<open>The number of a closed node is not used again.\<close>

definition left_inv :: "process \<Rightarrow> bool" where
  "left_inv w \<longleftrightarrow> process_inv w \<and> (\<forall>(i, rs) \<in> set (pr_left w). i < pr_next w \<and> i \<notin> set (pr_ctxs w))"

lemma left_inv_step: "left_inv w \<Longrightarrow> process_step w v \<Longrightarrow> left_inv v"
  unfolding left_inv_def
proof (intro conjI)
  assume a: "process_inv w \<and> (\<forall>(i, rs) \<in> set (pr_left w). i < pr_next w \<and> i \<notin> set (pr_ctxs w))" and t: "process_step w v"
  then show "process_inv v" using process_inv_step by blast
  from t show "\<forall>(i, rs) \<in> set (pr_left v). i < pr_next v \<and> i \<notin> set (pr_ctxs v)"
  proof (rule process_stepE)
    fix env fault out assume v: "v = snd (openNode env fault out w)"
    have "pr_left v = pr_left w \<and> pr_next w \<le> pr_next v \<and> set (pr_ctxs v) \<subseteq> insert (pr_next w) (set (pr_ctxs w))"
      unfolding v by (auto simp: openNode_def Let_def split: option.split prod.split bool.split)
    then show ?thesis using a by fastforce
  next
    assume "v = closeNode w"
    then show ?thesis using a by (auto simp: closeNode_def process_inv_def split: option.splits)
  next
    fix i out assume "v = retry_attempt out i w"
    then have "pr_left v = pr_left w \<and> pr_next v = pr_next w \<and> pr_ctxs v = pr_ctxs w"
      by (auto simp: retry_attempt_def split: option.split prod.split bool.split)
    then show ?thesis using a by simp
  qed (use a in \<open>simp add: retry_cancelled_def\<close>)
qed

interpretation left: step_invariant process_init process_step left_inv
  by unfold_locales (simp add: left_inv_def process_inv_init, simp add: process_init_def, fact left_inv_step)

lemma count_distinct: "distinct xs \<Longrightarrow> count_list xs x = (if x \<in> set xs then 1 else 0)"
  by (induction xs) (auto simp: count_list_0_iff)

text \<open>
  However it is opened, closed and retried: at most one datastore is open, and one context alive, those of the node in
  place; a node that wants the network and has none is being retried by exactly one loop, a node that has it, or wants
  none, by no loop.
\<close>

lemma one_node_one_store:
  assumes "reachable process_init process_step w"
  shows "length (pr_dbs w) \<le> 1" "pr_ctxs w = pr_dbs w" "VgStarted w = int (length (pr_dbs w))"
    and "pr_node w = Some (i, n) \<Longrightarrow> count_list (pr_retries w) i = (if pr_offline w \<or> ol_online n then 0 else 1)"
proof -
  note inv = process.reachable_inv[OF assms, unfolded process_inv_def]
  show "length (pr_dbs w) \<le> 1" "pr_ctxs w = pr_dbs w" "VgStarted w = int (length (pr_dbs w))"
    using inv by (auto simp: VgStarted_def split: option.splits)
  show "count_list (pr_retries w) i = (if pr_offline w \<or> ol_online n then 0 else 1)" if "pr_node w = Some (i, n)"
    using inv that by (simp add: count_distinct)
qed

text \<open>
  A close leaves no host, DHT, provider or mDNS open; bitswap it does not close, nor the quarantine loop, which end
  with the context.
\<close>

lemma close_leaves:
  assumes "reachable process_init process_step w" "(i, rs) \<in> set (pr_left w)"
  shows "set rs \<subseteq> {Bitswap, Quarantine_loop} \<and> i \<notin> set (pr_ctxs w)"
proof -
  note inv = process.reachable_inv[OF assms(1), unfolded process_inv_def]
  have "\<forall>(i, rs) \<in> set (pr_left w). i \<notin> set (pr_ctxs w)"
    using left.reachable_inv[OF assms(1)] by (auto simp: left_inv_def)
  then show ?thesis using inv assms(2) by (fastforce simp: list_all_iff)
qed

text \<open>A failed open leaves the process as it was; the second open of an open node changes nothing.\<close>

lemma open_failure_leaves_nothing:
  assumes "reachable process_init process_step w" "openNode env fault out w = (Some e, v)"
  shows "v = w\<lparr>pr_next := pr_next v\<rparr> \<and> fault = Some e \<and> pr_node v = None"
proof -
  have inv: "process_inv w" by (rule process.reachable_inv[OF assms(1)])
  have none: "pr_node w = None" using assms(2) by (auto simp: openNode_def split: option.splits)
  then have "pr_ctxs w = []" "pr_dbs w = []" using inv by (auto simp: process_inv_def)
  then show ?thesis using assms(2) none
    by (cases w; cases fault rule: option.exhaust; cases "the fault")
       (auto simp: openNode_def Let_def split: if_splits prod.splits bool.splits)
qed

lemma open_is_idempotent: "VgStarted w = 1 \<Longrightarrow> openNode env fault out w = (None, w)"
  by (auto simp: VgStarted_def openNode_def split: if_splits option.splits)

text \<open>A node is up after its open, with or without the network.\<close>

lemma open_without_network:
  assumes "pr_node w = None" "goOnline True out fresh_node = (False, n)"
  shows "fst (openNode False None out w) = None \<and> VgStarted (snd (openNode False None out w)) = 1 \<and>
    pr_next w \<in> set (pr_retries (snd (openNode False None out w)))"
  using assms by (simp add: openNode_def Let_def VgStarted_def)

text \<open>The loop of a node that has been replaced or closed ends at its next round, and touches no other node.\<close>

lemma stale_retry_harmless:
  assumes "\<And>n. pr_node w \<noteq> Some (i, n)"
  shows "retry_attempt out i w = w\<lparr>pr_retries := remove1 i (pr_retries w)\<rparr>"
  using assms by (auto simp: retry_attempt_def split: option.split)

text \<open>The first attempt that succeeds brings the node online and ends its loop.\<close>

lemma retry_brings_online:
  assumes "reachable process_init process_step w" "pr_node w = Some (i, n)" "failing True out = None"
    "i \<in> set (pr_retries w)"
  shows "VgOnline (retry_attempt out i w) = 1 \<and> i \<notin> set (pr_retries (retry_attempt out i w))"
proof -
  note inv = process.reachable_inv[OF assms(1), unfolded process_inv_def]
  have off: "\<not> ol_online n" using inv assms(2,4) by auto
  obtain ok m where g: "goOnline True out n = (ok, m)" by fastforce
  then have "ok" using assms(3) by (simp add: goOnline_failing)
  with goOnline_fresh_online[OF off g] show ?thesis
    using g inv assms(2) by (auto simp: retry_attempt_def VgOnline_def)
qed

end
