(* ===== verification/Dialing.thy ===== *)
theory Dialing
  imports NetGate Faults
begin

text \<open>
  What reaches for the network one call at a time: the announcements through the queue (\<open>queuedRouter\<close>,
  \<open>queuedSender\<close> of \<open>provide.go\<close>), the count of providers and the relays' source (\<open>online.go\<close>), and the dials of a friend, of
  the virtual LAN, of a provider found, of a peer on the LAN and of an address typed in (\<open>friend.go\<close>, \<open>overlay.go\<close>,
  \<open>warm.go\<close>, \<open>online.go\<close>, \<open>peers.go\<close>); and the ticker loops behind them. What a call does to the network is the list
  of its acts, in order; what the network answers is an argument.
\<close>

datatype ('p, 'a) act =
    Take_slot | Free_slot                     \<comment> \<open>a background slot of \<open>netq\<close>\<close>
  | Closest_walk | Find_providers | Find_peer 'p
  | Send 'p
  | Connect 'p "'a list" | Force_direct 'p "'a list"
  | Keep_addrs 'p "'a list" nanos | Clear_backoff 'p | Note_lan 'p

section \<open>Announcements through the queue\<close>

text \<open>\<open>granted\<close>: \<open>netq.acquire\<close> gave a slot before the context ended. \<open>None\<close> is the context's error.\<close>

definition GetClosestPeers :: "bool \<Rightarrow> 'p list option \<Rightarrow> ('p, 'a) act list \<times> 'p list option" where
  "GetClosestPeers granted found = (if granted then ([Take_slot, Closest_walk, Free_slot], found) else ([], None))"

text \<open>\<open>gate\<close>: the acts before the send and, when it may go on, those of the \<open>release\<close> it returns.\<close>

definition sender_gate :: "('p \<Rightarrow> bool) option \<Rightarrow> bool \<Rightarrow> 'p \<Rightarrow> ('p, 'a) act list \<times> ('p, 'a) act list option" where
  "sender_gate up granted p =
     (if (case up of None \<Rightarrow> False | Some f \<Rightarrow> f p) then ([], Some [])
      else if granted then ([Take_slot], Some [Free_slot])
      else ([], None))"

definition SendRequest :: "('p \<Rightarrow> bool) option \<Rightarrow> bool \<Rightarrow> 'p \<Rightarrow> 'r option \<Rightarrow> ('p, 'a) act list \<times> 'r option" where
  "SendRequest up granted p reply =
     (case sender_gate up granted p of
        (acts, None) \<Rightarrow> (acts, None)
      | (acts, Some release) \<Rightarrow> (acts @ [Send p] @ release, reply))"

definition SendMessage :: "('p \<Rightarrow> bool) option \<Rightarrow> bool \<Rightarrow> 'p \<Rightarrow> bool \<Rightarrow> ('p, 'a) act list \<times> bool" where
  "SendMessage up granted p sent =
     (case sender_gate up granted p of
        (acts, None) \<Rightarrow> (acts, False)
      | (acts, Some release) \<Rightarrow> (acts @ [Send p] @ release, sent))"

text \<open>\<open>providerCount\<close>: -1 without a DHT or a slot, else how many peers were named.\<close>

definition providerCount :: "bool \<Rightarrow> bool \<Rightarrow> 'p list \<Rightarrow> ('p, 'a) act list \<times> int" where
  "providerCount dht granted found =
     (if \<not> dht then ([], -1)
      else if \<not> granted then ([], -1)
      else ([Take_slot, Find_providers, Free_slot], int (length (remdups found))))"

text \<open>
  The rule of the queue: a walk, a provider search and a send to a peer without a connection happen under a slot; one
  slot at a time, and given back. \<open>held\<close> is the state between acts; \<open>None\<close> a breach.
\<close>

fun slot_run :: "('p \<Rightarrow> bool) \<Rightarrow> bool \<Rightarrow> ('p, 'a) act list \<Rightarrow> bool option" where
  "slot_run conn held [] = Some held"
| "slot_run conn held (Take_slot # xs) = (if held then None else slot_run conn True xs)"
| "slot_run conn held (Free_slot # xs) = (if held then slot_run conn False xs else None)"
| "slot_run conn held (Closest_walk # xs) = (if held then slot_run conn held xs else None)"
| "slot_run conn held (Find_providers # xs) = (if held then slot_run conn held xs else None)"
| "slot_run conn held (Send p # xs) = (if held \<or> conn p then slot_run conn held xs else None)"
| "slot_run conn held (x # xs) = slot_run conn held xs"

lemma slot_run_append:
  "slot_run conn held (xs @ ys) = (case slot_run conn held xs of None \<Rightarrow> None | Some h \<Rightarrow> slot_run conn h ys)"
  by (induction conn held xs rule: slot_run.induct) auto

lemma slots_respected:
  "slot_run conn False (fst (GetClosestPeers granted found)) = Some False"
  "slot_run conn False (fst (SendRequest (Some conn) granted p reply)) = Some False"
  "slot_run conn False (fst (SendMessage (Some conn) granted p sent)) = Some False"
  "slot_run conn False (fst (providerCount dht granted found')) = Some False"
  by (simp_all add: GetClosestPeers_def SendRequest_def SendMessage_def sender_gate_def providerCount_def)

text \<open>So does any sequence of them; and the slots taken are the sends without a connection and the walks.\<close>

lemma slots_respected_all:
  assumes "list_all (\<lambda>xs. slot_run conn False xs = Some False) xss"
  shows "slot_run conn False (concat xss) = Some False"
  using assms by (induction xss) (simp_all add: slot_run_append)

lemma sends_cost_dials:
  assumes "\<And>p. p \<in> set ps \<Longrightarrow> granted p"
  shows "count_list (concat (map (\<lambda>p. fst (SendMessage (Some conn) (granted p) p (sent p))) ps)) Take_slot
    = length (filter (\<lambda>p. \<not> conn p) ps)"
  using assms by (induction ps) (simp_all add: SendMessage_def sender_gate_def)

text \<open>A refused call sends nothing.\<close>

lemma refused_sends_nothing:
  "\<not> conn p \<Longrightarrow> SendRequest (Some conn) False p reply = ([], None) \<and> SendMessage (Some conn) False p sent = ([], False)"
  by (simp add: SendRequest_def SendMessage_def sender_gate_def)

text \<open>The sweeping provider: its keystore is closed when it cannot be made, and with it; the first error is returned.\<close>

datatype prov_part = Keystore | Sweeper

definition newSweepingProvider :: "bool \<Rightarrow> bool \<Rightarrow> prov_part list option \<times> prov_part list" where
  "newSweepingProvider keys_ok sweeper_ok =
     (if \<not> keys_ok then (None, [])
      else if \<not> sweeper_ok then (None, removeAll Keystore [Keystore])
      else (Some [Sweeper, Keystore], [Sweeper, Keystore]))"

definition closeSweeping :: "string option \<Rightarrow> string option \<Rightarrow> prov_part list \<Rightarrow> string option \<times> prov_part list" where
  "closeSweeping sweeper_err keys_err parts =
     (let err = sweeper_err; left = removeAll Sweeper parts in
      (if err = None then keys_err else err, removeAll Keystore left))"

lemma sweeping_leaves_nothing:
  "fst (newSweepingProvider k s) = None \<Longrightarrow> snd (newSweepingProvider k s) = []"
  "snd (closeSweeping e1 e2 (snd (newSweepingProvider k s))) = []"
  "fst (closeSweeping e1 e2 parts) = None \<longleftrightarrow> e1 = None \<and> e2 = None"
  by (auto simp: newSweepingProvider_def closeSweeping_def Let_def split: if_splits)

section \<open>Dials\<close>

datatype linkedness = NotConnected | Connected | Limited

definition linked :: "linkedness \<Rightarrow> bool" where
  "linked c \<longleftrightarrow> c = Connected \<or> c = Limited"

text \<open>
  \<open>dial\<close> of \<open>friend.go\<close> and \<open>dialPeer\<close> of \<open>overlay.go\<close>: \<open>router\<close> is \<open>None\<close> without one, else what \<open>FindPeer\<close> finds. The
  outcome: \<open>None\<close> before any connect, \<open>Some\<close> of what it was asked to connect to.
\<close>

datatype 'a dial_outcome = Already | Not_located | Dialed "'a list"

definition friend_dial :: "linkedness \<Rightarrow> 'a list option option \<Rightarrow> 'p \<Rightarrow> ('p, 'a) act list \<times> 'a dial_outcome" where
  "friend_dial c router p =
     (if linked c then ([], Already)
      else case router of
        Some None \<Rightarrow> ([Find_peer p], Not_located)
      | Some (Some addrs) \<Rightarrow> ([Find_peer p, Connect p addrs], Dialed addrs)
      | None \<Rightarrow> ([Connect p []], Dialed []))"

definition dialPeer :: "linkedness \<Rightarrow> 'a list option option \<Rightarrow> 'p \<Rightarrow> ('p, 'a) act list \<times> 'a dial_outcome" where
  "dialPeer c router p =
     (if linked c then ([], Already)
      else case router of
        Some None \<Rightarrow> ([Find_peer p], Not_located)
      | Some (Some addrs) \<Rightarrow> ([Find_peer p, Connect p addrs], Dialed addrs)
      | None \<Rightarrow> ([Connect p []], Dialed []))"

text \<open>\<open>dialPeerDirect\<close>: past any relayed link, and from the peerstore when the peer cannot be located.\<close>

definition dialPeerDirect :: "'a list option option \<Rightarrow> 'p \<Rightarrow> ('p, 'a) act list \<times> 'a dial_outcome" where
  "dialPeerDirect router p =
     (case router of
        Some (Some addrs) \<Rightarrow> ([Find_peer p, Force_direct p addrs], Dialed addrs)
      | Some None \<Rightarrow> ([Find_peer p, Force_direct p []], Dialed [])
      | None \<Rightarrow> ([Force_direct p []], Dialed []))"

lemma friend_and_lan_dial_alike: "friend_dial = dialPeer"
  by (intro ext) (simp add: friend_dial_def dialPeer_def)

text \<open>
  A relayed link is a link: no dial is spent on it but the upgrade, which always dials. A peer that cannot be located is
  given up by the first, not by the second, even with its address in the peerstore.
\<close>

lemma dials_spared:
  "linked c \<Longrightarrow> dialPeer c router p = ([], Already)"
  "snd (dialPeerDirect router p) \<noteq> Already \<and> snd (dialPeerDirect router p) \<noteq> Not_located"
  "\<not> linked c \<Longrightarrow> snd (dialPeer c (Some None) p) = Not_located \<and> snd (dialPeerDirect (Some None) p) = Dialed []"
  by (auto simp: dialPeer_def dialPeerDirect_def split: option.split)

section \<open>Providers found\<close>

definition recordTTL :: nanos where "recordTTL = minutes 10"

definition dialWarm :: "'p \<Rightarrow> 'a list \<Rightarrow> ('p, 'a) act list" where
  "dialWarm p addrs = [Clear_backoff p, Connect p addrs]"

text \<open>
  \<open>freshenAndConnect\<close>: \<open>c0\<close> the link before, \<open>c1\<close> after the walk, \<open>found\<close> what the walk brought. First the acts of the
  call, then those of the dial it starts beside them.
\<close>

definition freshenAndConnect ::
  "linkedness \<Rightarrow> linkedness \<Rightarrow> 'p \<Rightarrow> 'a list \<Rightarrow> 'a list option \<Rightarrow> ('p, 'a) act list \<times> ('p, 'a) act list" where
  "freshenAndConnect c0 c1 p addrs found =
     (if linked c0 then ([], [])
      else ((if addrs \<noteq> [] then [Keep_addrs p addrs recordTTL] else []) @ [Find_peer p] @
              (case found of None \<Rightarrow> []
               | Some fresh \<Rightarrow> if fresh \<noteq> [] \<and> \<not> linked c1 then Keep_addrs p fresh recordTTL # dialWarm p fresh else []),
            if addrs \<noteq> [] then dialWarm p addrs else []))"

text \<open>Every connect is to addresses there are, kept first, with the backoff cleared right before it.\<close>

lemma warm_connects:
  assumes "freshenAndConnect c0 c1 p addrs found = (main, beside)" "Connect q as \<in> set (main @ beside)"
  shows "q = p \<and> as \<noteq> [] \<and> Keep_addrs p as recordTTL \<in> set main \<and> \<not> linked c0 \<and> (as = addrs \<or> found = Some as \<and> \<not> linked c1)"
  using assms by (auto simp: freshenAndConnect_def dialWarm_def split: if_splits option.splits)

lemma warm_clears_backoff:
  assumes "freshenAndConnect c0 c1 p addrs found = (main, beside)"
  shows "count_list (main @ beside) (Clear_backoff p) = length (filter (\<lambda>x. \<exists>as. x = Connect p as) (main @ beside))"
  using assms by (auto simp: freshenAndConnect_def dialWarm_def split: if_splits option.splits)

section \<open>Peers by address\<close>

datatype connect_error = Node_offline | Bad_multiaddr | No_peer_id

text \<open>\<open>connect\<close>: \<open>addr\<close> parses or not, to a peer with its addresses or not.\<close>

definition connect_to :: "bool \<Rightarrow> ('p \<times> 'a list) option option \<Rightarrow> connect_error + ('p, 'a) act list" where
  "connect_to host addr =
     (if \<not> host then Inl Node_offline
      else case addr of
        None \<Rightarrow> Inl Bad_multiaddr
      | Some None \<Rightarrow> Inl No_peer_id
      | Some (Some (p, as)) \<Rightarrow> Inr [Note_lan p, Connect p as])"

definition HandlePeerFound :: "'p \<Rightarrow> 'a list \<Rightarrow> ('p, 'a) act list" where
  "HandlePeerFound p as = [Keep_addrs p as (minutes 60), Note_lan p, Connect p as]"

text \<open>The peers noted by the acts, and what the dial filter then says.\<close>

fun note_acts :: "nanos \<Rightarrow> ('p, 'a) act list \<Rightarrow> 'p expiries \<Rightarrow> 'p expiries" where
  "note_acts now [] m = m"
| "note_acts now (Note_lan p # xs) m = note_acts now xs (noteLanPeer p now m)"
| "note_acts now (x # xs) m = note_acts now xs m"

text \<open>
  A peer asked for by address, or met on the LAN, passes the filter of private addresses for an hour; a stranger's
  private address does not.
\<close>

lemma by_address_passes:
  assumes "connect_to True addr = Inr acts \<or> acts = HandlePeerFound p as" "Connect p as \<in> set acts" "t \<le> now + minutes 60"
  shows "fst (InterceptAddrDial (Some True) a friends p t (note_acts now acts m))"
  using assms
  by (auto simp: connect_to_def HandlePeerFound_def InterceptAddrDial_def isLanPeer_def is_fresh_def noteLanPeer_def
      note_expiry_def lanPeerTTL_def split: option.splits if_splits prod.splits)

text \<open>
  \<open>relayPeerSource\<close>: the peers of the routing table that have an address, until enough were sent; \<open>room\<close>: how many the
  asker takes before its context ends. The count is looked at after a send.
\<close>

fun relayPeers :: "nat \<Rightarrow> nat \<Rightarrow> nat \<Rightarrow> ('p \<times> 'a list) list \<Rightarrow> ('p \<times> 'a list) list" where
  "relayPeers num sent room [] = []"
| "relayPeers num sent room ((p, as) # ps) =
     (if as = [] then relayPeers num sent room ps
      else case room of
        0 \<Rightarrow> []
      | Suc r \<Rightarrow> (p, as) # (if Suc sent \<ge> num then [] else relayPeers num (Suc sent) r ps))"

definition relayPeerSource :: "bool \<Rightarrow> nat \<Rightarrow> nat \<Rightarrow> ('p \<times> 'a list) list \<Rightarrow> ('p \<times> 'a list) list" where
  "relayPeerSource online num room table = (if \<not> online then [] else relayPeers num 0 room table)"

lemma relayPeers_take:
  "sent < num \<Longrightarrow> relayPeers num sent room ps = take (min room (num - sent)) (filter (\<lambda>(p, as). as \<noteq> []) ps)"
proof (induction num sent room ps rule: relayPeers.induct)
  case (2 num sent room p as ps)
  then show ?case by (cases room) (auto simp: Suc_diff_Suc[symmetric] not_le)
qed simp

text \<open>No more than asked for, in the table's order, each with an address; all of them when the asker takes them.\<close>

lemma relay_source_exact:
  "0 < num \<Longrightarrow> relayPeerSource True num room table = take (min room num) (filter (\<lambda>(p, as). as \<noteq> []) table)"
  by (simp add: relayPeerSource_def relayPeers_take)

section \<open>One line per connection\<close>

text \<open>\<open>connsDump\<close>, the two words that matter of each line: relayed or direct, and the transport.\<close>

datatype conn_transport = Tcp | Quic | Ws

record conn_addr =
  ca_circuit :: bool
  ca_quic :: bool
  ca_ws :: bool

definition conn_kind :: "conn_addr \<Rightarrow> bool \<times> conn_transport" where
  "conn_kind a = (ca_circuit a, if ca_quic a then Quic else if ca_ws a then Ws else Tcp)"

definition connsDump :: "bool \<Rightarrow> ('p \<times> conn_addr) list \<Rightarrow> ('p \<times> bool \<times> conn_transport) list option" where
  "connsDump host cs = (if \<not> host then None else Some (map (\<lambda>(p, a). (p, conn_kind a)) cs))"

definition swarmPeerCount :: "bool \<Rightarrow> 'p list \<Rightarrow> nat" where
  "swarmPeerCount host ps = (if \<not> host then 0 else length ps)"

section \<open>Ticker loops\<close>

text \<open>
  A loop woken by a ticker until its context ends. \<open>run\<close> of \<open>overlaylink.go\<close> guards each tick; \<open>provideRetryLoop\<close> and
  \<open>run\<close> of \<open>quarantine.go\<close> are guarded as a whole, by \<open>safeGo\<close>. Each tick is done or panics.
\<close>

fun guarded_loop :: "('s \<Rightarrow> 's outcome_of) list \<Rightarrow> 's \<Rightarrow> 's" where
  "guarded_loop [] s = s"
| "guarded_loop (t # ts) s = guarded_loop ts (case t s of Returned u \<Rightarrow> u | Panicked \<Rightarrow> s)"

fun bare_loop :: "('s \<Rightarrow> 's outcome_of) list \<Rightarrow> 's \<Rightarrow> 's \<times> bool" where
  "bare_loop [] s = (s, True)"
| "bare_loop (t # ts) s = (case t s of Returned u \<Rightarrow> bare_loop ts u | Panicked \<Rightarrow> (s, False))"

definition provideRetryTick :: "('s \<Rightarrow> 's outcome_of) \<Rightarrow> ('s \<Rightarrow> 's outcome_of) \<Rightarrow> 's \<Rightarrow> 's outcome_of" where
  "provideRetryTick confirm flush s = (case confirm s of Returned u \<Rightarrow> flush u | Panicked \<Rightarrow> Panicked)"

definition provideRetryLoop :: "('s \<Rightarrow> 's outcome_of) \<Rightarrow> ('s \<Rightarrow> 's outcome_of) \<Rightarrow> nat \<Rightarrow> 's \<Rightarrow> 's \<times> bool" where
  "provideRetryLoop confirm flush n = bare_loop (replicate n (provideRetryTick confirm flush))"

lemma guarded_loop_append: "guarded_loop (xs @ ys) s = guarded_loop ys (guarded_loop xs s)"
  by (induction xs arbitrary: s) simp_all

text \<open>Without a panic the two are one; a guarded loop does the ticks after a panic, a bare one none of them.\<close>

lemma loops_agree: "snd (bare_loop ts s) \<Longrightarrow> fst (bare_loop ts s) = guarded_loop ts s"
  by (induction ts arbitrary: s) (auto split: outcome_of.splits)

lemma bare_loop_append:
  "bare_loop (xs @ ys) s = (case bare_loop xs s of (u, True) \<Rightarrow> bare_loop ys u | (u, False) \<Rightarrow> (u, False))"
  by (induction xs arbitrary: s) (auto split: outcome_of.splits)

lemma panicked_tick_ends_loop:
  assumes "snd (bare_loop before s)" "t (guarded_loop before s) = Panicked"
  shows "bare_loop (before @ t # after) s = (guarded_loop before s, False)"
    and "guarded_loop (before @ t # after) s = guarded_loop after (guarded_loop before s)"
  using assms loops_agree[OF assms(1)]
  by (auto simp: bare_loop_append guarded_loop_append split: prod.split bool.split)

lemma retry_loop_dies: "confirm s = Panicked \<Longrightarrow> provideRetryLoop confirm flush (Suc n) s = (s, False)"
  by (simp add: provideRetryLoop_def provideRetryTick_def)

end
