(* ===== verification/ApiNode.thy ===== *)
theory ApiNode
  imports Api AddTree Uploads Health Handoff FriendLan Gateway Ipns Dialing
begin

text \<open>
  The rest of the C ABI: sizes (\<open>query.go\<close>), the seed levels, the questions about peers and uploads, the identity and
  the names (\<open>api.go\<close>), and the LAN of a game (\<open>api_overlay.go\<close>). A call looks for the node first, then reads its
  arguments, then asks the part that knows.
\<close>

section \<open>Sizes\<close>

text \<open>
  What the decoder of a node says: the size of all it leads to, and the length of the file it is the root of. A raw
  block is its own file.
\<close>

record size_reader =
  dag_size :: "bytes \<Rightarrow> int option"
  unixfs_size :: "bytes \<Rightarrow> int option"

definition size_or :: "int option \<Rightarrow> int" where
  "size_or x = (case x of None \<Rightarrow> -1 | Some n \<Rightarrow> n)"

definition node_size :: "boxo \<Rightarrow> size_reader \<Rightarrow> cid \<Rightarrow> bytes \<Rightarrow> int option" where
  "node_size E R c b =
     (case codec_of c of Raw \<Rightarrow> Some (int (length b))
      | DagPb \<Rightarrow> if links_of E b = None then None else dag_size R b)"

definition cidSizeLocal :: "boxo \<Rightarrow> size_reader \<Rightarrow> store \<Rightarrow> cid \<Rightarrow> int" where
  "cidSizeLocal E R s c = (case block_get E s c of None \<Rightarrow> -1 | Some b \<Rightarrow> size_or (node_size E R c b))"

definition cidFileSizeLocal :: "boxo \<Rightarrow> size_reader \<Rightarrow> store \<Rightarrow> cid \<Rightarrow> int" where
  "cidFileSizeLocal E R s c =
     (case block_get E s c of
        None \<Rightarrow> -1
      | Some b \<Rightarrow>
          (case codec_of c of Raw \<Rightarrow> int (length b)
           | DagPb \<Rightarrow> if links_of E b = None then -1 else size_or (unixfs_size R b)))"

text \<open>\<open>net\<close>: the root block, from the store or over bitswap, if it comes in time; then the gateways are asked.\<close>

definition cidSize :: "boxo \<Rightarrow> size_reader \<Rightarrow> (cid \<Rightarrow> bytes option) \<Rightarrow> (int \<times> int) option list \<Rightarrow> cid \<Rightarrow> int" where
  "cidSize E R net gws c =
     (case (case net c of None \<Rightarrow> None | Some b \<Rightarrow> node_size E R c b) of
        Some n \<Rightarrow> n | None \<Rightarrow> gatewaySize gws)"

text \<open>
  The two local answers agree on a raw block, and know nothing of what the store cannot read: a reference to a file
  that is gone has no size.
\<close>

lemma raw_sizes:
  "block_get E s (Cid Raw h) = Some b \<Longrightarrow>
   cidSizeLocal E R s (Cid Raw h) = int (length b) \<and> cidFileSizeLocal E R s (Cid Raw h) = int (length b)"
  by (simp add: cidSizeLocal_def cidFileSizeLocal_def node_size_def size_or_def)

lemma unreadable_no_size:
  "block_get E s c = None \<Longrightarrow> cidSizeLocal E R s c = -1 \<and> cidFileSizeLocal E R s c = -1"
  by (simp add: cidSizeLocal_def cidFileSizeLocal_def)

text \<open>A file of one chunk that was added and is unchanged has the size it has on disk.\<close>

lemma added_chunk_size:
  assumes "map_of (st_refs s) h = Some r" "map_of (st_plain s) h = None"
    and "map_of (st_disk s) (st_root s @ r_path r) = Some f" "read_ref E h (r_off r) (r_size r) f = Some f"
  shows "cidFileSizeLocal E R s (Cid Raw h) = int (length f)"
  using assms by (simp add: cidFileSizeLocal_def block_get_def ref_get_def)

text \<open>What the node can read it answers without a gateway, and the same as locally.\<close>

lemma size_known_locally:
  assumes "cidSizeLocal E R s c \<noteq> -1" "\<And>d. block_get E s d \<noteq> None \<Longrightarrow> net d = block_get E s d"
  shows "cidSize E R net gws c = cidSizeLocal E R s c"
  using assms(1) assms(2)[of c] by (auto simp: cidSizeLocal_def cidSize_def size_or_def split: option.splits)

section \<open>Calls that answer a number\<close>

definition ask_size :: "boxo \<Rightarrow> string \<Rightarrow> (store \<Rightarrow> cid \<Rightarrow> int) \<Rightarrow> store option \<Rightarrow> int" where
  "ask_size E text f n =
     (case n of None \<Rightarrow> -1 | Some s \<Rightarrow> (case decode_cid E text of None \<Rightarrow> -1 | Some c \<Rightarrow> f s c))"

definition VgCidSizeLocal :: "boxo \<Rightarrow> size_reader \<Rightarrow> string \<Rightarrow> store option \<Rightarrow> int" where
  "VgCidSizeLocal E R text = ask_size E text (cidSizeLocal E R)"

definition VgCidFileSizeLocal :: "boxo \<Rightarrow> size_reader \<Rightarrow> string \<Rightarrow> store option \<Rightarrow> int" where
  "VgCidFileSizeLocal E R text = ask_size E text (cidFileSizeLocal E R)"

definition VgCidSize ::
  "boxo \<Rightarrow> size_reader \<Rightarrow> (store \<Rightarrow> cid \<Rightarrow> bytes option) \<Rightarrow> (int \<times> int) option list \<Rightarrow> string \<Rightarrow> store option \<Rightarrow> int" where
  "VgCidSize E R net gws text = ask_size E text (\<lambda>s c. cidSize E R (net s) gws c)"

definition VgProviderCount :: "boxo \<Rightarrow> bool \<Rightarrow> bool \<Rightarrow> (cid \<Rightarrow> 'p list) \<Rightarrow> string \<Rightarrow> store option \<Rightarrow> int" where
  "VgProviderCount E dht granted found text =
     ask_size E text (\<lambda>s c. snd (providerCount dht granted (found c) :: ('p, unit) act list \<times> int))"

definition VgAddNoCopyMeta ::
  "boxo \<Rightarrow> (bytes \<Rightarrow> import) \<Rightarrow> tree_fault option \<Rightarrow> path \<Rightarrow> (string \<times> ftree) list \<Rightarrow> store option \<Rightarrow> reply \<times> store option" where
  "VgAddNoCopyMeta E imp fault p es =
     with_node (\<lambda>s. case addMetaNoCopy E imp fault p es s of
        (Inl e, t) \<Rightarrow> (fail Op_failed, t) | (Inr c, t) \<Rightarrow> ((0, A_cid c, None), t))"

text \<open>A count that is not known is -1, and only that: no node, no CID, no DHT, no slot.\<close>

lemma provider_count_known:
  "VgProviderCount E dht granted found text n = -1 \<longleftrightarrow> n = None \<or> decode_cid E text = None \<or> \<not> dht \<or> \<not> granted"
  by (auto simp: VgProviderCount_def ask_size_def providerCount_def split: option.split)

section \<open>Calls on the uploads and the failures\<close>

definition VgSeedAnnounced :: "'c \<Rightarrow> ('c, 'k) up_node option \<Rightarrow> int" where
  "VgSeedAnnounced c n = (case n of None \<Rightarrow> 0 | Some s \<Rightarrow> if seedAnnounced c s then 1 else 0)"

definition VgActiveUploads :: "int \<Rightarrow> int \<Rightarrow> ('c, 'k) up_node option \<Rightarrow> 'c list \<times> ('c, 'k) up_node option" where
  "VgActiveUploads now windowMs n =
     (case n of None \<Rightarrow> ([], None) | Some s \<Rightarrow> (case activeUploads now windowMs s of (cs, t) \<Rightarrow> (cs, Some t)))"

definition VgServeFailures :: "failureLog option \<Rightarrow> serveFailure list \<times> failureLog option" where
  "VgServeFailures n = (case n of None \<Rightarrow> ([], None) | Some l \<Rightarrow> (case drain l of (fs, l') \<Rightarrow> (fs, Some l')))"

section \<open>Calls on the identity and the names\<close>

definition VgIpnsResolve ::
  "'r ipns_lib \<Rightarrow> (string \<Rightarrow> string option) \<Rightarrow> string \<Rightarrow> bytes option \<Rightarrow> http_reply list \<Rightarrow> write_fate \<Rightarrow> ipns option \<Rightarrow>
   (int \<times> resolve_out option) \<times> ipns option" where
  "VgIpnsResolve L parse_name name dht gs fate n =
     (case n of None \<Rightarrow> ((-1, None), None)
      | Some s \<Rightarrow> (case ipnsResolve L parse_name name dht gs fate s of
          (r, t) \<Rightarrow> ((case r of Resolved v sq \<Rightarrow> 0 | _ \<Rightarrow> -1, Some r), Some t)))"

definition VgExportIdentity :: "(bytes \<Rightarrow> bool) \<Rightarrow> identity option \<Rightarrow> int \<times> bytes option" where
  "VgExportIdentity is_key n =
     (case n of None \<Rightarrow> (-1, None)
      | Some s \<Rightarrow> (case exportIdentity is_key s of None \<Rightarrow> (-1, None) | Some b \<Rightarrow> (0, Some b)))"

definition VgImportIdentity :: "(bytes \<Rightarrow> bool) \<Rightarrow> bytes option \<Rightarrow> bool \<Rightarrow> import_fault \<Rightarrow> identity option \<Rightarrow> int \<times> identity option" where
  "VgImportIdentity is_key src prev_ok fault n =
     (case n of None \<Rightarrow> (-1, None)
      | Some s \<Rightarrow> (case importIdentity is_key src prev_ok fault s of (ok, t) \<Rightarrow> (if ok then 0 else -1, Some t)))"

section \<open>The seed levels\<close>

text \<open>
  Each argument is a JSON list of CIDs; \<open>None\<close>: it does not parse, which the call takes for an empty list. An entry
  that is no CID is passed over. The call records the lists and starts the hand-over.
\<close>

definition seed_cids :: "(string \<Rightarrow> 'c option) \<Rightarrow> string list option \<Rightarrow> 'c list" where
  "seed_cids decode js = (case js of None \<Rightarrow> [] | Some xs \<Rightarrow> List.map_filter decode xs)"

record 'c seed_levels =
  sl_colls :: "'c list"
  sl_pkgs :: "'c list"
  sl_started :: bool

definition setSeedLevels :: "'c list \<Rightarrow> 'c list \<Rightarrow> 'c seed_levels \<Rightarrow> 'c seed_levels" where
  "setSeedLevels colls pkgs s = s\<lparr>sl_colls := colls, sl_pkgs := pkgs, sl_started := True\<rparr>"

definition VgSetSeedLevels ::
  "(string \<Rightarrow> 'c option) \<Rightarrow> string list option \<Rightarrow> string list option \<Rightarrow> 'c seed_levels option \<Rightarrow> int \<times> 'c seed_levels option" where
  "VgSetSeedLevels decode colls pkgs n =
     (case n of None \<Rightarrow> (-1, None)
      | Some s \<Rightarrow> (0, Some (setSeedLevels (seed_cids decode colls) (seed_cids decode pkgs) s)))"

definition hand_over :: "'c seed_levels \<Rightarrow> 'c list \<times> bool \<Rightarrow> 'c provideState \<Rightarrow> 'c provideState" where
  "hand_over s pins ps = runSeedAnnounce (sl_colls s) (sl_pkgs s) pins ps"

lemma startProviding_handed: "pv_handed (startProviding ks ps) = pv_handed ps \<union> set ks"
  by (simp add: startProviding_def offerProvides_def)

lemma startProviding_rest:
  "pv_seeded (startProviding ks ps) = pv_seeded ps" "pv_pruneWith (startProviding ks ps) = pv_pruneWith ps"
  "pv_leftover (startProviding ks ps) = pv_leftover ps"
  by (simp_all add: startProviding_def offerProvides_def)

text \<open>The pins, and all that is listed, are handed over; a leftover is given up when it is neither.\<close>

lemma hand_over_keeps:
  "pv_handed (hand_over s pins ps) = pv_handed ps \<union> set (sl_colls s) \<union> set (sl_pkgs s) \<union> set (fst pins)"
  by (auto simp: hand_over_def runSeedAnnounce_def Let_def startProviding_handed unlisted_def)

lemma leftovers_given_up:
  assumes "pv_leftover ps = Some left" "pv_pruneWith ps"
  shows "set (fst (drop_stale (hand_over s (pins, False) ps))) =
    set left - (pv_handed ps \<union> set (sl_colls s) \<union> set (sl_pkgs s) \<union> set pins)"
  using assms hand_over_keeps[of s "(pins, False)" ps]
  by (auto simp: drop_stale_def Let_def hand_over_def runSeedAnnounce_def startProviding_rest)

text \<open>
  The hand-over prunes nothing when the list of pins fails, because that list would then be short. A list of the
  application that does not parse is as short, and prunes: every node block of an earlier run that is not pinned is no
  longer provided, and the call has returned 0.
\<close>

lemma unparsed_list_gives_up:
  assumes "pv_leftover ps = Some left" "pv_pruneWith ps" "k \<in> set left" "k \<notin> pv_handed ps" "k \<notin> set pins"
  shows "\<exists>s'. VgSetSeedLevels decode None None (Some s) = (0, Some s') \<and>
    k \<in> set (fst (drop_stale (hand_over s' (pins, False) ps)))"
  using assms leftovers_given_up[OF assms(1,2), of "setSeedLevels [] [] s" pins]
  by (simp add: VgSetSeedLevels_def seed_cids_def setSeedLevels_def)

lemma failed_pins_give_up_nothing:
  "\<not> pv_seeded ps \<Longrightarrow> fst (drop_stale (hand_over s (pins, True) ps)) = []"
  by (simp add: hand_over_def runSeedAnnounce_def Let_def drop_stale_def startProviding_rest)

section \<open>The LAN of a game\<close>

record 'p lan_service =
  ls_routes :: "'p overlay_routes"
  ls_ho :: handoff
  ls_gwWant :: bool
  ls_relayWant :: bool

text \<open>\<open>lan\<close>: what \<open>lanConfig\<close> gives. \<open>None\<close> in place of an error is success.\<close>

definition VgOverlayServe ::
  "(ip4 \<times> string \<times> (ip4 \<times> 's) list) option \<Rightarrow> (string \<Rightarrow> (ip4 \<times> ip4) option) \<Rightarrow> ('s \<Rightarrow> 'p option) \<Rightarrow> string \<Rightarrow> bool
   \<Rightarrow> bool \<Rightarrow> bool \<Rightarrow> 'p lan_service option \<Rightarrow> lan_error option \<times> 'p lan_service option" where
  "VgOverlayServe lan parse decode path listens bridge relay n =
     (case n of
        None \<Rightarrow> (Some Net_offline, None)
      | Some s \<Rightarrow>
          (case lan of None \<Rightarrow> (Some No_lan, n)
           | Some (vip, subnet, table) \<Rightarrow>
               (case ov_configure decode vip (parse subnet) table (ls_routes s) of
                  None \<Rightarrow> (Some Bad_peer, n)
                | Some ov \<Rightarrow>
                    (let s1 = s\<lparr>ls_routes := ov, ls_gwWant := bridge, ls_relayWant := relay\<rparr>;
                         ho = serve_listen path listens (ls_ho s1) in
                     if \<not> listens then (Some Listen_failed, Some (s1\<lparr>ls_ho := ho\<rparr>))
                     else (None, Some (s1\<lparr>ls_ho := serve_note (ho_next (ls_ho s1)) path ho\<rparr>))))))"

definition VgOverlayStop :: "'p lan_service option \<Rightarrow> 'p lan_service option" where
  "VgOverlayStop n = map_option (\<lambda>s. s\<lparr>ls_ho := ho_detach (ls_ho s)\<rparr>) n"

definition VgOverlayActive :: "'p lan_service option \<Rightarrow> int" where
  "VgOverlayActive n = (case n of None \<Rightarrow> 0 | Some s \<Rightarrow> if tn_running (ho_tun (ls_ho s)) then 1 else 0)"

text \<open>\<open>VgLanLaunchVars\<close>: nothing without a social state and a host.\<close>

definition VgLanLaunchVars :: "(string \<Rightarrow> byte \<times> byte) \<Rightarrow> string option \<Rightarrow> string socialState option \<Rightarrow> string set \<Rightarrow> launch_vars option" where
  "VgLanLaunchVars sha self social excluded =
     (case self of None \<Rightarrow> None | Some p \<Rightarrow> (case social of None \<Rightarrow> None | Some b \<Rightarrow> lanLaunchVarsFrom sha p (Some b) excluded))"

text \<open>The calls keep the handoff a run of its steps; a serve that succeeds leaves one socket, at its path.\<close>

lemma overlay_calls_reachable:
  assumes "reachable ho_init ho_step (ls_ho s)"
  shows "VgOverlayServe lan parse decode path listens bridge relay (Some s) = (e, Some t) \<Longrightarrow> reachable ho_init ho_step (ls_ho t)"
    and "VgOverlayStop (Some s) = Some t \<Longrightarrow> reachable ho_init ho_step (ls_ho t) \<and> VgOverlayActive (Some t) = 0"
proof -
  have l: "reachable ho_init ho_step (serve_listen path listens (ls_ho s))"
    by (rule reach_step[OF assms]) (rule ho_listen)
  have n: "reachable ho_init ho_step (serve_note (ho_next (ls_ho s)) path (serve_listen path True (ls_ho s)))"
    using ho_served_reachable[OF assms] by (simp add: ho_served_def)
  show "VgOverlayServe lan parse decode path listens bridge relay (Some s) = (e, Some t) \<Longrightarrow> reachable ho_init ho_step (ls_ho t)"
    using l n assms by (auto simp: VgOverlayServe_def Let_def split: option.splits if_splits)
  show "VgOverlayStop (Some s) = Some t \<Longrightarrow> reachable ho_init ho_step (ls_ho t) \<and> VgOverlayActive (Some t) = 0"
    using reach_step[OF assms ho_stop] by (auto simp: VgOverlayStop_def VgOverlayActive_def tun_detach_def)
qed

lemma served_socket:
  assumes "VgOverlayServe lan parse decode path listens bridge relay (Some s) = (None, Some t)"
  shows "ho_sock (ls_ho t) = Some (ho_next (ls_ho s), path) \<and> ho_paths (ls_ho t) path = Some (ho_next (ls_ho s)) \<and>
    ls_gwWant t = bridge \<and> ls_relayWant t = relay"
  using assms by (auto simp: VgOverlayServe_def Let_def serve_listen_def serve_note_def split: option.splits if_splits)

text \<open>
  Unlike \<open>VgOverlayStart\<close>, a serve whose socket fails is not undone: the routes and the wishes are the new ones, under
  whatever LAN is running, and the file that was at the path is gone.
\<close>

lemma failed_serve_not_undone:
  assumes "ov_configure decode vip (parse subnet) table (ls_routes s) = Some ov"
  shows "VgOverlayServe (Some (vip, subnet, table)) parse decode path False bridge relay (Some s) =
    (Some Listen_failed, Some (s\<lparr>ls_routes := ov, ls_gwWant := bridge, ls_relayWant := relay,
       ls_ho := (ls_ho s)\<lparr>ho_paths := (ho_paths (ls_ho s))(path := None)\<rparr>\<rparr>))"
  using assms by (simp add: VgOverlayServe_def serve_listen_def)

end
