(* ===== verification/Diagnostics.thy ===== *)
theory Diagnostics
  imports Health NetGate Resolver
begin

text \<open>
  What the node says of itself when asked to by the environment: the changes of the network counters
  (\<open>netstats.go\<close>), who may read the profiles (\<open>memtrace.go\<close>), and the benchmark's filter and snapshot (\<open>bench.go\<close>). The
  texts are reduced to the values they show.
\<close>

section \<open>The network counters\<close>

text \<open>A snapshot has the sixteen counters in the order of \<open>snapshot\<close>; the line shows them in an order of its own.\<close>

type_synonym netSnapshot = "int list"

definition line_order :: "nat list" where
  "line_order = [12, 13, 14, 15, 0, 10, 1, 2, 3, 4, 5, 6, 8, 7, 9, 11]"

record net_line =
  nl_deltas :: "int list"
  nl_peers :: nat
  nl_queue :: "nat \<times> nat \<times> nat"    \<comment> \<open>active, slots, waiting\<close>

definition netStatsLine :: "netSnapshot \<Rightarrow> netSnapshot \<Rightarrow> nat \<Rightarrow> nat \<times> nat \<times> nat \<Rightarrow> net_line option" where
  "netStatsLine prev cur peers q =
     (if prev = cur then None
      else Some \<lparr>nl_deltas = map (\<lambda>i. cur ! i - prev ! i) line_order, nl_peers = peers, nl_queue = q\<rparr>)"

text \<open>\<open>logNetStats\<close>: one look per tick, from the snapshot of the start.\<close>

fun logNetStats :: "netSnapshot \<Rightarrow> (netSnapshot \<times> nat \<times> (nat \<times> nat \<times> nat)) list \<Rightarrow> net_line list" where
  "logNetStats prev [] = []"
| "logNetStats prev ((cur, peers, q) # ts) =
     (case netStatsLine prev cur peers q of None \<Rightarrow> [] | Some l \<Rightarrow> [l]) @ logNetStats cur ts"

text \<open>Every counter is on the line once.\<close>

lemma line_order_all: "distinct line_order \<and> set line_order = {..<16}"
proof
  show "distinct line_order" by (simp add: line_order_def)
  have "{..<16 :: nat} = set [0..<16]" by auto
  also have "[0..<16] = [0, 1, 2, 3, 4, 5, 6, 7, 8, 9, 10, 11, 12, 13, 14, 15 :: nat]" by (simp add: upt_rec)
  finally show "set line_order = {..<16}" by (simp add: line_order_def) blast
qed

text \<open>
  The lines add up: over any run, what is printed of a counter is what it grew by, ticks without a change printing
  nothing.
\<close>

definition printed :: "nat \<Rightarrow> net_line list \<Rightarrow> int" where
  "printed k ls = sum_list (map (\<lambda>l. nl_deltas l ! k) ls)"

lemma net_lines_add_up:
  assumes "k < 16"
  shows "printed k (logNetStats prev ts) = (if ts = [] then prev else fst (last ts)) ! (line_order ! k) - prev ! (line_order ! k)"
proof (induction prev ts rule: logNetStats.induct)
  case (2 prev cur peers q ts)
  have n: "k < length line_order" using assms by (simp add: line_order_def)
  have step: "printed k (case netStatsLine prev cur peers q of None \<Rightarrow> [] | Some l \<Rightarrow> [l]) = cur ! (line_order ! k) - prev ! (line_order ! k)"
    using n by (simp add: netStatsLine_def printed_def)
  have "printed k (logNetStats prev ((cur, peers, q) # ts)) =
    printed k (case netStatsLine prev cur peers q of None \<Rightarrow> [] | Some l \<Rightarrow> [l]) + printed k (logNetStats cur ts)"
    by (simp add: printed_def)
  then show ?case using step 2 by simp
qed (simp add: printed_def)

lemma quiet_tick_prints_nothing: "logNetStats prev ((prev, peers, q) # ts) = logNetStats prev ts"
  by (simp add: netStatsLine_def)

section \<open>The profiles\<close>

text \<open>
  \<open>servePprof\<close>: \<open>split\<close> is \<open>net.SplitHostPort\<close>, \<open>parse\<close> is \<open>net.ParseIP\<close>, \<open>listen\<close> the address listened on. A request is
  answered when the host it names is a loopback one.
\<close>

definition servePprof ::
  "(string \<Rightarrow> (string \<times> string) option) \<Rightarrow> (string \<Rightarrow> net_ip option) \<Rightarrow> (string \<Rightarrow> string option) \<Rightarrow> string \<Rightarrow> string option" where
  "servePprof split parse listen addr =
     (if addr = '''' then None
      else case split addr of
        None \<Rightarrow> None
      | Some (host, port) \<Rightarrow>
          (case parse host of None \<Rightarrow> None | Some ip \<Rightarrow> if \<not> IsLoopback ip then None else listen addr))"

definition loopbackOnly :: "(string \<Rightarrow> (string \<times> string) option) \<Rightarrow> (string \<Rightarrow> net_ip option) \<Rightarrow> string \<Rightarrow> bool" where
  "loopbackOnly split parse rhost =
     (let h = (case split rhost of None \<Rightarrow> rhost | Some (h, port) \<Rightarrow> h) in
      h = ''localhost'' \<or> (case parse h of None \<Rightarrow> False | Some ip \<Rightarrow> IsLoopback ip))"

text \<open>
  Profiles are served on a loopback address only, and no name but localhost reaches them: a page that has its own name
  resolve to this machine is refused.
\<close>

lemma pprof_loopback:
  "servePprof split parse listen addr = Some a \<Longrightarrow>
   \<exists>host port ip. split addr = Some (host, port) \<and> parse host = Some ip \<and> IsLoopback ip \<and> listen addr = Some a"
  by (auto simp: servePprof_def split: if_splits option.splits)

lemma rebinding_refused:
  "split rhost = Some (h, port) \<Longrightarrow> parse h = None \<Longrightarrow> h \<noteq> ''localhost'' \<Longrightarrow> \<not> loopbackOnly split parse rhost"
  by (simp add: loopbackOnly_def)

section \<open>The benchmark\<close>

text \<open>\<open>parse\<close> is \<open>net.ParseCIDR\<close>; a range it does not take is left out.\<close>

definition bench_ranges :: string where
  "bench_ranges = ''10.10.0.0/24,172.25.0.0/16,fc00::/7,fe80::/10''"

definition benchBlockedCIDRs :: "(string \<Rightarrow> 'net option) \<Rightarrow> string \<Rightarrow> 'net list" where
  "benchBlockedCIDRs parse extra =
     (let spec = (if extra = '''' then bench_ranges else bench_ranges @ '','' @ extra) in
      List.map_filter parse (filter (\<lambda>c. c \<noteq> '''') (map trim_space (split_on (CHR '','') spec))))"

definition newBenchGater :: "bool \<Rightarrow> bool \<Rightarrow> ('net \<Rightarrow> bool) \<Rightarrow> 'net list \<Rightarrow> 'net list option" where
  "newBenchGater noTunnel made block nets =
     (if \<not> noTunnel then None else if \<not> made then None else Some (filter block nets))"

lemma bench_blocks_parsed: "n \<in> set (benchBlockedCIDRs parse extra) \<Longrightarrow> \<exists>c. parse c = Some n \<and> c \<noteq> ''''"
  by (auto simp: benchBlockedCIDRs_def Let_def List.map_filter_def)

lemma split_on_append: "split_on x (a @ x # b) = split_on x a @ split_on x b"
proof (induction a)
  case (Cons y a)
  show ?case
  proof (cases "y = x")
    case False
    have "split_on x a \<noteq> []" by (cases a) (auto split: list.split)
    then show ?thesis using Cons False by (cases "split_on x a") auto
  qed (use Cons in simp)
qed simp

text \<open>What is given on top is blocked beside the standing ranges, not in their place.\<close>

lemma bench_extra_adds:
  "extra \<noteq> '''' \<Longrightarrow> set (benchBlockedCIDRs parse extra) =
     set (benchBlockedCIDRs parse '''') \<union>
     set (List.map_filter parse (filter (\<lambda>c. c \<noteq> '''') (map trim_space (split_on (CHR '','') extra))))"
  using split_on_append[of "CHR '',''" bench_ranges extra]
  by (simp add: benchBlockedCIDRs_def Let_def List.map_filter_def image_Un)

datatype ma_transport = Ma_webtransport | Ma_quic | Ma_ws | Ma_tcp | Ma_unknown

definition maTransport :: "string \<Rightarrow> ma_transport" where
  "maTransport s =
     (if contains s ''/webtransport'' then Ma_webtransport
      else if contains s ''/quic-v1'' then Ma_quic
      else if contains s ''/ws'' then Ma_ws
      else if contains s ''/tcp/'' then Ma_tcp
      else Ma_unknown)"

text \<open>The address after the first \<open>ip4\<close> or \<open>ip6\<close> that parses; with none, an address counts as private.\<close>

fun bench_private_fields :: "(string \<Rightarrow> net_ip option) \<Rightarrow> string list \<Rightarrow> bool" where
  "bench_private_fields parse (a # b # fs) =
     (if a = ''ip4'' \<or> a = ''ip6''
      then (case parse b of
              Some ip \<Rightarrow> IsLoopback ip \<or> IsPrivate ip \<or> IsLinkLocalUnicast ip
            | None \<Rightarrow> bench_private_fields parse (b # fs))
      else bench_private_fields parse (b # fs))"
| "bench_private_fields parse fs = True"

definition benchIsPrivate :: "(string \<Rightarrow> net_ip option) \<Rightarrow> string \<Rightarrow> bool" where
  "benchIsPrivate parse s = bench_private_fields parse (split_on (CHR ''/'') s)"

datatype self_addr = Relay_addr string | Public_addr string

definition bench_self :: "(string \<Rightarrow> net_ip option) \<Rightarrow> string \<Rightarrow> self_addr option" where
  "bench_self parse s =
     (if contains s ''/p2p-circuit'' then Some (Relay_addr s)
      else if \<not> benchIsPrivate parse s then Some (Public_addr s) else None)"

definition bench_conn :: "'p \<Rightarrow> bool \<Rightarrow> string \<Rightarrow> 'p \<times> bool \<times> bool \<times> ma_transport" where
  "bench_conn p inbound ra = (p, inbound, contains ra ''/p2p-circuit'', maTransport ra)"

definition logBenchSnapshot ::
  "(string \<Rightarrow> net_ip option) \<Rightarrow> (string list \<times> ('p \<times> bool \<times> string) list) option \<Rightarrow>
   (self_addr list \<times> nat \<times> ('p \<times> bool \<times> bool \<times> ma_transport) list) option" where
  "logBenchSnapshot parse host =
     (case host of None \<Rightarrow> None
      | Some (addrs, conns) \<Rightarrow>
          Some (List.map_filter (bench_self parse) addrs, length conns, map (\<lambda>(p, i, ra). bench_conn p i ra) conns))"

text \<open>An address shown as public is no relay's, and no address of a private network.\<close>

lemma bench_public_is_public:
  "bench_self parse s = Some (Public_addr a) \<Longrightarrow> a = s \<and> \<not> contains s ''/p2p-circuit'' \<and> \<not> benchIsPrivate parse s"
  by (auto simp: bench_self_def split: if_splits)

lemma bench_nameless_private: "\<not> (''ip4'' \<in> set fs \<or> ''ip6'' \<in> set fs) \<Longrightarrow> bench_private_fields parse fs"
  by (induction parse fs rule: bench_private_fields.induct) auto

end
