(* ===== verification/Spec2Isabelle.thy ===== *)
theory Spec2Isabelle
  imports Prelude NetQueue WantPool Quarantine Social Friend Link Packet4 Overlay
    FriendLan NetGate HostRelay Gateway Resume Provide
    Store Publish RefMove AddFile AddTree WriteThrough LeafResume FetchFile FetchControl
    Ipns NodeLife Resolver Faults
    Finder Online ListenPorts Api ApiNet NatGateway
    Health Uploads Handoff
    Receiving FetchOnce ApiSocial NodeOpen Dialing ApiNode Diagnostics
begin

text \<open>
  \<^bold>\<open>VidyaGodIPFS: a model and its verification\<close>

  The program is the IPFS node of a game launcher: a Go library (\<open>src/*.go\<close>, one package) that a C++
  application drives through a C ABI. It keeps content by CID in a block store whose file leaves can be
  references into the user's own files; fetches files and folders over bitswap, with HTTPS
  gateways as a second transport; announces what it holds; runs a friends protocol, a virtual LAN of friends and
  an IPNS name over libp2p; and shares one queue of network jobs among all of it. The libraries
  (libp2p, boxo, leveldb, the operating system) are not under \<open>src/\<close>: what the code needs of them is an argument of
  the definitions, and a law it relies on is a named hypothesis (\<open>read_law\<close>, \<open>import_ok\<close> and their like in \<open>Store\<close>
  and \<open>AddFile\<close>, \<open>binds\<close> in \<open>ListenPorts\<close>), met by a concrete instance in the witness of each
  property that has one.

  \<^bold>\<open>Parts, theories and sources\<close>

  Shared: \<open>Prelude\<close> has the machine types, encodings, reachable states and the two locales
  \<open>step_invariant\<close> (an invariant lifted to every reachable state; interpreted by each component with a step
  relation) and \<open>codec\<close>.

  Network jobs. \<open>NetQueue\<close> (\<open>netq.go\<close>): the queue of slots with foreground and background waiters, as
  functions and as a system of jobs. \<open>WantPool\<close> (\<open>fetch.go\<close>): the budget of wants and the rolling window over a
  fetch. \<open>NetGate\<close> (\<open>netgate.go\<close>): the dial budget and the address filter. \<open>Finder\<close> (\<open>friendprovider.go\<close>,
  \<open>online.go\<close>, \<open>warm.go\<close>): who is asked for content, and when. \<open>Quarantine\<close> (\<open>quarantine.go\<close>): idle providers
  out of the bitswap rotation. \<open>Dialing\<close> (\<open>provide.go\<close>, \<open>friend.go\<close>, \<open>overlay.go\<close>, \<open>warm.go\<close>, \<open>peers.go\<close>): what each call
  does to the network, act by act, under which slot, and the ticker loops. \<open>ApiNet\<close> (\<open>api.go\<close>): the
  handles of the queue that the C++ side holds, a
  refinement of \<open>NetQueue\<close>'s system.

  Content. \<open>Store\<close> (\<open>query.go\<close>, \<open>blocks.go\<close>, \<open>node.go\<close>): the block store with plain blocks, references,
  pins and files on disk, and the four checks of what can be delivered. \<open>Publish\<close> (\<open>blocks.go\<close>): folders.
  \<open>RefMove\<close> (\<open>refmove.go\<close>, \<open>fetch.go\<close>): references that follow moved folders, and the dropping of a reference.
  \<open>AddFile\<close> and \<open>AddTree\<close> (\<open>add.go\<close>): a file, or a folder, added by reference. \<open>Provide\<close> (\<open>provide.go\<close>, \<open>seedannounce.go\<close>): what is
  announced, unconfirmed, or to be offered again. \<open>Api\<close> (\<open>api.go\<close>): the calls on the store and the
  events of a fetch.

  Fetching. \<open>Resume\<close> (\<open>resume.go\<close>): the bitmap beside a partial file. \<open>Gateway\<close> (\<open>gateway.go\<close>): ranges, the
  hedged race, and the verified import of a CAR. \<open>WriteThrough\<close> and \<open>LeafResume\<close> (\<open>fetch.go\<close>): leaves
  written in place with a crash model, and the leaves asked of the gateways after a stall. \<open>FetchFile\<close> and
  \<open>FetchControl\<close> (\<open>fetch.go\<close>): one file fetch from its partial to its references, its finalization under
  crashes, the lock of a destination, progress, and the folder fetch. \<open>Receiving\<close> (\<open>fetch.go\<close>): where blocks are taken
  from, the number shown, and the watcher of a session. \<open>FetchOnce\<close> (\<open>fetch.go\<close>): the whole attempt, put together.

  Friends and LAN. \<open>Social\<close> (\<open>social.go\<close>): the address book and its file. \<open>Friend\<close> (\<open>friend.go\<close>): the
  protocol, its local actions and ticker. \<open>Packet4\<close> (\<open>packet4.go\<close>): IPv4/UDP on bytes. \<open>Link\<close>
  (\<open>overlaylink.go\<close>): heartbeats and trust of a link. \<open>Overlay\<close> (\<open>overlay.go\<close>): the datapath of the virtual
  LAN. \<open>FriendLan\<close> (\<open>friendlan.go\<close>): its addresses. \<open>HostRelay\<close> (\<open>hostrelay.go\<close>): the broadcast reflector.
  \<open>NatGateway\<close> (\<open>natgateway.go\<close>): spliced flows, their count, and the queries for names.
  \<open>Handoff\<close> (\<open>overlaytun_*.go\<close>, \<open>overlayserve_linux.go\<close>, \<open>api_overlay.go\<close>): the TUN of a game, its start and its handoff.
  \<open>ApiSocial\<close> (\<open>api_social.go\<close>): the calls of the application, as runs of the protocol of \<open>Friend\<close>.

  The node. \<open>NodeOpen\<close> (\<open>node.go\<close>, \<open>filestoreroot.go\<close>): opened, retried, closed and opened again.
  \<open>NodeLife\<close> (\<open>node.go\<close>): compactions against the close, and the retry schedule. \<open>Online\<close>
  (\<open>online.go\<close>): the steps of going online, their teardown, the identity file. \<open>ListenPorts\<close>
  (\<open>listenports.go\<close>): the same ports every run. \<open>Ipns\<close> (\<open>ipns.go\<close>): the sequence discipline and the
  import of an identity. \<open>Resolver\<close> (\<open>doh.go\<close>, \<open>bench.go\<close>): DNS over HTTPS with its caches. \<open>Faults\<close>
  (\<open>servefail.go\<close>, \<open>safego.go\<close>): failed serves and recovered panics. \<open>Health\<close> (\<open>health.go\<close>, \<open>nettest.go\<close>,
  \<open>peers.go\<close>): what the node reports of itself. \<open>Uploads\<close> (\<open>uploadtracer.go\<close>, \<open>wiretrace.go\<close>,
  \<open>dialtrace.go\<close>): what it learns from bitswap's messages. \<open>ApiNode\<close> (\<open>api.go\<close>,
  \<open>api_overlay.go\<close>, \<open>query.go\<close>): the other calls of the ABI: sizes, seed levels, identity, the LAN of a game.
  \<open>Diagnostics\<close> (\<open>netstats.go\<close>, \<open>memtrace.go\<close>, \<open>bench.go\<close>): the counters printed, and who may read the profiles.

  \<^bold>\<open>How the code is rendered\<close>

  A Go struct is a record with its fields' names prefixed (\<open>nq_\<close> for \<open>netQueue\<close>, \<open>st_\<close> for the store, ...), an
  operation is a function on it that returns the state it leaves; each stretch under one lock is one
  function, and where several goroutines meet, the stretches are the steps of an inductive relation, so
  that every interleaving is a run. Errors are values of a sum or an option. Times are integers of
  nanoseconds, passed in. Words keep their width where the code can wrap (sequence numbers, offsets,
  checksums, ports of packets); byte counts that the code keeps in \<open>int64\<close> are integers or naturals.
  \<open>float64\<close> rates are rationals. Maps with Go's random order are association lists or functions, and no
  property depends on their order. Walks over a DAG keep an explicit stack and a seen set, and end because the
  nodes not seen yet shrink; there is no fuel in the development, every function is total and
  every loop of the code that can run for ever (tickers, retries) is a step relation or a list of its
  rounds. A crash is modelled where the code promises to survive one: a file has the bytes the process sees and those
  the disk holds, and a sequence of file operations can stop after any prefix.

  \<^bold>\<open>What the lemmas show\<close>

  Each theory has the behaviour of its operations on every branch, an invariant with its preservation by every step,
  and what follows from it; the properties are the theorems numbered C1 to C40. In order of weight:
  a partial file never claims a leaf the disk does not hold, and a finalization cut anywhere completes on the
  next run; content taken for whole is whole; what gateways serve is stored only as what was asked for;
  friends, shares and frames of the LAN are admitted only under their authorization; the queue counts,
  bounds and never strands its jobs, and the caller's handles refine it; keys to be announced are
  never lost; locks exclude, caches and budgets are bounded, retries and closes end; encodings,
  sidecars, books and ports survive a round trip; and where the code does not do what it says, a lemma shows the run, and
  the findings name it.

  \<^bold>\<open>Not modelled\<close>

  Code that only performs input and output, or forwards: system calls and external commands, the gVisor stack under
  the gateway, the probes of the network test and the sentences of the reports, logs (\<open>vglog.go\<close>, the memory line of \<open>memtrace*.go\<close>), the option lists given to libp2p and bitswap, the JSON and C strings of the ABI,
  and its calls that print one value. HTTP requests, DHT walks, dials and timers appear by
  their outcomes.
\<close>

end
